(* ===== verification/Prelude.thy ===== *)
theory Prelude
  imports Complex_Main "HOL-Library.Word"
begin

text \<open>
  Shared vocabulary of the development: Rust's \<^verbatim>\<open>Result\<close> as a sum, identifiers, machine
  integers, \<^verbatim>\<open>checked_*\<close> arithmetic, JSON values, iterator helpers (\<^verbatim>\<open>find_map\<close>, \<^verbatim>\<open>retain\<close>),
  and the generic lemmas on lists, maps and words that the component theories use through
  the collections \<open>rh_simps\<close>, \<open>rh_splits\<close> and \<open>word_facts\<close>.
\<close>

named_theorems rh_simps "unfolding equations of the prelude's operations"
named_theorems word_facts "word facts that move a comparison to natural numbers"

subsection \<open>Results\<close>

text \<open>\<^verbatim>\<open>Result<T, E>\<close> is the sum \<open>'e + 'a\<close> with the error on the left.\<close>

type_synonym ('a, 'e) result = "'e + 'a"

abbreviation Err :: "'e \<Rightarrow> ('a, 'e) result" where
  "Err \<equiv> Inl"

abbreviation Ok :: "'a \<Rightarrow> ('a, 'e) result" where
  "Ok \<equiv> Inr"

text \<open>The \<^verbatim>\<open>?\<close> operator on a pure result.\<close>

fun res_bind :: "('a, 'e) result \<Rightarrow> ('a \<Rightarrow> ('b, 'e) result) \<Rightarrow> ('b, 'e) result" where
  "res_bind (Inl e) f = Inl e"
| "res_bind (Inr a) f = f a"

definition ok_or :: "'e \<Rightarrow> 'a option \<Rightarrow> ('a, 'e) result" where
  [rh_simps]: "ok_or e x = (case x of None \<Rightarrow> Err e | Some a \<Rightarrow> Ok a)"

definition is_ok :: "('a, 'e) result \<Rightarrow> bool" where
  [rh_simps]: "is_ok r = (case r of Inl _ \<Rightarrow> False | Inr _ \<Rightarrow> True)"

lemma res_bind_eq_Ok [simp]:
  "res_bind r f = Inr b \<longleftrightarrow> (\<exists>a. r = Inr a \<and> f a = Inr b)"
  by (cases r) auto

lemma ok_or_eq [simp]:
  "ok_or e x = Inr a \<longleftrightarrow> x = Some a"
  "ok_or e x = Inl e' \<longleftrightarrow> x = None \<and> e' = e"
  by (auto simp: ok_or_def split: option.splits)

subsection \<open>Identifiers and machine integers\<close>

text \<open>
  A UUID newtype (\<^verbatim>\<open>SessionId\<close>, \<^verbatim>\<open>TaskId\<close>, \<^verbatim>\<open>TeamId\<close>, ...) is read as its 128-bit number: the
  code compares UUIDs for equality and, in the scheduler's heap, by byte order, which is the
  numeric order of the big-endian value.
\<close>

type_synonym session_id = nat
type_synonym task_id = nat
type_synonym workspace_id = nat
type_synonym team_id = nat
type_synonym job_id = nat
type_synonym binding_id = nat
type_synonym message_id = nat

type_synonym u8 = "8 word"
type_synonym u32 = "32 word"
type_synonym u64 = "64 word"

text \<open>Rust's \<^verbatim>\<open>checked_add\<close> and \<^verbatim>\<open>checked_sub\<close>: \<open>None\<close> where the result leaves the type.\<close>

definition checked_add :: "'a::len word \<Rightarrow> 'a word \<Rightarrow> 'a word option" where
  "checked_add a b = (if unat a + unat b < 2 ^ LENGTH('a) then Some (a + b) else None)"

definition checked_sub :: "'a::len word \<Rightarrow> 'a word \<Rightarrow> 'a word option" where
  "checked_sub a b = (if b \<le> a then Some (a - b) else None)"

lemma checked_add_Some:
  "checked_add a b = Some c \<Longrightarrow> unat c = unat a + unat b"
  by (auto simp: checked_add_def unat_word_ariths split: if_splits)

lemma checked_sub_Some:
  "checked_sub a b = Some c \<Longrightarrow> unat c = unat a - unat b \<and> unat b \<le> unat a"
  by (auto simp: checked_sub_def word_le_nat_alt unat_sub split: if_splits)

lemma checked_sub_one_None [simp]: "checked_sub a 1 = None \<longleftrightarrow> a = 0"
  by (simp add: checked_sub_def word_le_nat_alt unat_eq_0 flip: not_less)

lemmas [word_facts] = word_le_nat_alt word_less_nat_alt

subsection \<open>Iterators\<close>

text \<open>\<^verbatim>\<open>Iterator::find_map\<close>: the first \<open>Some\<close> along the list.\<close>

fun find_map :: "('a \<Rightarrow> 'b option) \<Rightarrow> 'a list \<Rightarrow> 'b option" where
  "find_map f [] = None"
| "find_map f (x # xs) = (case f x of None \<Rightarrow> find_map f xs | Some y \<Rightarrow> Some y)"

lemma find_map_Some:
  "find_map f xs = Some y \<Longrightarrow> \<exists>x \<in> set xs. f x = Some y"
  by (induction xs) (auto split: option.splits)

lemma find_map_None: "find_map f xs = None \<longleftrightarrow> (\<forall>x \<in> set xs. f x = None)"
  by (induction xs) (auto split: option.splits)

text \<open>\<^verbatim>\<open>Vec::retain(|c| *c != x)\<close>.\<close>

definition retain_ne :: "'a \<Rightarrow> 'a list \<Rightarrow> 'a list" where
  "retain_ne x xs = filter (\<lambda>c. c \<noteq> x) xs"

lemma retain_ne_simps [simp]:
  "set (retain_ne x xs) = set xs - {x}"
  "distinct xs \<Longrightarrow> distinct (retain_ne x xs)"
  "x \<notin> set xs \<Longrightarrow> retain_ne x xs = xs"
  by (auto simp: retain_ne_def filter_id_conv)

lemma length_retain_ne_le: "length (retain_ne x xs) \<le> length xs"
  by (simp add: retain_ne_def)

lemma length_retain_ne_less: "x \<in> set xs \<Longrightarrow> length (retain_ne x xs) < length xs"
  unfolding retain_ne_def by (rule length_filter_less) auto

subsection \<open>Maps\<close>

text \<open>\<^verbatim>\<open>map.get(k).unwrap_or(default)\<close>.\<close>

definition lookup_or :: "'v \<Rightarrow> ('k \<rightharpoonup> 'v) \<Rightarrow> 'k \<Rightarrow> 'v" where
  [rh_simps]: "lookup_or d m k = (case m k of None \<Rightarrow> d | Some v \<Rightarrow> v)"

lemma lookup_or_upd [simp]:
  "lookup_or d (m(k \<mapsto> v)) k' = (if k' = k then v else lookup_or d m k')"
  by (simp add: lookup_or_def)

lemma lookup_or_empty [simp]: "lookup_or d Map.empty k = d"
  by (simp add: lookup_or_def)

lemma lookup_or_del [simp]:
  "lookup_or d (m(k := None)) k' = (if k' = k then d else lookup_or d m k')"
  by (simp add: lookup_or_def)

end
