(* ===== verification/Core_Task.thy ===== *)
theory Core_Task
  imports Prelude
begin

text \<open>
  The data model of \<^verbatim>\<open>roundhouse-core\<close>: the append-only event log's payloads
  (\<^verbatim>\<open>event.rs\<close>, \<^verbatim>\<open>task_meta.rs\<close>, \<^verbatim>\<open>session.rs\<close>), the two state folds (\<open>fold_task_state\<close> of
  \<^verbatim>\<open>task.rs\<close>, \<open>fold_session_state\<close> of \<^verbatim>\<open>session.rs\<close>), the SQL discriminants of a task state,
  the event constructors of \<^verbatim>\<open>TaskRunner\<close>, and the network-enforcement table of
  \<^verbatim>\<open>enforcement.rs\<close>. Next to them stands \<^verbatim>\<open>roundhouse-store\<close>'s second, narrower fold
  \<open>fold_task\<close> (\<^verbatim>\<open>fold.rs\<close>). The lemmas relate the folds to each other and to the log.
\<close>

subsection \<open>Metadata\<close>

datatype json_num = PosInt nat | NegInt int | Float rat

text \<open>
  \<^verbatim>\<open>serde_json::Value\<close> with the \<^verbatim>\<open>preserve_order\<close> feature of the workspace: an object keeps its
  insertion order, so it is an association list.
\<close>

datatype json =
    JNull
  | JBool bool
  | JNumber json_num
  | JString string
  | JArray "json list"
  | JObject "(string \<times> json) list"

text \<open>
  \<^verbatim>\<open>Value::eq\<close>: objects are equal as maps, whatever their insertion order (\<^verbatim>\<open>IndexMap\<close> compares
  sizes and looks every key up in the other map), arrays element by element.
\<close>

lemma json_pair_size [termination_simp]:
  "(k, v) \<in> set m \<Longrightarrow> size v < Suc (size_list (size_prod (\<lambda>_. 0) size) m)"
  by (induction m) auto

lemma json_zip_size [termination_simp]:
  "(x, y) \<in> set (zip xs ys) \<Longrightarrow> size x < Suc (size_list size xs)"
  by (drule set_zip_leftD) (simp add: less_Suc_eq_le size_list_estimation')

fun json_eq :: "json \<Rightarrow> json \<Rightarrow> bool" where
  "json_eq JNull y = (y = JNull)"
| "json_eq (JBool a) y = (y = JBool a)"
| "json_eq (JNumber a) y = (y = JNumber a)"
| "json_eq (JString a) y = (y = JString a)"
| "json_eq (JArray xs) y =
     (case y of
        JArray ys \<Rightarrow> length xs = length ys \<and> list_all (\<lambda>(x, y). json_eq x y) (zip xs ys)
      | _ \<Rightarrow> False)"
| "json_eq (JObject m) y =
     (case y of
        JObject n \<Rightarrow>
          length m = length n \<and>
          list_all (\<lambda>(k, v). case map_of n k of None \<Rightarrow> False | Some w \<Rightarrow> json_eq v w) m
      | _ \<Rightarrow> False)"

datatype tier = TierNone | Worktree | Sandbox | Container | Remote

text \<open>The derived \<^verbatim>\<open>Ord\<close> compares the declaration order of the variants.\<close>

fun tier_rank :: "tier \<Rightarrow> nat" where
  "tier_rank TierNone = 0"
| "tier_rank Worktree = 1"
| "tier_rank Sandbox = 2"
| "tier_rank Container = 3"
| "tier_rank Remote = 4"

lemma tier_rank_inject [simp]: "tier_rank a = tier_rank b \<longleftrightarrow> a = b"
  by (cases a; cases b) auto

instantiation tier :: linorder
begin

definition less_eq_tier :: "tier \<Rightarrow> tier \<Rightarrow> bool" where
  "less_eq_tier a b = (tier_rank a \<le> tier_rank b)"

definition less_tier :: "tier \<Rightarrow> tier \<Rightarrow> bool" where
  "less_tier a b = (tier_rank a < tier_rank b)"

instance
  by standard (auto simp: less_eq_tier_def less_tier_def)

end

datatype origin = OriginUser | OriginModel | OriginSystem | OriginPeer | OriginTrigger | OriginClient

datatype trust = Trusted | Untrusted

datatype policy_decision = PAllow | PAsk | PDeny

type_synonym core_rule_id = u64

record isolation_attestation =
  ia_tier :: tier
  ia_digest :: string
  ia_net_enforced :: bool

record progress =
  pr_message :: string
  pr_fraction :: "rat option"

datatype handle = Pid u32 | Pty string

datatype suspend_reason =
    AwaitingApproval "core_rule_id option" "u8 list"
  | AwaitingElicitation json
  | AwaitingReply
  | AwaitingPeer session_id
  | WorkflowGate string

record blob_ref =
  br_hash :: string
  br_len :: u64
  br_mime :: "string option"

datatype task_input = InJson json | InText string | InBlob blob_ref

datatype task_output = OutJson json | OutText string | OutBlob blob_ref

record task_error =
  te_message :: string
  te_category :: string

datatype cancel_reason =
    CancelUser | CancelTimeout | CancelSessionClosed | CancelPolicyDeny | CancelDaemonRestart

datatype note_level = NoteDebug | NoteInfo | NoteWarn | NoteError | NoteDegradation

record usage =
  input_tokens :: u64
  output_tokens :: u64
  cache_read_tokens :: u64

datatype address =
    AddrSession session_id
  | AddrHandle workspace_id string
  | AddrTeam team_id
  | AddrRole team_id string
  | AddrHuman session_id

record core_envelope =
  ce_from :: address
  ce_to :: address
  ce_body :: task_input
  ce_expect_reply :: bool

datatype task_kind =
    KChat | KInfer | KShell | KRead | KWrite | KEdit | KFind | KHttp | KWeb | KMcp | KGit
  | KMemory | KAgent | KMessage | KCompact | KCheckpoint | KPlan | KElicit | KFlow | KReport
  | KPlugin string string

datatype delta =
    DeltaText string
  | DeltaThinking string "string option"
  | DeltaStdout "u8 list"
  | DeltaStderr "u8 list"
  | DeltaToolArgs string
  | DeltaChild session_id u64
  | DeltaBlob blob_ref

subsection \<open>Sessions\<close>

datatype on_degrade = Refuse | AllowDownTo tier

record session_spec =
  ss_workspace :: workspace_id
  ss_name :: "string option"
  ss_requested_tier :: tier
  ss_on_degrade :: on_degrade
  ss_parent :: "session_id option"

type_synonym session_patch = "(string \<times> json) list"

datatype session_state = SCreated | SRunning | SSuspended | SCancelling | SClosed

datatype session_outcome = OutcomeCompleted | OutcomeCancelled | OutcomeFailed string

subsection \<open>Events\<close>

datatype event_payload =
    SessionCreated session_spec
  | SessionConfigured session_patch
  | SessionStateChanged session_state "string option"
  | SessionClosed session_outcome
  | TaskCreated task_kind "task_id option" origin task_input
  | TaskDecided policy_decision "core_rule_id option"
  | TaskStarted isolation_attestation "handle option"
  | TaskDelta delta
  | TaskProgress progress
  | TaskSuspended suspend_reason
  | TaskResumed origin
  | TaskCompleted task_output usage trust
  | TaskFailed task_error bool
  | TaskCancelled origin cancel_reason
  | Message core_envelope
  | Note note_level string
  | Loss string string u32

record event =
  ev_session_id :: session_id
  ev_seq :: u64
  ev_ts :: int
  ev_task_id :: "task_id option"
  ev_payload :: event_payload
  ev_schema_v :: "16 word"

definition new_sealed ::
  "session_id \<Rightarrow> u64 \<Rightarrow> int \<Rightarrow> task_id option \<Rightarrow> event_payload \<Rightarrow> 16 word \<Rightarrow> event" where
  "new_sealed sid seq ts tid p v =
     \<lparr>ev_session_id = sid, ev_seq = seq, ev_ts = ts, ev_task_id = tid, ev_payload = p,
      ev_schema_v = v\<rparr>"

subsection \<open>Task state and its fold\<close>

datatype task_state =
    TCreated | TDecided | TRunning | TSuspended suspend_reason | TCompleted | TFailed
  | TCancelled | TInterrupted

fun as_sql_str :: "task_state \<Rightarrow> string" where
  "as_sql_str TCreated = ''Created''"
| "as_sql_str TDecided = ''Decided''"
| "as_sql_str TRunning = ''Running''"
| "as_sql_str (TSuspended _) = ''Suspended''"
| "as_sql_str TCompleted = ''Completed''"
| "as_sql_str TFailed = ''Failed''"
| "as_sql_str TCancelled = ''Cancelled''"
| "as_sql_str TInterrupted = ''Interrupted''"

datatype core_error =
    InvalidId string
  | UnknownSchemaVersion "16 word" "16 word"
  | InvalidTaskTransition task_id string
  | InvalidTaskState string

definition from_sql_str :: "string \<Rightarrow> (task_state, core_error) result" where
  "from_sql_str s =
     (if s = ''Created'' then Ok TCreated
      else if s = ''Decided'' then Ok TDecided
      else if s = ''Running'' then Ok TRunning
      else if s = ''Suspended'' then Ok (TSuspended (AwaitingApproval None (replicate 32 0)))
      else if s = ''Completed'' then Ok TCompleted
      else if s = ''Failed'' then Ok TFailed
      else if s = ''Cancelled'' then Ok TCancelled
      else if s = ''Interrupted'' then Ok TInterrupted
      else Err (InvalidTaskState s))"

text \<open>One iteration of the loop of \<open>fold_task_state\<close>.\<close>

fun task_state_step :: "task_state option \<Rightarrow> event_payload \<Rightarrow> task_state option" where
  "task_state_step st (TaskCreated _ _ _ _) = Some TCreated"
| "task_state_step st (TaskDecided _ _) = Some TDecided"
| "task_state_step st (TaskStarted _ _) = Some TRunning"
| "task_state_step st (TaskSuspended reason) = Some (TSuspended reason)"
| "task_state_step st (TaskResumed _) = Some TRunning"
| "task_state_step st (TaskCompleted _ _ _) = Some TCompleted"
| "task_state_step st (TaskFailed _ _) = Some TFailed"
| "task_state_step st (TaskCancelled _ reason) =
     Some (case reason of CancelDaemonRestart \<Rightarrow> TInterrupted | _ \<Rightarrow> TCancelled)"
| "task_state_step st (Loss _ _ _) = st"
| "task_state_step st _ = st"

definition fold_task_state :: "event_payload list \<Rightarrow> task_state option" where
  "fold_task_state evs = foldl task_state_step None evs"

subsection \<open>Session state and its fold\<close>

fun fold_session_from :: "session_state option \<Rightarrow> event_payload list \<Rightarrow> session_state option" where
  "fold_session_from st [] = st"
| "fold_session_from st (p # ps) =
     (if st = Some SClosed then st
      else fold_session_from
        (case p of
           SessionCreated _ \<Rightarrow> Some SCreated
         | SessionStateChanged s _ \<Rightarrow> Some s
         | SessionClosed _ \<Rightarrow> Some SClosed
         | _ \<Rightarrow> st) ps)"

definition fold_session_state :: "event_payload list \<Rightarrow> session_state option" where
  "fold_session_state evs = fold_session_from None evs"

subsection \<open>The event constructors of \<^verbatim>\<open>TaskRunner\<close>\<close>

definition record_task_created ::
  "session_id \<Rightarrow> u64 \<Rightarrow> int \<Rightarrow> task_id \<Rightarrow> task_kind \<Rightarrow> task_id option \<Rightarrow> origin \<Rightarrow> task_input \<Rightarrow> 16 word
   \<Rightarrow> event" where
  "record_task_created sid seq ts tid kind parent org inp v =
     new_sealed sid seq ts (Some tid) (TaskCreated kind parent org inp) v"

definition record_task_decided ::
  "session_id \<Rightarrow> u64 \<Rightarrow> int \<Rightarrow> task_id \<Rightarrow> policy_decision \<Rightarrow> core_rule_id option \<Rightarrow> 16 word \<Rightarrow> event" where
  "record_task_decided sid seq ts tid d rule v =
     new_sealed sid seq ts (Some tid) (TaskDecided d rule) v"

definition record_task_started ::
  "session_id \<Rightarrow> u64 \<Rightarrow> int \<Rightarrow> task_id \<Rightarrow> isolation_attestation \<Rightarrow> handle option \<Rightarrow> 16 word \<Rightarrow> event" where
  "record_task_started sid seq ts tid att h v =
     new_sealed sid seq ts (Some tid) (TaskStarted att h) v"

definition record_task_delta ::
  "session_id \<Rightarrow> u64 \<Rightarrow> int \<Rightarrow> task_id \<Rightarrow> delta \<Rightarrow> 16 word \<Rightarrow> event" where
  "record_task_delta sid seq ts tid d v = new_sealed sid seq ts (Some tid) (TaskDelta d) v"

definition record_task_progress ::
  "session_id \<Rightarrow> u64 \<Rightarrow> int \<Rightarrow> task_id \<Rightarrow> progress \<Rightarrow> 16 word \<Rightarrow> event" where
  "record_task_progress sid seq ts tid p v = new_sealed sid seq ts (Some tid) (TaskProgress p) v"

definition record_task_suspended ::
  "session_id \<Rightarrow> u64 \<Rightarrow> int \<Rightarrow> task_id \<Rightarrow> suspend_reason \<Rightarrow> 16 word \<Rightarrow> event" where
  "record_task_suspended sid seq ts tid r v = new_sealed sid seq ts (Some tid) (TaskSuspended r) v"

definition record_task_resumed ::
  "session_id \<Rightarrow> u64 \<Rightarrow> int \<Rightarrow> task_id \<Rightarrow> origin \<Rightarrow> 16 word \<Rightarrow> event" where
  "record_task_resumed sid seq ts tid b v = new_sealed sid seq ts (Some tid) (TaskResumed b) v"

definition record_task_completed ::
  "session_id \<Rightarrow> u64 \<Rightarrow> int \<Rightarrow> task_id \<Rightarrow> task_output \<Rightarrow> usage \<Rightarrow> trust \<Rightarrow> 16 word \<Rightarrow> event" where
  "record_task_completed sid seq ts tid out u tr v =
     new_sealed sid seq ts (Some tid) (TaskCompleted out u tr) v"

definition record_task_failed ::
  "session_id \<Rightarrow> u64 \<Rightarrow> int \<Rightarrow> task_id \<Rightarrow> task_error \<Rightarrow> bool \<Rightarrow> 16 word \<Rightarrow> event" where
  "record_task_failed sid seq ts tid e retryable v =
     new_sealed sid seq ts (Some tid) (TaskFailed e retryable) v"

definition record_task_cancelled ::
  "session_id \<Rightarrow> u64 \<Rightarrow> int \<Rightarrow> task_id \<Rightarrow> origin \<Rightarrow> cancel_reason \<Rightarrow> 16 word \<Rightarrow> event" where
  "record_task_cancelled sid seq ts tid b r v =
     new_sealed sid seq ts (Some tid) (TaskCancelled b r) v"

definition record_session_created ::
  "session_id \<Rightarrow> u64 \<Rightarrow> int \<Rightarrow> session_spec \<Rightarrow> 16 word \<Rightarrow> event" where
  "record_session_created sid seq ts spec v = new_sealed sid seq ts None (SessionCreated spec) v"

definition record_session_state_changed ::
  "session_id \<Rightarrow> u64 \<Rightarrow> int \<Rightarrow> session_state \<Rightarrow> string option \<Rightarrow> 16 word \<Rightarrow> event" where
  "record_session_state_changed sid seq ts st reason v =
     new_sealed sid seq ts None (SessionStateChanged st reason) v"

definition record_session_closed ::
  "session_id \<Rightarrow> u64 \<Rightarrow> int \<Rightarrow> session_outcome \<Rightarrow> 16 word \<Rightarrow> event" where
  "record_session_closed sid seq ts out v = new_sealed sid seq ts None (SessionClosed out) v"

definition record_note ::
  "session_id \<Rightarrow> u64 \<Rightarrow> int \<Rightarrow> task_id option \<Rightarrow> note_level \<Rightarrow> string \<Rightarrow> 16 word \<Rightarrow> event" where
  "record_note sid seq ts tid lvl txt v = new_sealed sid seq ts tid (Note lvl txt) v"

subsection \<open>Network enforcement\<close>

datatype network_mechanism = Netns | Bubblewrap | LandlockPortOnly | NoMechanism

fun net_enforced_for :: "network_mechanism \<Rightarrow> bool" where
  "net_enforced_for Netns = True"
| "net_enforced_for Bubblewrap = True"
| "net_enforced_for _ = False"

subsection \<open>The store's fold\<close>

datatype store_task_state =
    StCreated | StDecided | StRunning | StSuspended | StCompleted | StFailed | StCancelled
  | StInterrupted

record store_task =
  st_id :: task_id
  st_session_id :: session_id
  st_kind :: task_kind
  st_parent :: "task_id option"
  st_state :: store_task_state
  st_origin :: origin

fun store_state_step :: "store_task_state \<Rightarrow> event_payload \<Rightarrow> store_task_state" where
  "store_state_step st (TaskCreated _ _ _ _) = StCreated"
| "store_state_step st (TaskDecided _ _) = StDecided"
| "store_state_step st (TaskStarted _ _) = StRunning"
| "store_state_step st (TaskDelta _) = st"
| "store_state_step st (TaskProgress _) = st"
| "store_state_step st (TaskSuspended _) = StSuspended"
| "store_state_step st (TaskResumed _) = StRunning"
| "store_state_step st (TaskCompleted _ _ _) = StCompleted"
| "store_state_step st (TaskFailed _ _) = StFailed"
| "store_state_step st (TaskCancelled _ reason) =
     (case reason of CancelDaemonRestart \<Rightarrow> StInterrupted | _ \<Rightarrow> StCancelled)"
| "store_state_step st (Loss _ _ _) = st"
| "store_state_step st _ = st"

text \<open>The first \<open>TaskCreated\<close> event that bears a task id fixes the identity of the task.\<close>

definition created_of :: "event \<Rightarrow> (task_id \<times> session_id \<times> task_kind \<times> task_id option \<times> origin) option" where
  "created_of e =
     (case ev_payload e of
        TaskCreated kind parent org _ \<Rightarrow>
          map_option (\<lambda>t. (t, ev_session_id e, kind, parent, org)) (ev_task_id e)
      | _ \<Rightarrow> None)"

definition fold_task :: "event list \<Rightarrow> store_task option" where
  "fold_task events =
     (let evs = sort_key (\<lambda>e. unat (ev_seq e)) events in
      case find_map created_of evs of
        None \<Rightarrow> None
      | Some (tid, sid, kind, parent, org) \<Rightarrow>
          Some \<lparr>st_id = tid, st_session_id = sid, st_kind = kind, st_parent = parent,
                st_state = foldl store_state_step StCreated (map ev_payload evs),
                st_origin = org\<rparr>)"

subsection \<open>The folds agree\<close>

text \<open>The discriminant of a task state: what is left when a suspension's reason is dropped.\<close>

fun discriminant :: "task_state \<Rightarrow> store_task_state" where
  "discriminant TCreated = StCreated"
| "discriminant TDecided = StDecided"
| "discriminant TRunning = StRunning"
| "discriminant (TSuspended _) = StSuspended"
| "discriminant TCompleted = StCompleted"
| "discriminant TFailed = StFailed"
| "discriminant TCancelled = StCancelled"
| "discriminant TInterrupted = StInterrupted"

text \<open>Payloads on which a task's lifecycle state can change.\<close>

fun is_lifecycle :: "event_payload \<Rightarrow> bool" where
  "is_lifecycle (TaskCreated _ _ _ _) = True"
| "is_lifecycle (TaskDecided _ _) = True"
| "is_lifecycle (TaskStarted _ _) = True"
| "is_lifecycle (TaskSuspended _) = True"
| "is_lifecycle (TaskResumed _) = True"
| "is_lifecycle (TaskCompleted _ _ _) = True"
| "is_lifecycle (TaskFailed _ _) = True"
| "is_lifecycle (TaskCancelled _ _) = True"
| "is_lifecycle _ = False"

lemma task_state_step_other [simp]: "\<not> is_lifecycle p \<Longrightarrow> task_state_step st p = st"
  by (cases p) auto

lemma store_state_step_other [simp]: "\<not> is_lifecycle p \<Longrightarrow> store_state_step st p = st"
  by (cases p) auto

lemma task_state_step_lifecycle:
  "is_lifecycle p \<Longrightarrow>
     \<exists>s. task_state_step st p = Some s \<and> store_state_step st' p = discriminant s"
  by (cases p) (auto split: cancel_reason.splits)

lemma task_state_step_indep:
  "is_lifecycle p \<Longrightarrow> task_state_step st p = task_state_step st' p"
  by (cases p) auto

lemma foldl_task_state_sim:
  "foldl store_state_step (discriminant s) ps = discriminant (the (foldl task_state_step (Some s) ps))
   \<and> foldl task_state_step (Some s) ps \<noteq> None"
proof (induction ps arbitrary: s)
  case Nil
  show ?case by simp
next
  case (Cons p ps)
  show ?case
  proof (cases "is_lifecycle p")
    case True
    then obtain s' where s': "task_state_step (Some s) p = Some s'"
      "store_state_step (discriminant s) p = discriminant s'"
      using task_state_step_lifecycle [of p "Some s" "discriminant s"] by auto
    then show ?thesis using Cons.IH [of s'] by simp
  next
    case False
    then show ?thesis using Cons.IH [of s] by simp
  qed
qed

lemma foldl_task_state_lifecycle:
  assumes "\<exists>p \<in> set ps. is_lifecycle p"
  shows "\<exists>s. foldl task_state_step st ps = Some s
             \<and> foldl store_state_step st' ps = discriminant s"
  using assms
proof (induction ps arbitrary: st st')
  case Nil
  then show ?case by simp
next
  case (Cons p ps)
  show ?case
  proof (cases "is_lifecycle p")
    case True
    then obtain s where "task_state_step st p = Some s" "store_state_step st' p = discriminant s"
      using task_state_step_lifecycle by blast
    then show ?thesis using foldl_task_state_sim [of s ps] by auto
  next
    case False
    with Cons.prems have "\<exists>p \<in> set ps. is_lifecycle p" by auto
    from Cons.IH [OF this] False show ?thesis by simp
  qed
qed

lemma created_of_lifecycle: "created_of e = Some x \<Longrightarrow> is_lifecycle (ev_payload e)"
  by (auto simp: created_of_def split: event_payload.splits)

lemma fold_task_has_lifecycle:
  assumes "fold_task evs = Some t"
  shows "\<exists>p \<in> set (map ev_payload (sort_key (\<lambda>e. unat (ev_seq e)) evs)). is_lifecycle p"
proof -
  obtain x where "find_map created_of (sort_key (\<lambda>e. unat (ev_seq e)) evs) = Some x"
    using assms by (auto simp: fold_task_def Let_def split: option.splits)
  from find_map_Some [OF this] obtain e where
    "e \<in> set (sort_key (\<lambda>e. unat (ev_seq e)) evs)" "created_of e = Some x"
    by blast
  then show ?thesis by (auto dest: created_of_lifecycle)
qed

lemma foldl_task_state_last:
  "foldl task_state_step st ps =
     (case filter is_lifecycle ps of [] \<Rightarrow> st | _ \<Rightarrow> task_state_step None (last (filter is_lifecycle ps)))"
proof (induction ps arbitrary: st)
  case Nil
  show ?case by simp
next
  case (Cons p ps)
  have eq: "task_state_step st p = task_state_step None p" if "is_lifecycle p"
    using that by (rule task_state_step_indep)
  show ?case
    by (cases "is_lifecycle p"; cases "filter is_lifecycle ps") (auto simp: Cons.IH eq)
qed

subsection \<open>Properties of the core\<close>

lemma sql_str_roundtrip:
  "\<exists>s'. from_sql_str (as_sql_str s) = Ok s' \<and> discriminant s' = discriminant s
        \<and> as_sql_str s' = as_sql_str s"
  by (cases s) (auto simp: from_sql_str_def)

lemma from_sql_str_inverse: "from_sql_str x = Ok s \<Longrightarrow> as_sql_str s = x"
  by (auto simp: from_sql_str_def split: if_splits)

lemma fold_session_from_closed [simp]: "fold_session_from (Some SClosed) ps = Some SClosed"
  by (cases ps) auto

lemma fold_session_from_append:
  "fold_session_from st (xs @ ys) = fold_session_from (fold_session_from st xs) ys"
proof (induction xs arbitrary: st)
  case (Cons x xs)
  then show ?case by (cases "st = Some SClosed") auto
qed simp

end
