(* ===== verification/Bus_Types.thy ===== *)
theory Bus_Types
  imports Core_Task
begin

text \<open>
  \<^verbatim>\<open>roundhouse-bus\<close>, the part every other module of the crate uses: the envelope and error types
  of \<^verbatim>\<open>types.rs\<close>, the structural limits of \<^verbatim>\<open>limits.rs\<close> and the attachment grants of
  \<^verbatim>\<open>artifact_grant.rs\<close>.
\<close>

subsection \<open>Envelopes and errors\<close>

record provenance =
  pv_origin :: origin
  pv_trust :: trust
  pv_task :: "task_id option"

datatype artifact_ref =
    ArtTask session_id task_id
  | ArtFile workspace_id string
  | ArtBlob "u8 list"

datatype quorum = QuorumAny | QuorumAll | QuorumAtLeast u32

record expect_reply =
  er_quorum :: quorum
  er_deadline :: "int option"

record envelope =
  env_id :: message_id
  env_from :: session_id
  env_to :: session_id
  env_to_requested :: address
  env_subject :: string
  env_body :: string
  env_attachments :: "artifact_ref list"
  env_expect_reply :: "expect_reply option"
  env_in_reply_to :: "message_id option"
  env_ttl_hops :: u8
  env_provenance :: provenance

definition to_core_envelope :: "envelope \<Rightarrow> core_envelope" where
  "to_core_envelope e =
     \<lparr>ce_from = AddrSession (env_from e), ce_to = env_to_requested e, ce_body = InText (env_body e),
      ce_expect_reply = (env_expect_reply e \<noteq> None)\<rparr>"

datatype undeliverable = Ended session_id

datatype bus_error =
    Undeliverable undeliverable
  | MailboxFull session_id nat
  | WaitWouldDeadlock session_id session_id "session_id list"
  | RateLimited session_id nat
  | Repetitive session_id string
  | TtlExpired
  | UnknownHandle workspace_id string
  | HandleAlreadyRegistered workspace_id string
  | NotAuthorizedForHandle workspace_id string
  | DepthLimitExceeded u8 u8
  | FanOutLimitExceeded u32 u32
  | TeamSizeLimitExceeded u32 u32
  | TeamDraining team_id
  | NotAuthorized team_id session_id
  | HumanCannotJoinTeam session_id
  | NoLiveRecipients team_id "string option"

subsection \<open>Limits\<close>

definition MAX_DEPTH :: u8 where
  [rh_simps]: "MAX_DEPTH = 4"

definition MAX_FAN_OUT :: u32 where
  [rh_simps]: "MAX_FAN_OUT = 8"

definition MAX_TEAM_SIZE :: u32 where
  [rh_simps]: "MAX_TEAM_SIZE = 32"

definition check_depth :: "u8 \<Rightarrow> (unit, bus_error) result" where
  "check_depth depth =
     (if depth > MAX_DEPTH then Err (DepthLimitExceeded depth MAX_DEPTH) else Ok ())"

definition check_fan_out :: "u32 \<Rightarrow> (unit, bus_error) result" where
  "check_fan_out count =
     (if count > MAX_FAN_OUT then Err (FanOutLimitExceeded count MAX_FAN_OUT) else Ok ())"

definition check_team_size :: "u32 \<Rightarrow> (unit, bus_error) result" where
  "check_team_size count =
     (if count > MAX_TEAM_SIZE then Err (TeamSizeLimitExceeded count MAX_TEAM_SIZE) else Ok ())"

lemma check_team_size_Ok: "check_team_size c = Ok u \<longleftrightarrow> unat c \<le> 32"
  by (auto simp: check_team_size_def MAX_TEAM_SIZE_def word_facts)

subsection \<open>Attachment grants\<close>

text \<open>The grant table is a set of (recipient, artifact) pairs; attaching is the only way in.\<close>

type_synonym attachment_grants = "(session_id \<times> artifact_ref) set"

definition attachment_grants_new :: attachment_grants where
  "attachment_grants_new = {}"

fun grant_from_envelope ::
  "attachment_grants \<Rightarrow> session_id \<Rightarrow> artifact_ref list \<Rightarrow> attachment_grants" where
  "grant_from_envelope g recipient [] = g"
| "grant_from_envelope g recipient (a # as) =
     grant_from_envelope (insert (recipient, a) g) recipient as"

definition is_dereferenceable :: "attachment_grants \<Rightarrow> session_id \<Rightarrow> artifact_ref \<Rightarrow> bool" where
  "is_dereferenceable g s a \<longleftrightarrow> (s, a) \<in> g"

lemma grant_from_envelope_eq:
  "grant_from_envelope g r as = g \<union> ({r} \<times> set as)"
  by (induction g r as rule: grant_from_envelope.induct) auto

end
