(* ===== verification/Bus_Spawn_Tree.thy ===== *)
theory Bus_Spawn_Tree
  imports Bus_Types
begin

text \<open>
  \<^verbatim>\<open>roundhouse-bus/src/spawn_tree.rs\<close>: the spawn tree, whose edges own lifecycle and
  cancellation. The state is the map of the source; every operation is a function on it. The
  traversal \<open>descendants\<close> keeps no visited set, so its loop is a partial function; on an acyclic
  tree it is shown to return exactly the sessions below the root.
\<close>

subsection \<open>State and operations\<close>

record child_slots =
  cs_children :: "session_id list"
  cs_reservations :: "session_id list"

definition child_slots_default :: child_slots where
  [rh_simps]: "child_slots_default = \<lparr>cs_children = [], cs_reservations = []\<rparr>"

type_synonym spawn_tree = "session_id \<rightharpoonup> child_slots"

definition spawn_tree_new :: spawn_tree where
  "spawn_tree_new = Map.empty"

text \<open>The slots of a parent, with \<^verbatim>\<open>entry(parent).or_default()\<close>.\<close>

definition slots_of :: "spawn_tree \<Rightarrow> session_id \<Rightarrow> child_slots" where
  "slots_of t p = lookup_or child_slots_default t p"

abbreviation children_of :: "spawn_tree \<Rightarrow> session_id \<Rightarrow> session_id list" where
  "children_of t p \<equiv> cs_children (slots_of t p)"

abbreviation reservations_of :: "spawn_tree \<Rightarrow> session_id \<Rightarrow> session_id list" where
  "reservations_of t p \<equiv> cs_reservations (slots_of t p)"

definition record_child :: "spawn_tree \<Rightarrow> session_id \<Rightarrow> session_id \<Rightarrow> spawn_tree" where
  "record_child t parent child =
     (let slots = slots_of t parent;
          slots = slots\<lparr>cs_reservations := retain_ne child (cs_reservations slots)\<rparr>;
          slots = (if child \<in> set (cs_children slots) then slots
                   else slots\<lparr>cs_children := cs_children slots @ [child]\<rparr>)
      in t(parent \<mapsto> slots))"

text \<open>
  \<open>usize\<close> lengths are natural numbers; the two conversions that can refuse (\<^verbatim>\<open>checked_add\<close> on
  \<^verbatim>\<open>usize\<close>, \<^verbatim>\<open>u32::try_from\<close>) are written out.
\<close>

definition reserve_child ::
  "spawn_tree \<Rightarrow> session_id \<Rightarrow> session_id \<Rightarrow> u32 \<Rightarrow> unit option \<times> spawn_tree" where
  "reserve_child t parent child max_children =
     (let slots = slots_of t parent; t = t(parent \<mapsto> slots) in
      if child \<in> set (cs_children slots) \<or> child \<in> set (cs_reservations slots) then (Some (), t)
      else let occupied = length (cs_children slots) + length (cs_reservations slots) in
        if occupied \<ge> 2 ^ 64 then (None, t)
        else if occupied \<ge> 2 ^ 32 then (None, t)
        else if occupied \<ge> unat max_children then (None, t)
        else (Some (),
              t(parent \<mapsto> slots\<lparr>cs_reservations := cs_reservations slots @ [child]\<rparr>)))"

definition commit_child_reservation :: "spawn_tree \<Rightarrow> session_id \<Rightarrow> session_id \<Rightarrow> spawn_tree" where
  "commit_child_reservation t parent child = record_child t parent child"

definition drop_if_vacant :: "spawn_tree \<Rightarrow> session_id \<Rightarrow> child_slots \<Rightarrow> spawn_tree" where
  "drop_if_vacant t parent slots =
     (if cs_children slots = [] \<and> cs_reservations slots = [] then t(parent := None)
      else t(parent \<mapsto> slots))"

definition release_child_reservation :: "spawn_tree \<Rightarrow> session_id \<Rightarrow> session_id \<Rightarrow> spawn_tree" where
  "release_child_reservation t parent child =
     (case t parent of
        None \<Rightarrow> t
      | Some slots \<Rightarrow>
          drop_if_vacant t parent
            (slots\<lparr>cs_reservations := retain_ne child (cs_reservations slots)\<rparr>))"

definition u32_of_len :: "nat \<Rightarrow> nat" where
  "u32_of_len n = (if n < 2 ^ 32 then n else 2 ^ 32 - 1)"

definition direct_children :: "spawn_tree \<Rightarrow> session_id \<Rightarrow> nat" where
  "direct_children t parent =
     (case t parent of None \<Rightarrow> 0 | Some slots \<Rightarrow> u32_of_len (length (cs_children slots)))"

definition reserved_children :: "spawn_tree \<Rightarrow> session_id \<Rightarrow> nat" where
  "reserved_children t parent =
     (case t parent of None \<Rightarrow> 0 | Some slots \<Rightarrow> u32_of_len (length (cs_reservations slots)))"

definition remove_child :: "spawn_tree \<Rightarrow> session_id \<Rightarrow> session_id \<Rightarrow> spawn_tree" where
  "remove_child t parent child =
     (case t parent of
        None \<Rightarrow> t
      | Some slots \<Rightarrow>
          drop_if_vacant t parent
            (slots\<lparr>cs_children := retain_ne child (cs_children slots),
                   cs_reservations := retain_ne child (cs_reservations slots)\<rparr>))"

text \<open>
  The loop of \<open>descendants\<close>. The vector used as a stack is kept top first, so \<^verbatim>\<open>pop\<close> takes the head
  and \<^verbatim>\<open>extend(children)\<close> puts the reversed children in front. \<open>None\<close> is "does not return".
\<close>

partial_function (option) descendants_loop ::
  "spawn_tree \<Rightarrow> session_id list \<Rightarrow> session_id list \<Rightarrow> session_id list option" where
  "descendants_loop t stack out =
     (case stack of
        [] \<Rightarrow> Some out
      | session # rest \<Rightarrow>
          descendants_loop t
            (case t session of None \<Rightarrow> rest | Some slots \<Rightarrow> rev (cs_children slots) @ rest)
            (out @ [session]))"

definition descendants :: "spawn_tree \<Rightarrow> session_id \<Rightarrow> session_id list option" where
  "descendants t r = descendants_loop t (rev (children_of t r)) []"

subsection \<open>Edges, invariant, and preservation\<close>

definition edges :: "spawn_tree \<Rightarrow> (session_id \<times> session_id) set" where
  "edges t = {(p, c). c \<in> set (children_of t p)}"

text \<open>No slot lists a session twice, as a child or as a reservation, or as both.\<close>

definition slots_wf :: "child_slots \<Rightarrow> bool" where
  "slots_wf s \<longleftrightarrow> distinct (cs_children s) \<and> distinct (cs_reservations s)
     \<and> set (cs_children s) \<inter> set (cs_reservations s) = {}"

definition spawn_wf :: "spawn_tree \<Rightarrow> bool" where
  "spawn_wf t \<longleftrightarrow> (\<forall>p. slots_wf (slots_of t p))"

definition occupied :: "spawn_tree \<Rightarrow> session_id \<Rightarrow> nat" where
  "occupied t p = length (children_of t p) + length (reservations_of t p)"

lemma slots_of_upd [simp]: "slots_of (t(p \<mapsto> s)) q = (if q = p then s else slots_of t q)"
  by (simp add: slots_of_def)

lemma slots_of_new [simp]: "slots_of spawn_tree_new p = child_slots_default"
  by (simp add: slots_of_def spawn_tree_new_def)

lemma slots_of_del [simp]:
  "slots_of (t(p := None)) q = (if q = p then child_slots_default else slots_of t q)"
  by (simp add: slots_of_def)

lemma slots_of_Some: "t p = Some s \<Longrightarrow> slots_of t p = s"
  by (simp add: slots_of_def lookup_or_def)

lemma slots_of_None: "t p = None \<Longrightarrow> slots_of t p = child_slots_default"
  by (simp add: slots_of_def lookup_or_def)

lemma slots_of_drop_if_vacant [simp]:
  "slots_of (drop_if_vacant t p s) q = (if q = p then s else slots_of t q)"
  by (cases s) (auto simp: drop_if_vacant_def child_slots_default_def)

lemma slots_of_remove_child [simp]:
  "slots_of (remove_child t p c) q =
     (if q = p then (slots_of t p)\<lparr>cs_children := retain_ne c (children_of t p),
                                   cs_reservations := retain_ne c (reservations_of t p)\<rparr>
      else slots_of t q)"
  by (auto simp: remove_child_def slots_of_Some slots_of_None child_slots_default_def
      retain_ne_def split: option.splits)

lemma slots_of_release [simp]:
  "slots_of (release_child_reservation t p c) q =
     (if q = p then (slots_of t p)\<lparr>cs_reservations := retain_ne c (reservations_of t p)\<rparr>
      else slots_of t q)"
  by (auto simp: release_child_reservation_def slots_of_Some slots_of_None child_slots_default_def
      retain_ne_def split: option.splits)

lemma slots_of_record_child [simp]:
  "slots_of (record_child t p c) q =
     (if q = p then (slots_of t p)
        \<lparr>cs_children := (if c \<in> set (children_of t p) then children_of t p
                         else children_of t p @ [c]),
         cs_reservations := retain_ne c (reservations_of t p)\<rparr>
      else slots_of t q)"
  by (auto simp: record_child_def Let_def)

lemma spawn_wf_new [simp]: "spawn_wf spawn_tree_new"
  by (simp add: spawn_wf_def slots_wf_def child_slots_default_def)

lemma spawn_wf_record_child: "spawn_wf t \<Longrightarrow> spawn_wf (record_child t p c)"
  by (fastforce simp: spawn_wf_def slots_wf_def)

lemma spawn_wf_reserve_child: "spawn_wf t \<Longrightarrow> spawn_wf (snd (reserve_child t p c m))"
  by (fastforce simp: spawn_wf_def slots_wf_def reserve_child_def Let_def)

lemma spawn_wf_remove_child: "spawn_wf t \<Longrightarrow> spawn_wf (remove_child t p c)"
  by (fastforce simp: spawn_wf_def slots_wf_def)

lemma spawn_wf_release: "spawn_wf t \<Longrightarrow> spawn_wf (release_child_reservation t p c)"
  by (fastforce simp: spawn_wf_def slots_wf_def)

lemmas spawn_wf_ops [intro] =
  spawn_wf_record_child spawn_wf_reserve_child spawn_wf_remove_child spawn_wf_release

subsection \<open>Traversal\<close>

declare descendants_loop.simps [code]

lemma descendants_loop_Nil [simp]: "descendants_loop t [] out = Some out"
  by (subst descendants_loop.simps) simp

lemma descendants_loop_Cons [simp]:
  "descendants_loop t (s # rest) out =
     descendants_loop t (rev (children_of t s) @ rest) (out @ [s])"
  by (subst descendants_loop.simps)
    (auto simp: slots_of_Some slots_of_None child_slots_default_def split: option.splits)

lemma children_in_dom: "c \<in> set (children_of t p) \<Longrightarrow> p \<in> dom t"
  by (cases "t p") (auto simp: slots_of_None child_slots_default_def)

lemma finite_edges: "finite (dom t) \<Longrightarrow> finite (edges t)"
  by (rule finite_subset [of _ "\<Union>p \<in> dom t. {p} \<times> set (children_of t p)"])
    (auto simp: edges_def dest: children_in_dom)

text \<open>
  Popping one stack entry yields that session followed by everything below it, and then
  continues with the rest of the stack. \<open>below t x ds\<close> says that \<open>ds\<close> is what the traversal
  adds after \<open>x\<close>.
\<close>

definition below :: "spawn_tree \<Rightarrow> session_id \<Rightarrow> session_id list \<Rightarrow> bool" where
  "below t x ds \<longleftrightarrow>
     (\<forall>rest out. descendants_loop t (x # rest) out = descendants_loop t rest (out @ x # ds))
     \<and> set ds = (edges t)\<^sup>+ `` {x}"

lemma descendants_loop_list:
  assumes "\<forall>c \<in> set cs. below t c (D c)"
  shows "descendants_loop t (cs @ rest) out
           = descendants_loop t rest (out @ concat (map (\<lambda>c. c # D c) cs))"
  using assms
proof (induction cs arbitrary: out)
  case (Cons c cs)
  then have "descendants_loop t (c # cs @ rest) out
      = descendants_loop t (cs @ rest) (out @ c # D c)"
    by (simp add: below_def del: descendants_loop_Cons)
  with Cons show ?case by (simp del: descendants_loop_Cons)
qed simp

lemma trancl_edges_children:
  "(edges t)\<^sup>+ `` {x} = (\<Union>c \<in> set (children_of t x). insert c ((edges t)\<^sup>+ `` {c}))"
  by (auto simp: edges_def dest: tranclD trancl_into_trancl2 elim: converse_tranclE
      intro: trancl_into_trancl2)

lemma below_children:
  assumes "\<forall>c \<in> set (children_of t x). below t c (D c)"
  shows "below t x (concat (map (\<lambda>c. c # D c) (rev (children_of t x))))"
  unfolding below_def
proof (intro conjI allI)
  fix rest out
  show "descendants_loop t (x # rest) out
      = descendants_loop t rest (out @ x # concat (map (\<lambda>c. c # D c) (rev (children_of t x))))"
    using descendants_loop_list [of "rev (children_of t x)" t D rest "out @ [x]"] assms by simp
  show "set (concat (map (\<lambda>c. c # D c) (rev (children_of t x)))) = (edges t)\<^sup>+ `` {x}"
    using assms by (subst trancl_edges_children) (auto simp: below_def)
qed

lemma below_exists:
  assumes "wf ((edges t)\<inverse>)"
  shows "\<exists>ds. below t x ds"
  using assms
proof (induction x rule: wf_induct_rule)
  case (less x)
  have "\<forall>c \<in> set (children_of t x). \<exists>ds. below t c ds"
    using less by (auto simp: edges_def)
  then obtain D where "\<forall>c \<in> set (children_of t x). below t c (D c)"
    by metis
  then show ?case using below_children by blast
qed

lemma descendants_below:
  assumes "wf ((edges t)\<inverse>)"
  shows "\<exists>ds. descendants t r = Some ds \<and> below t r ds"
proof -
  obtain D where D: "\<forall>c. below t c (D c)"
    using below_exists [OF assms] by metis
  then have "descendants t r = Some (concat (map (\<lambda>c. c # D c) (rev (children_of t r))))"
    using descendants_loop_list [of "rev (children_of t r)" t D "[]" "[]"]
    by (simp add: descendants_def)
  with D show ?thesis using below_children by blast
qed

subsection \<open>The admission protocol as a step relation\<close>

text \<open>
  Each operation holds its parent's map entry for its whole body, so concurrent callers
  interleave whole operations: any order of the steps below is an execution. A child id is
  minted fresh (\<^verbatim>\<open>SessionId::new()\<close>) before its reservation, and only reserved children are
  committed.
\<close>

definition fresh_in :: "spawn_tree \<Rightarrow> session_id \<Rightarrow> bool" where
  "fresh_in t c \<longleftrightarrow> (\<forall>p. c \<notin> set (children_of t p) \<and> c \<notin> set (reservations_of t p))
     \<and> children_of t c = [] \<and> reservations_of t c = []"

inductive spawn_step :: "u32 \<Rightarrow> spawn_tree \<Rightarrow> spawn_tree \<Rightarrow> bool" for m where
  reserve: "fresh_in t c \<Longrightarrow> c \<noteq> p \<Longrightarrow> spawn_step m t (snd (reserve_child t p c m))"
| commit: "c \<in> set (reservations_of t p) \<Longrightarrow> spawn_step m t (commit_child_reservation t p c)"
| release: "spawn_step m t (release_child_reservation t p c)"
| remove: "spawn_step m t (remove_child t p c)"

inductive spawn_reachable :: "u32 \<Rightarrow> spawn_tree \<Rightarrow> bool" for m where
  start: "spawn_reachable m spawn_tree_new"
| step: "spawn_reachable m t \<Longrightarrow> spawn_step m t t' \<Longrightarrow> spawn_reachable m t'"

text \<open>
  The invariant of the protocol: slots are well formed and within the limit, the tree is a
  finite forest in which a session has at most one parent, counting reservations, and no
  reservation would close a cycle when committed.
\<close>

definition potential :: "spawn_tree \<Rightarrow> (session_id \<times> session_id) set" where
  "potential t = {(p, c). c \<in> set (children_of t p) \<or> c \<in> set (reservations_of t p)}"

definition spawn_inv :: "u32 \<Rightarrow> spawn_tree \<Rightarrow> bool" where
  "spawn_inv m t \<longleftrightarrow> finite (dom t) \<and> spawn_wf t \<and> acyclic (potential t)
     \<and> (\<forall>p. occupied t p \<le> unat m) \<and> single_valued ((potential t)\<inverse>)"

lemma edges_subset_potential: "edges t \<subseteq> potential t"
  by (auto simp: edges_def potential_def)

lemma potential_new [simp]: "potential spawn_tree_new = {}"
  by (auto simp: potential_def child_slots_default_def)

lemma potential_remove_subset: "potential (remove_child t p c) \<subseteq> potential t"
  by (auto simp: potential_def split: if_splits)

lemma potential_release_subset: "potential (release_child_reservation t p c) \<subseteq> potential t"
  by (auto simp: potential_def split: if_splits)

lemma potential_commit:
  "c \<in> set (reservations_of t p) \<Longrightarrow> potential (commit_child_reservation t p c) = potential t"
  by (auto simp: potential_def commit_child_reservation_def split: if_splits)

lemma reserve_child_cases:
  obtains (same) "slots_of (snd (reserve_child t p c m)) = slots_of t"
  | (grown) "c \<notin> set (children_of t p)" "c \<notin> set (reservations_of t p)"
      "occupied t p < unat m" "fst (reserve_child t p c m) = Some ()"
      "slots_of (snd (reserve_child t p c m))
         = (slots_of t)(p := (slots_of t p)\<lparr>cs_reservations := reservations_of t p @ [c]\<rparr>)"
proof (cases "c \<in> set (children_of t p) \<or> c \<in> set (reservations_of t p)
               \<or> unat m \<le> occupied t p \<or> 2 ^ 32 \<le> occupied t p")
  case True
  then have "slots_of (snd (reserve_child t p c m)) = slots_of t"
    by (auto simp: reserve_child_def Let_def occupied_def fun_eq_iff)
  then show thesis by (rule same)
next
  case False
  then show thesis
    by (intro grown) (auto simp: reserve_child_def Let_def occupied_def fun_eq_iff)
qed

lemma acyclic_insert_fresh:
  assumes "acyclic R" and "c \<noteq> p" and "\<forall>x. (c, x) \<notin> R"
  shows "acyclic (insert (p, c) R)"
proof -
  have "(c, p) \<notin> R\<^sup>*"
    using assms(2,3) by (metis converse_rtranclE)
  with assms(1) show ?thesis by (simp add: acyclic_insert)
qed

lemma dom_spawn_ops_finite:
  assumes "finite (dom t)"
  shows "finite (dom (snd (reserve_child t p c m)))" "finite (dom (record_child t p c))"
    "finite (dom (release_child_reservation t p c))" "finite (dom (remove_child t p c))"
  using assms
  by (auto simp: reserve_child_def record_child_def release_child_reservation_def
      remove_child_def drop_if_vacant_def Let_def split: option.splits)

lemma spawn_inv_reserve:
  assumes inv: "spawn_inv m t" and fresh: "fresh_in t c" "c \<noteq> p"
  shows "spawn_inv m (snd (reserve_child t p c m))"
proof (cases rule: reserve_child_cases [of t p c m])
  case same
  then have "potential (snd (reserve_child t p c m)) = potential t"
    "\<And>q. occupied (snd (reserve_child t p c m)) q = occupied t q"
    by (auto simp: potential_def occupied_def)
  then show ?thesis
    using inv by (auto simp: spawn_inv_def intro: dom_spawn_ops_finite)
next
  case grown
  have pot: "potential (snd (reserve_child t p c m)) = insert (p, c) (potential t)"
    using grown by (auto simp: potential_def split: if_splits)
  have "acyclic (insert (p, c) (potential t))"
    using inv fresh by (intro acyclic_insert_fresh) (auto simp: spawn_inv_def fresh_in_def potential_def)
  moreover have "single_valued ((insert (p, c) (potential t))\<inverse>)"
    using inv fresh by (auto simp: spawn_inv_def fresh_in_def potential_def single_valued_def)
  moreover have "\<forall>q. occupied (snd (reserve_child t p c m)) q \<le> unat m"
    using inv grown by (auto simp: spawn_inv_def occupied_def)
  ultimately show ?thesis
    using inv pot by (auto simp: spawn_inv_def intro: dom_spawn_ops_finite)
qed

lemma spawn_inv_shrink:
  assumes inv: "spawn_inv m t" and sub: "potential t' \<subseteq> potential t"
    and rest: "finite (dom t')" "spawn_wf t'" "\<And>q. occupied t' q \<le> occupied t q"
  shows "spawn_inv m t'"
proof -
  have "acyclic (potential t')"
    using inv sub by (auto simp: spawn_inv_def intro: acyclic_subset)
  moreover have "single_valued ((potential t')\<inverse>)"
    using inv sub by (intro single_valued_subset [of "(potential t')\<inverse>" "(potential t)\<inverse>"])
      (auto simp: spawn_inv_def)
  moreover have "\<forall>p. occupied t' p \<le> unat m"
    using inv rest(3) by (meson order_trans spawn_inv_def)
  ultimately show ?thesis
    using rest by (simp add: spawn_inv_def)
qed

lemma occupied_commit:
  assumes "spawn_wf t" "c \<in> set (reservations_of t p)"
  shows "occupied (commit_child_reservation t p c) q \<le> occupied t q"
proof -
  have "c \<notin> set (children_of t p)"
    using assms by (auto simp: spawn_wf_def slots_wf_def)
  then show ?thesis
    using length_retain_ne_less [OF assms(2)]
    by (simp add: occupied_def commit_child_reservation_def)
qed

lemma spawn_step_inv: "spawn_step m t t' \<Longrightarrow> spawn_inv m t \<Longrightarrow> spawn_inv m t'"
proof (induction rule: spawn_step.induct)
  case (reserve t c p)
  then show ?case by (blast intro: spawn_inv_reserve)
next
  case (commit c t p)
  show ?case
  proof (rule spawn_inv_shrink [OF commit.prems])
    show "potential (commit_child_reservation t p c) \<subseteq> potential t"
      using commit.hyps by (simp add: potential_commit)
    show "\<And>q. occupied (commit_child_reservation t p c) q \<le> occupied t q"
      using commit by (intro occupied_commit) (simp_all add: spawn_inv_def)
  qed (use commit.prems in \<open>auto simp: spawn_inv_def commit_child_reservation_def
        intro: dom_spawn_ops_finite\<close>)
next
  case (release t p c)
  show ?case
    by (rule spawn_inv_shrink [OF release potential_release_subset])
      (use release in \<open>auto simp: spawn_inv_def occupied_def length_retain_ne_le
        intro: dom_spawn_ops_finite\<close>)
next
  case (remove t p c)
  show ?case
    by (rule spawn_inv_shrink [OF remove potential_remove_subset])
      (use remove in \<open>auto simp: spawn_inv_def occupied_def length_retain_ne_le add_mono
        intro: dom_spawn_ops_finite\<close>)
qed

lemma spawn_inv_new: "spawn_inv m spawn_tree_new"
  by (auto simp: spawn_inv_def occupied_def child_slots_default_def spawn_tree_new_def
      [symmetric] acyclic_def single_valued_def) (simp add: spawn_tree_new_def)

lemma spawn_reachable_inv: "spawn_reachable m t \<Longrightarrow> spawn_inv m t"
  by (induction rule: spawn_reachable.induct) (auto intro: spawn_inv_new spawn_step_inv)

subsection \<open>In a forest the traversal visits every session once\<close>

lemma forest_siblings_disjoint:
  assumes sv: "single_valued (E\<inverse>)" and acyc: "acyclic E"
    and pc: "(p, c) \<in> E" "(p, c') \<in> E" "c \<noteq> c'"
    and d: "(c, d) \<in> E\<^sup>*" "(c', d) \<in> E\<^sup>*"
  shows False
proof -
  have no: False if "(p, a) \<in> E" "(p, b) \<in> E" "(a, b) \<in> E\<^sup>*" "a \<noteq> b" for a b
  proof -
    from that(3,4) obtain q where "(a, q) \<in> E\<^sup>*" "(q, b) \<in> E"
      by (meson rtranclE)
    with sv that(2) have "(a, p) \<in> E\<^sup>*"
      by (auto simp: single_valued_def)
    with that(1) acyc show False
      by (meson acyclic_def rtrancl_into_trancl2)
  qed
  have "(d, c) \<in> (E\<inverse>)\<^sup>*" "(d, c') \<in> (E\<inverse>)\<^sup>*"
    using d by (simp_all add: rtrancl_converse)
  from single_valued_confluent [OF sv this] show False
    using no pc by (auto simp: rtrancl_converse)
qed

lemma below_unique: "below t x ds \<Longrightarrow> below t x ds' \<Longrightarrow> ds = ds'"
  unfolding below_def by (metis append_Nil descendants_loop_Nil list.inject option.inject)

lemma distinct_below_children:
  assumes sv: "single_valued ((edges t)\<inverse>)" and acyc: "acyclic (edges t)" and wf: "spawn_wf t"
    and D: "\<forall>c \<in> set (children_of t x). below t c (D c) \<and> distinct (c # D c)"
  shows "distinct (concat (map (\<lambda>c. c # D c) (rev (children_of t x))))"
proof (rule distinct_concat)
  have "distinct (children_of t x)"
    using wf by (simp add: spawn_wf_def slots_wf_def)
  then show "distinct (map (\<lambda>c. c # D c) (rev (children_of t x)))"
    by (simp add: distinct_map inj_on_def)
next
  fix ys assume "ys \<in> set (map (\<lambda>c. c # D c) (rev (children_of t x)))"
  then show "distinct ys" using D by auto
next
  fix ys zs
  assume "ys \<in> set (map (\<lambda>c. c # D c) (rev (children_of t x)))"
    "zs \<in> set (map (\<lambda>c. c # D c) (rev (children_of t x)))" "ys \<noteq> zs"
  then obtain c c' where c: "c \<in> set (children_of t x)" "ys = c # D c"
    "c' \<in> set (children_of t x)" "zs = c' # D c'" "c \<noteq> c'"
    by auto
  have sub: "set (b # D b) \<subseteq> (edges t)\<^sup>* `` {b}" if "b \<in> set (children_of t x)" for b
    using D that by (auto simp: below_def)
  show "set ys \<inter> set zs = {}"
    using forest_siblings_disjoint [OF sv acyc, of x c c'] sub [OF c(1)] sub [OF c(3)] c
    by (fastforce simp: edges_def)
qed

lemma below_distinct:
  assumes wf: "wf ((edges t)\<inverse>)" and sv: "single_valued ((edges t)\<inverse>)"
    and acyc: "acyclic (edges t)" and swf: "spawn_wf t" and "below t x ds"
  shows "distinct (x # ds)"
  using wf assms(5)
proof (induction x arbitrary: ds rule: wf_induct_rule)
  case (less x)
  obtain D where D: "\<forall>c. below t c (D c)"
    using below_exists [OF wf] by metis
  with less.IH have "\<forall>c \<in> set (children_of t x). below t c (D c) \<and> distinct (c # D c)"
    by (auto simp: edges_def)
  from distinct_below_children [OF sv acyc swf this] D
  have "distinct ds"
    using below_unique [OF less.prems below_children [of t x D]] by simp
  moreover have "x \<notin> set ds"
    using less.prems acyc by (auto simp: below_def acyclic_def)
  ultimately show ?case by simp
qed

lemma spawn_inv_edges:
  assumes "spawn_inv m t"
  shows "wf ((edges t)\<inverse>)" "acyclic (edges t)" "single_valued ((edges t)\<inverse>)"
proof -
  show acyc: "acyclic (edges t)"
    using assms edges_subset_potential by (auto simp: spawn_inv_def intro: acyclic_subset)
  then show "wf ((edges t)\<inverse>)"
    using assms by (auto simp: spawn_inv_def intro: finite_acyclic_wf_converse finite_edges)
  show "single_valued ((edges t)\<inverse>)"
    using assms edges_subset_potential [of t]
    by (intro single_valued_subset [of "(edges t)\<inverse>" "(potential t)\<inverse>"]) (auto simp: spawn_inv_def)
qed

lemma spawn_inv_descendants:
  assumes "spawn_inv m t"
  shows "\<exists>ds. descendants t r = Some ds \<and> set ds = (edges t)\<^sup>+ `` {r} \<and> distinct (r # ds)"
proof -
  obtain ds where "descendants t r = Some ds" "below t r ds"
    using descendants_below [OF spawn_inv_edges(1) [OF assms]] by blast
  moreover from this have "distinct (r # ds)"
    using assms by (intro below_distinct [of t r ds] spawn_inv_edges) (auto simp: spawn_inv_def)
  ultimately show ?thesis by (auto simp: below_def)
qed

lemma spawn_reachable_example:
  "spawn_reachable 8 (commit_child_reservation (snd (reserve_child spawn_tree_new 1 2 8)) 1 2)"
proof -
  have "spawn_reachable 8 (snd (reserve_child spawn_tree_new 1 2 8))"
    by (intro spawn_reachable.step [OF spawn_reachable.start] spawn_step.reserve)
      (auto simp: fresh_in_def child_slots_default_def)
  then show ?thesis
    by (rule spawn_reachable.step)
      (auto intro!: spawn_step.commit simp: reserve_child_def child_slots_default_def Let_def)
qed

subsection \<open>Properties\<close>

text \<open>
  Fan-out: whatever the order in which concurrent callers reserve, commit, release and
  remove children under the limit \<open>m\<close>, a parent never has more than \<open>m\<close> committed and reserved
  children together.
\<close>

theorem spawn_fan_out_bounded:
  assumes "spawn_reachable m t"
  shows "direct_children t p + reserved_children t p \<le> unat m"
proof -
  have "occupied t p \<le> unat m"
    using spawn_reachable_inv [OF assms] by (simp add: spawn_inv_def)
  then show ?thesis
    by (auto simp: occupied_def direct_children_def reserved_children_def u32_of_len_def
        slots_of_Some split: option.splits)
qed

theorem spawn_fan_out_bounded_witness:
  "direct_children (commit_child_reservation (snd (reserve_child spawn_tree_new 1 2 8)) 1 2) 1
   + reserved_children (commit_child_reservation (snd (reserve_child spawn_tree_new 1 2 8)) 1 2) 1
   \<le> unat (8 :: u32)"
  by (rule spawn_fan_out_bounded [OF spawn_reachable_example])

text \<open>
  Subtree traversal: in every state the admission protocol reaches, \<open>descendants\<close> returns
  (its loop ends although it keeps no visited set), lists exactly the sessions strictly below
  the root along committed edges, lists each of them once, and never the root.
\<close>

theorem descendants_correct:
  assumes "spawn_reachable m t"
  shows "\<exists>ds. descendants t r = Some ds \<and> set ds = {d. (r, d) \<in> (edges t)\<^sup>+}
              \<and> distinct ds \<and> r \<notin> set ds"
  using spawn_inv_descendants [OF spawn_reachable_inv [OF assms], of r] by auto

theorem descendants_correct_witness:
  "\<exists>ds. descendants (commit_child_reservation (snd (reserve_child spawn_tree_new 1 2 8)) 1 2) 1
            = Some ds
        \<and> set ds = {d. (1, d) \<in> (edges (commit_child_reservation
                      (snd (reserve_child spawn_tree_new 1 2 8)) 1 2))\<^sup>+}
        \<and> distinct ds \<and> 1 \<notin> set ds"
  by (rule descendants_correct [OF spawn_reachable_example])

end
