(* ===== verification/Bus_Wait_Graph.thy ===== *)
theory Bus_Wait_Graph
  imports Bus_Types "HOL-Library.AList"
begin

text \<open>
  \<^verbatim>\<open>roundhouse-bus/src/wait_graph.rs\<close>: the wait-for graph. A wait is refused synchronously when
  its edge would close a cycle, with the cycle as evidence. The lemmas show that the search
  terminates, never reads a missing parent, is exact, and that the graph stays acyclic.
\<close>

subsection \<open>State and operations\<close>

text \<open>The \<^verbatim>\<open>HashMap\<close> from a waiter to its targets; the order of the bindings is not observed.\<close>

type_synonym wait_graph = "(session_id \<times> session_id list) list"

definition wait_graph_new :: wait_graph where
  "wait_graph_new = []"

definition waits_of :: "wait_graph \<Rightarrow> session_id \<Rightarrow> session_id list" where
  "waits_of g n = lookup_or [] (map_of g) n"

text \<open>
  The inner loop over the targets of one node: \<^verbatim>\<open>parent.entry(child).or_insert(node)\<close> and
  \<^verbatim>\<open>stack.push(child)\<close>. The stack is kept top first.
\<close>

fun push_children ::
  "session_id \<Rightarrow> session_id list \<Rightarrow> session_id list \<Rightarrow> (session_id \<rightharpoonup> session_id)
   \<Rightarrow> session_id list \<times> (session_id \<rightharpoonup> session_id)" where
  "push_children node [] stack par = (stack, par)"
| "push_children node (c # cs) stack par =
     push_children node cs (c # stack)
       (case par c of None \<Rightarrow> par(c \<mapsto> node) | Some _ \<Rightarrow> par)"

text \<open>
  The walk back along the parent chain, from \<open>cur\<close> to the target. \<open>None\<close> stands for the panic of
  \<^verbatim>\<open>parent[&cur]\<close> on a missing key and for a walk that does not end.
\<close>

partial_function (option) walk_back ::
  "(session_id \<rightharpoonup> session_id) \<Rightarrow> session_id \<Rightarrow> session_id \<Rightarrow> session_id list \<Rightarrow> session_id list option" where
  "walk_back par target cur path =
     (if cur = target then Some path
      else case par cur of
        None \<Rightarrow> None
      | Some p \<Rightarrow> walk_back par target p (path @ [p]))"

text \<open>The result of the search: no cycle, a cycle, or an abnormal end.\<close>

datatype cycle_search = NoCycle | Cycle "session_id list" | Abnormal

definition nodes_of :: "wait_graph \<Rightarrow> session_id set" where
  "nodes_of g = fst ` set g"

lemma finite_nodes_of [simp]: "finite (nodes_of g)"
  by (simp add: nodes_of_def)

lemma waits_of_outside [simp]: "n \<notin> nodes_of g \<Longrightarrow> waits_of g n = []"
  by (auto simp: waits_of_def nodes_of_def lookup_or_def split: option.splits dest: map_of_SomeD)
    (metis fst_conv image_eqI map_of_SomeD)

lemma push_children_stack [simp]: "fst (push_children n cs st par) = rev cs @ st"
  by (induction n cs st par rule: push_children.induct) auto

function would_cycle_loop ::
  "wait_graph \<Rightarrow> session_id \<Rightarrow> session_id \<Rightarrow> session_id list \<Rightarrow> session_id list
   \<Rightarrow> (session_id \<rightharpoonup> session_id) \<Rightarrow> cycle_search" where
  "would_cycle_loop g waiter target [] visited par = NoCycle"
| "would_cycle_loop g waiter target (node # stack) visited par =
     (if node = waiter then
        (case walk_back par target waiter [waiter] of
           None \<Rightarrow> Abnormal
         | Some path \<Rightarrow> Cycle path)
      else if node \<in> set visited then would_cycle_loop g waiter target stack visited par
      else would_cycle_loop g waiter target
             (fst (push_children node (waits_of g node) stack par)) (node # visited)
             (snd (push_children node (waits_of g node) stack par)))"
  by pat_completeness auto
termination
proof (relation "inv_image (finite_psubset <*lex*> less_than)
    (\<lambda>(g, w, t, st, vis, par). (nodes_of g - set vis, length st))", goal_cases)
  case 1
  show ?case by auto
next
  case 2
  then show ?case by simp
next
  case (3 g waiter target node stack visited par)
  then show ?case
    by (cases "node \<in> nodes_of g") (auto simp: finite_psubset_def)
qed

definition would_cycle :: "wait_graph \<Rightarrow> session_id \<Rightarrow> session_id \<Rightarrow> cycle_search" where
  "would_cycle g waiter target = would_cycle_loop g waiter target [target] [] Map.empty"

definition register_wait ::
  "wait_graph \<Rightarrow> session_id \<Rightarrow> session_id \<Rightarrow> (unit, bus_error) result option \<times> wait_graph" where
  "register_wait g waiter target =
     (case would_cycle g waiter target of
        Cycle cycle \<Rightarrow> (Some (Err (WaitWouldDeadlock waiter target cycle)), g)
      | NoCycle \<Rightarrow> (Some (Ok ()), AList.update waiter (waits_of g waiter @ [target]) g)
      | Abnormal \<Rightarrow> (None, g))"

definition clear_wait :: "wait_graph \<Rightarrow> session_id \<Rightarrow> wait_graph" where
  "clear_wait g waiter = AList.delete waiter g"

subsection \<open>Edges and the shape of a reported cycle\<close>

definition wait_edges :: "wait_graph \<Rightarrow> (session_id \<times> session_id) set" where
  "wait_edges g = {(n, m). m \<in> set (waits_of g n)}"

text \<open>In a reported path every session waits on the one before it.\<close>

fun back_chain :: "wait_graph \<Rightarrow> session_id list \<Rightarrow> bool" where
  "back_chain g (x # y # zs) \<longleftrightarrow> (y, x) \<in> wait_edges g \<and> back_chain g (y # zs)"
| "back_chain g _ \<longleftrightarrow> True"

text \<open>
  A genuine deadlock witness for a wait of \<open>waiter\<close> on \<open>target\<close>: it starts with the waiter, ends
  with the target, names no session twice, and each named session already waits on its
  predecessor, so that the new edge closes the cycle.
\<close>

definition deadlock_cycle :: "wait_graph \<Rightarrow> session_id \<Rightarrow> session_id \<Rightarrow> session_id list \<Rightarrow> bool" where
  "deadlock_cycle g waiter target cycle \<longleftrightarrow>
     cycle \<noteq> [] \<and> hd cycle = waiter \<and> last cycle = target \<and> distinct cycle \<and> back_chain g cycle"

lemma waits_of_update [simp]:
  "waits_of (AList.update k v g) n = (if n = k then v else waits_of g n)"
  by (simp add: waits_of_def update_conv')

lemma waits_of_delete [simp]:
  "waits_of (AList.delete k g) n = (if n = k then [] else waits_of g n)"
  by (simp add: waits_of_def delete_conv')

lemma waits_of_Nil [simp]: "waits_of [] n = []"
  by (simp add: waits_of_def)

lemma wait_edges_simps [simp]:
  "wait_edges wait_graph_new = {}"
  "wait_edges (clear_wait g w) = {(n, m). (n, m) \<in> wait_edges g \<and> n \<noteq> w}"
  by (auto simp: wait_edges_def wait_graph_new_def clear_wait_def split: if_splits)

lemma wait_edges_register:
  "wait_edges (AList.update w (waits_of g w @ [t]) g) = insert (w, t) (wait_edges g)"
  by (auto simp: wait_edges_def split: if_splits)

lemma finite_wait_edges: "finite (wait_edges g)"
  by (rule finite_subset [of _ "\<Union>n \<in> nodes_of g. {n} \<times> set (waits_of g n)"])
    (auto simp: wait_edges_def intro: ccontr)

subsection \<open>The search invariant\<close>

lemma push_children_par:
  "snd (push_children n cs st par) c =
     (case par c of Some p \<Rightarrow> Some p | None \<Rightarrow> if c \<in> set cs then Some n else None)"
  by (induction n cs st par rule: push_children.induct) (auto split: option.splits)

text \<open>
  \<open>visited\<close> lists the popped nodes, newest first. Parents are popped nodes, reached along real
  edges, and older than their children, except that the target needs none.
\<close>

definition dfs_inv ::
  "wait_graph \<Rightarrow> session_id \<Rightarrow> session_id \<Rightarrow> session_id list \<Rightarrow> session_id list
   \<Rightarrow> (session_id \<rightharpoonup> session_id) \<Rightarrow> bool" where
  "dfs_inv g w t st vis par \<longleftrightarrow>
     w \<notin> set vis \<and> distinct vis \<and> t \<in> set st \<union> set vis
     \<and> (\<forall>n \<in> set st \<union> set vis. (t, n) \<in> (wait_edges g)\<^sup>*)
     \<and> (\<forall>n \<in> set vis. \<forall>m \<in> set (waits_of g n). m \<in> set vis \<union> set st)
     \<and> (\<forall>c p. par c = Some p \<longrightarrow> p \<in> set vis \<and> (p, c) \<in> wait_edges g)
     \<and> (\<forall>n \<in> set st. n = t \<or> par n \<noteq> None)
     \<and> (\<forall>xs n ys. vis = xs @ n # ys \<longrightarrow> n \<noteq> t \<longrightarrow> (\<exists>p \<in> set ys. par n = Some p))"

lemma dfs_inv_start: "dfs_inv g w t [t] [] Map.empty"
  by (simp add: dfs_inv_def)

lemma dfs_inv_skip:
  assumes "dfs_inv g w t (n # st) vis par" "n \<in> set vis"
  shows "dfs_inv g w t st vis par"
  using assms unfolding dfs_inv_def by auto

lemma dfs_inv_visit_parents:
  assumes inv: "dfs_inv g w t (n # st) vis par" and new: "n \<notin> set vis"
    and par': "par' = snd (push_children n (waits_of g n) st par)"
    and split: "n # vis = xs @ m # ys" "m \<noteq> t"
  shows "\<exists>p \<in> set ys. par' m = Some p"
proof (cases xs)
  case Nil
  with split have m: "m = n" "ys = vis" by auto
  with inv split(2) obtain p where "par n = Some p" by (auto simp: dfs_inv_def)
  with inv have "p \<in> set vis" by (auto simp: dfs_inv_def)
  with m \<open>par n = Some p\<close> show ?thesis by (simp add: par' push_children_par)
next
  case (Cons x xs')
  with split have "vis = xs' @ m # ys" by auto
  with inv split(2) obtain p where "p \<in> set ys" "par m = Some p"
    unfolding dfs_inv_def by blast
  then show ?thesis by (auto simp: par' push_children_par)
qed

lemma dfs_inv_visit:
  assumes inv: "dfs_inv g w t (n # st) vis par" and new: "n \<notin> set vis" "n \<noteq> w"
  shows "dfs_inv g w t (rev (waits_of g n) @ st) (n # vis)
           (snd (push_children n (waits_of g n) st par))" (is "dfs_inv g w t ?st ?vis ?par")
proof -
  have reach: "(t, n) \<in> (wait_edges g)\<^sup>*"
    using inv by (auto simp: dfs_inv_def)
  then have "(t, m) \<in> (wait_edges g)\<^sup>*" if "m \<in> set (waits_of g n)" for m
    using that by (auto simp: wait_edges_def intro: rtrancl_into_rtrancl)
  then have 1: "\<forall>m \<in> set ?st \<union> set ?vis. (t, m) \<in> (wait_edges g)\<^sup>*"
    using inv reach by (auto simp: dfs_inv_def)
  have 2: "\<forall>m \<in> set ?vis. \<forall>c \<in> set (waits_of g m). c \<in> set ?vis \<union> set ?st"
    using inv by (auto simp: dfs_inv_def)
  have 3: "\<forall>c p. ?par c = Some p \<longrightarrow> p \<in> set ?vis \<and> (p, c) \<in> wait_edges g"
    using inv by (auto simp: dfs_inv_def push_children_par wait_edges_def
        split: option.splits if_splits)
  have 4: "\<forall>m \<in> set ?st. m = t \<or> ?par m \<noteq> None"
    using inv by (auto simp: dfs_inv_def push_children_par split: option.splits)
  have 5: "\<forall>xs m ys. ?vis = xs @ m # ys \<longrightarrow> m \<noteq> t \<longrightarrow> (\<exists>p \<in> set ys. ?par m = Some p)"
    using dfs_inv_visit_parents [OF inv new(1) refl] by blast
  have 6: "w \<notin> set ?vis" "distinct ?vis" "t \<in> set ?st \<union> set ?vis"
    using inv new by (auto simp: dfs_inv_def)
  show ?thesis
    unfolding dfs_inv_def using 1 2 3 4 5 6 by blast
qed

lemma walk_back_target [simp]: "walk_back par t t path = Some path"
  by (subst walk_back.simps) simp

lemma walk_back_step: "c \<noteq> t \<Longrightarrow> par c = Some p \<Longrightarrow>
    walk_back par t c path = walk_back par t p (path @ [p])"
  by (subst walk_back.simps) simp

lemma walk_back_returns:
  assumes "\<forall>xs n ys'. ys = xs @ n # ys' \<longrightarrow> n \<noteq> t \<longrightarrow> (\<exists>p \<in> set ys'. par n = Some p)"
    and "distinct ys" and "\<forall>c p. par c = Some p \<longrightarrow> (p, c) \<in> wait_edges g"
    and "c = t \<or> (\<exists>p \<in> set ys. par c = Some p)"
  shows "\<exists>ps. walk_back par t c path = Some (path @ ps) \<and> set ps \<subseteq> set ys \<and> distinct ps
             \<and> back_chain g (c # ps) \<and> last (c # ps) = t"
  using assms
proof (induction ys arbitrary: c path rule: length_induct)
  case (1 ys)
  show ?case
  proof (cases "c = t")
    case True
    then show ?thesis by (intro exI [of _ "[]"]) simp
  next
    case False
    with "1.prems"(4) obtain p where p: "p \<in> set ys" "par c = Some p" by blast
    then obtain as bs where ys: "ys = as @ p # bs" by (meson split_list)
    have len: "length bs < length ys" by (simp add: ys)
    have "\<exists>ps. walk_back par t p (path @ [p]) = Some ((path @ [p]) @ ps) \<and> set ps \<subseteq> set bs
        \<and> distinct ps \<and> back_chain g (p # ps) \<and> last (p # ps) = t"
    proof (rule "1.IH" [rule_format, OF len])
      fix xs n zs assume "bs = xs @ n # zs" "n \<noteq> t"
      then show "\<exists>q \<in> set zs. par n = Some q"
        using "1.prems"(1) [rule_format, of "as @ p # xs" n zs] by (simp add: ys)
    next
      show "p = t \<or> (\<exists>q \<in> set bs. par p = Some q)"
        using "1.prems"(1) [rule_format, of as p bs] by (auto simp: ys)
    qed (use "1.prems" in \<open>auto simp: ys\<close>)
    then obtain ps where ps: "walk_back par t p (path @ [p]) = Some ((path @ [p]) @ ps)"
      "set ps \<subseteq> set bs" "distinct ps" "back_chain g (p # ps)" "last (p # ps) = t"
      by blast
    have "distinct (p # ps)" using ps(2,3) "1.prems"(2) by (auto simp: ys)
    then show ?thesis
      using ps p False "1.prems"(3) by (intro exI [of _ "p # ps"]) (auto simp: walk_back_step ys)
  qed
qed

lemma dfs_inv_walk_back:
  assumes inv: "dfs_inv g w t (w # st) vis par"
  shows "\<exists>path. walk_back par t w [w] = Some path \<and> deadlock_cycle g w t path"
proof -
  have "w = t \<or> (\<exists>p \<in> set vis. par w = Some p)"
    using inv by (auto simp: dfs_inv_def)
  then obtain ps where ps: "walk_back par t w [w] = Some ([w] @ ps)" "set ps \<subseteq> set vis" "distinct ps"
    "back_chain g (w # ps)" "last (w # ps) = t"
    using walk_back_returns [of vis t par g w "[w]"] inv unfolding dfs_inv_def by blast
  moreover have "w \<notin> set ps" using ps(2) inv by (auto simp: dfs_inv_def)
  ultimately show ?thesis by (intro exI [of _ "w # ps"]) (simp add: deadlock_cycle_def)
qed

lemma dfs_inv_exhausted:
  assumes "dfs_inv g w t [] vis par"
  shows "(t, w) \<notin> (wait_edges g)\<^sup>*"
proof
  assume "(t, w) \<in> (wait_edges g)\<^sup>*"
  then have "w \<in> set vis"
    by (induction rule: rtrancl_induct) (use assms in \<open>auto simp: dfs_inv_def wait_edges_def\<close>)
  with assms show False by (simp add: dfs_inv_def)
qed

lemma would_cycle_loop_correct:
  assumes "dfs_inv g w t st vis par"
  shows "(\<exists>cycle. would_cycle_loop g w t st vis par = Cycle cycle \<and> deadlock_cycle g w t cycle
              \<and> (t, w) \<in> (wait_edges g)\<^sup>*)
         \<or> (would_cycle_loop g w t st vis par = NoCycle \<and> (t, w) \<notin> (wait_edges g)\<^sup>*)"
  using assms
proof (induction g w t st vis par rule: would_cycle_loop.induct)
  case (1 g w t vis par)
  then show ?case using dfs_inv_exhausted by simp
next
  case (2 g w t n st vis par)
  show ?case
  proof (cases "n = w")
    case True
    with dfs_inv_walk_back 2(3) obtain path where
      "walk_back par t w [w] = Some path" "deadlock_cycle g w t path" by blast
    moreover have "(t, w) \<in> (wait_edges g)\<^sup>*" using 2(3) True by (auto simp: dfs_inv_def)
    ultimately show ?thesis using True by simp
  next
    case False
    show ?thesis
    proof (cases "n \<in> set vis")
      case True
      then show ?thesis using 2(1) [OF False True dfs_inv_skip [OF 2(3) True]] False by simp
    next
      case nv: False
      have "dfs_inv g w t (fst (push_children n (waits_of g n) st par)) (n # vis)
          (snd (push_children n (waits_of g n) st par))"
        using dfs_inv_visit [OF 2(3) nv False] by simp
      from 2(2) [OF False nv this] show ?thesis using False nv by simp
    qed
  qed
qed

lemma would_cycle_correct:
  "(\<exists>cycle. would_cycle g w t = Cycle cycle \<and> deadlock_cycle g w t cycle \<and> (t, w) \<in> (wait_edges g)\<^sup>*)
   \<or> (would_cycle g w t = NoCycle \<and> (t, w) \<notin> (wait_edges g)\<^sup>*)"
  unfolding would_cycle_def by (rule would_cycle_loop_correct [OF dfs_inv_start])

subsection \<open>The interlock as an interface\<close>

text \<open>
  What the users of a wait graph rely on: a registration adds exactly its edge unless the
  target already waits, directly or not, on the waiter; clearing adds nothing. From these laws
  alone every registration and clearing keeps the wait-for relation acyclic.
\<close>

locale wait_interlock =
  fixes register :: "'g \<Rightarrow> 'n \<Rightarrow> 'n \<Rightarrow> 'g"
    and clear :: "'g \<Rightarrow> 'n \<Rightarrow> 'g"
    and waiting :: "'g \<Rightarrow> ('n \<times> 'n) set"
  assumes register_edges:
      "waiting (register g w t)
         = (if (t, w) \<in> (waiting g)\<^sup>* then waiting g else insert (w, t) (waiting g))"
    and clear_edges: "waiting (clear g w) \<subseteq> waiting g"
begin

lemma register_acyclic: "acyclic (waiting g) \<Longrightarrow> acyclic (waiting (register g w t))"
  by (simp add: register_edges acyclic_insert)

lemma clear_acyclic: "acyclic (waiting g) \<Longrightarrow> acyclic (waiting (clear g w))"
  by (rule acyclic_subset [OF _ clear_edges])

end

interpretation wg: wait_interlock "\<lambda>g w t. snd (register_wait g w t)" clear_wait wait_edges
proof unfold_locales
  fix g w t
  show "wait_edges (snd (register_wait g w t))
      = (if (t, w) \<in> (wait_edges g)\<^sup>* then wait_edges g else insert (w, t) (wait_edges g))"
    using would_cycle_correct [of g w t] by (auto simp: register_wait_def wait_edges_register)
  show "wait_edges (clear_wait g w) \<subseteq> wait_edges g"
    by auto
qed

subsection \<open>Properties\<close>

text \<open>
  \<^bold>\<open>C38.\<close> The deadlock check is exact. A wait of \<open>w\<close> on \<open>t\<close> is refused if and only if \<open>t\<close> already waits,
  directly or through others, on \<open>w\<close> (or is \<open>w\<close>); the refusal leaves the graph unchanged and
  carries a genuine cycle that names each session once, waiter first. Otherwise the edge is
  recorded. The search always ends and the parent walk never hits a missing key.
\<close>

theorem register_wait_exact:
  "if (t, w) \<in> (wait_edges g)\<^sup>*
   then \<exists>cycle. register_wait g w t = (Some (Err (WaitWouldDeadlock w t cycle)), g)
                \<and> deadlock_cycle g w t cycle
   else \<exists>g'. register_wait g w t = (Some (Ok ()), g')
             \<and> wait_edges g' = insert (w, t) (wait_edges g)"
  using would_cycle_correct [of g w t] by (auto simp: register_wait_def wait_edges_register)

end
