(* ===== verification/Bus_Rate_Limit.thy ===== *)
theory Bus_Rate_Limit
  imports Bus_Types
begin

text \<open>
  \<^verbatim>\<open>roundhouse-bus/src/rate_limit.rs\<close>: the per-session token buckets, the one global bucket above
  them, the repetition damper and the hop counter.

  \<^verbatim>\<open>f64\<close> values are rationals, and every floating-point operation of the source is the exact
  operation followed by the rounding function \<open>rnd\<close>, a parameter of the definitions: \<open>f64_rounding\<close>
  states what IEEE 754 promises of it (rounding is monotone and exact on the integers up to
  \<open>2 ^ 53\<close>).  Infinities only arise in \<open>retry_ms\<close>, where a rate of zero divides; the saturating
  cast \<^verbatim>\<open>as u64\<close> is written out there.  An \<^verbatim>\<open>Instant\<close> is a number of nanoseconds, and
  \<^verbatim>\<open>saturating_duration_since\<close> is subtraction on \<open>nat\<close>.
\<close>

type_synonym f64 = rat
type_synonym instant = nat
type_synonym rounding = "rat \<Rightarrow> rat"

definition f64_rounding :: "rounding \<Rightarrow> bool" where
  "f64_rounding rnd \<longleftrightarrow> mono rnd \<and> (\<forall>n. n \<le> 2 ^ 53 \<longrightarrow> rnd (of_nat n) = of_nat n)"

definition as_secs_f64 :: "rounding \<Rightarrow> nat \<Rightarrow> f64" where
  "as_secs_f64 rnd d =
     rnd (rnd (of_nat (d div 10 ^ 9)) + rnd (of_nat (d mod 10 ^ 9) / 10 ^ 9))"

subsection \<open>Buckets\<close>

definition DEFAULT_RATE_PER_MIN :: u32 where
  [rh_simps]: "DEFAULT_RATE_PER_MIN = 20"

definition DEFAULT_BURST :: u32 where
  [rh_simps]: "DEFAULT_BURST = 10"

definition GLOBAL_BURST :: u32 where
  [rh_simps]: "GLOBAL_BURST = 2 * MAX_TEAM_SIZE * DEFAULT_BURST"

definition GLOBAL_RATE_PER_MIN :: u32 where
  [rh_simps]: "GLOBAL_RATE_PER_MIN = 2 * MAX_TEAM_SIZE * DEFAULT_RATE_PER_MIN"

record bucket_state =
  tokens :: f64
  last_refill :: instant

record rate_limiter =
  rate_per_sec :: f64
  burst :: f64
  buckets :: "session_id \<rightharpoonup> bucket_state"
  global_rate_per_sec :: f64
  global_burst :: f64
  global_bucket :: "bucket_state option"

definition new_with_global :: "rounding \<Rightarrow> u32 \<Rightarrow> u32 \<Rightarrow> u32 \<Rightarrow> u32 \<Rightarrow> rate_limiter" where
  "new_with_global rnd rate_per_min b global_rate_per_min gb =
     \<lparr>rate_per_sec = rnd (of_nat (unat rate_per_min) / 60), burst = of_nat (unat b),
      buckets = Map.empty, global_rate_per_sec = rnd (of_nat (unat global_rate_per_min) / 60),
      global_burst = of_nat (unat gb), global_bucket = None\<rparr>"

definition rate_limiter_new :: "rounding \<Rightarrow> u32 \<Rightarrow> u32 \<Rightarrow> rate_limiter" where
  "rate_limiter_new rnd rate_per_min b =
     new_with_global rnd rate_per_min b GLOBAL_RATE_PER_MIN GLOBAL_BURST"

definition rate_limiter_default :: "rounding \<Rightarrow> rate_limiter" where
  "rate_limiter_default rnd = rate_limiter_new rnd DEFAULT_RATE_PER_MIN DEFAULT_BURST"

text \<open>The refill of lines 129-133 and 156-158: credit the elapsed time, cap at the burst.\<close>

definition refill :: "rounding \<Rightarrow> f64 \<Rightarrow> f64 \<Rightarrow> instant \<Rightarrow> bucket_state \<Rightarrow> bucket_state" where
  "refill rnd rate cap now st =
     \<lparr>tokens = min (rnd (tokens st + rnd (as_secs_f64 rnd (now - last_refill st) * rate))) cap,
      last_refill = now\<rparr>"

text \<open>\<^verbatim>\<open>((1.0 - tokens) / rate * 1000.0).ceil() as u64\<close>, reached with \<open>tokens < 1\<close> only.\<close>

definition retry_ms :: "rounding \<Rightarrow> f64 \<Rightarrow> f64 \<Rightarrow> nat" where
  "retry_ms rnd toks rate =
     (if rate = 0 then 2 ^ 64 - 1
      else min (2 ^ 64 - 1) (nat \<lceil>rnd (rnd (rnd (1 - toks) / rate) * 1000)\<rceil>))"

definition GLOBAL_RETRY_AFTER_FLOOR_MS :: nat where
  [rh_simps]: "GLOBAL_RETRY_AFTER_FLOOR_MS = 250"

text \<open>\<^verbatim>\<open>entry(..).or_insert(..)\<close> and \<^verbatim>\<open>get_or_insert(..)\<close>: a new bucket is full.\<close>

definition or_insert_bucket :: "f64 \<Rightarrow> instant \<Rightarrow> bucket_state option \<Rightarrow> bucket_state" where
  "or_insert_bucket cap now b =
     (case b of None \<Rightarrow> \<lparr>tokens = cap, last_refill = now\<rparr> | Some st \<Rightarrow> st)"

definition take_token :: "rounding \<Rightarrow> bucket_state \<Rightarrow> bucket_state" where
  "take_token rnd st = st\<lparr>tokens := rnd (tokens st - 1)\<rparr>"

definition try_acquire_inner ::
  "rounding \<Rightarrow> rate_limiter \<Rightarrow> session_id \<Rightarrow> instant \<Rightarrow> bool
     \<Rightarrow> (unit, bus_error) result \<times> rate_limiter" where
  "try_acquire_inner rnd l s now skip_global =
     (let st = refill rnd (rate_per_sec l) (burst l) now
                 (or_insert_bucket (burst l) now (buckets l s));
          l1 = l\<lparr>buckets := (buckets l)(s \<mapsto> st)\<rparr>
      in if tokens st < 1
         then (Err (RateLimited s (retry_ms rnd (tokens st) (rate_per_sec l))), l1)
         else if skip_global
         then (Ok (), l\<lparr>buckets := (buckets l)(s \<mapsto> take_token rnd st)\<rparr>)
         else (let g = refill rnd (global_rate_per_sec l) (global_burst l) now
                          (or_insert_bucket (global_burst l) now (global_bucket l))
               in if tokens g < 1
                  then (Err (RateLimited s
                          (max (retry_ms rnd (tokens g) (global_rate_per_sec l))
                               GLOBAL_RETRY_AFTER_FLOOR_MS)),
                        l1\<lparr>global_bucket := Some g\<rparr>)
                  else (Ok (),
                        l\<lparr>buckets := (buckets l)(s \<mapsto> take_token rnd st),
                          global_bucket := Some (take_token rnd g)\<rparr>)))"

definition try_acquire ::
  "rounding \<Rightarrow> rate_limiter \<Rightarrow> session_id \<Rightarrow> instant
     \<Rightarrow> (unit, bus_error) result \<times> rate_limiter" where
  "try_acquire rnd l s now = try_acquire_inner rnd l s now False"

definition try_acquire_session_only ::
  "rounding \<Rightarrow> rate_limiter \<Rightarrow> session_id \<Rightarrow> instant
     \<Rightarrow> (unit, bus_error) result \<times> rate_limiter" where
  "try_acquire_session_only rnd l s now = try_acquire_inner rnd l s now True"

subsection \<open>The repetition damper and the hop counter\<close>

record repetition_damper =
  counts :: "(session_id \<times> session_id \<times> string) \<rightharpoonup> u32"

definition repetition_damper_new :: repetition_damper where
  "repetition_damper_new = \<lparr>counts = Map.empty\<rparr>"

definition check_and_record ::
  "repetition_damper \<Rightarrow> session_id \<Rightarrow> session_id \<Rightarrow> string
     \<Rightarrow> (unit, bus_error) result \<times> repetition_damper" where
  "check_and_record d from to subject =
     (let key = (from, to, subject);
          count = lookup_or 0 (counts d) key
      in if count \<ge> 3
         then (Err (Repetitive to subject), d\<lparr>counts := (counts d)(key \<mapsto> count)\<rparr>)
         else (Ok (), d\<lparr>counts := (counts d)(key \<mapsto> count + 1)\<rparr>))"

definition note_state_change ::
  "repetition_damper \<Rightarrow> session_id \<Rightarrow> session_id \<Rightarrow> string \<Rightarrow> repetition_damper" where
  "note_state_change d from to subject = d\<lparr>counts := (counts d)((from, to, subject) := None)\<rparr>"

definition decrement_ttl :: "u8 \<Rightarrow> (u8, bus_error) result" where
  "decrement_ttl current = ok_or TtlExpired (checked_sub current 1)"

subsection \<open>Sequences of requests\<close>

text \<open>
  What a run of the limiter lets through: requests are (session, instant, session-only) triples,
  and \<open>rl_run\<close> returns the accepted ones and the limiter they leave.
\<close>

type_synonym rl_req = "session_id \<times> instant \<times> bool"

fun rl_run :: "rounding \<Rightarrow> rate_limiter \<Rightarrow> rl_req list \<Rightarrow> rl_req list \<times> rate_limiter" where
  "rl_run rnd l [] = ([], l)"
| "rl_run rnd l ((s, now, skip) # rs) =
     (let (r, l') = try_acquire_inner rnd l s now skip; (acc, l'') = rl_run rnd l' rs
      in ((if is_ok r then (s, now, skip) # acc else acc), l''))"

text \<open>The calls a damper sees, and how often a key was tried since it was last forgotten.\<close>

datatype damper_call = DSend session_id session_id string | DChange session_id session_id string

fun damper_step :: "repetition_damper \<Rightarrow> damper_call \<Rightarrow> repetition_damper" where
  "damper_step d (DSend f t s) = snd (check_and_record d f t s)"
| "damper_step d (DChange f t s) = note_state_change d f t s"

fun tries_step :: "session_id \<times> session_id \<times> string \<Rightarrow> nat \<Rightarrow> damper_call \<Rightarrow> nat" where
  "tries_step k n (DSend f t s) = (if (f, t, s) = k then n + 1 else n)"
| "tries_step k n (DChange f t s) = (if (f, t, s) = k then 0 else n)"

text \<open>Well-formed limiters: caps are counts a \<^verbatim>\<open>u32\<close> can hold, and no bucket is outside [0, cap].\<close>

definition bucket_in :: "f64 \<Rightarrow> bucket_state \<Rightarrow> bool" where
  "bucket_in cap b \<longleftrightarrow> 0 \<le> tokens b \<and> tokens b \<le> cap"

definition rl_wf :: "rate_limiter \<Rightarrow> bool" where
  "rl_wf l \<longleftrightarrow> 0 \<le> rate_per_sec l \<and> 0 \<le> global_rate_per_sec l \<and>
     (\<exists>n < 2 ^ 32. burst l = of_nat n) \<and> (\<exists>n < 2 ^ 32. global_burst l = of_nat n) \<and>
     (\<forall>s b. buckets l s = Some b \<longrightarrow> bucket_in (burst l) b) \<and>
     (\<forall>g. global_bucket l = Some g \<longrightarrow> bucket_in (global_burst l) g)"

subsection \<open>Lemmas\<close>

lemma f64_rounding_mono: "f64_rounding rnd \<Longrightarrow> x \<le> y \<Longrightarrow> rnd x \<le> rnd y"
  by (simp add: f64_rounding_def monoD)

lemma f64_rounding_nat: "f64_rounding rnd \<Longrightarrow> n \<le> 2 ^ 53 \<Longrightarrow> rnd (of_nat n) = of_nat n"
  by (simp add: f64_rounding_def)

lemma f64_rounding_0: "f64_rounding rnd \<Longrightarrow> rnd 0 = 0"
  using f64_rounding_nat [of rnd 0] by simp

lemma f64_rounding_nonneg: "f64_rounding rnd \<Longrightarrow> 0 \<le> x \<Longrightarrow> 0 \<le> rnd x"
  using f64_rounding_mono [of rnd 0 x] f64_rounding_0 [of rnd] by simp

lemma f64_rounding_id: "f64_rounding (\<lambda>x. x)"
  by (simp add: f64_rounding_def mono_def)

lemma as_secs_f64_nonneg:
  assumes "f64_rounding rnd"
  shows "0 \<le> as_secs_f64 rnd d"
  unfolding as_secs_f64_def
  by (intro f64_rounding_nonneg [OF assms] add_nonneg_nonneg) auto

lemma as_secs_f64_exact: "as_secs_f64 (\<lambda>x. x) d = of_nat d / 10 ^ 9"
proof -
  have "(of_nat d :: rat) = of_nat (d div 10 ^ 9 * 10 ^ 9 + d mod 10 ^ 9)"
    by simp
  also have "\<dots> = of_nat (d div 10 ^ 9) * 10 ^ 9 + of_nat (d mod 10 ^ 9)"
    by (simp only: of_nat_add of_nat_mult of_nat_power of_nat_numeral)
  finally show ?thesis
    by (simp add: as_secs_f64_def add_divide_distrib)
qed

lemma refill_in:
  assumes "f64_rounding rnd" "0 \<le> rate" "0 \<le> cap" "bucket_in cap st"
  shows "bucket_in cap (refill rnd rate cap now st)"
proof -
  have "0 \<le> rnd (tokens st + rnd (as_secs_f64 rnd (now - last_refill st) * rate))"
    using assms as_secs_f64_nonneg [OF assms(1)]
    by (intro f64_rounding_nonneg [OF assms(1)] add_nonneg_nonneg mult_nonneg_nonneg) (auto simp: bucket_in_def)
  then show ?thesis
    using assms(3) by (simp add: bucket_in_def refill_def)
qed

lemma or_insert_bucket_in:
  "0 \<le> cap \<Longrightarrow> (\<And>st. b = Some st \<Longrightarrow> bucket_in cap st) \<Longrightarrow> bucket_in cap (or_insert_bucket cap now b)"
  by (cases b) (auto simp: or_insert_bucket_def bucket_in_def)

lemma take_token_in:
  assumes "f64_rounding rnd" "cap = of_nat n" "n < 2 ^ 32" "bucket_in cap st" "1 \<le> tokens st"
  shows "bucket_in cap (take_token rnd st)"
proof -
  have "rnd (tokens st - 1) \<le> rnd cap"
    using assms by (intro f64_rounding_mono [OF assms(1)]) (auto simp: bucket_in_def)
  also have "\<dots> = cap"
    using f64_rounding_nat [of rnd n] assms by simp
  finally show ?thesis
    using assms f64_rounding_nonneg [OF assms(1), of "tokens st - 1"]
    by (simp add: bucket_in_def take_token_def)
qed

lemma try_acquire_inner_wf:
  assumes r: "f64_rounding rnd" and wf: "rl_wf l"
  shows "rl_wf (snd (try_acquire_inner rnd l s now skip))"
proof -
  define st where "st = refill rnd (rate_per_sec l) (burst l) now
                          (or_insert_bucket (burst l) now (buckets l s))"
  define g where "g = refill rnd (global_rate_per_sec l) (global_burst l) now
                        (or_insert_bucket (global_burst l) now (global_bucket l))"
  obtain n m where n: "burst l = of_nat n" "n < 2 ^ 32" and m: "global_burst l = of_nat m" "m < 2 ^ 32"
    using wf by (auto simp: rl_wf_def)
  have wfs: "0 \<le> rate_per_sec l" "0 \<le> global_rate_per_sec l"
      "\<And>s b. buckets l s = Some b \<Longrightarrow> bucket_in (burst l) b"
      "\<And>g. global_bucket l = Some g \<Longrightarrow> bucket_in (global_burst l) g"
    using wf by (simp_all add: rl_wf_def)
  have st: "bucket_in (burst l) st"
    unfolding st_def using wfs n by (intro refill_in [OF r] or_insert_bucket_in) auto
  have g: "bucket_in (global_burst l) g"
    unfolding g_def using wfs m by (intro refill_in [OF r] or_insert_bucket_in) auto
  have st': "1 \<le> tokens st \<Longrightarrow> bucket_in (burst l) (take_token rnd st)"
    by (rule take_token_in [OF r n st])
  have g': "1 \<le> tokens g \<Longrightarrow> bucket_in (global_burst l) (take_token rnd g)"
    by (rule take_token_in [OF r m g])
  show ?thesis
    using wf st g st' g' unfolding try_acquire_inner_def Let_def rl_wf_def
    by (auto simp flip: st_def g_def split: if_splits)
qed

lemma u32_bound: "unat (w :: u32) < 2 ^ 32"
  using unsigned_less [of w] by simp

lemma new_with_global_wf:
  assumes "f64_rounding rnd"
  shows "rl_wf (new_with_global rnd r b gr gb)"
proof -
  have "0 \<le> rnd (of_nat (unat r) / 60)" "0 \<le> rnd (of_nat (unat gr) / 60)"
    by (intro f64_rounding_nonneg [OF assms] divide_nonneg_nonneg of_nat_0_le_iff; simp)+
  then show ?thesis
    unfolding rl_wf_def new_with_global_def rate_limiter.simps
    using u32_bound [of b] u32_bound [of gb] by blast
qed

lemma rl_run_wf: "f64_rounding rnd \<Longrightarrow> rl_wf l \<Longrightarrow> rl_wf (snd (rl_run rnd l rs))"
proof (induction rnd l rs rule: rl_run.induct)
  case (2 rnd l s now skip rs)
  have "rl_wf (snd (try_acquire_inner rnd l s now skip))"
    using try_acquire_inner_wf 2 by blast
  then show ?case
    using 2 by (auto split: prod.splits simp: prod_eq_iff)
qed simp

subsection \<open>The token-bucket bound\<close>

text \<open>
  What a bucket can still pay for until \<open>t1\<close>: its tokens and the credit of the time left; a
  bucket that does not exist yet can pay a full burst and the credit since \<open>t0\<close>.
\<close>

definition pot :: "f64 \<Rightarrow> f64 \<Rightarrow> instant \<Rightarrow> instant \<Rightarrow> bucket_state option \<Rightarrow> rat" where
  "pot rate cap t0 t1 ob =
     (case ob of None \<Rightarrow> cap + rate * (of_nat (t1 - t0) / 10 ^ 9)
      | Some b \<Rightarrow> tokens b + rate * (of_nat (t1 - last_refill b) / 10 ^ 9))"

definition times_le :: "rate_limiter \<Rightarrow> instant \<Rightarrow> bool" where
  "times_le l t \<longleftrightarrow> (\<forall>s b. buckets l s = Some b \<longrightarrow> last_refill b \<le> t) \<and>
     (\<forall>g. global_bucket l = Some g \<longrightarrow> last_refill g \<le> t)"

lemma pot_nonneg:
  "0 \<le> rate \<Longrightarrow> 0 \<le> cap \<Longrightarrow> (\<And>b. ob = Some b \<Longrightarrow> 0 \<le> tokens b) \<Longrightarrow> 0 \<le> pot rate cap t0 t1 ob"
  by (cases ob) (auto simp: pot_def intro!: add_nonneg_nonneg)

lemma pot_take: "pot rate cap t0 t1 (Some (take_token (\<lambda>x. x) b)) + 1 = pot rate cap t0 t1 (Some b)"
  by (simp add: pot_def take_token_def)

lemma credit_split:
  assumes "a \<le> b" "b \<le> (c :: nat)"
  shows "rate * (of_nat (b - a) / 10 ^ 9) + rate * (of_nat (c - b) / 10 ^ 9)
         = rate * (of_nat (c - a) / (10 ^ 9 :: rat))"
proof -
  have "(of_nat (c - a) :: rat) = of_nat (b - a) + of_nat (c - b)"
    using assms by (simp flip: of_nat_add)
  then show ?thesis
    by (simp add: add_divide_distrib distrib_left)
qed

lemma pot_refill:
  assumes "0 \<le> rate" "t0 \<le> now" "now \<le> t1" "\<And>b. ob = Some b \<Longrightarrow> last_refill b \<le> now"
  shows "pot rate cap t0 t1 (Some (refill (\<lambda>x. x) rate cap now (or_insert_bucket cap now ob)))
         \<le> pot rate cap t0 t1 ob"
proof (cases ob)
  case None
  have "rate * (of_nat (t1 - now) / 10 ^ 9) \<le> rate * (of_nat (t1 - t0) / 10 ^ 9)"
    using assms by (intro mult_left_mono divide_right_mono) auto
  then show ?thesis
    by (simp add: None pot_def refill_def or_insert_bucket_def)
next
  case (Some b)
  have "rate * (of_nat (now - last_refill b) / 10 ^ 9) + rate * (of_nat (t1 - now) / 10 ^ 9)
        = rate * (of_nat (t1 - last_refill b) / 10 ^ 9)"
    using assms Some by (intro credit_split) auto
  then show ?thesis
    by (simp add: Some pot_def refill_def or_insert_bucket_def as_secs_f64_exact min_def
          mult.commute)
qed

lemma try_acquire_inner_consts:
  "rate_per_sec (snd (try_acquire_inner rnd l s now skip)) = rate_per_sec l"
  "burst (snd (try_acquire_inner rnd l s now skip)) = burst l"
  "global_rate_per_sec (snd (try_acquire_inner rnd l s now skip)) = global_rate_per_sec l"
  "global_burst (snd (try_acquire_inner rnd l s now skip)) = global_burst l"
  by (simp_all add: try_acquire_inner_def Let_def)

lemma last_refill_simps [simp]:
  "last_refill (refill rnd r c now b) = now"
  "last_refill (take_token rnd b) = last_refill b"
  by (simp_all add: refill_def take_token_def)

lemma times_le_step:
  "times_le l now \<Longrightarrow> times_le (snd (try_acquire_inner rnd l s now skip)) now"
  by (auto simp: times_le_def try_acquire_inner_def Let_def)

lemma times_le_mono: "times_le l t \<Longrightarrow> t \<le> t' \<Longrightarrow> times_le l t'"
  unfolding times_le_def by (meson order_trans)

lemma session_pot_step:
  assumes "0 \<le> rate_per_sec l" "t0 \<le> now" "now \<le> t1" "times_le l now"
    and "try_acquire_inner (\<lambda>x. x) l s' now skip = (r, l')"
  shows "pot (rate_per_sec l) (burst l) t0 t1 (buckets l' s) + of_bool (s' = s \<and> is_ok r)
         \<le> pot (rate_per_sec l) (burst l) t0 t1 (buckets l s)"
proof -
  have "pot (rate_per_sec l) (burst l) t0 t1
          (Some (refill (\<lambda>x. x) (rate_per_sec l) (burst l) now
                   (or_insert_bucket (burst l) now (buckets l s))))
        \<le> pot (rate_per_sec l) (burst l) t0 t1 (buckets l s)"
    using assms by (intro pot_refill) (auto simp: times_le_def)
  then show ?thesis
    using assms(5)
    by (auto simp: try_acquire_inner_def Let_def is_ok_def pot_take split: if_splits)
qed

lemma global_pot_step:
  assumes "0 \<le> global_rate_per_sec l" "t0 \<le> now" "now \<le> t1" "times_le l now"
    and "try_acquire_inner (\<lambda>x. x) l s now skip = (r, l')"
  shows "pot (global_rate_per_sec l) (global_burst l) t0 t1 (global_bucket l')
           + of_bool (\<not> skip \<and> is_ok r)
         \<le> pot (global_rate_per_sec l) (global_burst l) t0 t1 (global_bucket l)"
proof -
  have "pot (global_rate_per_sec l) (global_burst l) t0 t1
          (Some (refill (\<lambda>x. x) (global_rate_per_sec l) (global_burst l) now
                   (or_insert_bucket (global_burst l) now (global_bucket l))))
        \<le> pot (global_rate_per_sec l) (global_burst l) t0 t1 (global_bucket l)"
    using assms by (intro pot_refill) (auto simp: times_le_def)
  then show ?thesis
    using assms(5)
    by (auto simp: try_acquire_inner_def Let_def is_ok_def pot_take split: if_splits)
qed

lemma rl_run_pots:
  assumes "rl_wf l" "sorted (map (\<lambda>q. fst (snd q)) rs)"
    and "\<forall>q \<in> set rs. t0 \<le> fst (snd q) \<and> fst (snd q) \<le> t1 \<and> times_le l (fst (snd q))"
  shows "of_nat (length (filter (\<lambda>q. fst q = s) (fst (rl_run (\<lambda>x. x) l rs))))
           \<le> pot (rate_per_sec l) (burst l) t0 t1 (buckets l s) \<and>
         of_nat (length (filter (\<lambda>q. \<not> snd (snd q)) (fst (rl_run (\<lambda>x. x) l rs))))
           \<le> pot (global_rate_per_sec l) (global_burst l) t0 t1 (global_bucket l)"
  using assms
proof (induction rs arbitrary: l)
  case Nil
  then show ?case
    by (auto simp: rl_wf_def bucket_in_def intro!: pot_nonneg)
next
  case (Cons q rs)
  obtain s' now skip where q: "q = (s', now, skip)" by (cases q)
  obtain r l' where st: "try_acquire_inner (\<lambda>x. x) l s' now skip = (r, l')" by fastforce
  have l': "l' = snd (try_acquire_inner (\<lambda>x. x) l s' now skip)" by (simp add: st)
  have tl: "times_le l now" "t0 \<le> now" "now \<le> t1"
    using Cons.prems q by auto
  have wf: "0 \<le> rate_per_sec l" "0 \<le> global_rate_per_sec l"
    using Cons.prems by (auto simp: rl_wf_def)
  have IH: "of_nat (length (filter (\<lambda>q. fst q = s) (fst (rl_run (\<lambda>x. x) l' rs))))
              \<le> pot (rate_per_sec l') (burst l') t0 t1 (buckets l' s) \<and>
            of_nat (length (filter (\<lambda>q. \<not> snd (snd q)) (fst (rl_run (\<lambda>x. x) l' rs))))
              \<le> pot (global_rate_per_sec l') (global_burst l') t0 t1 (global_bucket l')"
  proof (rule Cons.IH)
    show "rl_wf l'"
      unfolding l' by (rule try_acquire_inner_wf [OF f64_rounding_id Cons.prems(1)])
    show "sorted (map (\<lambda>q. fst (snd q)) rs)"
      using Cons.prems(2) by simp
    show "\<forall>q \<in> set rs. t0 \<le> fst (snd q) \<and> fst (snd q) \<le> t1 \<and> times_le l' (fst (snd q))"
      using Cons.prems times_le_step [OF tl(1)] unfolding l'
      by (fastforce simp: q intro: times_le_mono)
  qed
  have same: "rate_per_sec l' = rate_per_sec l" "burst l' = burst l"
      "global_rate_per_sec l' = global_rate_per_sec l" "global_burst l' = global_burst l"
    unfolding l' by (simp_all add: try_acquire_inner_consts)
  show ?case
    using IH session_pot_step [OF wf(1) tl(2,3,1) st, of s] global_pot_step [OF wf(2) tl(2,3,1) st]
    unfolding same
    by (auto simp: q st split: prod.splits)
qed

subsection \<open>The damper\<close>

lemma u32_lt3: "unat (n :: u32) < 3 \<Longrightarrow> unat (n + 1) = unat n + 1"
  by (subst unat_word_ariths) simp

lemma damper_step_sim:
  assumes "unat (lookup_or 0 (counts d) k) = min 3 n"
  shows "unat (lookup_or 0 (counts (damper_step d c)) k) = min 3 (tries_step k n c)"
  using assms u32_lt3
  by (cases c) (auto simp: check_and_record_def note_state_change_def Let_def word_facts)

lemma damper_run_sim:
  "unat (lookup_or 0 (counts (foldl damper_step d cs)) k) = min 3 (foldl (tries_step k) n cs)"
  if "unat (lookup_or 0 (counts d) k) = min 3 n"
  using that by (induction cs arbitrary: d n) (auto intro: damper_step_sim)

subsection \<open>Properties\<close>

text \<open>
  The token-bucket law, in exact arithmetic: over requests made between \<open>t0\<close> and \<open>t1\<close> at
  non-decreasing instants, a new limiter accepts from any one session at most its burst plus its
  rate times the elapsed seconds, and accepts in total, of the requests that are subject to the
  global cap, at most the global burst plus the global rate times the elapsed seconds.
\<close>

theorem rate_limit_bound:
  assumes "sorted (map (\<lambda>q. fst (snd q)) rs)" "\<forall>q \<in> set rs. t0 \<le> fst (snd q) \<and> fst (snd q) \<le> t1"
  shows "of_nat (length (filter (\<lambda>q. fst q = s)
             (fst (rl_run (\<lambda>x. x) (new_with_global (\<lambda>x. x) r b gr gb) rs))))
           \<le> of_nat (unat b) + of_nat (unat r) / 60 * (of_nat (t1 - t0) / 10 ^ 9 :: rat) \<and>
         of_nat (length (filter (\<lambda>q. \<not> snd (snd q))
             (fst (rl_run (\<lambda>x. x) (new_with_global (\<lambda>x. x) r b gr gb) rs))))
           \<le> of_nat (unat gb) + of_nat (unat gr) / 60 * (of_nat (t1 - t0) / 10 ^ 9 :: rat)"
  using rl_run_pots [OF new_with_global_wf [OF f64_rounding_id, of r b gr gb] assms(1),
      of t0 t1 s] assms(2)
  by (auto simp: new_with_global_def times_le_def pot_def split: prod.splits)

theorem rate_limit_bound_witness:
  "of_nat (length (filter (\<lambda>q. fst q = 1)
      (fst (rl_run (\<lambda>x. x) (new_with_global (\<lambda>x. x) 60 2 60 3)
         [(1, 0, False), (1, 0, False), (1, 0, False), (2, 5, True), (1, 1000000000, False)]))))
     \<le> (of_nat (unat (2 :: u32)) + of_nat (unat (60 :: u32)) / 60
           * (of_nat (1000000000 - 0) / 10 ^ 9) :: rat)"
  using rate_limit_bound [of "[(1, 0, False), (1, 0, False), (1, 0, False), (2, 5, True),
      (1, 1000000000, False)]" 0 1000000000 1 60 2 60 3]
  by simp

text \<open>
  Under any IEEE-style rounding and any sequence of requests, at any instants, no bucket of
  a limiter ever goes below zero or above its burst.
\<close>

theorem buckets_stay_in_range:
  assumes "f64_rounding rnd"
    and "l = snd (rl_run rnd (new_with_global rnd r b gr gb) rs)"
  shows "(\<forall>s st. buckets l s = Some st \<longrightarrow> 0 \<le> tokens st \<and> tokens st \<le> burst l) \<and>
         (\<forall>g. global_bucket l = Some g \<longrightarrow> 0 \<le> tokens g \<and> tokens g \<le> global_burst l)"
  using rl_run_wf [OF assms(1) new_with_global_wf [OF assms(1)]] assms(2)
  by (auto simp: rl_wf_def bucket_in_def)

theorem buckets_stay_in_range_witness:
  "\<exists>l. l = snd (rl_run (\<lambda>x. x) (new_with_global (\<lambda>x. x) 60 2 60 3) [(1, 0, False), (1, 7, True)]) \<and>
     (\<forall>s st. buckets l s = Some st \<longrightarrow> 0 \<le> tokens st \<and> tokens st \<le> burst l)"
  using buckets_stay_in_range [OF f64_rounding_id, of _ 60 2 60 3 "[(1, 0, False), (1, 7, True)]"]
  by simp

text \<open>
  The damper counts exactly: after any history of sends and state changes, a send of
  (from, to, subject) is admitted if and only if that triple was tried fewer than three times since
  the last state change noted for it; otherwise the error names the recipient and the subject.
\<close>

theorem damper_exact:
  "fst (check_and_record (foldl damper_step repetition_damper_new cs) from to subject) =
     (if foldl (tries_step (from, to, subject)) 0 cs < 3 then Ok ()
      else Err (Repetitive to subject))"
proof -
  have "unat (lookup_or 0 (counts (foldl damper_step repetition_damper_new cs)) (from, to, subject))
        = min 3 (foldl (tries_step (from, to, subject)) 0 cs)"
    by (rule damper_run_sim) (simp add: repetition_damper_new_def)
  then show ?thesis
    by (auto simp: check_and_record_def Let_def word_facts)
qed

end
