(* ===== verification/Bus_Teams.thy ===== *)
theory Bus_Teams
  imports Bus_Types
begin

text \<open>
  \<^verbatim>\<open>roundhouse-bus/src/teams.rs\<close> and \<^verbatim>\<open>handle_registry.rs\<close>: teams with their rosters and
  lifecycle, and the workspace-scoped table of handles.  A \<^verbatim>\<open>DashMap\<close> is a map and a
  \<^verbatim>\<open>DashSet\<close> a set; the fresh \<^verbatim>\<open>TeamId::new()\<close> is an argument of \<open>create_team\<close>.  The step
  relation \<open>team_step\<close> interleaves the operations at the granularity of the store's atomic
  actions: the state check of a \<^verbatim>\<open>join\<close> may be arbitrarily older than its checked insert.
\<close>

subsection \<open>Teams\<close>

datatype team_state = Active | Draining | Closed

record team =
  tm_id :: team_id
  tm_workspace :: workspace_id
  tm_name :: string
  tm_charter :: string
  tm_created_by :: session_id
  tm_state :: team_state

record membership =
  mb_team :: team_id
  mb_session :: session_id
  mb_role :: string
  mb_ended :: bool

record team_registry =
  tr_teams :: "team_id \<rightharpoonup> team"
  tr_memberships :: "team_id \<rightharpoonup> membership list"
  tr_human_sessions :: "session_id set"

definition save_team :: "team_registry \<Rightarrow> team \<Rightarrow> team_registry" where
  "save_team r t = r\<lparr>tr_teams := (tr_teams r)(tm_id t \<mapsto> t)\<rparr>"

definition save_membership :: "team_registry \<Rightarrow> membership \<Rightarrow> team_registry" where
  "save_membership r m =
     r\<lparr>tr_memberships := (tr_memberships r)
         (mb_team m \<mapsto> lookup_or [] (tr_memberships r) (mb_team m) @ [m])\<rparr>"

definition live :: "membership list \<Rightarrow> membership list" where
  "live ms = filter (\<lambda>m. \<not> mb_ended m) ms"

text \<open>The entry lock is held over the count and the push, so this is one atomic action.\<close>

definition save_membership_checked ::
  "team_registry \<Rightarrow> membership \<Rightarrow> (unit, bus_error) result \<times> team_registry" where
  "save_membership_checked r m =
     (let slot = lookup_or [] (tr_memberships r) (mb_team m);
          current = (of_nat (length (live slot)) :: u32);
          put = (\<lambda>v. r\<lparr>tr_memberships := (tr_memberships r)(mb_team m \<mapsto> v)\<rparr>)
      in case check_team_size (current + 1) of
           Inl e \<Rightarrow> (Err e, put slot)
         | Inr _ \<Rightarrow> (Ok (), put (slot @ [m])))"

definition team_registry_new :: team_registry where
  "team_registry_new =
     \<lparr>tr_teams = Map.empty, tr_memberships = Map.empty, tr_human_sessions = {}\<rparr>"

definition mark_human :: "team_registry \<Rightarrow> session_id \<Rightarrow> team_registry" where
  "mark_human r s = r\<lparr>tr_human_sessions := insert s (tr_human_sessions r)\<rparr>"

definition create_team ::
  "team_id \<Rightarrow> team_registry \<Rightarrow> workspace_id \<Rightarrow> string \<Rightarrow> string \<Rightarrow> session_id \<Rightarrow> string
     \<Rightarrow> (team_id, bus_error) result \<times> team_registry" where
  "create_team fresh r workspace name charter creator creator_role =
     (if creator \<in> tr_human_sessions r then (Err (HumanCannotJoinTeam creator), r)
      else (Ok fresh,
            save_membership
              (save_team r
                 \<lparr>tm_id = fresh, tm_workspace = workspace, tm_name = name, tm_charter = charter,
                  tm_created_by = creator, tm_state = Active\<rparr>)
              \<lparr>mb_team = fresh, mb_session = creator, mb_role = creator_role, mb_ended = False\<rparr>))"

text \<open>The first half of \<^verbatim>\<open>join\<close>: the human check and the lifecycle check, both reads.\<close>

definition join_guard :: "team_registry \<Rightarrow> team_id \<Rightarrow> session_id \<Rightarrow> (unit, bus_error) result" where
  "join_guard r t s =
     (if s \<in> tr_human_sessions r then Err (HumanCannotJoinTeam s)
      else let st = (case tr_teams r t of None \<Rightarrow> Closed | Some tm \<Rightarrow> tm_state tm)
           in if st = Draining \<or> st = Closed then Err (TeamDraining t) else Ok ())"

definition join_membership :: "team_id \<Rightarrow> session_id \<Rightarrow> string option \<Rightarrow> membership" where
  "join_membership t s role =
     \<lparr>mb_team = t, mb_session = s,
      mb_role = (case role of None \<Rightarrow> ''worker'' | Some r \<Rightarrow> r), mb_ended = False\<rparr>"

definition join ::
  "team_registry \<Rightarrow> team_id \<Rightarrow> session_id \<Rightarrow> string option
     \<Rightarrow> (unit, bus_error) result \<times> team_registry" where
  "join r t s role =
     (case join_guard r t s of
        Inl e \<Rightarrow> (Err e, r)
      | Inr _ \<Rightarrow> save_membership_checked r (join_membership t s role))"

definition roster :: "team_registry \<Rightarrow> team_id \<Rightarrow> membership list option" where
  "roster r t = tr_memberships r t"

definition can_read_team_memory :: "team_registry \<Rightarrow> team_id \<Rightarrow> session_id \<Rightarrow> bool" where
  "can_read_team_memory r t s =
     (case roster r t of None \<Rightarrow> False
      | Some ms \<Rightarrow> list_ex (\<lambda>m. mb_session m = s \<and> \<not> mb_ended m) ms)"

definition can_write_team_memory :: "team_registry \<Rightarrow> team_id \<Rightarrow> session_id \<Rightarrow> bool" where
  "can_write_team_memory r t s = False"

definition team_of :: "team_registry \<Rightarrow> team_id \<Rightarrow> team option" where
  "team_of r t = tr_teams r t"

definition is_lead :: "team_registry \<Rightarrow> team_id \<Rightarrow> session_id \<Rightarrow> bool" where
  "is_lead r t s \<longleftrightarrow>
     (case team_of r t of None \<Rightarrow> False | Some tm \<Rightarrow> tm_created_by tm = s) \<or>
     (case roster r t of None \<Rightarrow> False
      | Some ms \<Rightarrow> list_ex (\<lambda>m. mb_session m = s \<and> mb_role m = ''lead'') ms)"

definition team_state_of :: "team_registry \<Rightarrow> team_id \<Rightarrow> team_state option" where
  "team_state_of r t = map_option tm_state (tr_teams r t)"

definition begin_draining ::
  "team_registry \<Rightarrow> team_id \<Rightarrow> (unit, bus_error) result \<times> team_registry" where
  "begin_draining r t =
     (Ok (), case tr_teams r t of None \<Rightarrow> r
             | Some tm \<Rightarrow> r\<lparr>tr_teams := (tr_teams r)(t \<mapsto> tm\<lparr>tm_state := Draining\<rparr>)\<rparr>)"

definition end_if :: "session_id \<Rightarrow> membership \<Rightarrow> membership" where
  "end_if s m = (if mb_session m = s then m\<lparr>mb_ended := True\<rparr> else m)"

definition mark_member_ended ::
  "team_registry \<Rightarrow> team_id \<Rightarrow> session_id \<Rightarrow> (unit, bus_error) result \<times> team_registry" where
  "mark_member_ended r t s =
     (Ok (), case tr_memberships r t of None \<Rightarrow> r
             | Some ms \<Rightarrow> r\<lparr>tr_memberships := (tr_memberships r)(t \<mapsto> map (end_if s) ms)\<rparr>)"

definition reap_team :: "team_registry \<Rightarrow> team \<Rightarrow> team" where
  "reap_team r tm =
     (if tm_state tm \<noteq> Draining then tm
      else let all_ended = (case tr_memberships r (tm_id tm) of None \<Rightarrow> False
                            | Some ms \<Rightarrow> ms \<noteq> [] \<and> list_all mb_ended ms)
           in if all_ended then tm\<lparr>tm_state := Closed\<rparr> else tm)"

definition reap_ended :: "team_registry \<Rightarrow> team_registry" where
  "reap_ended r = r\<lparr>tr_teams := (\<lambda>t. map_option (reap_team r) (tr_teams r t))\<rparr>"

subsection \<open>Handles\<close>

type_synonym handle_registry = "workspace_id \<rightharpoonup> (string \<rightharpoonup> session_id)"

definition handle_registry_new :: handle_registry where
  "handle_registry_new = Map.empty"

definition register_handle ::
  "handle_registry \<Rightarrow> workspace_id \<Rightarrow> string \<Rightarrow> session_id
     \<Rightarrow> (unit, bus_error) result \<times> handle_registry" where
  "register_handle h w name s =
     (let names = lookup_or Map.empty h w
      in case names name of
           Some existing \<Rightarrow>
             if existing \<noteq> s then (Err (HandleAlreadyRegistered w name), h(w \<mapsto> names))
             else (Ok (), h(w \<mapsto> names))
         | None \<Rightarrow> (Ok (), h(w \<mapsto> names(name \<mapsto> s))))"

definition unregister_handle ::
  "handle_registry \<Rightarrow> workspace_id \<Rightarrow> string \<Rightarrow> session_id
     \<Rightarrow> (unit, bus_error) result \<times> handle_registry" where
  "unregister_handle h w name expected =
     (case h w of
        None \<Rightarrow> (Ok (), h)
      | Some names \<Rightarrow>
          (case names name of
             None \<Rightarrow> (Ok (), h)
           | Some owner \<Rightarrow>
               if owner \<noteq> expected then (Err (NotAuthorizedForHandle w name), h)
               else (Ok (), h(w \<mapsto> names(name := None)))))"

definition resolve_handle ::
  "handle_registry \<Rightarrow> workspace_id \<Rightarrow> string \<Rightarrow> (session_id, bus_error) result" where
  "resolve_handle h w name =
     ok_or (UnknownHandle w name) (case h w of None \<Rightarrow> None | Some names \<Rightarrow> names name)"

fun resolve_address ::
  "handle_registry \<Rightarrow> workspace_id \<Rightarrow> address \<Rightarrow> (session_id, bus_error) result" where
  "resolve_address h w (AddrSession s) = Ok s"
| "resolve_address h w (AddrHandle claimed name) =
     (if claimed \<noteq> w then Err (UnknownHandle w name) else resolve_handle h w name)"
| "resolve_address h w (AddrHuman s) = Ok s"
| "resolve_address h w (AddrTeam _) = Err (UnknownHandle w ''<fan-out address>'')"
| "resolve_address h w (AddrRole _ _) = Err (UnknownHandle w ''<fan-out address>'')"

subsection \<open>Interleaved operation\<close>

inductive team_step :: "team_registry \<Rightarrow> team_registry \<Rightarrow> bool" where
  ts_create: "tr_teams r t = None \<Longrightarrow> tr_memberships r t = None
     \<Longrightarrow> team_step r (snd (create_team t r w name charter creator role))"
| ts_join: "\<not> mb_ended m \<Longrightarrow> team_step r (snd (save_membership_checked r m))"
| ts_human: "team_step r (mark_human r s)"
| ts_drain: "team_step r (snd (begin_draining r t))"
| ts_end: "team_step r (snd (mark_member_ended r t s))"
| ts_reap: "team_step r (reap_ended r)"

inductive_cases team_step_elim: "team_step r r'"

definition team_reachable :: "team_registry \<Rightarrow> bool" where
  "team_reachable r \<longleftrightarrow> team_step\<^sup>*\<^sup>* team_registry_new r"

definition sizes_ok :: "team_registry \<Rightarrow> bool" where
  "sizes_ok r \<longleftrightarrow> (\<forall>t ms. tr_memberships r t = Some ms \<longrightarrow> length (live ms) \<le> 32)"

lemma live_simps [simp]:
  "live [] = []" "live [m] = (if mb_ended m then [] else [m])" "live (ms @ [m]) = live ms @ (if mb_ended m then [] else [m])"
  by (simp_all add: live_def)

lemma length_live_end_if: "length (live (map (end_if s) ms)) \<le> length (live ms)"
  by (induction ms) (auto simp: live_def end_if_def)

text \<open>The 32-bit counter does not wrap below the limit.\<close>

lemma team_count_fits:
  "n \<le> 32 \<Longrightarrow> unat ((of_nat n :: u32) + 1) = n + 1"
  by (subst unat_word_ariths) (simp add: unat_of_nat)

lemma save_membership_checked_sizes:
  assumes "sizes_ok r" "\<not> mb_ended m"
  shows "sizes_ok (snd (save_membership_checked r m))"
proof -
  have "length (live (lookup_or [] (tr_memberships r) (mb_team m))) \<le> 32"
    using assms(1) by (auto simp: sizes_ok_def lookup_or_def split: option.splits)
  then show ?thesis
    using assms team_count_fits
    by (auto simp: save_membership_checked_def Let_def sizes_ok_def check_team_size_Ok
        split: sum.splits)
qed

lemma team_step_sizes: "team_step r r' \<Longrightarrow> sizes_ok r \<Longrightarrow> sizes_ok r'"
proof (induction rule: team_step.induct)
  case (ts_join m r)
  then show ?case by (simp add: save_membership_checked_sizes)
next
  case (ts_end r t s)
  then show ?case
    by (auto simp: mark_member_ended_def sizes_ok_def split: option.splits
        intro: order_trans [OF length_live_end_if])
qed (auto simp: sizes_ok_def create_team_def save_team_def save_membership_def lookup_or_def
       mark_human_def begin_draining_def reap_ended_def split: option.splits)

lemma team_reachable_sizes: "team_reachable r \<Longrightarrow> sizes_ok r"
proof -
  assume "team_reachable r"
  then have "team_step\<^sup>*\<^sup>* team_registry_new r"
    by (simp add: team_reachable_def)
  then show ?thesis
    by induction (simp_all add: sizes_ok_def team_registry_new_def team_step_sizes [unfolded sizes_ok_def])
qed

lemma team_step_inactive:
  "team_step r r' \<Longrightarrow> team_state_of r t = Some st \<Longrightarrow> st \<noteq> Active
   \<Longrightarrow> \<exists>st'. team_state_of r' t = Some st' \<and> st' \<noteq> Active"
proof (induction rule: team_step.induct)
  case (ts_reap r)
  have "tm_state tm \<noteq> Active \<Longrightarrow> tm_state (reap_team r tm) \<noteq> Active" for tm
    by (simp add: reap_team_def Let_def)
  then show ?case
    using ts_reap by (auto simp: team_state_of_def reap_ended_def)
qed (auto simp: team_state_of_def create_team_def save_team_def save_membership_def
       save_membership_checked_def Let_def mark_human_def begin_draining_def mark_member_ended_def
       split: option.splits sum.splits)

lemma team_steps_inactive:
  "team_step\<^sup>*\<^sup>* r r' \<Longrightarrow> team_state_of r t = Some st \<Longrightarrow> st \<noteq> Active
   \<Longrightarrow> \<exists>st'. team_state_of r' t = Some st' \<and> st' \<noteq> Active"
  by (induction rule: rtranclp_induct) (blast intro: team_step_inactive)+

lemma join_inactive:
  assumes "team_state_of r t = Some st" "st \<noteq> Active"
  shows "join r t s role =
         (Err (if s \<in> tr_human_sessions r then HumanCannotJoinTeam s else TeamDraining t), r)"
  using assms by (cases st) (auto simp: join_def join_guard_def team_state_of_def)

subsection \<open>Owned names\<close>

text \<open>
  The contract of a table of owned names: registering a free name records its owner and changes
  nothing else, and only the owner's own request frees it.
\<close>

datatype ('k, 's) name_op = Register 'k 's | Unregister 'k 's

locale owned_names =
  fixes reg :: "'h \<Rightarrow> 'k \<Rightarrow> 's \<Rightarrow> 'h"
    and unreg :: "'h \<Rightarrow> 'k \<Rightarrow> 's \<Rightarrow> 'h"
    and owner :: "'h \<Rightarrow> 'k \<Rightarrow> 's option"
  assumes owner_reg: "owner (reg h k s) k' =
            (if k' = k \<and> owner h k = None then Some s else owner h k')"
    and owner_unreg: "owner (unreg h k s) k' =
            (if k' = k \<and> owner h k = Some s then None else owner h k')"
begin

definition run :: "'h \<Rightarrow> ('k, 's) name_op list \<Rightarrow> 'h" where
  "run = foldl (\<lambda>h op. case op of Register k s \<Rightarrow> reg h k s | Unregister k s \<Rightarrow> unreg h k s)"

lemma owner_stable:
  "owner h k = Some s \<Longrightarrow> Unregister k s \<notin> set ops \<Longrightarrow> owner (run h ops) k = Some s"
proof (induction ops arbitrary: h)
  case (Cons op ops)
  have "run h (op # ops) = run (run h [op]) ops"
    by (simp add: run_def)
  moreover have "owner (run h [op]) k = Some s"
    using Cons.prems by (cases op) (auto simp: run_def owner_reg owner_unreg)
  ultimately show ?case
    using Cons by simp
qed (simp add: run_def)

lemma owner_from_register:
  "owner (run h ops) k = Some s \<Longrightarrow> owner h k = Some s \<or> Register k s \<in> set ops"
proof (induction ops arbitrary: h)
  case (Cons op ops)
  have "owner (run (run h [op]) ops) k = Some s"
    using Cons.prems by (simp add: run_def)
  moreover have "owner (run h [op]) k = Some s \<Longrightarrow> owner h k = Some s \<or> op = Register k s"
    by (cases op) (auto simp: run_def owner_reg owner_unreg split: if_splits)
  ultimately show ?case
    using Cons.IH [of "run h [op]"] by auto
qed (simp add: run_def)

end

definition handle_owner :: "handle_registry \<Rightarrow> workspace_id \<times> string \<Rightarrow> session_id option" where
  "handle_owner h k = (case h (fst k) of None \<Rightarrow> None | Some names \<Rightarrow> names (snd k))"

lemma resolve_handle_owner: "resolve_handle h w n = ok_or (UnknownHandle w n) (handle_owner h (w, n))"
  by (simp add: resolve_handle_def handle_owner_def split: option.split)

interpretation handles: owned_names
  "\<lambda>h k s. snd (register_handle h (fst k) (snd k) s)"
  "\<lambda>h k s. snd (unregister_handle h (fst k) (snd k) s)"
  handle_owner
  by unfold_locales
    (auto simp: handle_owner_def register_handle_def unregister_handle_def Let_def lookup_or_def
       split: option.splits)

lemma register_handle_result:
  "fst (register_handle h w n s) =
     (case handle_owner h (w, n) of
        Some s' \<Rightarrow> if s' = s then Ok () else Err (HandleAlreadyRegistered w n)
      | None \<Rightarrow> Ok ())"
  by (auto simp: handle_owner_def register_handle_def Let_def lookup_or_def split: option.splits)

definition handle_step ::
  "handle_registry \<Rightarrow> (workspace_id \<times> string, session_id) name_op \<Rightarrow> handle_registry" where
  "handle_step h op =
     (case op of Register k s \<Rightarrow> snd (register_handle h (fst k) (snd k) s)
      | Unregister k s \<Rightarrow> snd (unregister_handle h (fst k) (snd k) s))"

lemma handles_run: "handles.run h ops = foldl handle_step h ops"
  by (simp add: handles.run_def handle_step_def [abs_def])

subsection \<open>Properties\<close>

text \<open>
  However creations, joins, endings, drains and reaps interleave, and however stale the
  check that a join made before its insert, no team ever has more than 32 live members.
\<close>

theorem team_size_bounded:
  "team_reachable r \<Longrightarrow> roster r t = Some ms \<Longrightarrow> length (live ms) \<le> 32"
  using team_reachable_sizes by (auto simp: sizes_ok_def roster_def)

lemma team_reachable_example:
  "team_reachable (snd (create_team 7 team_registry_new 1 ''t'' ''c'' 5 ''lead''))"
  unfolding team_reachable_def
  by (rule r_into_rtranclp, rule ts_create) (simp_all add: team_registry_new_def)

theorem team_size_bounded_witness:
  "length (live [\<lparr>mb_team = 7, mb_session = 5, mb_role = ''lead'', mb_ended = False\<rparr>]) \<le> 32"
  by (rule team_size_bounded [OF team_reachable_example, where t = 7])
     (simp add: roster_def create_team_def save_membership_def save_team_def team_registry_new_def)

text \<open>
  Draining is final for admission: once a team is Draining or Closed, then after any
  further interleaving of operations every join is refused, with no change to the registry, and
  the error is the human refusal for a human session and \<open>TeamDraining\<close> for any other.
\<close>

theorem draining_refuses_joins:
  assumes "team_state_of r t = Some st" "st \<noteq> Active" "team_step\<^sup>*\<^sup>* r r'"
  shows "join r' t s role =
         (Err (if s \<in> tr_human_sessions r' then HumanCannotJoinTeam s else TeamDraining t), r')"
  using team_steps_inactive [OF assms(3,1,2)] join_inactive by blast

theorem draining_refuses_joins_witness:
  "let r = snd (begin_draining (snd (create_team 7 team_registry_new 1 ''t'' ''c'' 5 ''lead'')) 7)
   in join (reap_ended r) 7 9 None = (Err (TeamDraining 7), reap_ended r)"
proof -
  let ?r = "snd (begin_draining (snd (create_team 7 team_registry_new 1 ''t'' ''c'' 5 ''lead'')) 7)"
  have "team_step\<^sup>*\<^sup>* ?r (reap_ended ?r)"
    by (rule r_into_rtranclp, rule ts_reap)
  moreover have "team_state_of ?r 7 = Some Draining" "9 \<notin> tr_human_sessions (reap_ended ?r)"
    by (simp_all add: team_state_of_def begin_draining_def create_team_def save_membership_def
        save_team_def team_registry_new_def reap_ended_def)
  ultimately show ?thesis
    using draining_refuses_joins [of ?r 7 Draining "reap_ended ?r" 9 None] by (simp add: Let_def)
qed

text \<open>
  A handle stays with its owner: if \<open>name\<close> resolves to \<open>s\<close> in workspace \<open>w\<close>, then after any
  registrations and unregistrations by any sessions in any workspaces, as long as \<open>s\<close> itself does
  not unregister it, it still resolves to \<open>s\<close>, and every other session that tries to register it is
  refused with \<open>HandleAlreadyRegistered\<close>.
\<close>

theorem handle_owner_stable:
  assumes "resolve_handle h w name = Ok s" "Unregister (w, name) s \<notin> set ops"
  shows "resolve_handle (foldl handle_step h ops) w name = Ok s \<and>
         (\<forall>s'. s' \<noteq> s \<longrightarrow>
            fst (register_handle (foldl handle_step h ops) w name s')
            = Err (HandleAlreadyRegistered w name))"
  using handles.owner_stable [of h "(w, name)" s ops] assms
  by (auto simp: resolve_handle_owner handles_run register_handle_result)

theorem handle_owner_stable_witness:
  "resolve_handle (foldl handle_step (snd (register_handle handle_registry_new 1 ''ada'' 5))
      [Register (1, ''ada'') 6, Unregister (1, ''ada'') 6, Unregister (2, ''ada'') 5]) 1 ''ada'' = Ok 5"
  using handle_owner_stable [of "snd (register_handle handle_registry_new 1 ''ada'' 5)" 1 "''ada''" 5
      "[Register (1, ''ada'') 6, Unregister (1, ''ada'') 6, Unregister (2, ''ada'') 5]"]
  by (simp add: resolve_handle_def register_handle_def handle_registry_new_def Let_def)

end
