(* ===== verification/Bus_Local.thy ===== *)
theory Bus_Local
  imports Bus_Wait_Graph Bus_Rate_Limit Bus_Teams
begin

text \<open>
  \<^verbatim>\<open>roundhouse-bus/src/local_bus.rs\<close> with the modules it is assembled from: \<^verbatim>\<open>mailbox.rs\<close>,
  \<^verbatim>\<open>event_sink.rs\<close>, \<^verbatim>\<open>human_notifications.rs\<close> and \<^verbatim>\<open>restart.rs\<close>.  Each operation of
  \<^verbatim>\<open>LocalBus\<close> maps the bus to its result and the bus it leaves, with the effects of the steps
  already taken on every error path.  The two clocks a \<^verbatim>\<open>send\<close> reads (the \<^verbatim>\<open>Instant\<close> of the
  rate limiter and the Unix milliseconds of a human notification) are arguments, as is the
  rounding of the limiter's \<^verbatim>\<open>f64\<close> arithmetic.
\<close>

subsection \<open>Mailboxes\<close>

datatype mailbox_kind = Bounded nat | Unbounded

definition DEFAULT_MAILBOX_CAPACITY :: nat where
  [rh_simps]: "DEFAULT_MAILBOX_CAPACITY = 64"

record mailbox =
  mx_kind :: mailbox_kind
  mx_queue :: "envelope list"

definition mailbox_new :: "mailbox_kind \<Rightarrow> mailbox" where
  "mailbox_new k = \<lparr>mx_kind = k, mx_queue = []\<rparr>"

definition mailbox_push ::
  "mailbox \<Rightarrow> session_id \<Rightarrow> envelope \<Rightarrow> (unit, bus_error) result \<times> mailbox" where
  "mailbox_push m s e =
     (case mx_kind m of
        Bounded capacity \<Rightarrow>
          if length (mx_queue m) \<ge> capacity then (Err (MailboxFull s capacity), m)
          else (Ok (), m\<lparr>mx_queue := mx_queue m @ [e]\<rparr>)
      | Unbounded \<Rightarrow> (Ok (), m\<lparr>mx_queue := mx_queue m @ [e]\<rparr>))"

definition mailbox_pop_front :: "mailbox \<Rightarrow> envelope option \<times> mailbox" where
  "mailbox_pop_front m =
     (case mx_queue m of [] \<Rightarrow> (None, m) | e # es \<Rightarrow> (Some e, m\<lparr>mx_queue := es\<rparr>))"

definition mailbox_len :: "mailbox \<Rightarrow> nat" where
  "mailbox_len m = length (mx_queue m)"

definition mailbox_is_empty :: "mailbox \<Rightarrow> bool" where
  "mailbox_is_empty m = (mx_queue m = [])"

subsection \<open>The event sink and human notifications\<close>

record event_sink =
  sink_seen :: "(session_id \<times> message_id) set"
  sink_outbound :: "(session_id \<times> message_id) set"

definition event_sink_new :: event_sink where
  "event_sink_new = \<lparr>sink_seen = {}, sink_outbound = {}\<rparr>"

definition is_duplicate :: "event_sink \<Rightarrow> session_id \<Rightarrow> message_id \<Rightarrow> bool" where
  "is_duplicate k s m = ((s, m) \<in> sink_seen k)"

definition record_inbound :: "event_sink \<Rightarrow> session_id \<Rightarrow> message_id \<Rightarrow> event_sink" where
  "record_inbound k s m = k\<lparr>sink_seen := insert (s, m) (sink_seen k)\<rparr>"

definition record_outbound :: "event_sink \<Rightarrow> session_id \<Rightarrow> message_id \<Rightarrow> event_sink" where
  "record_outbound k s m = k\<lparr>sink_outbound := insert (s, m) (sink_outbound k)\<rparr>"

record human_notification =
  hn_from :: session_id
  hn_envelope :: envelope
  hn_ts_unix_ms :: int

type_synonym human_notifications = "session_id \<rightharpoonup> human_notification list"

definition notifications_push ::
  "human_notifications \<Rightarrow> session_id \<Rightarrow> human_notification \<Rightarrow> human_notifications" where
  "notifications_push h s n = h(s \<mapsto> lookup_or [] h s @ [n])"

definition notifications_list ::
  "human_notifications \<Rightarrow> session_id \<Rightarrow> human_notification list" where
  "notifications_list h s = lookup_or [] h s"

definition notifications_drain ::
  "human_notifications \<Rightarrow> session_id \<Rightarrow> human_notification list \<times> human_notifications" where
  "notifications_drain h s = (lookup_or [] h s, h(s := None))"

subsection \<open>The bus\<close>

record local_bus =
  mailboxes :: "session_id \<rightharpoonup> mailbox"
  handles :: handle_registry
  lb_wait_graph :: wait_graph
  sink :: event_sink
  human_sessions :: "session_id set"
  human_notifications :: human_notifications
  teams :: team_registry
  lb_rate_limiter :: rate_limiter
  damper :: repetition_damper

definition local_bus_new :: "rounding \<Rightarrow> local_bus" where
  "local_bus_new rnd =
     \<lparr>mailboxes = Map.empty, handles = handle_registry_new, lb_wait_graph = wait_graph_new,
      sink = event_sink_new, human_sessions = {}, human_notifications = Map.empty,
      teams = team_registry_new, lb_rate_limiter = rate_limiter_default rnd,
      damper = repetition_damper_new\<rparr>"

definition register_human :: "local_bus \<Rightarrow> session_id \<Rightarrow> local_bus" where
  "register_human b s = b\<lparr>human_sessions := insert s (human_sessions b)\<rparr>"

definition list_human_notifications :: "local_bus \<Rightarrow> session_id \<Rightarrow> human_notification list" where
  "list_human_notifications b s = notifications_list (human_notifications b) s"

definition drain_human_notifications ::
  "local_bus \<Rightarrow> session_id \<Rightarrow> human_notification list \<times> local_bus" where
  "drain_human_notifications b s =
     (let (ns, h) = notifications_drain (human_notifications b) s
      in (ns, b\<lparr>human_notifications := h\<rparr>))"

definition register_mailbox ::
  "local_bus \<Rightarrow> session_id \<Rightarrow> mailbox_kind \<Rightarrow> (unit, bus_error) result \<times> local_bus" where
  "register_mailbox b s k =
     (Ok (), case mailboxes b s of
               Some _ \<Rightarrow> b
             | None \<Rightarrow> b\<lparr>mailboxes := (mailboxes b)(s \<mapsto> mailbox_new k)\<rparr>)"

definition deregister_mailbox ::
  "local_bus \<Rightarrow> session_id \<Rightarrow> (unit, bus_error) result \<times> local_bus" where
  "deregister_mailbox b s = (Ok (), b\<lparr>mailboxes := (mailboxes b)(s := None)\<rparr>)"

definition has_mailbox :: "local_bus \<Rightarrow> session_id \<Rightarrow> bool" where
  "has_mailbox b s = (mailboxes b s \<noteq> None)"

definition team_in_workspace ::
  "local_bus \<Rightarrow> workspace_id \<Rightarrow> team_id \<Rightarrow> (team, bus_error) result" where
  "team_in_workspace b w t =
     ok_or (UnknownHandle w ''<unknown team>'')
       (case team_of (teams b) t of
          None \<Rightarrow> None
        | Some tm \<Rightarrow> if tm_workspace tm = w then Some tm else None)"

text \<open>The common body of the team and role branches of \<^verbatim>\<open>resolve_recipients\<close>.\<close>

definition team_recipients ::
  "local_bus \<Rightarrow> workspace_id \<Rightarrow> team_id \<Rightarrow> string option
     \<Rightarrow> (session_id list, bus_error) result" where
  "team_recipients b w t role =
     res_bind (team_in_workspace b w t) (\<lambda>found.
       if tm_state found = Draining \<or> tm_state found = Closed then Err (TeamDraining t)
       else res_bind (ok_or (UnknownHandle w ''<unknown team>'') (roster (teams b) t)) (\<lambda>ms.
         let recipients = map mb_session
               (filter (\<lambda>m. \<not> mb_ended m \<and>
                             (case role of None \<Rightarrow> True | Some r \<Rightarrow> mb_role m = r)) ms)
         in if recipients = [] then Err (NoLiveRecipients t role) else Ok recipients))"

fun resolve_recipients ::
  "local_bus \<Rightarrow> workspace_id \<Rightarrow> address \<Rightarrow> (session_id list, bus_error) result" where
  "resolve_recipients b w (AddrTeam t) = team_recipients b w t None"
| "resolve_recipients b w (AddrRole t role) = team_recipients b w t (Some role)"
| "resolve_recipients b w other = map_sum id (\<lambda>s. [s]) (resolve_address (handles b) w other)"

definition notify_human :: "local_bus \<Rightarrow> envelope \<Rightarrow> int \<Rightarrow> local_bus" where
  "notify_human b e ts =
     b\<lparr>human_notifications := notifications_push (human_notifications b) (env_to e)
         \<lparr>hn_from = env_from e, hn_envelope = e, hn_ts_unix_ms = ts\<rparr>\<rparr>"

definition is_human_originated :: "local_bus \<Rightarrow> envelope \<Rightarrow> bool" where
  "is_human_originated b e \<longleftrightarrow>
     env_from e \<in> human_sessions b \<or> pv_origin (env_provenance e) = OriginUser"

text \<open>The rate cap and, for a message no human originated, the damper (lines 242-261).\<close>

definition admit ::
  "rounding \<Rightarrow> local_bus \<Rightarrow> envelope \<Rightarrow> instant \<Rightarrow> (unit, bus_error) result \<times> local_bus" where
  "admit rnd b e now =
     (if is_human_originated b e
      then let (r, l) = try_acquire_session_only rnd (lb_rate_limiter b) (env_from e) now
           in (r, b\<lparr>lb_rate_limiter := l\<rparr>)
      else let (r, l) = try_acquire rnd (lb_rate_limiter b) (env_from e) now;
               b1 = b\<lparr>lb_rate_limiter := l\<rparr>
           in case r of
                Inl err \<Rightarrow> (Err err, b1)
              | Inr _ \<Rightarrow>
                  let (r2, d) = check_and_record (damper b1) (env_from e) (env_to e) (env_subject e)
                  in (r2, b1\<lparr>damper := d\<rparr>))"

text \<open>Delivery proper (lines 270-298), the mailbox lock held from the lookup to the end.\<close>

definition deliver ::
  "local_bus \<Rightarrow> envelope \<Rightarrow> int \<Rightarrow> (unit, bus_error) result \<times> local_bus" where
  "deliver b e ts =
     (let to = env_to e
      in if to \<in> human_sessions b then (Ok (), notify_human b e ts)
         else case mailboxes b to of
                None \<Rightarrow> (Err (Undeliverable (Ended to)), b)
              | Some mx \<Rightarrow>
                  if is_duplicate (sink b) to (env_id e) then (Ok (), b)
                  else (case mailbox_push mx to e of
                          (Inl err, _) \<Rightarrow> (Err err, b)
                        | (Inr _, mx') \<Rightarrow>
                            (Ok (), b\<lparr>mailboxes := (mailboxes b)(to \<mapsto> mx'),
                                      sink := record_inbound (sink b) to (env_id e)\<rparr>)))"

definition send ::
  "rounding \<Rightarrow> local_bus \<Rightarrow> envelope \<Rightarrow> instant \<Rightarrow> int \<Rightarrow> (unit, bus_error) result \<times> local_bus" where
  "send rnd b e now ts =
     (case decrement_ttl (env_ttl_hops e) of
        Inl err \<Rightarrow> (Err err, b)
      | Inr ttl \<Rightarrow>
          (case admit rnd b e now of
             (Inl err, b1) \<Rightarrow> (Err err, b1)
           | (Inr _, b1) \<Rightarrow> deliver b1 (e\<lparr>env_ttl_hops := ttl\<rparr>) ts))"

definition poll :: "local_bus \<Rightarrow> session_id \<Rightarrow> (envelope option, bus_error) result \<times> local_bus" where
  "poll b s =
     (case mailboxes b s of
        None \<Rightarrow> (Err (Undeliverable (Ended s)), b)
      | Some mx \<Rightarrow> let (e, mx') = mailbox_pop_front mx
                  in (Ok e, b\<lparr>mailboxes := (mailboxes b)(s \<mapsto> mx')\<rparr>))"

definition requeue :: "local_bus \<Rightarrow> envelope \<Rightarrow> int \<Rightarrow> (unit, bus_error) result \<times> local_bus" where
  "requeue b e ts =
     (let to = env_to e
      in if to \<in> human_sessions b then (Ok (), notify_human b e ts)
         else case mailboxes b to of
                None \<Rightarrow> (Err (Undeliverable (Ended to)), b)
              | Some mx \<Rightarrow> let (r, mx') = mailbox_push mx to e
                          in (r, b\<lparr>mailboxes := (mailboxes b)(to \<mapsto> mx')\<rparr>))"

text \<open>The remaining methods of the \<^verbatim>\<open>Bus\<close> trait delegate to the wait graph and the handles.\<close>

definition bus_register_wait ::
  "local_bus \<Rightarrow> session_id \<Rightarrow> session_id \<Rightarrow> (unit, bus_error) result option \<times> local_bus" where
  "bus_register_wait b w t =
     (let (r, g) = register_wait (lb_wait_graph b) w t in (r, b\<lparr>lb_wait_graph := g\<rparr>))"

definition bus_clear_wait :: "local_bus \<Rightarrow> session_id \<Rightarrow> (unit, bus_error) result \<times> local_bus" where
  "bus_clear_wait b w = (Ok (), b\<lparr>lb_wait_graph := clear_wait (lb_wait_graph b) w\<rparr>)"

definition bus_register_handle ::
  "local_bus \<Rightarrow> workspace_id \<Rightarrow> string \<Rightarrow> session_id \<Rightarrow> (unit, bus_error) result \<times> local_bus" where
  "bus_register_handle b w n s =
     (let (r, h) = register_handle (handles b) w n s in (r, b\<lparr>handles := h\<rparr>))"

definition bus_unregister_handle ::
  "local_bus \<Rightarrow> workspace_id \<Rightarrow> string \<Rightarrow> session_id \<Rightarrow> (unit, bus_error) result \<times> local_bus" where
  "bus_unregister_handle b w n s =
     (let (r, h) = unregister_handle (handles b) w n s in (r, b\<lparr>handles := h\<rparr>))"

subsection \<open>Restart\<close>

record suspended_wait =
  sw_session :: session_id
  sw_target :: "session_id option"
  sw_deadline_ms :: "int option"

record restart_snapshot =
  live_sessions :: "session_id list"
  suspended_waits :: "suspended_wait list"

datatype restart_outcome = Rearmed session_id | TimedOut session_id

fun rearm_waits :: "local_bus \<Rightarrow> suspended_wait list \<Rightarrow> int \<Rightarrow> restart_outcome list \<times> local_bus" where
  "rearm_waits b [] now = ([], b)"
| "rearm_waits b (w # ws) now =
     (let b1 = (case sw_target w of
                  None \<Rightarrow> b
                | Some t \<Rightarrow> b\<lparr>lb_wait_graph := snd (register_wait (lb_wait_graph b) (sw_session w) t)\<rparr>);
          out = (case sw_deadline_ms w of
                   Some d \<Rightarrow> if d \<le> now then TimedOut (sw_session w) else Rearmed (sw_session w)
                 | None \<Rightarrow> Rearmed (sw_session w));
          (outs, b2) = rearm_waits b1 ws now
      in (out # outs, b2))"

definition restart_from :: "local_bus \<Rightarrow> restart_snapshot \<Rightarrow> int \<Rightarrow> restart_outcome list \<times> local_bus" where
  "restart_from b snap now =
     rearm_waits
       (foldl (\<lambda>b s. snd (register_mailbox b s (Bounded DEFAULT_MAILBOX_CAPACITY))) b
          (live_sessions snap))
       (suspended_waits snap) now"

subsection \<open>Runs of the bus\<close>

text \<open>
  Every operation of the bus, in any order; \<open>OTeams\<close> stands for whatever other holders of the
  shared \<^verbatim>\<open>TeamRegistry\<close> do to it.  A run logs what each \<^verbatim>\<open>poll\<close> handed out.
\<close>

datatype bus_op =
    OSend envelope instant int
  | OPoll session_id
  | ORequeue envelope int
  | ORegister session_id mailbox_kind
  | ODeregister session_id
  | OHuman session_id
  | ODrainHuman session_id
  | OWait session_id session_id
  | OClearWait session_id
  | OHandle workspace_id string session_id
  | OUnhandle workspace_id string session_id
  | OTeams team_registry
  | ORestart restart_snapshot int

type_synonym delivery_log = "(session_id \<times> envelope) list"

fun bus_exec :: "rounding \<Rightarrow> local_bus \<Rightarrow> bus_op \<Rightarrow> delivery_log \<times> local_bus" where
  "bus_exec rnd b (OSend e now ts) = ([], snd (send rnd b e now ts))"
| "bus_exec rnd b (OPoll s) =
     (case poll b s of (Inr (Some e), b') \<Rightarrow> ([(s, e)], b') | (_, b') \<Rightarrow> ([], b'))"
| "bus_exec rnd b (ORequeue e ts) = ([], snd (requeue b e ts))"
| "bus_exec rnd b (ORegister s k) = ([], snd (register_mailbox b s k))"
| "bus_exec rnd b (ODeregister s) = ([], snd (deregister_mailbox b s))"
| "bus_exec rnd b (OHuman s) = ([], register_human b s)"
| "bus_exec rnd b (ODrainHuman s) = ([], snd (drain_human_notifications b s))"
| "bus_exec rnd b (OWait w t) = ([], snd (bus_register_wait b w t))"
| "bus_exec rnd b (OClearWait w) = ([], snd (bus_clear_wait b w))"
| "bus_exec rnd b (OHandle w n s) = ([], snd (bus_register_handle b w n s))"
| "bus_exec rnd b (OUnhandle w n s) = ([], snd (bus_unregister_handle b w n s))"
| "bus_exec rnd b (OTeams r) = ([], b\<lparr>teams := r\<rparr>)"
| "bus_exec rnd b (ORestart snap now) = ([], snd (restart_from b snap now))"

fun bus_run :: "rounding \<Rightarrow> local_bus \<Rightarrow> bus_op list \<Rightarrow> delivery_log \<times> local_bus" where
  "bus_run rnd b [] = ([], b)"
| "bus_run rnd b (op # ops) =
     (let (l1, b1) = bus_exec rnd b op; (l2, b2) = bus_run rnd b1 ops in (l1 @ l2, b2))"

fun is_requeue :: "bus_op \<Rightarrow> bool" where
  "is_requeue (ORequeue _ _) = True"
| "is_requeue _ = False"

definition queue_of :: "local_bus \<Rightarrow> session_id \<Rightarrow> envelope list" where
  "queue_of b s = (case mailboxes b s of None \<Rightarrow> [] | Some mx \<Rightarrow> mx_queue mx)"

definition polled :: "session_id \<Rightarrow> delivery_log \<Rightarrow> envelope list" where
  "polled s dl = map snd (filter (\<lambda>p. fst p = s) dl)"

subsection \<open>Frames\<close>

lemma polled_simps [simp]:
  "polled s [] = []" "polled s (xs @ ys) = polled s xs @ polled s ys"
  "polled s [(s', e)] = (if s' = s then [e] else [])"
  by (simp_all add: polled_def)

lemma admit_frame [simp]:
  "mailboxes (snd (admit rnd b e now)) = mailboxes b"
  "sink (snd (admit rnd b e now)) = sink b"
  "handles (snd (admit rnd b e now)) = handles b"
  "teams (snd (admit rnd b e now)) = teams b"
  "lb_wait_graph (snd (admit rnd b e now)) = lb_wait_graph b"
  "human_sessions (snd (admit rnd b e now)) = human_sessions b"
  "human_notifications (snd (admit rnd b e now)) = human_notifications b"
  by (simp_all add: admit_def Let_def split: prod.splits sum.splits)

lemma deliver_cases:
  obtains (human) "env_to e \<in> human_sessions b" "deliver b e ts = (Ok (), notify_human b e ts)"
  | (ended) "env_to e \<notin> human_sessions b" "mailboxes b (env_to e) = None"
      "deliver b e ts = (Err (Undeliverable (Ended (env_to e))), b)"
  | (duplicate) mx where "env_to e \<notin> human_sessions b" "mailboxes b (env_to e) = Some mx"
      "is_duplicate (sink b) (env_to e) (env_id e)" "deliver b e ts = (Ok (), b)"
  | (full) mx cap where "env_to e \<notin> human_sessions b" "mailboxes b (env_to e) = Some mx"
      "\<not> is_duplicate (sink b) (env_to e) (env_id e)"
      "mx_kind mx = Bounded cap" "cap \<le> length (mx_queue mx)"
      "deliver b e ts = (Err (MailboxFull (env_to e) cap), b)"
  | (pushed) mx where "env_to e \<notin> human_sessions b" "mailboxes b (env_to e) = Some mx"
      "\<not> is_duplicate (sink b) (env_to e) (env_id e)"
      "\<forall>cap. mx_kind mx = Bounded cap \<longrightarrow> length (mx_queue mx) < cap"
      "deliver b e ts = (Ok (), b\<lparr>mailboxes := (mailboxes b)(env_to e \<mapsto> mx\<lparr>mx_queue := mx_queue mx @ [e]\<rparr>),
                                   sink := record_inbound (sink b) (env_to e) (env_id e)\<rparr>)"
proof (cases "env_to e \<in> human_sessions b")
  case True
  then show thesis by (intro human) (simp_all add: deliver_def)
next
  case nh: False
  show thesis
  proof (cases "mailboxes b (env_to e)")
    case None
    with nh show thesis by (intro ended) (simp_all add: deliver_def)
  next
    case (Some mx)
    show thesis
    proof (cases "is_duplicate (sink b) (env_to e) (env_id e)")
      case True
      with nh Some show thesis by (intro duplicate) (simp_all add: deliver_def)
    next
      case nd: False
      show thesis
      proof (cases "\<exists>cap. mx_kind mx = Bounded cap \<and> cap \<le> length (mx_queue mx)")
        case True
        with nh Some nd show thesis by (elim exE) (rule full, auto simp: deliver_def mailbox_push_def)
      next
        case False
        with nh Some nd show thesis
          by (cases "mx_kind mx"; intro pushed) (auto simp: deliver_def mailbox_push_def Let_def)
      qed
    qed
  qed
qed

lemma register_mailbox_queue [simp]:
  "queue_of (snd (register_mailbox b s' k)) s = queue_of b s"
  "sink (snd (register_mailbox b s' k)) = sink b"
  by (auto simp: register_mailbox_def queue_of_def mailbox_new_def split: option.splits)

lemma rearm_waits_frame:
  "mailboxes (snd (rearm_waits b ws now)) = mailboxes b"
  "sink (snd (rearm_waits b ws now)) = sink b"
proof -
  have "mailboxes (snd (rearm_waits b ws now)) = mailboxes b \<and>
        sink (snd (rearm_waits b ws now)) = sink b"
  proof (induction ws arbitrary: b)
    case (Cons w ws)
    then show ?case
      by (cases "sw_target w") (simp_all add: Let_def case_prod_beta)
  qed simp
  then show "mailboxes (snd (rearm_waits b ws now)) = mailboxes b"
    and "sink (snd (rearm_waits b ws now)) = sink b"
    by simp_all
qed

lemma restart_from_queue [simp]:
  "queue_of (snd (restart_from b snap now)) s = queue_of b s"
  "sink (snd (restart_from b snap now)) = sink b"
proof -
  have "queue_of (foldl (\<lambda>b s. snd (register_mailbox b s k)) b ss) s = queue_of b s \<and>
        sink (foldl (\<lambda>b s. snd (register_mailbox b s k)) b ss) = sink b" for ss k
    by (induction ss arbitrary: b) simp_all
  then show "queue_of (snd (restart_from b snap now)) s = queue_of b s"
    and "sink (snd (restart_from b snap now)) = sink b"
    by (simp_all add: restart_from_def rearm_waits_frame queue_of_def)
qed

subsection \<open>At-most-once delivery\<close>

text \<open>
  What one operation other than a requeue can do to the queue of one session and to the ids
  recorded for it: nothing; hand out the front; drop the queue; or append an unrecorded message
  and record it.
\<close>

definition seen_ids :: "local_bus \<Rightarrow> session_id \<Rightarrow> message_id set" where
  "seen_ids b s = {m. (s, m) \<in> sink_seen (sink b)}"

lemma deliver_queue:
  assumes "deliver b e ts = (r, b')"
  shows "(queue_of b' s = queue_of b s \<and> seen_ids b' s = seen_ids b s) \<or>
         (queue_of b' s = queue_of b s @ [e] \<and> env_id e \<notin> seen_ids b s \<and>
          seen_ids b' s = insert (env_id e) (seen_ids b s))"
  by (rule deliver_cases [of e b ts])
     (use assms in \<open>auto simp: queue_of_def seen_ids_def notify_human_def is_duplicate_def
        record_inbound_def\<close>)

lemma send_queue:
  "(queue_of (snd (send rnd b e now ts)) s = queue_of b s \<and>
    seen_ids (snd (send rnd b e now ts)) s = seen_ids b s) \<or>
   (\<exists>e'. queue_of (snd (send rnd b e now ts)) s = queue_of b s @ [e'] \<and> env_id e' \<notin> seen_ids b s \<and>
        seen_ids (snd (send rnd b e now ts)) s = insert (env_id e') (seen_ids b s))"
proof (cases "decrement_ttl (env_ttl_hops e)")
  case (Inr ttl)
  obtain r b1 where a: "admit rnd b e now = (r, b1)" by fastforce
  have "mailboxes b1 = mailboxes b" "sink b1 = sink b"
    using admit_frame(1,2) [of rnd b e now] by (simp_all add: a)
  then have eq: "queue_of b1 s = queue_of b s" "seen_ids b1 s = seen_ids b s"
    by (simp_all add: queue_of_def seen_ids_def)
  obtain r' b' where d: "deliver b1 (e\<lparr>env_ttl_hops := ttl\<rparr>) ts = (r', b')" by fastforce
  show ?thesis
    using deliver_queue [OF d, of s] eq by (cases r) (auto simp: send_def Inr a d)
qed (simp add: send_def)

lemma poll_queue:
  assumes "bus_exec rnd b (OPoll s') = (dl, b')"
  shows "queue_of b s = polled s dl @ queue_of b' s \<and> seen_ids b' s = seen_ids b s"
  using assms
  by (auto simp: poll_def mailbox_pop_front_def queue_of_def seen_ids_def Let_def
      split: option.splits list.splits if_splits)

lemma bus_exec_queue:
  assumes "bus_exec rnd b op = (dl, b')" "\<not> is_requeue op"
  shows "(queue_of b s = polled s dl @ queue_of b' s \<and> seen_ids b' s = seen_ids b s) \<or>
         (polled s dl = [] \<and> queue_of b' s = [] \<and> seen_ids b' s = seen_ids b s) \<or>
         (\<exists>e. polled s dl = [] \<and> queue_of b' s = queue_of b s @ [e] \<and> env_id e \<notin> seen_ids b s \<and>
              seen_ids b' s = insert (env_id e) (seen_ids b s))"
proof (cases op)
  case (OSend e now ts)
  then show ?thesis
    using assms send_queue [of rnd b e now ts s] by auto
next
  case (OPoll s')
  then show ?thesis
    using poll_queue [of rnd b s' dl b' s] assms by auto
qed (use assms in \<open>auto simp: seen_ids_def deregister_mailbox_def register_human_def
    drain_human_notifications_def bus_register_wait_def bus_clear_wait_def bus_register_handle_def
    bus_unregister_handle_def queue_of_def [of "_\<lparr>mailboxes := _\<rparr>"]
    notifications_drain_def Let_def case_prod_beta queue_of_def
    restart_from_queue [unfolded queue_of_def] register_mailbox_queue [unfolded queue_of_def]\<close>)

definition fresh_queues :: "local_bus \<Rightarrow> bool" where
  "fresh_queues b \<longleftrightarrow>
     (\<forall>s. distinct (map env_id (queue_of b s)) \<and> env_id ` set (queue_of b s) \<subseteq> seen_ids b s)"

lemma fresh_queues_step:
  assumes "bus_exec rnd b op = (dl, b')" "\<not> is_requeue op" "fresh_queues b"
  shows "fresh_queues b'"
  unfolding fresh_queues_def
proof
  fix s
  have "distinct (map env_id (queue_of b s))" "env_id ` set (queue_of b s) \<subseteq> seen_ids b s"
    using assms(3) by (auto simp: fresh_queues_def)
  then show "distinct (map env_id (queue_of b' s)) \<and> env_id ` set (queue_of b' s) \<subseteq> seen_ids b' s"
    using bus_exec_queue [OF assms(1,2), of s] by (auto simp: image_subset_iff)
qed

lemma bus_run_once:
  assumes "fresh_queues b" "\<forall>op \<in> set ops. \<not> is_requeue op"
  shows "distinct (map env_id (polled s (fst (bus_run rnd b ops)))) \<and>
         (\<forall>e \<in> set (polled s (fst (bus_run rnd b ops))).
            env_id e \<in> env_id ` set (queue_of b s) \<or> env_id e \<notin> seen_ids b s)"
  using assms
proof (induction ops arbitrary: b)
  case (Cons op ops)
  obtain dl b1 where st: "bus_exec rnd b op = (dl, b1)" by fastforce
  obtain dl2 b2 where rn: "bus_run rnd b1 ops = (dl2, b2)" by fastforce
  have nr: "\<not> is_requeue op" using Cons.prems by simp
  have IH: "distinct (map env_id (polled s dl2)) \<and>
      (\<forall>e \<in> set (polled s dl2). env_id e \<in> env_id ` set (queue_of b1 s) \<or> env_id e \<notin> seen_ids b1 s)"
    using Cons.IH [of b1] Cons.prems fresh_queues_step [OF st nr] rn by simp
  have fr: "distinct (map env_id (queue_of b s))" "env_id ` set (queue_of b s) \<subseteq> seen_ids b s"
    using Cons.prems by (auto simp: fresh_queues_def)
  have eq: "polled s (fst (bus_run rnd b (op # ops))) = polled s dl @ polled s dl2"
    by (simp add: st rn)
  show ?case
    unfolding eq using bus_exec_queue [OF st nr, of s]
  proof (elim disjE exE conjE)
    assume q: "queue_of b s = polled s dl @ queue_of b1 s" and sn: "seen_ids b1 s = seen_ids b s"
    have "env_id e \<notin> env_id ` set (polled s dl)" if "e \<in> set (polled s dl2)" for e
      using bspec [OF conjunct2 [OF IH] that] fr unfolding q sn
      by (auto simp: image_subset_iff image_Un disjoint_iff)
    then have "\<forall>i \<in> env_id ` set (polled s dl2). i \<notin> env_id ` set (polled s dl)"
      by simp
    then have "env_id ` set (polled s dl) \<inter> env_id ` set (polled s dl2) = {}"
      unfolding disjoint_iff by metis
    then show "distinct (map env_id (polled s dl @ polled s dl2)) \<and>
        (\<forall>e \<in> set (polled s dl @ polled s dl2).
           env_id e \<in> env_id ` set (queue_of b s) \<or> env_id e \<notin> seen_ids b s)"
      using IH fr unfolding q sn by (auto simp: image_subset_iff)
  qed (use IH in auto)
qed simp

subsection \<open>Bounded FIFO queues\<close>

text \<open>
  The contract of a mailbox, and what follows from it for any sequence of pushes and pops: what
  was taken out, followed by what is still queued, is what was there followed by what was
  accepted, in order.
\<close>

datatype 'e fifo_op = Push 'e | Pop

locale bounded_fifo =
  fixes push :: "'q \<Rightarrow> 'e \<Rightarrow> bool \<times> 'q"
    and pop :: "'q \<Rightarrow> 'e option \<times> 'q"
    and content :: "'q \<Rightarrow> 'e list"
    and room :: "'q \<Rightarrow> bool"
  assumes push_room: "room q \<Longrightarrow> fst (push q e) \<and> content (snd (push q e)) = content q @ [e]"
    and push_full: "\<not> room q \<Longrightarrow> \<not> fst (push q e) \<and> snd (push q e) = q"
    and pop_front: "pop q = (r, q') \<Longrightarrow>
        (case content q of [] \<Rightarrow> r = None \<and> q' = q | e # es \<Rightarrow> r = Some e \<and> content q' = es)"
begin

fun fifo_run :: "'q \<Rightarrow> 'e fifo_op list \<Rightarrow> 'e list \<times> 'e list \<times> 'q" where
  "fifo_run q [] = ([], [], q)"
| "fifo_run q (Push e # ops) =
     (let (ok, q') = push q e; (acc, out, q'') = fifo_run q' ops
      in ((if ok then e # acc else acc), out, q''))"
| "fifo_run q (Pop # ops) =
     (let (r, q') = pop q; (acc, out, q'') = fifo_run q' ops
      in (acc, (case r of None \<Rightarrow> out | Some e \<Rightarrow> e # out), q''))"

lemma fifo_order:
  "fifo_run q ops = (acc, out, q') \<Longrightarrow> out @ content q' = content q @ acc"
proof (induction q ops arbitrary: acc out q' rule: fifo_run.induct)
  case (2 q e ops)
  obtain ok q1 where p: "push q e = (ok, q1)" by fastforce
  obtain a o1 q2 where r: "fifo_run q1 ops = (a, o1, q2)" by (metis prod_cases3)
  show ?case
    using 2 p r push_room [of q e] push_full [of q e] by (cases "room q") auto
next
  case (3 q ops)
  obtain r q1 where p: "pop q = (r, q1)" by fastforce
  obtain a o1 q2 where rn: "fifo_run q1 ops = (a, o1, q2)" by (metis prod_cases3)
  show ?case
    using 3 p rn pop_front [OF p] by (cases "content q") auto
qed simp

end

definition mailbox_room :: "mailbox \<Rightarrow> bool" where
  "mailbox_room m = (case mx_kind m of Bounded cap \<Rightarrow> length (mx_queue m) < cap | Unbounded \<Rightarrow> True)"

definition mailbox_try :: "session_id \<Rightarrow> mailbox \<Rightarrow> envelope \<Rightarrow> bool \<times> mailbox" where
  "mailbox_try s m e = map_prod is_ok id (mailbox_push m s e)"

interpretation mbox: bounded_fifo "mailbox_try s" mailbox_pop_front mx_queue mailbox_room for s
  by unfold_locales
     (auto simp: mailbox_try_def mailbox_push_def mailbox_pop_front_def mailbox_room_def is_ok_def
       split: mailbox_kind.splits list.splits)

subsection \<open>Capacity, addressing and waits\<close>

definition mailbox_ok :: "session_id \<Rightarrow> mailbox \<Rightarrow> bool" where
  "mailbox_ok s m \<longleftrightarrow>
     (\<forall>cap. mx_kind m = Bounded cap \<longrightarrow> length (mx_queue m) \<le> cap) \<and>
     (\<forall>e \<in> set (mx_queue m). env_to e = s)"

definition bus_ok :: "local_bus \<Rightarrow> bool" where
  "bus_ok b \<longleftrightarrow> (\<forall>s m. mailboxes b s = Some m \<longrightarrow> mailbox_ok s m)
     \<and> acyclic (wait_edges (lb_wait_graph b))"

lemma mailbox_push_ok:
  "mailbox_ok (env_to e) m \<Longrightarrow> mailbox_ok (env_to e) (snd (mailbox_push m s e))"
  by (auto simp: mailbox_ok_def mailbox_push_def split: mailbox_kind.split)

lemma mailbox_pop_ok: "mailbox_ok s m \<Longrightarrow> mailbox_ok s (snd (mailbox_pop_front m))"
  by (auto simp: mailbox_ok_def mailbox_pop_front_def split: list.split)

lemma deliver_ok: "bus_ok b \<Longrightarrow> bus_ok (snd (deliver b e ts))"
  by (rule deliver_cases [of e b ts])
     (auto simp: bus_ok_def notify_human_def mailbox_ok_def less_eq_Suc_le)

lemma send_ok: "bus_ok b \<Longrightarrow> bus_ok (snd (send rnd b e now ts))"
proof (cases "decrement_ttl (env_ttl_hops e)")
  case (Inr ttl)
  assume "bus_ok b"
  then have "bus_ok (snd (admit rnd b e now))" by (simp add: bus_ok_def)
  then show ?thesis
    by (cases "admit rnd b e now") (auto simp: send_def Inr deliver_ok split: sum.split)
qed (simp add: send_def)

lemma poll_ok: "bus_ok b \<Longrightarrow> bus_ok (snd (poll b s))"
  using mailbox_pop_ok by (auto simp: poll_def bus_ok_def case_prod_beta Let_def split: option.split)

lemma requeue_ok: "bus_ok b \<Longrightarrow> bus_ok (snd (requeue b e ts))"
  using mailbox_push_ok
  by (auto simp: requeue_def bus_ok_def notify_human_def case_prod_beta Let_def split: option.split)

lemma register_mailbox_ok: "bus_ok b \<Longrightarrow> bus_ok (snd (register_mailbox b s k))"
  by (auto simp: register_mailbox_def bus_ok_def mailbox_new_def mailbox_ok_def split: option.split)

lemma rearm_waits_ok: "bus_ok b \<Longrightarrow> bus_ok (snd (rearm_waits b ws now))"
proof (induction ws arbitrary: b)
  case (Cons w ws)
  have "bus_ok (b\<lparr>lb_wait_graph := snd (register_wait (lb_wait_graph b) (sw_session w) t)\<rparr>)" for t
    using Cons.prems wg.register_acyclic by (simp add: bus_ok_def)
  then show ?case
    using Cons by (cases "sw_target w") (simp_all add: Let_def case_prod_beta)
qed simp

lemma restart_from_ok: "bus_ok b \<Longrightarrow> bus_ok (snd (restart_from b snap now))"
proof -
  assume "bus_ok b"
  then have "bus_ok (foldl (\<lambda>b s. snd (register_mailbox b s k)) b ss)" for ss k
    by (induction ss arbitrary: b) (simp_all add: register_mailbox_ok)
  then show ?thesis
    by (simp add: restart_from_def rearm_waits_ok)
qed

lemma bus_small_ok:
  assumes "bus_ok b"
  shows "bus_ok (snd (deregister_mailbox b s))" "bus_ok (register_human b s)"
    "bus_ok (snd (drain_human_notifications b s))" "bus_ok (snd (bus_register_wait b s t))"
    "bus_ok (snd (bus_clear_wait b s))" "bus_ok (snd (bus_register_handle b w n s))"
    "bus_ok (snd (bus_unregister_handle b w n s))" "bus_ok (b\<lparr>teams := r\<rparr>)"
proof -
  show "bus_ok (snd (bus_clear_wait b s))"
    using assms wg.clear_acyclic [of "lb_wait_graph b" s]
    by (simp add: bus_ok_def bus_clear_wait_def del: wait_edges_simps)
  show "bus_ok (snd (bus_register_wait b s t))"
    using assms wg.register_acyclic [of "lb_wait_graph b" s t]
    by (simp add: bus_ok_def bus_register_wait_def case_prod_beta Let_def)
qed (use assms in \<open>auto simp: bus_ok_def deregister_mailbox_def register_human_def
    drain_human_notifications_def notifications_drain_def bus_register_handle_def
    bus_unregister_handle_def case_prod_beta Let_def split: if_splits\<close>)

lemma bus_exec_ok: "bus_ok b \<Longrightarrow> bus_ok (snd (bus_exec rnd b op))"
proof (cases op)
  case (OPoll s)
  assume "bus_ok b"
  moreover have "snd (bus_exec rnd b (OPoll s)) = snd (poll b s)"
    by (auto split: prod.split sum.split option.split)
  ultimately show ?thesis by (simp add: OPoll poll_ok del: bus_exec.simps)
qed (simp_all add: send_ok requeue_ok register_mailbox_ok restart_from_ok bus_small_ok)

lemma bus_run_ok: "bus_ok b \<Longrightarrow> bus_ok (snd (bus_run rnd b ops))"
proof (induction ops arbitrary: b)
  case (Cons op ops)
  then show ?case
    using bus_exec_ok [of b rnd op] by (simp add: case_prod_beta Let_def)
qed simp

lemma bus_ok_queue: "bus_ok b \<Longrightarrow> e \<in> set (queue_of b s) \<Longrightarrow> env_to e = s"
  by (cases "mailboxes b s") (auto simp: bus_ok_def mailbox_ok_def queue_of_def)

lemma local_bus_new_ok: "bus_ok (local_bus_new rnd)"
  by (simp add: bus_ok_def local_bus_new_def acyclic_def)

lemma send_error_frame:
  assumes "send rnd b e now ts = (Inl err, b')"
  shows "mailboxes b' = mailboxes b \<and> sink b' = sink b \<and>
         human_notifications b' = human_notifications b"
proof (cases "decrement_ttl (env_ttl_hops e)")
  case (Inr ttl)
  obtain r b1 where a: "admit rnd b e now = (r, b1)" by fastforce
  have fr: "mailboxes b1 = mailboxes b" "sink b1 = sink b"
      "human_notifications b1 = human_notifications b"
    using admit_frame [of rnd b e now] by (simp_all add: a)
  have "snd (deliver b1 (e\<lparr>env_ttl_hops := ttl\<rparr>) ts) = b1"
    if "fst (deliver b1 (e\<lparr>env_ttl_hops := ttl\<rparr>) ts) = Inl err"
    by (rule deliver_cases [of "e\<lparr>env_ttl_hops := ttl\<rparr>" b1 ts]) (use that in auto)
  then show ?thesis
    using assms fr by (cases r) (auto simp: send_def Inr a prod_eq_iff)
qed (use assms in \<open>auto simp: send_def\<close>)

lemma send_ok_cases:
  assumes "send rnd b e now ts = (Inr u, b')"
  shows "\<exists>ttl b1. decrement_ttl (env_ttl_hops e) = Inr ttl \<and> snd (admit rnd b e now) = b1 \<and>
           deliver b1 (e\<lparr>env_ttl_hops := ttl\<rparr>) ts = (Inr u, b')"
  using assms by (auto simp: send_def split: sum.splits prod.splits)

subsection \<open>Properties\<close>


definition example_envelope :: envelope where
  "example_envelope =
     \<lparr>env_id = 11, env_from = 4, env_to = 5, env_to_requested = AddrSession 5, env_subject = ''s'',
      env_body = ''b'', env_attachments = [], env_expect_reply = None, env_in_reply_to = None,
      env_ttl_hops = 3,
      env_provenance = \<lparr>pv_origin = OriginUser, pv_trust = Trusted, pv_task = None\<rparr>\<rparr>"


text \<open>
  What a \<^verbatim>\<open>send\<close> does. If it fails, with any error, no mailbox, no recorded message id and
  no notification changes, so a message refused by a full mailbox can be sent again. If it
  succeeds, the hop count was positive, and either the recipient is a human and the envelope was
  appended to the notifications, or the recipient has a mailbox, the message id is now recorded
  for it, and the envelope, with one hop less, was appended to the mailbox unless that id had
  been recorded before.
\<close>

theorem send_effects:
  "case send rnd b e now ts of
     (Inl err, b') \<Rightarrow> mailboxes b' = mailboxes b \<and> sink b' = sink b \<and>
                      human_notifications b' = human_notifications b
   | (Inr _, b') \<Rightarrow>
       env_ttl_hops e \<noteq> 0 \<and>
       (let e' = e\<lparr>env_ttl_hops := env_ttl_hops e - 1\<rparr>; to = env_to e
        in if to \<in> human_sessions b
           then list_human_notifications b' to =
                  list_human_notifications b to @ [\<lparr>hn_from = env_from e, hn_envelope = e', hn_ts_unix_ms = ts\<rparr>]
                \<and> mailboxes b' = mailboxes b
           else has_mailbox b to \<and> is_duplicate (sink b') to (env_id e) \<and>
                queue_of b' to = (if is_duplicate (sink b) to (env_id e) then queue_of b to
                                  else queue_of b to @ [e']))"
proof -
  obtain r b' where s: "send rnd b e now ts = (r, b')" by fastforce
  show ?thesis
  proof (cases r)
    case (Inl err)
    then show ?thesis using send_error_frame s by fastforce
  next
    case (Inr u)
    obtain ttl b1 where ttl: "decrement_ttl (env_ttl_hops e) = Inr ttl"
        and a: "snd (admit rnd b e now) = b1"
        and d: "deliver b1 (e\<lparr>env_ttl_hops := ttl\<rparr>) ts = (Inr u, b')"
      using send_ok_cases s Inr by blast
    have fr: "mailboxes b1 = mailboxes b" "sink b1 = sink b" "human_sessions b1 = human_sessions b"
        "human_notifications b1 = human_notifications b"
      using admit_frame [of rnd b e now] by (simp_all add: a)
    have t: "env_ttl_hops e \<noteq> 0" "ttl = env_ttl_hops e - 1"
      using ttl by (auto simp: decrement_ttl_def checked_sub_def split: if_splits)
    show ?thesis
      by (rule deliver_cases [of "e\<lparr>env_ttl_hops := ttl\<rparr>" b1 ts])
         (use d s Inr fr t in \<open>auto simp: Let_def list_human_notifications_def notifications_list_def
            notify_human_def notifications_push_def has_mailbox_def queue_of_def is_duplicate_def
            record_inbound_def\<close>)
  qed
qed

text \<open>
  \<^bold>\<open>C11.\<close> In every run of a new bus, requeues and restarts included, no bounded mailbox holds more
  than its capacity, every queued envelope is addressed to the session whose mailbox holds it, and
  the wait-for relation has no cycle.
\<close>

theorem bus_invariant:
  "let b = snd (bus_run rnd (local_bus_new rnd) ops)
   in (\<forall>s m cap. mailboxes b s = Some m \<and> mx_kind m = Bounded cap \<longrightarrow> mailbox_len m \<le> cap) \<and>
      (\<forall>s. \<forall>e \<in> set (queue_of b s). env_to e = s) \<and>
      acyclic (wait_edges (lb_wait_graph b))"
proof -
  have ok: "bus_ok (snd (bus_run rnd (local_bus_new rnd) ops))"
    by (rule bus_run_ok [OF local_bus_new_ok])
  then show ?thesis
    using bus_ok_queue [OF ok] by (auto simp: Let_def bus_ok_def mailbox_ok_def mailbox_len_def)
qed

theorem bus_invariant_witness:
  "acyclic (wait_edges (lb_wait_graph (snd (bus_run (\<lambda>x. x) (local_bus_new (\<lambda>x. x))
     [OWait 1 2, OWait 2 3, OWait 3 1, ORequeue example_envelope 0]))))"
  using bus_invariant [of "\<lambda>x. x" "[OWait 1 2, OWait 2 3, OWait 3 1, ORequeue example_envelope 0]"]
  unfolding Let_def by blast

text \<open>
  A mailbox is a FIFO: over any pushes and pops, what was popped followed by what is left is
  what was there followed by what was accepted.
\<close>

theorem mailbox_fifo:
  "case mbox.fifo_run s m ops of
     (accepted, popped, m') \<Rightarrow> popped @ mx_queue m' = mx_queue m @ accepted"
  using mbox.fifo_order [of s m ops] by (auto split: prod.split)

text \<open>
  Requeueing is a rotation: in every reachable bus, if a session with a mailbox that is not
  a human's polls an envelope and requeues it, the requeue succeeds, even into a mailbox that was
  full, and the queue is the old one with its first message moved to the end.
\<close>

theorem poll_requeue_rotates:
  assumes "b = snd (bus_run rnd (local_bus_new rnd) ops)"
    and "poll b s = (Ok (Some e), b1)" "s \<notin> human_sessions b"
  shows "\<exists>b2. requeue b1 e ts = (Ok (), b2) \<and> queue_of b2 s = rotate1 (queue_of b s)"
proof -
  obtain m es where m: "mailboxes b s = Some m" "mx_queue m = e # es"
      "b1 = b\<lparr>mailboxes := (mailboxes b)(s \<mapsto> m\<lparr>mx_queue := es\<rparr>)\<rparr>"
    using assms(2) by (auto simp: poll_def mailbox_pop_front_def Let_def split: option.splits list.splits)
  have "mailbox_ok s m"
    using bus_run_ok [OF local_bus_new_ok, of rnd rnd ops] assms(1) m(1) by (auto simp: bus_ok_def)
  then have "env_to e = s" "\<forall>cap. mx_kind m = Bounded cap \<longrightarrow> length es < cap"
    by (auto simp: mailbox_ok_def m(2))
  then show ?thesis
    using assms(3) m
    by (auto simp: requeue_def mailbox_push_def queue_of_def Let_def not_le split: mailbox_kind.split)
qed

theorem poll_requeue_rotates_witness:
  "\<exists>b1 b2. poll (snd (bus_run (\<lambda>x. x) (local_bus_new (\<lambda>x. x))
        [ORegister 5 (Bounded 1), ORequeue example_envelope 0])) 5 = (Ok (Some example_envelope), b1) \<and>
      requeue b1 example_envelope 1 = (Ok (), b2)"
proof -
  let ?b = "snd (bus_run (\<lambda>x. x) (local_bus_new (\<lambda>x. x))
        [ORegister 5 (Bounded 1), ORequeue example_envelope 0])"
  have "\<exists>b1. poll ?b 5 = (Ok (Some example_envelope), b1)" "5 \<notin> human_sessions ?b"
    by (simp_all add: poll_def requeue_def register_mailbox_def local_bus_new_def mailbox_new_def
        mailbox_push_def mailbox_pop_front_def example_envelope_def Let_def)
  then show ?thesis
    using poll_requeue_rotates [of ?b "\<lambda>x. x" "[ORegister 5 (Bounded 1), ORequeue example_envelope 0]" 5
        example_envelope _ 1] by blast
qed

text \<open>
  Who a team or role address reaches: exactly the live members (of that role) of an Active
  team of the caller's own workspace, at least one; every other case is an error.
\<close>

theorem team_recipients_exact:
  "team_recipients b w t role = Ok rs \<longleftrightarrow>
     rs \<noteq> [] \<and>
     (\<exists>tm ms. team_of (teams b) t = Some tm \<and> tm_workspace tm = w \<and> tm_state tm = Active \<and>
        roster (teams b) t = Some ms \<and>
        rs = map mb_session (filter (\<lambda>m. role = None \<or> role = Some (mb_role m)) (live ms)))"
proof -
  have "filter (\<lambda>m. \<not> mb_ended m \<and> (case role of None \<Rightarrow> True | Some r \<Rightarrow> mb_role m = r)) ms
        = filter (\<lambda>m. role = None \<or> role = Some (mb_role m)) (live ms)" for ms
    by (cases role) (auto simp: live_def intro!: filter_cong)
  moreover have "(st \<noteq> Draining \<and> st \<noteq> Closed) \<longleftrightarrow> st = Active" for st
    by (cases st) auto
  ultimately show ?thesis
    by (auto simp: team_recipients_def team_in_workspace_def Let_def split: option.splits if_splits)
qed

end
