(* ===== verification/Unix_Path.thy ===== *)
theory Unix_Path
  imports Prelude
begin

text \<open>
  The part of \<^verbatim>\<open>std::path\<close> (Unix) that the policy code relies on.  A path is its byte string;
  comparison, \<^verbatim>\<open>starts_with\<close>, \<^verbatim>\<open>parent\<close> and \<^verbatim>\<open>file_name\<close> all go through the components, which drop
  repeated separators, trailing separators and every \<open>.\<close> but a leading one, and keep \<open>..\<close>.
\<close>

type_synonym path = string

datatype path_component = RootDir | CurDir | ParentDir | Normal string

definition slash :: char where
  "slash = CHR ''/''"

text \<open>Splitting at every separator; \<open>n\<close> separators give \<open>n + 1\<close> pieces.\<close>

fun split_slash :: "string \<Rightarrow> string list" where
  "split_slash [] = [[]]"
| "split_slash (c # cs) =
     (case split_slash cs of
        [] \<Rightarrow> [[c]]
      | p # ps \<Rightarrow> if c = slash then [] # p # ps else (c # p) # ps)"

definition component_of :: "string \<Rightarrow> path_component" where
  "component_of s = (if s = ''..'' then ParentDir else Normal s)"

definition body_components :: "string list \<Rightarrow> path_component list" where
  "body_components ps = map component_of (filter (\<lambda>s. s \<noteq> [] \<and> s \<noteq> ''.'') ps)"

definition has_root :: "path \<Rightarrow> bool" where
  "has_root p = (case p of [] \<Rightarrow> False | c # _ \<Rightarrow> c = slash)"

definition path_components :: "path \<Rightarrow> path_component list" where
  "path_components p =
     (if has_root p then RootDir # body_components (split_slash p)
      else (case split_slash p of
              s # ps \<Rightarrow> if s = ''.'' then CurDir # body_components ps else body_components (s # ps)
            | [] \<Rightarrow> []))"

definition path_eq :: "path \<Rightarrow> path \<Rightarrow> bool" where
  "path_eq p q = (path_components p = path_components q)"

fun list_prefix :: "'a list \<Rightarrow> 'a list \<Rightarrow> bool" where
  "list_prefix [] _ = True"
| "list_prefix (_ # _) [] = False"
| "list_prefix (x # xs) (y # ys) = (x = y \<and> list_prefix xs ys)"

text \<open>\<^verbatim>\<open>p.starts_with(base)\<close>, argument order as in Rust.\<close>

definition path_starts_with :: "path \<Rightarrow> path \<Rightarrow> bool" where
  "path_starts_with p base = list_prefix (path_components base) (path_components p)"

definition path_is_absolute :: "path \<Rightarrow> bool" where
  "path_is_absolute p = has_root p"

definition path_has_parent :: "path \<Rightarrow> bool" where
  "path_has_parent p =
     (case rev (path_components p) of [] \<Rightarrow> False | c # _ \<Rightarrow> c \<noteq> RootDir)"

definition path_file_name :: "path \<Rightarrow> string option" where
  "path_file_name p =
     (case rev (path_components p) of Normal s # _ \<Rightarrow> Some s | _ \<Rightarrow> None)"

definition path_join :: "path \<Rightarrow> path \<Rightarrow> path" where
  "path_join base p =
     (if has_root p then p
      else if base = [] \<or> last base = slash then base @ p
      else base @ slash # p)"

subsection \<open>Lemmas\<close>

lemma list_prefix_iff: "list_prefix xs ys \<longleftrightarrow> (\<exists>zs. ys = xs @ zs)"
  by (induction xs ys rule: list_prefix.induct) auto

lemma list_prefix_refl [simp]: "list_prefix xs xs"
  by (simp add: list_prefix_iff)

lemma list_prefix_trans: "list_prefix xs ys \<Longrightarrow> list_prefix ys zs \<Longrightarrow> list_prefix xs zs"
  by (auto simp: list_prefix_iff)

lemma path_starts_with_refl [simp]: "path_starts_with p p"
  by (simp add: path_starts_with_def)

lemma path_starts_with_trans:
  "path_starts_with p q \<Longrightarrow> path_starts_with q r \<Longrightarrow> path_starts_with p r"
  unfolding path_starts_with_def by (rule list_prefix_trans)

lemma path_eq_refl [simp]: "path_eq p p"
  by (simp add: path_eq_def)

lemma path_eq_starts_with: "path_eq p q \<Longrightarrow> path_starts_with p q"
  by (simp add: path_eq_def path_starts_with_def)

lemma path_starts_with_cong: "path_eq p q \<Longrightarrow> path_starts_with p r = path_starts_with q r"
  by (simp add: path_eq_def path_starts_with_def)

lemma split_slash_Nil [simp]: "split_slash p \<noteq> []"
  by (induction p) (auto split: list.splits)

lemma body_no_root: "RootDir \<notin> set (body_components ps)"
  by (auto simp: body_components_def component_of_def split: if_splits)

text \<open>Only absolute paths lie below an absolute path.\<close>

lemma path_starts_with_absolute:
  assumes "path_starts_with p base" "path_is_absolute base"
  shows "path_is_absolute p"
proof (rule ccontr)
  assume "\<not> path_is_absolute p"
  then have "RootDir \<notin> set (path_components p)"
    by (auto simp: path_components_def path_is_absolute_def body_no_root split: list.split)
  moreover have "RootDir \<in> set (path_components base)"
    using assms(2) by (simp add: path_components_def path_is_absolute_def)
  ultimately show False
    using assms(1) by (auto simp: path_starts_with_def list_prefix_iff)
qed

end
