(* ===== verification/Policy_Engine.thy ===== *)
theory Policy_Engine
  imports Core_Task Unix_Path "HOL-Library.Product_Lexorder"
begin

text \<open>
  \<^verbatim>\<open>roundhouse-policy\<close>, the decision itself: the parameters of a task (\<^verbatim>\<open>task_params.rs\<close>), the rules
  and their matching, the precedence among matching rules, the taint downgrade and the unattended
  mode (\<^verbatim>\<open>engine.rs\<close>), the sealed deny floor (\<^verbatim>\<open>sealed.rs\<close>), the interpreter gate
  (\<^verbatim>\<open>shell/interpreter.rs\<close>) and the compilation of policy files (\<^verbatim>\<open>config.rs\<close>).

  The glob engine (\<^verbatim>\<open>globset\<close>) is a parameter: \<open>glob pat\<close> is \<open>None\<close> where the pattern does not
  compile and otherwise its matching function.  Strings are byte strings, so \<^verbatim>\<open>len()\<close> is \<open>length\<close>.
  The context that the engine's provider closure yields is a field of the engine.
\<close>

subsection \<open>Task parameters\<close>

record parsed_command =
  pc_program :: string
  pc_argv :: "string list"

datatype fs_op = FsRead | FsWrite | FsEdit | FsFind

datatype http_method = MGet | MPost | MPut | MPatch | MDelete | MHead | MOptions

datatype memory_scope = MemUser | MemProject workspace_id | MemTeam team_id

datatype memory_op = MemRead | MemWrite | MemAppend | MemDelete

datatype task_params =
    TpShell parsed_command
  | TpFs fs_op path "(path, string) result"
  | TpHttp http_method string nat
  | TpMcp string string json
  | TpGit string "string list" "string option"
  | TpAgent string string tier
  | TpMemory memory_scope memory_op session_id

datatype taint = TaintTrusted | Tainted

record policy_input =
  pi_params :: task_params
  pi_taint :: taint

subsection \<open>Rules\<close>

datatype scope = Builtin | UserGlobal | Project | Workspace | GrantScope

fun scope_rank :: "scope \<Rightarrow> nat" where
  "scope_rank Builtin = 0"
| "scope_rank UserGlobal = 1"
| "scope_rank Project = 2"
| "scope_rank Workspace = 3"
| "scope_rank GrantScope = 4"

datatype outcome = Allow | Ask | Deny

fun policy_decision_of :: "outcome \<Rightarrow> policy_decision" where
  "policy_decision_of Allow = PAllow"
| "policy_decision_of Ask = PAsk"
| "policy_decision_of Deny = PDeny"

type_synonym rule_id = string

record decision =
  dc_outcome :: outcome
  dc_rule :: "rule_id option"

datatype arg_matcher = ArgExact "string list" | ArgvPrefix "string list" | ArgGlob "string list"

datatype args_pattern = ArgsExact json | ArgsPrefix "(string \<times> json) list"

datatype predicate =
    PFsPrefix fs_op path
  | PFsExact fs_op path
  | PShell string arg_matcher bool
  | PHttp "http_method option" string bool
  | PMcp string "string option" "args_pattern option"
  | PGit string "string list" bool
  | PAgent "string option" "string option" tier
  | PMemory memory_scope memory_op "session_id option"

fun args_match :: "args_pattern \<Rightarrow> json \<Rightarrow> bool" where
  "args_match (ArgsExact expected) candidate = json_eq candidate expected"
| "args_match (ArgsPrefix required) (JObject obj) =
     list_all (\<lambda>(k, v). case map_of obj k of None \<Rightarrow> False | Some w \<Rightarrow> json_eq w v) required"
| "args_match (ArgsPrefix required) _ = False"

definition predicate_program :: "string \<Rightarrow> predicate" where
  "predicate_program p = PShell p (ArgvPrefix []) False"

definition predicate_argv_prefix :: "string \<Rightarrow> string list \<Rightarrow> predicate" where
  "predicate_argv_prefix p prefix = PShell p (ArgvPrefix prefix) False"

definition INTERPRETER_PROGRAMS :: "string list" where
  "INTERPRETER_PROGRAMS =
     [''sh'', ''bash'', ''zsh'', ''dash'', ''ksh'', ''python'', ''python3'', ''perl'', ''ruby'', ''php'', ''lua'',
      ''awk'', ''xargs'', ''env'', ''node'', ''make'', ''ssh'']"

definition is_interpreter :: "string \<Rightarrow> bool" where
  "is_interpreter program =
     ((case path_file_name program of None \<Rightarrow> program | Some n \<Rightarrow> n) \<in> set INTERPRETER_PROGRAMS)"

type_synonym glob_engine = "string \<Rightarrow> (string \<Rightarrow> bool) option"

definition argv_matches :: "glob_engine \<Rightarrow> arg_matcher \<Rightarrow> string list \<Rightarrow> bool" where
  "argv_matches glob matcher argv =
     (case matcher of
        ArgExact v \<Rightarrow> argv = v
      | ArgvPrefix prefix \<Rightarrow> list_prefix prefix argv
      | ArgGlob patterns \<Rightarrow>
          list_all (\<lambda>(i, pat). case glob pat of
                       None \<Rightarrow> False
                     | Some m \<Rightarrow> i < length argv \<and> m (argv ! i))
            (enumerate 0 patterns))"

fun matcher_bound :: "arg_matcher \<Rightarrow> nat" where
  "matcher_bound (ArgExact v) = length v"
| "matcher_bound (ArgvPrefix p) = length p"
| "matcher_bound (ArgGlob ps) = length ps"

definition opt_ok :: "('a \<Rightarrow> bool) \<Rightarrow> 'a option \<Rightarrow> bool" where
  [simp]: "opt_ok f x = (case x of None \<Rightarrow> True | Some a \<Rightarrow> f a)"

definition some_count :: "bool list \<Rightarrow> nat" where
  "some_count bs = length (filter id bs)"

text \<open>
  \<^verbatim>\<open>Predicate::matches\<close>: \<open>None\<close> or (length of the longest literal, number of bound parts).
\<close>

definition predicate_matches ::
  "glob_engine \<Rightarrow> predicate \<Rightarrow> task_params \<Rightarrow> outcome \<Rightarrow> (nat \<times> nat) option" where
  "predicate_matches glob pred params out =
     (case pred of
        PFsExact pop ppath \<Rightarrow>
          (case params of
             TpFs op _ (Inr c) \<Rightarrow>
               if pop = op \<and> path_eq c ppath then Some (length ppath, 2) else None
           | _ \<Rightarrow> None)
      | PFsPrefix pop prefix \<Rightarrow>
          (case params of
             TpFs op _ (Inr c) \<Rightarrow>
               if pop = op \<and> path_starts_with c prefix then Some (length prefix, 1) else None
           | _ \<Rightarrow> None)
      | PHttp m url_prefix exact \<Rightarrow>
          (case params of
             TpHttp m' url _ \<Rightarrow>
               let method_ok = opt_ok (\<lambda>x. x = m') m;
                   url_ok = (if exact then url = url_prefix else list_prefix url_prefix url)
               in if method_ok \<and> url_ok
                  then Some (length url_prefix, if m \<noteq> None then 2 else 1) else None
           | _ \<Rightarrow> None)
      | PMcp server tool args \<Rightarrow>
          (case params of
             TpMcp s t a \<Rightarrow>
               let tool_ok = opt_ok (\<lambda>x. x = t) tool;
                   args_ok = opt_ok (\<lambda>p. args_match p a) args;
                   bound = some_count [tool \<noteq> None, args \<noteq> None] + 1
               in if server = s \<and> tool_ok \<and> args_ok then Some (length server, bound) else None
           | _ \<Rightarrow> None)
      | PGit subcommand argv_prefix exact \<Rightarrow>
          (case params of
             TpGit sc argv _ \<Rightarrow>
               let argv_ok = (if exact then argv = argv_prefix else list_prefix argv_prefix argv)
               in if subcommand = sc \<and> argv_ok
                  then Some (length subcommand, 1 + length argv_prefix) else None
           | _ \<Rightarrow> None)
      | PShell program matcher allow_interpreter \<Rightarrow>
          (case params of
             TpShell cmd \<Rightarrow>
               if pc_program cmd \<noteq> program then None
               else if is_interpreter program \<and> \<not> allow_interpreter \<and> out = Allow then None
               else if argv_matches glob matcher (pc_argv cmd)
                    then Some (length program, 1 + matcher_bound matcher) else None
           | _ \<Rightarrow> None)
      | PAgent provider model max_tier \<Rightarrow>
          (case params of
             TpAgent p m tier_request \<Rightarrow>
               let provider_ok = opt_ok (\<lambda>x. x = p) provider;
                   model_ok = opt_ok (\<lambda>x. x = m) model;
                   bound = some_count [provider \<noteq> None, model \<noteq> None] + 1
               in if provider_ok \<and> model_ok \<and> tier_request \<ge> max_tier
                  then Some (0, bound) else None
           | _ \<Rightarrow> None)
      | PMemory pscope pop psession \<Rightarrow>
          (case params of
             TpMemory sc op session \<Rightarrow>
               let session_ok = opt_ok (\<lambda>s. s = session) psession
               in if pscope = sc \<and> pop = op \<and> session_ok
                  then Some (0, if psession \<noteq> None then 3 else 2) else None
           | _ \<Rightarrow> None))"

record compiled_rule =
  cr_scope :: scope
  cr_outcome :: outcome
  cr_predicate :: predicate
  cr_file_order :: nat
  cr_id :: rule_id

subsection \<open>The sealed floor\<close>

record sealed_context =
  state_dir :: path
  daemon_binary :: path
  resolved_mcp_servers :: "string set"
  requested_tier :: tier
  attested_tier :: tier
  home :: "path option"

definition default_context :: "path option \<Rightarrow> sealed_context" where
  "default_context home_var =
     \<lparr>state_dir = [], daemon_binary = [], resolved_mcp_servers = {}, requested_tier = TierNone,
      attested_tier = TierNone,
      home = (case home_var of None \<Rightarrow> Some ''/home/test-user'' | Some h \<Rightarrow> Some h)\<rparr>"

definition SEALED_PROGRAMS :: "string list" where
  "SEALED_PROGRAMS =
     [''sudo'', ''doas'', ''pkexec'', ''nsenter'', ''unshare'', ''chroot'', ''systemd-run'']"

text \<open>The canonical path of a write or edit; every other task is none of the write rules' business.\<close>

definition written_path :: "task_params \<Rightarrow> path option" where
  "written_path params =
     (case params of
        TpFs op _ (Inr c) \<Rightarrow> if op = FsWrite \<or> op = FsEdit then Some c else None
      | _ \<Rightarrow> None)"

definition sealed_write_under :: "task_params \<Rightarrow> sealed_context \<Rightarrow> path \<Rightarrow> bool" where
  "sealed_write_under params ctx suffix =
     (case written_path params of
        None \<Rightarrow> False
      | Some c \<Rightarrow> (case home ctx of
                    None \<Rightarrow> True
                  | Some h \<Rightarrow> path_starts_with c (path_join h suffix)))"

definition sealed_state_dir_write :: "task_params \<Rightarrow> sealed_context \<Rightarrow> bool" where
  "sealed_state_dir_write params ctx =
     (if state_dir ctx = [] then False
      else case written_path params of None \<Rightarrow> False | Some c \<Rightarrow> path_starts_with c (state_dir ctx))"

definition sealed_daemon_binary_write :: "task_params \<Rightarrow> sealed_context \<Rightarrow> bool" where
  "sealed_daemon_binary_write params ctx =
     (if daemon_binary ctx = [] then False
      else case written_path params of None \<Rightarrow> False | Some c \<Rightarrow> path_eq c (daemon_binary ctx))"

fun sealed_program :: "task_params \<Rightarrow> bool" where
  "sealed_program (TpShell cmd) =
     (pc_program cmd \<in> set SEALED_PROGRAMS \<or>
      (case path_file_name (pc_program cmd) of
         None \<Rightarrow> False | Some name \<Rightarrow> name \<in> set SEALED_PROGRAMS))"
| "sealed_program _ = False"

fun sealed_mcp_unresolved :: "task_params \<Rightarrow> sealed_context \<Rightarrow> bool" where
  "sealed_mcp_unresolved (TpMcp server _ _) ctx = (server \<notin> resolved_mcp_servers ctx)"
| "sealed_mcp_unresolved _ ctx = False"

definition sealed_tier_shortfall :: "task_params \<Rightarrow> sealed_context \<Rightarrow> bool" where
  "sealed_tier_shortfall params ctx = (attested_tier ctx < requested_tier ctx)"

definition sealed_rules :: "(rule_id \<times> (task_params \<Rightarrow> sealed_context \<Rightarrow> bool)) list" where
  "sealed_rules =
     [(''sealed:ssh-write'', \<lambda>p ctx. sealed_write_under p ctx ''.ssh''),
      (''sealed:gnupg-write'', \<lambda>p ctx. sealed_write_under p ctx ''.gnupg''),
      (''sealed:aws-write'', \<lambda>p ctx. sealed_write_under p ctx ''.aws''),
      (''sealed:roundhouse-config-write'', \<lambda>p ctx. sealed_write_under p ctx ''.config/roundhouse''),
      (''sealed:state-dir-write'', sealed_state_dir_write),
      (''sealed:daemon-binary-write'', sealed_daemon_binary_write),
      (''sealed:priv-escalation-program'', \<lambda>p _. sealed_program p),
      (''sealed:mcp-unresolved-server'', sealed_mcp_unresolved),
      (''sealed:tier-shortfall'', sealed_tier_shortfall)]"

subsection \<open>The engine\<close>

record team_membership =
  can_read :: "team_id \<Rightarrow> session_id \<Rightarrow> bool"
  can_write :: "team_id \<Rightarrow> session_id \<Rightarrow> bool"

record policy_engine =
  pe_rules :: "compiled_rule list"
  pe_unsealed :: bool
  pe_sealed_ctx :: sealed_context
  pe_team_membership :: "team_membership option"

definition from_rules :: "path option \<Rightarrow> compiled_rule list \<Rightarrow> policy_engine" where
  "from_rules home_var rs =
     \<lparr>pe_rules = rs, pe_unsealed = False, pe_sealed_ctx = default_context home_var,
      pe_team_membership = None\<rparr>"

definition rule_matches :: "glob_engine \<Rightarrow> task_params \<Rightarrow> compiled_rule \<Rightarrow> (nat \<times> nat) option" where
  "rule_matches glob params r = predicate_matches glob (cr_predicate r) params (cr_outcome r)"

definition is_deny_match :: "glob_engine \<Rightarrow> task_params \<Rightarrow> compiled_rule \<Rightarrow> bool" where
  "is_deny_match glob params r \<longleftrightarrow> cr_outcome r = Deny \<and> rule_matches glob params r \<noteq> None"

definition decide_team_memory ::
  "glob_engine \<Rightarrow> policy_engine \<Rightarrow> task_params \<Rightarrow> team_id \<Rightarrow> memory_op \<Rightarrow> session_id \<Rightarrow> decision" where
  "decide_team_memory glob pe params team op session =
     (case List.find (is_deny_match glob params) (pe_rules pe) of
        Some r \<Rightarrow> \<lparr>dc_outcome = Deny, dc_rule = Some (cr_id r)\<rparr>
      | None \<Rightarrow>
          (case pe_team_membership pe of
             None \<Rightarrow> \<lparr>dc_outcome = Deny, dc_rule = Some ''team-memory:unconfigured''\<rparr>
           | Some ms \<Rightarrow>
               let allowed = (case op of MemRead \<Rightarrow> can_read ms team session
                              | _ \<Rightarrow> can_write ms team session);
                   rule_id = (case op of MemRead \<Rightarrow> ''team-memory:read'' | _ \<Rightarrow> ''team-memory:write'')
               in \<lparr>dc_outcome = (if allowed then Allow else Deny), dc_rule = Some rule_id\<rparr>))"

text \<open>
  The comparator of lines 921-927: scope, literal length and bound parts descending, file order
  ascending; \<^verbatim>\<open>sort_by\<close> and \<open>sort_key\<close> are both stable.
\<close>

definition match_key :: "compiled_rule \<times> nat \<times> nat \<Rightarrow> int \<times> int \<times> int \<times> nat" where
  "match_key = (\<lambda>(r, lp, bp).
     (- int (scope_rank (cr_scope r)), - int lp, - int bp, cr_file_order r))"

definition matching_rules ::
  "glob_engine \<Rightarrow> task_params \<Rightarrow> compiled_rule list \<Rightarrow> (compiled_rule \<times> nat \<times> nat) list" where
  "matching_rules glob params rs =
     List.map_filter (\<lambda>r. map_option (\<lambda>(lp, bp). (r, lp, bp)) (rule_matches glob params r)) rs"

definition decide_rules :: "glob_engine \<Rightarrow> task_params \<Rightarrow> compiled_rule list \<Rightarrow> decision" where
  "decide_rules glob params rs =
     (let matches = matching_rules glob params rs
      in case List.find (\<lambda>(r, _, _). cr_outcome r = Deny) matches of
           Some (r, _, _) \<Rightarrow> \<lparr>dc_outcome = Deny, dc_rule = Some (cr_id r)\<rparr>
         | None \<Rightarrow>
             (case sort_key match_key matches of
                (r, _, _) # _ \<Rightarrow> \<lparr>dc_outcome = cr_outcome r, dc_rule = Some (cr_id r)\<rparr>
              | [] \<Rightarrow> \<lparr>dc_outcome = Ask, dc_rule = None\<rparr>))"

definition decide :: "glob_engine \<Rightarrow> policy_engine \<Rightarrow> task_params \<Rightarrow> decision" where
  "decide glob pe params =
     (case params of
        TpFs _ _ (Inl _) \<Rightarrow> \<lparr>dc_outcome = Deny, dc_rule = None\<rparr>
      | TpMemory (MemTeam team) op session \<Rightarrow> decide_team_memory glob pe params team op session
      | _ \<Rightarrow> decide_rules glob params (pe_rules pe))"

fun is_irreversible_or_exfiltrating :: "task_params \<Rightarrow> bool" where
  "is_irreversible_or_exfiltrating (TpHttp m _ _) = (m \<noteq> MGet)"
| "is_irreversible_or_exfiltrating (TpGit sc _ _) = (sc = ''push'')"
| "is_irreversible_or_exfiltrating (TpFs op _ _) = (op = FsWrite \<or> op = FsEdit)"
| "is_irreversible_or_exfiltrating (TpAgent _ _ _) = True"
| "is_irreversible_or_exfiltrating _ = False"

definition downgrade_tainted_grant :: "decision \<Rightarrow> task_params \<Rightarrow> taint \<Rightarrow> decision" where
  "downgrade_tainted_grant d params t =
     (if t \<noteq> Tainted \<or> dc_outcome d \<noteq> Allow then d
      else let is_grant = (case dc_rule d of None \<Rightarrow> False | Some r \<Rightarrow> list_prefix ''grant:'' r)
           in if \<not> is_grant \<or> \<not> is_irreversible_or_exfiltrating params then d
              else \<lparr>dc_outcome = Ask, dc_rule = dc_rule d\<rparr>)"

definition decide_sealed ::
  "glob_engine \<Rightarrow> policy_engine \<Rightarrow> task_params \<Rightarrow> sealed_context \<Rightarrow> taint \<Rightarrow> decision" where
  "decide_sealed glob pe params ctx t =
     (case (if pe_unsealed pe then None
            else List.find (\<lambda>(_, m). m params ctx) sealed_rules) of
        Some (rid, _) \<Rightarrow> \<lparr>dc_outcome = Deny, dc_rule = Some rid\<rparr>
      | None \<Rightarrow> downgrade_tainted_grant (decide glob pe params) params t)"

definition decide_unattended :: "glob_engine \<Rightarrow> policy_engine \<Rightarrow> task_params \<Rightarrow> taint \<Rightarrow> decision" where
  "decide_unattended glob pe params t =
     (let d = decide_sealed glob pe params (pe_sealed_ctx pe) t
      in if dc_rule d = None \<and> dc_outcome d = Ask then \<lparr>dc_outcome = Deny, dc_rule = None\<rparr> else d)"

definition policy_decide :: "glob_engine \<Rightarrow> policy_engine \<Rightarrow> policy_input \<Rightarrow> policy_decision" where
  "policy_decide glob pe input =
     policy_decision_of (dc_outcome
       (decide_sealed glob pe (pi_params input) (pe_sealed_ctx pe) (pi_taint input)))"

subsection \<open>Policy files\<close>

datatype config_scope = CfgBuiltin | CfgUserGlobal | CfgProject | CfgWorkspace

record policy_rule =
  plr_id :: string
  plr_outcome :: outcome
  plr_read :: path

record policy_layer =
  pl_scope :: config_scope
  pl_path :: path
  pl_contents :: string
  pl_rules :: "policy_rule list"

datatype policy_config_error = EmptyId string | NonAbsolutePath string

fun scope_of_config :: "config_scope \<Rightarrow> scope" where
  "scope_of_config CfgBuiltin = Builtin"
| "scope_of_config CfgUserGlobal = UserGlobal"
| "scope_of_config CfgProject = Project"
| "scope_of_config CfgWorkspace = Workspace"

fun compile_rules ::
  "scope \<Rightarrow> policy_rule list \<Rightarrow> compiled_rule list \<Rightarrow> (compiled_rule list, policy_config_error) result" where
  "compile_rules sc [] compiled = Ok compiled"
| "compile_rules sc (r # rs) compiled =
     (if plr_id r = [] then Err (EmptyId (plr_id r))
      else if \<not> path_is_absolute (plr_read r) then Err (NonAbsolutePath (plr_id r))
      else compile_rules sc rs
             (compiled @ [\<lparr>cr_scope = sc, cr_outcome = plr_outcome r,
                           cr_predicate = PFsExact FsRead (plr_read r),
                           cr_file_order = length compiled, cr_id = plr_id r\<rparr>]))"

fun compile_layers ::
  "policy_layer list \<Rightarrow> compiled_rule list \<Rightarrow> (compiled_rule list, policy_config_error) result" where
  "compile_layers [] compiled = Ok compiled"
| "compile_layers (l # ls) compiled =
     res_bind (compile_rules (scope_of_config (pl_scope l)) (pl_rules l) compiled) (compile_layers ls)"

definition compile_policy_layers ::
  "policy_layer list \<Rightarrow> (compiled_rule list, policy_config_error) result" where
  "compile_policy_layers layers = compile_layers layers []"

subsection \<open>Precedence\<close>

lemma in_matching_rules:
  "(r, lp, bp) \<in> set (matching_rules glob params rs) \<longleftrightarrow>
     r \<in> set rs \<and> rule_matches glob params r = Some (lp, bp)"
  by (force simp: matching_rules_def List.map_filter_def)

lemma matching_rules_Nil:
  "matching_rules glob params rs = [] \<longleftrightarrow> (\<forall>r \<in> set rs. rule_matches glob params r = None)"
  by (auto simp: matching_rules_def List.map_filter_def filter_empty_conv)
     (metis not_None_eq surj_pair)

lemma no_deny_match:
  "\<not> (\<exists>r \<in> set rs. is_deny_match glob params r) \<longleftrightarrow>
   (\<forall>r \<in> set rs. cr_outcome r = Deny \<longrightarrow> rule_matches glob params r = None)"
  by (auto simp: is_deny_match_def simp del: not_None_eq)

lemma find_Some_mem: "List.find P xs = Some x \<Longrightarrow> x \<in> set xs \<and> P x"
  by (induction xs) (auto split: if_splits)

lemma find_deny:
  "(case List.find (\<lambda>(r, _, _). cr_outcome r = Deny) (matching_rules glob params rs) of
      None \<Rightarrow> \<forall>r \<in> set rs. \<not> is_deny_match glob params r
    | Some (r, _, _) \<Rightarrow> r \<in> set rs \<and> is_deny_match glob params r)"
proof (cases "List.find (\<lambda>(r, _, _). cr_outcome r = Deny) (matching_rules glob params rs)")
  case None
  then have "\<forall>r lp bp. (r, lp, bp) \<in> set (matching_rules glob params rs) \<longrightarrow> cr_outcome r \<noteq> Deny"
    by (auto simp: find_None_iff)
  then show ?thesis
    unfolding None by (auto simp: in_matching_rules is_deny_match_def)
next
  case (Some x)
  obtain r lp bp where x: "x = (r, lp, bp)" by (cases x)
  have "x \<in> set (matching_rules glob params rs)" "cr_outcome r = Deny"
    using find_Some_mem [OF Some] by (auto simp: x)
  then show ?thesis
    unfolding Some by (simp add: x in_matching_rules is_deny_match_def)
qed

lemma sort_key_first:
  assumes "sort_key k xs = x # ys"
  shows "x \<in> set xs \<and> (\<forall>y \<in> set xs. k x \<le> k y)"
proof -
  have "set (sort_key k xs) = set xs" "sorted (map k (sort_key k xs))" by simp_all
  then show ?thesis unfolding assms by auto
qed

lemma decide_rules_deny:
  assumes "\<exists>r \<in> set rs. is_deny_match glob params r"
  shows "\<exists>r \<in> set rs. is_deny_match glob params r \<and>
           decide_rules glob params rs = \<lparr>dc_outcome = Deny, dc_rule = Some (cr_id r)\<rparr>"
  using find_deny [where glob = glob and params = params and rs = rs] assms
  by (auto simp: decide_rules_def Let_def split: option.splits)

lemma decide_rules_no_deny:
  assumes "\<not> (\<exists>r \<in> set rs. is_deny_match glob params r)"
  shows "decide_rules glob params rs =
     (case sort_key match_key (matching_rules glob params rs) of
        (r, _, _) # _ \<Rightarrow> \<lparr>dc_outcome = cr_outcome r, dc_rule = Some (cr_id r)\<rparr>
      | [] \<Rightarrow> \<lparr>dc_outcome = Ask, dc_rule = None\<rparr>)"
  using find_deny [where glob = glob and params = params and rs = rs] assms
  by (auto simp: decide_rules_def Let_def split: option.splits)

lemma decide_rules_unmatched:
  assumes "\<forall>r \<in> set rs. rule_matches glob params r = None"
  shows "decide_rules glob params rs = \<lparr>dc_outcome = Ask, dc_rule = None\<rparr>"
  using decide_rules_no_deny [of rs glob params] assms
  by (auto simp: is_deny_match_def matching_rules_Nil [THEN iffD2])

lemma decide_rules_winner:
  assumes "\<not> (\<exists>r \<in> set rs. is_deny_match glob params r)"
    and "\<exists>r \<in> set rs. rule_matches glob params r \<noteq> None"
  obtains r lp bp where "r \<in> set rs" "rule_matches glob params r = Some (lp, bp)"
    "decide_rules glob params rs = \<lparr>dc_outcome = cr_outcome r, dc_rule = Some (cr_id r)\<rparr>"
    "\<And>r' lp' bp'. r' \<in> set rs \<Longrightarrow> rule_matches glob params r' = Some (lp', bp') \<Longrightarrow>
        match_key (r, lp, bp) \<le> match_key (r', lp', bp')"
proof -
  have "sort_key match_key (matching_rules glob params rs) \<noteq> []"
    using assms(2) matching_rules_Nil [of glob params rs] by (metis set_empty set_sort)
  then obtain r lp bp ys
      where s: "sort_key match_key (matching_rules glob params rs) = (r, lp, bp) # ys"
    by (metis list.exhaust prod_cases3)
  from sort_key_first [OF s] show thesis
    using decide_rules_no_deny [OF assms(1)] s
    by (intro that [of r lp bp]) (auto simp: in_matching_rules)
qed

lemma decide_rules_allow:
  assumes "dc_outcome (decide_rules glob params rs) = Allow"
  shows "(\<exists>r \<in> set rs. cr_outcome r = Allow \<and> rule_matches glob params r \<noteq> None \<and>
            dc_rule (decide_rules glob params rs) = Some (cr_id r)) \<and>
         \<not> (\<exists>r \<in> set rs. is_deny_match glob params r)"
proof -
  have nd: "\<not> (\<exists>r \<in> set rs. is_deny_match glob params r)"
    using decide_rules_deny [of rs glob params] assms by fastforce
  have "\<exists>r \<in> set rs. rule_matches glob params r \<noteq> None"
  proof (rule ccontr)
    assume "\<not> ?thesis"
    then have "\<forall>r \<in> set rs. rule_matches glob params r = None" by blast
    from decide_rules_unmatched [OF this] show False using assms by simp
  qed
  then obtain r lp bp where "r \<in> set rs" "rule_matches glob params r = Some (lp, bp)"
      "decide_rules glob params rs = \<lparr>dc_outcome = cr_outcome r, dc_rule = Some (cr_id r)\<rparr>"
    by (rule decide_rules_winner [OF nd])
  then show ?thesis using nd assms by auto
qed

text \<open>Rules that do not match play no part.\<close>

lemma matching_rules_filter:
  assumes "\<And>r. r \<in> set rs \<Longrightarrow> \<not> P r \<Longrightarrow> rule_matches glob params r = None"
  shows "matching_rules glob params (filter P rs) = matching_rules glob params rs"
  using assms
proof (induction rs)
  case (Cons r rs)
  then show ?case
    by (cases "P r") (auto simp: matching_rules_def map_filter_simps split: option.split)
qed (simp add: matching_rules_def map_filter_simps)

lemma decide_rules_extra_deny:
  assumes "filter (\<lambda>r. cr_outcome r \<noteq> Deny) rs' = filter (\<lambda>r. cr_outcome r \<noteq> Deny) rs"
    and "set rs \<subseteq> set rs'" "dc_outcome (decide_rules glob params rs') = Allow"
  shows "decide_rules glob params rs = decide_rules glob params rs'"
proof -
  have nd': "\<not> (\<exists>r \<in> set rs'. is_deny_match glob params r)"
    using decide_rules_allow [OF assms(3)] by simp
  then have nd: "\<not> (\<exists>r \<in> set rs. is_deny_match glob params r)"
    using assms(2) by auto
  have "matching_rules glob params rs = matching_rules glob params rs'"
  proof -
    have "matching_rules glob params (filter (\<lambda>r. cr_outcome r \<noteq> Deny) qs) = matching_rules glob params qs"
      if "\<not> (\<exists>r \<in> set qs. is_deny_match glob params r)" for qs
      using that by (intro matching_rules_filter) (auto simp: is_deny_match_def simp del: not_None_eq)
    from this [OF nd] this [OF nd'] assms(1) show ?thesis by simp
  qed
  then show ?thesis
    using decide_rules_no_deny [OF nd] decide_rules_no_deny [OF nd'] by simp
qed

subsection \<open>From the engine to its rules\<close>

definition team_memory_allowed :: "policy_engine \<Rightarrow> task_params \<Rightarrow> bool" where
  "team_memory_allowed pe params =
     (case params of
        TpMemory (MemTeam team) op session \<Rightarrow>
          (case pe_team_membership pe of
             None \<Rightarrow> False
           | Some ms \<Rightarrow> if op = MemRead then can_read ms team session else can_write ms team session)
      | _ \<Rightarrow> False)"

lemma decide_team_memory_allow:
  assumes "dc_outcome (decide_team_memory glob pe (TpMemory (MemTeam t) op s) t op s) = Allow"
  shows "team_memory_allowed pe (TpMemory (MemTeam t) op s)"
    and "\<not> (\<exists>r \<in> set (pe_rules pe). is_deny_match glob (TpMemory (MemTeam t) op s) r)"
  using assms
  by (auto simp: decide_team_memory_def team_memory_allowed_def Let_def find_None_iff
      split: option.splits memory_op.splits if_splits)

lemma decide_allow:
  assumes "dc_outcome (decide glob pe params) = Allow"
  shows "(team_memory_allowed pe params \<or>
          (\<exists>r \<in> set (pe_rules pe). cr_outcome r = Allow \<and> rule_matches glob params r \<noteq> None \<and>
             dc_rule (decide glob pe params) = Some (cr_id r))) \<and>
         \<not> (\<exists>r \<in> set (pe_rules pe). is_deny_match glob params r)"
proof (cases "\<exists>t op s. params = TpMemory (MemTeam t) op s")
  case True
  then show ?thesis
    using assms decide_team_memory_allow [of glob pe] by (auto simp: decide_def)
next
  case False
  then have "decide glob pe params = decide_rules glob params (pe_rules pe)"
    using assms by (auto simp: decide_def split: task_params.splits sum.splits memory_scope.splits)
  then show ?thesis
    using decide_rules_allow [of glob params "pe_rules pe"] assms by auto
qed

lemma decide_sealed_allow:
  assumes "dc_outcome (decide_sealed glob pe params ctx t) = Allow"
  shows "dc_outcome (decide glob pe params) = Allow \<and>
         (pe_unsealed pe \<or> (\<forall>(rid, m) \<in> set sealed_rules. \<not> m params ctx)) \<and>
         decide_sealed glob pe params ctx t = decide glob pe params \<and>
         \<not> (t = Tainted \<and> is_irreversible_or_exfiltrating params \<and>
            (\<exists>rid. dc_rule (decide glob pe params) = Some rid \<and> list_prefix ''grant:'' rid))"
proof -
  have none: "(if pe_unsealed pe then None else List.find (\<lambda>(_, m). m params ctx) sealed_rules) = None"
    using assms by (auto simp: decide_sealed_def split: option.splits)
  then have "pe_unsealed pe \<or> (\<forall>(rid, m) \<in> set sealed_rules. \<not> m params ctx)"
    by (auto simp: find_None_iff split: if_splits)
  moreover have eq: "decide_sealed glob pe params ctx t
      = downgrade_tainted_grant (decide glob pe params) params t"
    using none by (simp add: decide_sealed_def)
  ultimately show ?thesis
    using assms unfolding eq
    by (auto simp: downgrade_tainted_grant_def Let_def split: option.splits if_splits)
qed

lemma decide_extra_deny:
  assumes "filter (\<lambda>r. cr_outcome r \<noteq> Deny) rs' = filter (\<lambda>r. cr_outcome r \<noteq> Deny) (pe_rules pe)"
    and "set (pe_rules pe) \<subseteq> set rs'"
    and "dc_outcome (decide glob (pe\<lparr>pe_rules := rs'\<rparr>) params) = Allow"
  shows "decide glob pe params = decide glob (pe\<lparr>pe_rules := rs'\<rparr>) params"
proof (cases "\<exists>t op s. params = TpMemory (MemTeam t) op s")
  case True
  then obtain t op s where p: "params = TpMemory (MemTeam t) op s" by blast
  have "\<not> (\<exists>r \<in> set rs'. is_deny_match glob params r)"
    using decide_allow [OF assms(3)] by simp
  then have "List.find (is_deny_match glob params) rs' = None"
    "List.find (is_deny_match glob params) (pe_rules pe) = None"
    using assms(2) by (auto simp: find_None_iff)
  then show ?thesis
    by (simp add: p decide_def decide_team_memory_def)
next
  case nm: False
  show ?thesis
  proof (cases "\<exists>op p err. params = TpFs op p (Inl err)")
    case True
    then show ?thesis by (auto simp: decide_def)
  next
    case False
    have "decide glob q params = decide_rules glob params (pe_rules q)" for q
      using False nm by (auto simp: decide_def split: task_params.splits sum.splits memory_scope.splits)
    then show ?thesis
      using decide_rules_extra_deny [OF assms(1,2)] assms(3) by simp
  qed
qed

lemma compile_rules_Ok:
  "compile_rules sc rs acc = Ok out \<Longrightarrow>
     (\<forall>r \<in> set rs. plr_id r \<noteq> [] \<and> path_is_absolute (plr_read r)) \<and>
     out = acc @ map (\<lambda>(i, r). \<lparr>cr_scope = sc, cr_outcome = plr_outcome r,
                          cr_predicate = PFsExact FsRead (plr_read r), cr_file_order = i,
                          cr_id = plr_id r\<rparr>) (enumerate (length acc) rs)"
  by (induction sc rs acc rule: compile_rules.induct) (auto split: if_splits)

text \<open>The rules of a list of layers, in order, each with the scope of its layer.\<close>

definition layer_rules :: "policy_layer list \<Rightarrow> (scope \<times> policy_rule) list" where
  "layer_rules ls = concat (map (\<lambda>l. map (Pair (scope_of_config (pl_scope l))) (pl_rules l)) ls)"

definition compiled_from :: "nat \<times> scope \<times> policy_rule \<Rightarrow> compiled_rule" where
  "compiled_from = (\<lambda>(i, sc, r). \<lparr>cr_scope = sc, cr_outcome = plr_outcome r,
     cr_predicate = PFsExact FsRead (plr_read r), cr_file_order = i, cr_id = plr_id r\<rparr>)"

lemma enumerate_map_Pair:
  "map compiled_from (enumerate n (map (Pair sc) rs)) =
   map (\<lambda>(i, r). \<lparr>cr_scope = sc, cr_outcome = plr_outcome r,
          cr_predicate = PFsExact FsRead (plr_read r), cr_file_order = i, cr_id = plr_id r\<rparr>)
     (enumerate n rs)"
  by (induction rs arbitrary: n) (auto simp: compiled_from_def)

lemma compile_layers_Ok:
  "compile_layers ls acc = Ok out \<Longrightarrow>
     (\<forall>(sc, r) \<in> set (layer_rules ls). plr_id r \<noteq> [] \<and> path_is_absolute (plr_read r)) \<and>
     out = acc @ map compiled_from (enumerate (length acc) (layer_rules ls))"
proof (induction ls acc rule: compile_layers.induct)
  case (2 l ls acc)
  obtain mid where m: "compile_rules (scope_of_config (pl_scope l)) (pl_rules l) acc = Ok mid"
      "compile_layers ls mid = Ok out"
    using 2 by auto
  note c = compile_rules_Ok [OF m(1)]
  have len: "length mid = length acc + length (pl_rules l)"
    using c by simp
  show ?case
    using c 2(1) [OF m(2)] unfolding len
    by (auto simp: layer_rules_def enumerate_append_eq enumerate_map_Pair)
qed (simp add: layer_rules_def)

subsection \<open>Properties\<close>

text \<open>
  \<^bold>\<open>C1.\<close> Every Allow is justified. If the engine, with all its layers, allows a task, then: the
  engine was unsealed or no sealed rule hits; no Deny rule of any scope matches; a matching Allow
  rule is the rule reported, or the task is a team-memory access that the membership of the team
  grants; the path of a file task was canonicalised; and if the task is tainted and irreversible,
  the reported rule is not a remembered grant.
\<close>

theorem allow_is_justified:
  assumes "dc_outcome (decide_sealed glob pe params ctx t) = Allow"
  shows "(pe_unsealed pe \<or> (\<forall>(rid, m) \<in> set sealed_rules. \<not> m params ctx)) \<and>
         (\<forall>r \<in> set (pe_rules pe). cr_outcome r = Deny \<longrightarrow> rule_matches glob params r = None) \<and>
         (team_memory_allowed pe params \<or>
          (\<exists>r \<in> set (pe_rules pe). cr_outcome r = Allow \<and> rule_matches glob params r \<noteq> None \<and>
             dc_rule (decide_sealed glob pe params ctx t) = Some (cr_id r))) \<and>
         (\<forall>op p err. params \<noteq> TpFs op p (Inl err)) \<and>
         \<not> (t = Tainted \<and> is_irreversible_or_exfiltrating params \<and>
            (\<exists>rid. dc_rule (decide_sealed glob pe params ctx t) = Some rid \<and> list_prefix ''grant:'' rid))"
proof -
  have al: "dc_outcome (decide glob pe params) = Allow"
    and eq: "decide_sealed glob pe params ctx t = decide glob pe params"
    using decide_sealed_allow [OF assms] by simp_all
  have "\<forall>op p err. params \<noteq> TpFs op p (Inl err)"
    using al by (auto simp: decide_def)
  then show ?thesis
    unfolding eq using decide_sealed_allow [OF assms] decide_allow [OF al, unfolded no_deny_match]
    by (intro conjI) blast+
qed

definition example_rule :: compiled_rule where
  "example_rule = \<lparr>cr_scope = Project, cr_outcome = Allow, cr_predicate = PHttp (Some MGet) ''https://a/'' False,
     cr_file_order = 0, cr_id = ''r1''\<rparr>"

definition example_engine :: policy_engine where
  "example_engine = from_rules None [example_rule]"

lemma example_engine_allows:
  "decide_sealed (\<lambda>_. None) example_engine (TpHttp MGet ''https://a/x'' 0) (default_context None) Tainted
     = \<lparr>dc_outcome = Allow, dc_rule = Some ''r1''\<rparr>"
  by (simp add: decide_sealed_def example_engine_def example_rule_def from_rules_def sealed_rules_def
      sealed_write_under_def written_path_def sealed_state_dir_write_def sealed_daemon_binary_write_def
      sealed_tier_shortfall_def default_context_def decide_def decide_rules_def matching_rules_def
      map_filter_simps rule_matches_def predicate_matches_def downgrade_tainted_grant_def)

theorem allow_is_justified_witness:
  "\<exists>r \<in> set (pe_rules example_engine). cr_outcome r = Allow \<and>
     rule_matches (\<lambda>_. None) (TpHttp MGet ''https://a/x'' 0) r \<noteq> None"
  using allow_is_justified [of "\<lambda>_. None" example_engine "TpHttp MGet ''https://a/x'' 0"
      "default_context None" Tainted]
  by (auto simp: example_engine_allows team_memory_allowed_def)

text \<open>
  \<^bold>\<open>C5.\<close> The precedence among rules. If any Deny rule matches, whatever its scope and specificity,
  the decision is Deny and names such a rule. If nothing matches, the decision is Ask with no rule.
  Otherwise it is that of a matching rule of maximal precedence: no matching rule has a higher
  scope, or the same scope and a longer literal, or also more bound parts, or also an earlier
  place in its file.
\<close>

theorem rule_precedence:
  "if \<exists>r \<in> set rs. is_deny_match glob params r
   then \<exists>r \<in> set rs. is_deny_match glob params r \<and>
          decide_rules glob params rs = \<lparr>dc_outcome = Deny, dc_rule = Some (cr_id r)\<rparr>
   else if \<forall>r \<in> set rs. rule_matches glob params r = None
   then decide_rules glob params rs = \<lparr>dc_outcome = Ask, dc_rule = None\<rparr>
   else \<exists>r \<in> set rs. \<exists>lp bp. rule_matches glob params r = Some (lp, bp) \<and>
          decide_rules glob params rs = \<lparr>dc_outcome = cr_outcome r, dc_rule = Some (cr_id r)\<rparr> \<and>
          (\<forall>r' \<in> set rs. \<forall>lp' bp'. rule_matches glob params r' = Some (lp', bp') \<longrightarrow>
             (int (scope_rank (cr_scope r')), int lp', int bp', - int (cr_file_order r'))
             \<le> (int (scope_rank (cr_scope r)), int lp, int bp, - int (cr_file_order r)))"
proof (cases "\<exists>r \<in> set rs. is_deny_match glob params r")
  case True
  then show ?thesis using decide_rules_deny by simp
next
  case nd: False
  show ?thesis
  proof (cases "\<forall>r \<in> set rs. rule_matches glob params r = None")
    case True
    then show ?thesis using nd decide_rules_unmatched by simp
  next
    case False
    then have ex: "\<exists>r \<in> set rs. rule_matches glob params r \<noteq> None" by blast
    obtain r lp bp where r: "r \<in> set rs" "rule_matches glob params r = Some (lp, bp)"
      "decide_rules glob params rs = \<lparr>dc_outcome = cr_outcome r, dc_rule = Some (cr_id r)\<rparr>"
      "\<And>r' lp' bp'. r' \<in> set rs \<Longrightarrow> rule_matches glob params r' = Some (lp', bp') \<Longrightarrow>
        match_key (r, lp, bp) \<le> match_key (r', lp', bp')"
      by (rule decide_rules_winner [OF nd ex]) blast
    have "(int (scope_rank (cr_scope r')), int lp', int bp', - int (cr_file_order r'))
          \<le> (int (scope_rank (cr_scope r)), int lp, int bp, - int (cr_file_order r))"
      if "match_key (r, lp, bp) \<le> match_key (r', lp', bp')" for r' lp' bp'
      using that by (auto simp: match_key_def less_eq_prod_def less_prod_def)
    then show ?thesis
      using nd False r by (metis (no_types, lifting))
  qed
qed

theorem rule_precedence_witness:
  "decide_rules (\<lambda>_. None) (TpHttp MGet ''https://a/x'' 0)
     [example_rule, example_rule\<lparr>cr_scope := Workspace, cr_outcome := Ask, cr_id := ''r2''\<rparr>,
      example_rule\<lparr>cr_scope := Builtin, cr_outcome := Deny, cr_id := ''r3''\<rparr>]
   = \<lparr>dc_outcome = Deny, dc_rule = Some ''r3''\<rparr>"
  using rule_precedence [of "[example_rule,
      example_rule\<lparr>cr_scope := Workspace, cr_outcome := Ask, cr_id := ''r2''\<rparr>,
      example_rule\<lparr>cr_scope := Builtin, cr_outcome := Deny, cr_id := ''r3''\<rparr>]"
      "\<lambda>_. None" "TpHttp MGet ''https://a/x'' 0"]
  by (simp add: is_deny_match_def rule_matches_def predicate_matches_def example_rule_def)

text \<open>
  \<^bold>\<open>C2.\<close> The sealed floor holds against every rule set. In an engine that is not unsealed, a write
  or edit below \<open>.ssh\<close>, \<open>.gnupg\<close>, \<open>.aws\<close> or \<open>.config/roundhouse\<close> of the home directory (any write,
  when the home is unknown), below the state directory, or of the daemon's binary, a program named
  like a privilege escalator, a call to an unresolved MCP server, and any task under a tier
  shortfall are denied, and by a sealed rule.
\<close>

theorem sealed_floor:
  assumes "\<not> pe_unsealed pe"
    and "(\<exists>c. written_path params = Some c \<and>
            (home ctx = None \<or>
             (\<exists>h. home ctx = Some h \<and>
                (\<exists>d \<in> {''.ssh'', ''.gnupg'', ''.aws'', ''.config/roundhouse''}.
                   path_starts_with c (path_join h d))) \<or>
             (state_dir ctx \<noteq> [] \<and> path_starts_with c (state_dir ctx)) \<or>
             (daemon_binary ctx \<noteq> [] \<and> path_eq c (daemon_binary ctx)))) \<or>
         (\<exists>cmd. params = TpShell cmd \<and>
            (pc_program cmd \<in> set SEALED_PROGRAMS \<or>
             (\<exists>n \<in> set SEALED_PROGRAMS. path_file_name (pc_program cmd) = Some n))) \<or>
         (\<exists>s tool args. params = TpMcp s tool args \<and> s \<notin> resolved_mcp_servers ctx) \<or>
         attested_tier ctx < requested_tier ctx"
  shows "\<exists>rid \<in> fst ` set sealed_rules.
           decide_sealed glob pe params ctx t = \<lparr>dc_outcome = Deny, dc_rule = Some rid\<rparr>"
proof -
  have "\<exists>(rid, m) \<in> set sealed_rules. m params ctx"
    using assms(2)
    by (auto simp: sealed_rules_def sealed_write_under_def sealed_state_dir_write_def
        sealed_daemon_binary_write_def sealed_tier_shortfall_def)
  then obtain rid m where f: "List.find (\<lambda>(_, m). m params ctx) sealed_rules = Some (rid, m)"
    by (cases "List.find (\<lambda>(_, m). m params ctx) sealed_rules") (auto simp: find_None_iff)
  then have "rid \<in> fst ` set sealed_rules"
    using find_Some_mem [OF f] by force
  then show ?thesis
    using assms(1) f by (intro bexI [of _ rid]) (simp_all add: decide_sealed_def)
qed

theorem sealed_floor_witness:
  "dc_outcome (decide_sealed (\<lambda>_. None)
      (from_rules None [example_rule\<lparr>cr_predicate := PFsPrefix FsWrite ''/''\<rparr>])
      (TpFs FsWrite ''x'' (Ok ''/home/a/.ssh/id'')) (default_context (Some ''/home/a'')) TaintTrusted) = Deny"
proof -
  have "path_starts_with ''/home/a/.ssh/id'' (path_join ''/home/a'' ''.ssh'')"
    by code_simp
  then have "\<exists>c. written_path (TpFs FsWrite ''x'' (Ok ''/home/a/.ssh/id'')) = Some c \<and>
      (\<exists>h. home (default_context (Some ''/home/a'')) = Some h \<and>
         (\<exists>d \<in> {''.ssh'', ''.gnupg'', ''.aws'', ''.config/roundhouse''}. path_starts_with c (path_join h d)))"
    by (simp add: written_path_def default_context_def)
  then show ?thesis
    using sealed_floor [of "from_rules None [example_rule\<lparr>cr_predicate := PFsPrefix FsWrite ''/''\<rparr>]"
        "TpFs FsWrite ''x'' (Ok ''/home/a/.ssh/id'')" "default_context (Some ''/home/a'')"
        "\<lambda>_. None" TaintTrusted]
    by (auto simp: from_rules_def)
qed

text \<open>
  Adding Deny rules never widens: if an engine with additional Deny rules, placed anywhere
  among the others, allows a task, then the engine without them takes the same decision.
\<close>

theorem deny_rules_only_restrict:
  assumes "filter (\<lambda>r. cr_outcome r \<noteq> Deny) rs' = filter (\<lambda>r. cr_outcome r \<noteq> Deny) (pe_rules pe)"
    and "set (pe_rules pe) \<subseteq> set rs'"
    and "dc_outcome (decide_sealed glob (pe\<lparr>pe_rules := rs'\<rparr>) params ctx t) = Allow"
  shows "decide_sealed glob pe params ctx t = decide_sealed glob (pe\<lparr>pe_rules := rs'\<rparr>) params ctx t"
proof -
  have "dc_outcome (decide glob (pe\<lparr>pe_rules := rs'\<rparr>) params) = Allow"
    using decide_sealed_allow [OF assms(3)] by simp
  from decide_extra_deny [OF assms(1,2) this] show ?thesis
    by (simp add: decide_sealed_def split: option.split)
qed

definition example_deny :: compiled_rule where
  "example_deny = \<lparr>cr_scope = Project, cr_outcome = Deny, cr_predicate = PHttp (Some MGet) ''https://b/'' False,
     cr_file_order = 1, cr_id = ''r4''\<rparr>"

theorem deny_rules_only_restrict_witness:
  "decide_sealed (\<lambda>_. None) example_engine (TpHttp MGet ''https://a/x'' 0) (default_context None) Tainted =
   decide_sealed (\<lambda>_. None) (example_engine\<lparr>pe_rules := [example_deny, example_rule]\<rparr>)
     (TpHttp MGet ''https://a/x'' 0) (default_context None) Tainted"
proof (rule deny_rules_only_restrict)
  show "dc_outcome (decide_sealed (\<lambda>_. None) (example_engine\<lparr>pe_rules := [example_deny, example_rule]\<rparr>)
     (TpHttp MGet ''https://a/x'' 0) (default_context None) Tainted) = Allow"
    by (simp add: decide_sealed_def example_engine_def example_rule_def example_deny_def from_rules_def
        sealed_rules_def sealed_write_under_def written_path_def sealed_state_dir_write_def
        sealed_daemon_binary_write_def sealed_tier_shortfall_def default_context_def decide_def
        decide_rules_def matching_rules_def map_filter_simps rule_matches_def predicate_matches_def
        downgrade_tainted_grant_def)
qed (simp_all add: example_engine_def from_rules_def example_rule_def example_deny_def)

text \<open>
  The interpreter gate: if no shell rule of the engine opts in to interpreters, then no
  command whose program is an interpreter, by its base name, is ever allowed.
\<close>

theorem interpreters_need_opt_in:
  assumes "is_interpreter (pc_program cmd)"
    and "\<forall>r \<in> set (pe_rules pe). \<forall>p m b. cr_predicate r = PShell p m b \<longrightarrow> \<not> b"
  shows "dc_outcome (decide_sealed glob pe (TpShell cmd) ctx t) \<noteq> Allow"
proof
  assume "dc_outcome (decide_sealed glob pe (TpShell cmd) ctx t) = Allow"
  then have "dc_outcome (decide glob pe (TpShell cmd)) = Allow"
    using decide_sealed_allow by blast
  from decide_allow [OF this] obtain r where "r \<in> set (pe_rules pe)" "cr_outcome r = Allow"
      "rule_matches glob (TpShell cmd) r \<noteq> None"
    by (auto simp: team_memory_allowed_def)
  then show False
    using assms
    by (auto simp: rule_matches_def predicate_matches_def split: predicate.splits if_splits)
qed

theorem interpreters_need_opt_in_witness:
  "dc_outcome (decide_sealed (\<lambda>_. None)
      (from_rules None [example_rule\<lparr>cr_predicate := predicate_program ''/bin/sh''\<rparr>])
      (TpShell \<lparr>pc_program = ''/bin/sh'', pc_argv = [''-c'', ''ls'']\<rparr>) (default_context None) TaintTrusted) \<noteq> Allow"
proof (rule interpreters_need_opt_in)
  have "is_interpreter ''/bin/sh''" by code_simp
  then show "is_interpreter (pc_program \<lparr>pc_program = ''/bin/sh'', pc_argv = [''-c'', ''ls'']\<rparr>)" by simp
qed (simp add: from_rules_def predicate_program_def)

text \<open>
  Unattended, nothing is left to a question nobody will answer: when no sealed rule hits and
  no rule of the engine matches (and the task is not a team-memory access), the task is denied;
  and the unattended engine allows exactly what the attended one allows.
\<close>

theorem unattended_default_deny:
  "(dc_outcome (decide_unattended glob pe params t) = Allow \<longleftrightarrow>
      dc_outcome (decide_sealed glob pe params (pe_sealed_ctx pe) t) = Allow) \<and>
   dc_rule (decide_unattended glob pe params t) = dc_rule (decide_sealed glob pe params (pe_sealed_ctx pe) t) \<and>
   (dc_rule (decide_sealed glob pe params (pe_sealed_ctx pe) t) = None \<longrightarrow>
      dc_outcome (decide_unattended glob pe params t) = Deny)"
proof -
  have "dc_rule (decide_sealed glob pe params (pe_sealed_ctx pe) t) \<noteq> None"
    if "dc_outcome (decide_sealed glob pe params (pe_sealed_ctx pe) t) = Allow"
    using that decide_sealed_allow [OF that] decide_allow [of glob pe params]
    by (auto simp: team_memory_allowed_def decide_def decide_team_memory_def Let_def
        split: task_params.splits memory_scope.splits option.splits)
  then show ?thesis
    by (cases "dc_outcome (decide_sealed glob pe params (pe_sealed_ctx pe) t)")
       (auto simp: decide_unattended_def Let_def)
qed

theorem unattended_default_deny_witness:
  "dc_outcome (decide_unattended (\<lambda>_. None) (from_rules None []) (TpHttp MGet ''https://a/x'' 0) TaintTrusted) = Deny"
proof -
  have "dc_rule (decide_sealed (\<lambda>_. None) (from_rules None []) (TpHttp MGet ''https://a/x'' 0)
          (pe_sealed_ctx (from_rules None [])) TaintTrusted) = None"
    by (simp add: decide_sealed_def from_rules_def sealed_rules_def sealed_write_under_def
        written_path_def sealed_state_dir_write_def sealed_daemon_binary_write_def
        sealed_tier_shortfall_def default_context_def decide_def decide_rules_def matching_rules_def
        map_filter_simps downgrade_tainted_grant_def)
  then show ?thesis
    using unattended_default_deny [of "\<lambda>_. None" "from_rules None []" "TpHttp MGet ''https://a/x'' 0" TaintTrusted]
    by blast
qed

text \<open>
  Compiling policy files: a successful compilation yields exactly the rules of the layers, in
  order, each at its layer's scope and numbered by its position across all layers, and happens
  only when every rule has an id and an absolute path.
\<close>

theorem compile_policy_layers_exact:
  assumes "compile_policy_layers ls = Ok rules"
  shows "rules = map compiled_from (enumerate 0 (layer_rules ls)) \<and>
         (\<forall>(sc, r) \<in> set (layer_rules ls). plr_id r \<noteq> [] \<and> path_is_absolute (plr_read r))"
  using compile_layers_Ok [of ls "[]" rules] assms by (simp add: compile_policy_layers_def)

theorem compile_policy_layers_exact_witness:
  "\<exists>rules. compile_policy_layers
      [\<lparr>pl_scope = CfgUserGlobal, pl_path = ''p'', pl_contents = [],
        pl_rules = [\<lparr>plr_id = ''a'', plr_outcome = Deny, plr_read = ''/etc/passwd''\<rparr>]\<rparr>] = Ok rules \<and>
     rules = map compiled_from (enumerate 0 [(UserGlobal, \<lparr>plr_id = ''a'', plr_outcome = Deny, plr_read = ''/etc/passwd''\<rparr>)])"
proof -
  let ?l = "[\<lparr>pl_scope = CfgUserGlobal, pl_path = ''p'', pl_contents = [],
        pl_rules = [\<lparr>plr_id = ''a'', plr_outcome = Deny, plr_read = ''/etc/passwd''\<rparr>]\<rparr>]"
  obtain rules where "compile_policy_layers ?l = Ok rules"
    by (simp add: compile_policy_layers_def path_is_absolute_def has_root_def slash_def)
  then show ?thesis
    using compile_policy_layers_exact [of ?l rules] by (simp add: layer_rules_def)
qed

end
