(* ===== verification/Policy_Grants.thy ===== *)
theory Policy_Grants
  imports Policy_Engine "HOL-Library.List_Lexorder" "HOL-Library.Char_ord"
begin

text \<open>
  \<^verbatim>\<open>roundhouse-policy/src/approval.rs\<close> and \<^verbatim>\<open>registry.rs\<close>: the grant a human approval turns into, its
  installation, its persistence, the digest of the approved parameters, the suspension of the
  task, and the live registry of pending approvals.

  Parameters: \<open>uuid\<close> renders a UUID, \<open>ser\<close> is the derived serialisation of \<^verbatim>\<open>TaskParams\<close> to a JSON
  value, \<open>enc\<close> is \<^verbatim>\<open>serde_json::to_vec\<close> and \<open>b3\<close> is \<^verbatim>\<open>blake3::hash\<close>.
\<close>

subsection \<open>Grants\<close>

datatype grant_scope = Once | Session | ExactArgv "u8 list" | Directory path | Always

record grant_provenance =
  gp_session_id :: session_id
  gp_task_id :: task_id
  gp_ts :: int

record grant =
  gr_scope :: grant_scope
  gr_rule :: compiled_rule
  gr_provenance :: grant_provenance

datatype grant_install_error = GrantUnenforcedLifetime string

datatype remembered_grant_error = RememberedUnenforcedLifetime string

datatype remembered_grant_scope = RememberedDirectory | RememberedAlways

record remembered_grant =
  rg_scope :: remembered_grant_scope
  rg_rule :: compiled_rule
  rg_provenance :: grant_provenance

text \<open>The wire form; a remembered rule has no file order.\<close>

record remembered_wire =
  rw_scope :: remembered_grant_scope
  rw_rule_scope :: scope
  rw_rule_outcome :: outcome
  rw_rule_predicate :: predicate
  rw_rule_id :: rule_id
  rw_provenance :: grant_provenance

definition grant_id :: "(nat \<Rightarrow> string) \<Rightarrow> grant_provenance \<Rightarrow> rule_id" where
  "grant_id uuid pv = ''grant:'' @ uuid (gp_session_id pv) @ '':'' @ uuid (gp_task_id pv)"

definition remembered_deserialize ::
  "(nat \<Rightarrow> string) \<Rightarrow> remembered_wire \<Rightarrow> (remembered_grant, string) result" where
  "remembered_deserialize uuid wire =
     (let scope_matches = ((rw_scope wire = RememberedDirectory \<and> rw_rule_scope wire = GrantScope) \<or>
                           (rw_scope wire = RememberedAlways \<and> rw_rule_scope wire = Workspace))
      in if \<not> scope_matches \<or> rw_rule_outcome wire \<noteq> Allow
         then Err ''remembered grants require an Allow rule at their durable scope''
         else if rw_rule_id wire \<noteq> grant_id uuid (rw_provenance wire)
         then Err ''remembered grant rule id does not match its provenance''
         else Ok \<lparr>rg_scope = rw_scope wire,
                  rg_rule = \<lparr>cr_scope = rw_rule_scope wire, cr_outcome = rw_rule_outcome wire,
                             cr_predicate = rw_rule_predicate wire, cr_file_order = 0,
                             cr_id = rw_rule_id wire\<rparr>,
                  rg_provenance = rw_provenance wire\<rparr>)"

definition remembered_serialize :: "remembered_grant \<Rightarrow> remembered_wire" where
  "remembered_serialize g =
     \<lparr>rw_scope = rg_scope g, rw_rule_scope = cr_scope (rg_rule g),
      rw_rule_outcome = cr_outcome (rg_rule g), rw_rule_predicate = cr_predicate (rg_rule g),
      rw_rule_id = cr_id (rg_rule g), rw_provenance = rg_provenance g\<rparr>"

definition rule_covers_path :: "grant \<Rightarrow> fs_op \<Rightarrow> path \<Rightarrow> bool" where
  "rule_covers_path g op p =
     (case cr_predicate (gr_rule g) of
        PFsPrefix pop prefix \<Rightarrow> pop = op \<and> path_starts_with p prefix
      | PFsExact pop q \<Rightarrow> pop = op \<and> path_eq p q
      | _ \<Rightarrow> False)"

fun standing_scope :: "grant_scope \<Rightarrow> (remembered_grant_scope, string) result" where
  "standing_scope Once = Err ''Once''"
| "standing_scope Session = Err ''Session''"
| "standing_scope (ExactArgv _) = Err ''ExactArgv''"
| "standing_scope (Directory _) = Ok RememberedDirectory"
| "standing_scope Always = Ok RememberedAlways"

definition into_rule_for_installation :: "grant \<Rightarrow> (compiled_rule, grant_install_error) result" where
  "into_rule_for_installation g =
     (case standing_scope (gr_scope g) of
        Inr _ \<Rightarrow> Ok (gr_rule g)
      | Inl sc \<Rightarrow> Err (GrantUnenforcedLifetime sc))"

definition into_remembered :: "grant \<Rightarrow> (remembered_grant, remembered_grant_error) result" where
  "into_remembered g =
     (case standing_scope (gr_scope g) of
        Inl sc \<Rightarrow> Err (RememberedUnenforcedLifetime sc)
      | Inr sc \<Rightarrow> Ok \<lparr>rg_scope = sc, rg_rule = gr_rule g, rg_provenance = gr_provenance g\<rparr>)"

definition effective_directory_prefix :: "path \<Rightarrow> path \<Rightarrow> path \<Rightarrow> path option" where
  "effective_directory_prefix dir workspace_boundary canonical_task_path =
     (if \<not> path_is_absolute workspace_boundary \<or> \<not> path_has_parent workspace_boundary then None
      else if path_starts_with dir workspace_boundary then Some dir
      else if path_starts_with workspace_boundary dir
      then (if path_starts_with canonical_task_path workspace_boundary
            then Some workspace_boundary else None)
      else None)"

definition fs_predicate_for_directory_grant ::
  "fs_op \<Rightarrow> path \<Rightarrow> (path, string) result \<Rightarrow> path \<Rightarrow> path \<Rightarrow> predicate" where
  "fs_predicate_for_directory_grant op task_path canonical dir workspace_boundary =
     (let is_filesystem_root = (\<not> path_has_parent dir)
      in case canonical of
           Inr c \<Rightarrow>
             if \<not> is_filesystem_root \<and> path_starts_with c dir
             then (case effective_directory_prefix dir workspace_boundary c of
                     Some prefix \<Rightarrow> PFsPrefix op prefix
                   | None \<Rightarrow> PFsExact op c)
             else PFsExact op c
         | Inl _ \<Rightarrow> PFsExact op task_path)"

definition canonical_or_raw :: "(path, string) result \<Rightarrow> path \<Rightarrow> path" where
  "canonical_or_raw canonical raw = (case canonical of Inr c \<Rightarrow> c | Inl _ \<Rightarrow> raw)"

definition grant_rule_scope :: "grant_scope \<Rightarrow> scope" where
  "grant_rule_scope sc = (case sc of Always \<Rightarrow> Workspace | _ \<Rightarrow> GrantScope)"

definition grant_predicate :: "task_params \<Rightarrow> grant_scope \<Rightarrow> path \<Rightarrow> predicate" where
  "grant_predicate params sc workspace_boundary =
     (case params of
        TpFs op task_path canonical \<Rightarrow>
          (case sc of
             Directory dir \<Rightarrow>
               fs_predicate_for_directory_grant op task_path canonical dir workspace_boundary
           | _ \<Rightarrow> PFsExact op (canonical_or_raw canonical task_path))
      | TpShell cmd \<Rightarrow> PShell (pc_program cmd) (ArgExact (pc_argv cmd)) False
      | TpHttp m url _ \<Rightarrow> PHttp (Some m) url True
      | TpMcp server tool args \<Rightarrow> PMcp server (Some tool) (Some (ArgsExact args))
      | TpGit subcommand argv _ \<Rightarrow> PGit subcommand argv True
      | TpAgent provider model tier_request \<Rightarrow> PAgent (Some provider) (Some model) tier_request
      | TpMemory ms op session \<Rightarrow> PMemory ms op (Some session))"

definition synthesize_grant ::
  "(nat \<Rightarrow> string) \<Rightarrow> task_params \<Rightarrow> grant_scope \<Rightarrow> grant_provenance \<Rightarrow> path \<Rightarrow> grant" where
  "synthesize_grant uuid params sc pv workspace_boundary =
     \<lparr>gr_scope = sc,
      gr_rule = \<lparr>cr_scope = grant_rule_scope sc, cr_outcome = Allow,
                 cr_predicate = grant_predicate params sc workspace_boundary, cr_file_order = 0,
                 cr_id = grant_id uuid pv\<rparr>,
      gr_provenance = pv\<rparr>"

subsection \<open>Digests\<close>

text \<open>\<^verbatim>\<open>BTreeMap::insert\<close> on the ordered list of its entries.\<close>

fun btree_insert :: "string \<Rightarrow> 'v \<Rightarrow> (string \<times> 'v) list \<Rightarrow> (string \<times> 'v) list" where
  "btree_insert k v [] = [(k, v)]"
| "btree_insert k v ((k', v') # m) =
     (if k < k' then (k, v) # (k', v') # m
      else if k = k' then (k, v) # m
      else (k', v') # btree_insert k v m)"

definition btree_collect :: "(string \<times> 'v) list \<Rightarrow> (string \<times> 'v) list" where
  "btree_collect kvs = foldl (\<lambda>m (k, v). btree_insert k v m) [] kvs"

fun canonicalize_json :: "json \<Rightarrow> json" where
  "canonicalize_json (JObject m) =
     JObject (btree_collect (map (\<lambda>(k, v). (k, canonicalize_json v)) m))"
| "canonicalize_json (JArray xs) = JArray (map canonicalize_json xs)"
| "canonicalize_json JNull = JNull"
| "canonicalize_json (JBool b) = JBool b"
| "canonicalize_json (JNumber n) = JNumber n"
| "canonicalize_json (JString s) = JString s"

definition params_digest ::
  "(task_params \<Rightarrow> json) \<Rightarrow> (json \<Rightarrow> u8 list) \<Rightarrow> (u8 list \<Rightarrow> u8 list) \<Rightarrow> task_params \<Rightarrow> u8 list" where
  "params_digest ser enc b3 params = b3 (enc (canonicalize_json (ser params)))"

text \<open>The first eight bytes of the digest of the rule's name, little-endian.\<close>

definition core_rule_id_from_policy_rule_id :: "(string \<Rightarrow> u8 list) \<Rightarrow> rule_id \<Rightarrow> core_rule_id" where
  "core_rule_id_from_policy_rule_id b3s rule =
     of_nat (foldr (\<lambda>b acc. unat b + 256 * acc) (take 8 (b3s rule)) 0)"

subsection \<open>The registry of pending approvals\<close>

record pending_approval =
  pa_session_id :: session_id
  pa_task_id :: task_id
  pa_rule :: "rule_id option"
  pa_params_digest :: "u8 list"
  pa_since :: int

datatype approval_event = Registered task_id | Resolved task_id

text \<open>The broadcast channel is the list of what was sent on it.\<close>

record approval_registry =
  ar_pending :: "task_id \<rightharpoonup> pending_approval"
  ar_events :: "approval_event list"

definition approval_registry_new :: approval_registry where
  "approval_registry_new = \<lparr>ar_pending = Map.empty, ar_events = []\<rparr>"

definition registry_register :: "approval_registry \<Rightarrow> pending_approval \<Rightarrow> approval_registry" where
  "registry_register r a =
     r\<lparr>ar_pending := (ar_pending r)(pa_task_id a \<mapsto> a),
       ar_events := ar_events r @ [Registered (pa_task_id a)]\<rparr>"

definition registry_resolve ::
  "approval_registry \<Rightarrow> task_id \<Rightarrow> pending_approval option \<times> approval_registry" where
  "registry_resolve r t =
     (case ar_pending r t of
        None \<Rightarrow> (None, r)
      | Some a \<Rightarrow> (Some a, r\<lparr>ar_pending := (ar_pending r)(t := None),
                             ar_events := ar_events r @ [Resolved t]\<rparr>))"

text \<open>
  Suspension: the event is appended first, and only a successful append registers the approval.
  \<open>appender\<close> is the event writer, from the log it holds to its result and the log it leaves.
\<close>

definition suspend_for_approval ::
  "(task_params \<Rightarrow> u8 list) \<Rightarrow> (rule_id \<Rightarrow> core_rule_id) \<Rightarrow> ('w \<Rightarrow> event \<Rightarrow> (unit, 'e) result \<times> 'w)
   \<Rightarrow> int \<Rightarrow> 'w \<Rightarrow> approval_registry \<Rightarrow> session_id \<Rightarrow> task_id \<Rightarrow> rule_id option \<Rightarrow> task_params
   \<Rightarrow> (unit, 'e) result \<times> 'w \<times> approval_registry" where
  "suspend_for_approval digest core_id appender ts w reg sid tid rule params =
     (let d = digest params;
          event = record_task_suspended sid 0 ts tid
                    (AwaitingApproval (map_option core_id rule) d) 1;
          (r, w') = appender w event
      in case r of
           Inl e \<Rightarrow> (Err e, w', reg)
         | Inr _ \<Rightarrow> (Ok (), w', registry_register reg
                       \<lparr>pa_session_id = sid, pa_task_id = tid, pa_rule = rule,
                        pa_params_digest = d, pa_since = ts\<rparr>))"

subsection \<open>Canonical JSON\<close>

text \<open>What a \<^verbatim>\<open>serde_json\<close> value always satisfies: the keys of an object are distinct.\<close>

fun wf_json :: "json \<Rightarrow> bool" where
  "wf_json (JObject m) = (distinct (map fst m) \<and> list_all (\<lambda>(_, v). wf_json v) m)"
| "wf_json (JArray xs) = list_all wf_json xs"
| "wf_json _ = True"

lemma btree_insert_keys: "fst ` set (btree_insert k v m) = insert k (fst ` set m)"
  by (induction k v m rule: btree_insert.induct) (simp_all add: insert_commute)

lemma btree_insert_sorted:
  "sorted_wrt (<) (map fst m) \<Longrightarrow> sorted_wrt (<) (map fst (btree_insert k v m))"
proof (induction k v m rule: btree_insert.induct)
  case (2 k v k' v' m)
  consider "k < k'" | "k = k'" | "k' < k" by (rule linorder_cases)
  then show ?case
    using 2 by cases (auto simp: btree_insert_keys)
qed simp

lemma btree_insert_set:
  "k \<notin> fst ` set m \<Longrightarrow> set (btree_insert k v m) = insert (k, v) (set m)"
  by (induction m) (auto split: if_splits)

lemma btree_foldl:
  assumes "distinct (map fst kvs)" "fst ` set kvs \<inter> fst ` set m = {}" "sorted_wrt (<) (map fst m)"
  shows "set (foldl (\<lambda>m (k, v). btree_insert k v m) m kvs) = set m \<union> set kvs \<and>
         sorted_wrt (<) (map fst (foldl (\<lambda>m (k, v). btree_insert k v m) m kvs))"
  using assms
proof (induction kvs arbitrary: m)
  case (Cons kv kvs)
  obtain k v where kv: "kv = (k, v)" by (cases kv)
  have "set (btree_insert k v m) = insert (k, v) (set m)"
    using Cons.prems by (intro btree_insert_set) (auto simp: kv)
  then show ?case
    using Cons.IH [of "btree_insert k v m"] Cons.prems btree_insert_sorted [of m k v]
    by (auto simp: kv)
qed simp

lemma btree_collect_set: "distinct (map fst kvs) \<Longrightarrow> set (btree_collect kvs) = set kvs"
  using btree_foldl [of kvs "[]"] by (simp add: btree_collect_def)

lemma btree_collect_sorted: "distinct (map fst kvs) \<Longrightarrow> sorted_wrt (<) (map fst (btree_collect kvs))"
  using btree_foldl [of kvs "[]"] by (simp add: btree_collect_def)

lemma btree_collect_eq_iff:
  assumes "distinct (map fst m)" "distinct (map fst n)"
  shows "btree_collect m = btree_collect n \<longleftrightarrow> set m = set n"
proof
  assume "btree_collect m = btree_collect n"
  then show "set m = set n" using btree_collect_set assms by metis
next
  assume eq: "set m = set n"
  have s: "sorted (map fst (btree_collect m))" "distinct (map fst (btree_collect m))"
      "sorted (map fst (btree_collect n))" "distinct (map fst (btree_collect n))"
    using btree_collect_sorted [OF assms(1)] btree_collect_sorted [OF assms(2)]
    by (auto simp: strict_sorted_iff)
  have "set (btree_collect m) = set (btree_collect n)"
    using btree_collect_set [OF assms(1)] btree_collect_set [OF assms(2)] eq by simp
  moreover have "inj_on fst (set (btree_collect n))"
    using s(4) by (simp add: distinct_map)
  ultimately show "btree_collect m = btree_collect n"
    using s by (intro map_sorted_distinct_set_unique [of fst]) auto
qed

abbreviation canon_fields :: "(string \<times> json) list \<Rightarrow> (string \<times> json) list" where
  "canon_fields m \<equiv> map (\<lambda>(k, v). (k, canonicalize_json v)) m"

lemma canon_fields_keys: "map fst (canon_fields m) = map fst m"
  by (induction m) auto

lemma json_eq_object:
  assumes dm: "distinct (map fst m)" and dn: "distinct (map fst n)"
    and IH: "\<And>k v w. (k, v) \<in> set m \<Longrightarrow> (k, w) \<in> set n \<Longrightarrow>
               json_eq v w = (canonicalize_json v = canonicalize_json w)"
  shows "json_eq (JObject m) (JObject n) \<longleftrightarrow> set (canon_fields m) = set (canon_fields n)"
proof
  assume "json_eq (JObject m) (JObject n)"
  then have len: "length m = length n"
    and each: "\<And>k v. (k, v) \<in> set m \<Longrightarrow> \<exists>w. (k, w) \<in> set n \<and> json_eq v w"
    using map_of_SomeD by (fastforce simp: list_all_iff split: option.splits)+
  have "set (canon_fields m) \<subseteq> set (canon_fields n)"
    using each IH by fastforce
  moreover have "card (set (canon_fields m)) = card (set (canon_fields n))"
    using len dm dn canon_fields_keys [of m] canon_fields_keys [of n]
    by (metis distinct_card distinct_map length_map)
  ultimately show "set (canon_fields m) = set (canon_fields n)"
    by (meson List.finite_set card_subset_eq)
next
  assume eq: "set (canon_fields m) = set (canon_fields n)"
  have "length m = length n"
    using eq dm dn canon_fields_keys [of m] canon_fields_keys [of n]
    by (metis distinct_card distinct_map length_map)
  moreover have "case map_of n k of None \<Rightarrow> False | Some w \<Rightarrow> json_eq v w" if "(k, v) \<in> set m" for k v
  proof -
    have "(k, canonicalize_json v) \<in> set (canon_fields n)"
      using imageI [OF that, of "\<lambda>(k, v). (k, canonicalize_json v)"] eq by simp
    then obtain w where "(k, w) \<in> set n" "canonicalize_json v = canonicalize_json w" by auto
    then show ?thesis using IH [OF that] dn by (simp add: map_of_is_SomeI)
  qed
  ultimately show "json_eq (JObject m) (JObject n)"
    by (simp add: list_all_def split_beta)
qed

lemma canonical_atoms:
  "JNull = canonicalize_json y \<longleftrightarrow> y = JNull"
  "JBool b = canonicalize_json y \<longleftrightarrow> y = JBool b"
  "JNumber n = canonicalize_json y \<longleftrightarrow> y = JNumber n"
  "JString s = canonicalize_json y \<longleftrightarrow> y = JString s"
  by (cases y; auto)+

lemma list_all_zip_map:
  "length xs = length ys \<Longrightarrow> (\<And>x z. (x, z) \<in> set (zip xs ys) \<Longrightarrow> P x z = (f x = f z)) \<Longrightarrow>
   list_all (\<lambda>(x, y). P x y) (zip xs ys) = (map f xs = map f ys)"
  by (induction xs ys rule: list_induct2) auto

lemma json_eq_canonical:
  "wf_json a \<Longrightarrow> wf_json b \<Longrightarrow> json_eq a b = (canonicalize_json a = canonicalize_json b)"
proof (induction a b rule: json_eq.induct)
  case (5 xs y)
  then show ?case
  proof (cases y)
    case (JArray ys)
    have each: "json_eq x z = (canonicalize_json x = canonicalize_json z)"
      if "(x, z) \<in> set (zip xs ys)" for x z
    proof -
      have "wf_json x" "wf_json z"
        using 5(2,3) JArray set_zip_leftD [OF that] set_zip_rightD [OF that]
        by (auto simp: list_all_iff)
      then show ?thesis using 5(1) [OF JArray that] by auto
    qed
    have "length xs = length ys \<Longrightarrow>
        list_all (\<lambda>(x, y). json_eq x y) (zip xs ys) = (map canonicalize_json xs = map canonicalize_json ys)"
      using each by (intro list_all_zip_map)
    moreover have "map canonicalize_json xs = map canonicalize_json ys \<Longrightarrow> length xs = length ys"
      by (rule map_eq_imp_length_eq)
    ultimately show ?thesis
      by (auto simp: JArray)
  qed auto
next
  case (6 m y)
  then show ?case
  proof (cases y)
    case (JObject n)
    have d: "distinct (map fst m)" "distinct (map fst n)"
      using 6 JObject by auto
    have IH: "json_eq v w = (canonicalize_json v = canonicalize_json w)"
      if "(k, v) \<in> set m" "(k, w) \<in> set n" for k v w
    proof -
      have "wf_json v" "wf_json w" "map_of n k = Some w"
        using 6(2,3) that JObject d(2) by (auto simp: list_all_iff map_of_is_SomeI)
      then show ?thesis using 6(1) [OF JObject that(1) refl] by simp
    qed
    have "btree_collect (canon_fields m) = btree_collect (canon_fields n) \<longleftrightarrow>
        set (canon_fields m) = set (canon_fields n)"
      by (rule btree_collect_eq_iff) (simp_all only: canon_fields_keys d)
    then show ?thesis
      using json_eq_object [OF d] IH by (simp add: JObject del: json_eq.simps)
  qed auto
qed (simp_all add: canonical_atoms)

subsection \<open>What a grant covers\<close>

text \<open>The tasks that count as the approved one, part by part.\<close>

definition same_action :: "task_params \<Rightarrow> task_params \<Rightarrow> bool" where
  "same_action approved p =
     (case approved of
        TpShell cmd \<Rightarrow> p = TpShell cmd
      | TpFs op raw canonical \<Rightarrow>
          (case p of
             TpFs op' _ (Inr c) \<Rightarrow> op' = op \<and> path_eq c (canonical_or_raw canonical raw)
           | _ \<Rightarrow> False)
      | TpHttp m url _ \<Rightarrow> (case p of TpHttp m' url' _ \<Rightarrow> m' = m \<and> url' = url | _ \<Rightarrow> False)
      | TpMcp s t a \<Rightarrow> (case p of TpMcp s' t' a' \<Rightarrow> s' = s \<and> t' = t \<and> json_eq a' a | _ \<Rightarrow> False)
      | TpGit sc argv _ \<Rightarrow> (case p of TpGit sc' argv' _ \<Rightarrow> sc' = sc \<and> argv' = argv | _ \<Rightarrow> False)
      | TpAgent pr m tr \<Rightarrow> (case p of TpAgent pr' m' tr' \<Rightarrow> pr' = pr \<and> m' = m \<and> tr \<le> tr' | _ \<Rightarrow> False)
      | TpMemory ms op s \<Rightarrow> p = TpMemory ms op s)"

text \<open>The tasks a directory grant may cover besides: same operation, inside both trees.\<close>

definition inside_grant_directory :: "task_params \<Rightarrow> path \<Rightarrow> path \<Rightarrow> task_params \<Rightarrow> bool" where
  "inside_grant_directory approved dir boundary p =
     (case approved of
        TpFs op _ (Inr c0) \<Rightarrow>
          (case p of
             TpFs op' _ (Inr c) \<Rightarrow>
               op' = op \<and> path_starts_with c dir \<and> path_starts_with c boundary \<and>
               path_starts_with c0 dir \<and> path_starts_with c0 boundary \<and>
               path_is_absolute boundary \<and> path_has_parent boundary \<and> path_has_parent dir
           | _ \<Rightarrow> False)
      | _ \<Rightarrow> False)"

lemma grant_predicate_exact:
  assumes "\<forall>d. sc \<noteq> Directory d \<or> (\<forall>op raw can. params \<noteq> TpFs op raw can)"
    and "predicate_matches glob (grant_predicate params sc boundary) p out \<noteq> None"
  shows "same_action params p"
  using assms
  by (cases params; cases p)
     (auto simp: grant_predicate_def predicate_matches_def same_action_def argv_matches_def
       split: grant_scope.splits sum.splits if_splits)

lemma directory_predicate:
  assumes "predicate_matches glob
             (fs_predicate_for_directory_grant op raw canonical dir boundary) p out \<noteq> None"
  shows "same_action (TpFs op raw canonical) p \<or>
         inside_grant_directory (TpFs op raw canonical) dir boundary p"
proof (cases canonical)
  case (Inl err)
  then show ?thesis
    using assms
    by (cases p) (auto simp: fs_predicate_for_directory_grant_def predicate_matches_def same_action_def
        canonical_or_raw_def split: sum.splits if_splits)
next
  case (Inr c)
  show ?thesis
  proof (cases "path_has_parent dir \<and> path_starts_with c dir \<and>
           effective_directory_prefix dir boundary c \<noteq> None")
    case False
    then have "fs_predicate_for_directory_grant op raw canonical dir boundary = PFsExact op c"
      by (auto simp: fs_predicate_for_directory_grant_def Inr)
    then show ?thesis
      using assms by (cases p) (auto simp: predicate_matches_def same_action_def canonical_or_raw_def Inr
          split: sum.splits if_splits)
  next
    case True
    then obtain prefix where pf: "effective_directory_prefix dir boundary c = Some prefix" by auto
    then have "fs_predicate_for_directory_grant op raw canonical dir boundary = PFsPrefix op prefix"
      using True by (simp add: fs_predicate_for_directory_grant_def Inr)
    then obtain raw' c' where p: "p = TpFs op raw' (Inr c')" "path_starts_with c' prefix"
      using assms by (cases p) (auto simp: predicate_matches_def split: sum.splits if_splits)
    show ?thesis
      using pf p True
      by (auto simp: inside_grant_directory_def Inr effective_directory_prefix_def
          split: if_splits intro: path_starts_with_trans)
  qed
qed

lemma grant_id_prefix: "list_prefix ''grant:'' (grant_id uuid pv)"
  by (simp add: grant_id_def)

lemma json_eq_refl: "wf_json a \<Longrightarrow> json_eq a a"
  by (simp add: json_eq_canonical)

subsection \<open>Properties\<close>



text \<open>
  A grant covers the approved task itself: the rule it synthesises matches it, for every
  scope, except for a command whose program is an interpreter (which no grant may allow) and a
  file task whose path could not be canonicalised (which the engine denies outright).
\<close>

theorem grant_covers_approved:
  assumes "\<And>cmd. params = TpShell cmd \<Longrightarrow> \<not> is_interpreter (pc_program cmd)"
    and "\<And>op raw can. params = TpFs op raw can \<Longrightarrow> \<exists>c. can = Ok c"
    and "\<And>s t a. params = TpMcp s t a \<Longrightarrow> wf_json a"
  shows "rule_matches glob params (gr_rule (synthesize_grant uuid params sc pv boundary)) \<noteq> None"
proof (cases params)
  case (TpFs op raw can)
  then obtain c where c: "can = Ok c" using assms(2) by blast
  have "path_starts_with c prefix"
    if "effective_directory_prefix dir boundary c = Some prefix" "path_starts_with c dir" for dir prefix
    using that by (auto simp: effective_directory_prefix_def split: if_splits)
  then show ?thesis
    by (auto simp: TpFs c rule_matches_def synthesize_grant_def grant_predicate_def predicate_matches_def
        fs_predicate_for_directory_grant_def canonical_or_raw_def split: grant_scope.split option.split)
qed (use assms in \<open>auto simp: rule_matches_def synthesize_grant_def grant_predicate_def
       predicate_matches_def argv_matches_def json_eq_refl\<close>)

theorem grant_covers_approved_witness:
  "rule_matches (\<lambda>_. None) (TpGit ''push'' [''origin''] None)
     (gr_rule (synthesize_grant (\<lambda>_. ''u'') (TpGit ''push'' [''origin''] None) Always
        \<lparr>gp_session_id = 1, gp_task_id = 2, gp_ts = 0\<rparr> ''/w'')) \<noteq> None"
  by (rule grant_covers_approved) simp_all

text \<open>
  Equal parameters have equal digests, whatever the order of their keys, and only they are
  canonically equal: two JSON values are equal as the grant matcher compares them exactly when
  their canonical forms are identical, so the digest bound into an approval depends on the value
  and not on its key order.
\<close>

theorem canonical_json_decides_equality:
  assumes "wf_json a" "wf_json b"
  shows "json_eq a b \<longleftrightarrow> canonicalize_json a = canonicalize_json b"
  using json_eq_canonical assms .

theorem canonical_json_decides_equality_witness:
  "json_eq (JObject [(''b'', JNull), (''a'', JArray [JBool True])])
           (JObject [(''a'', JArray [JBool True]), (''b'', JNull)])"
proof -
  have "canonicalize_json (JObject [(''b'', JNull), (''a'', JArray [JBool True])]) =
        canonicalize_json (JObject [(''a'', JArray [JBool True]), (''b'', JNull)])"
    by code_simp
  then show ?thesis
    using canonical_json_decides_equality [of "JObject [(''b'', JNull), (''a'', JArray [JBool True])]"
        "JObject [(''a'', JArray [JBool True]), (''b'', JNull)]"] by simp
qed

text \<open>
  Only standing grants persist, and unchanged. A synthesised grant can be installed or
  remembered exactly when its scope is a directory or Always; and a remembered grant read back from
  its serialised form is the grant that was written, its rule included.
\<close>

theorem remembered_grant_roundtrip:
  "let g = synthesize_grant uuid params sc pv boundary
   in if (\<exists>d. sc = Directory d) \<or> sc = Always
      then into_rule_for_installation g = Ok (gr_rule g) \<and>
           (\<exists>rg. into_remembered g = Ok rg \<and> rg_rule rg = gr_rule g \<and>
                 remembered_deserialize uuid (remembered_serialize rg) = Ok rg)
      else (\<exists>e. into_rule_for_installation g = Err e) \<and> (\<exists>e. into_remembered g = Err e)"
  by (cases sc)
     (auto simp: Let_def into_rule_for_installation_def into_remembered_def synthesize_grant_def
       remembered_deserialize_def remembered_serialize_def grant_rule_scope_def)

text \<open>
  Grants never act on tainted data beyond the reversible: in an engine whose Allow rules all
  come from synthesised grants or from grants read back from disk, a tainted task that is
  irreversible or exfiltrating is never allowed.
\<close>

theorem tainted_grants_never_allow:
  assumes "\<forall>r \<in> set (pe_rules pe). cr_outcome r = Allow \<longrightarrow>
             (\<exists>params' sc pv boundary. r = gr_rule (synthesize_grant uuid params' sc pv boundary)) \<or>
             (\<exists>wire rg. remembered_deserialize uuid wire = Ok rg \<and> r = rg_rule rg)"
    and "is_irreversible_or_exfiltrating params"
  shows "dc_outcome (decide_sealed glob pe params ctx Tainted) \<noteq> Allow"
proof
  assume al: "dc_outcome (decide_sealed glob pe params ctx Tainted) = Allow"
  note s = decide_sealed_allow [OF al]
  have "\<not> team_memory_allowed pe params"
    using assms(2) by (auto simp: team_memory_allowed_def split: task_params.splits)
  then obtain r where r: "r \<in> set (pe_rules pe)" "cr_outcome r = Allow"
      "dc_rule (decide glob pe params) = Some (cr_id r)"
    using decide_allow [of glob pe params] s by auto
  have "list_prefix ''grant:'' (cr_id r)"
    using assms(1) r(1,2) grant_id_prefix
    by (fastforce simp: synthesize_grant_def remembered_deserialize_def Let_def split: if_splits)
  then show False
    using s r(3) assms(2) by auto
qed

theorem tainted_grants_never_allow_witness:
  "dc_outcome (decide_sealed (\<lambda>_. None)
      (from_rules None [gr_rule (synthesize_grant (\<lambda>_. ''u'') (TpGit ''push'' [''origin''] None) Always
         \<lparr>gp_session_id = 1, gp_task_id = 2, gp_ts = 0\<rparr> ''/w'')])
      (TpGit ''push'' [''origin''] None) (default_context None) Tainted) \<noteq> Allow"
  by (rule tainted_grants_never_allow [where uuid = "\<lambda>_. ''u''"]) (auto simp: from_rules_def)

text \<open>
  First responder wins: after any history of registrations and resolutions, resolving a
  pending task returns it and every later attempt finds nothing until the task is registered
  again; the first resolution is announced once.
\<close>

theorem resolve_once:
  assumes "registry_resolve r t = (Some a, r')"
    and "r'' = foldl (\<lambda>r op. case op of Inl b \<Rightarrow> registry_register r b
                              | Inr t' \<Rightarrow> snd (registry_resolve r t')) r' ops"
    and "\<forall>b. Inl b \<in> set ops \<longrightarrow> pa_task_id b \<noteq> t"
  shows "registry_resolve r'' t = (None, r'') \<and>
         count_list (ar_events r'') (Resolved t) = count_list (ar_events r) (Resolved t) + 1"
proof -
  let ?f = "\<lambda>r op. case op of Inl b \<Rightarrow> registry_register r b | Inr t' \<Rightarrow> snd (registry_resolve r t')"
  have st: "ar_pending q t = None \<Longrightarrow> \<forall>b. Inl b \<in> set ops \<longrightarrow> pa_task_id b \<noteq> t \<Longrightarrow>
      ar_pending (foldl ?f q ops) t = None \<and>
      count_list (ar_events (foldl ?f q ops)) (Resolved t) = count_list (ar_events q) (Resolved t)" for q
  proof (induction ops arbitrary: q)
    case (Cons op ops)
    have "ar_pending (?f q op) t = None \<and>
        count_list (ar_events (?f q op)) (Resolved t) = count_list (ar_events q) (Resolved t)"
      using Cons.prems
      by (cases op) (auto simp: registry_register_def registry_resolve_def split: option.split)
    then show ?case
      using Cons.IH [of "?f q op"] Cons.prems by simp
  qed simp
  have r': "r' = r\<lparr>ar_pending := (ar_pending r)(t := None), ar_events := ar_events r @ [Resolved t]\<rparr>"
    using assms(1) by (auto simp: registry_resolve_def split: option.splits)
  have "ar_pending r'' t = None \<and>
        count_list (ar_events r'') (Resolved t) = count_list (ar_events r') (Resolved t)"
    unfolding assms(2) by (rule st) (use assms(3) in \<open>simp_all add: r'\<close>)
  then show ?thesis
    by (simp add: registry_resolve_def r')
qed

theorem resolve_once_witness:
  "fst (registry_resolve (snd (registry_resolve (registry_register approval_registry_new
      \<lparr>pa_session_id = 1, pa_task_id = 7, pa_rule = None, pa_params_digest = [], pa_since = 0\<rparr>) 7)) 7) = None"
  using resolve_once [of "registry_register approval_registry_new
      \<lparr>pa_session_id = 1, pa_task_id = 7, pa_rule = None, pa_params_digest = [], pa_since = 0\<rparr>" 7
      "\<lparr>pa_session_id = 1, pa_task_id = 7, pa_rule = None, pa_params_digest = [], pa_since = 0\<rparr>" _ _ "[]"]
  by (simp add: registry_resolve_def registry_register_def approval_registry_new_def)

end
