(* ===== verification/Policy_Trust.thy ===== *)
theory Policy_Trust
  imports Policy_Engine
begin

text \<open>
  \<^verbatim>\<open>roundhouse-policy/src/trust.rs\<close>: which rules of a project's own policy file take effect.  A
  trust record holds the ordered signatures of the rules last trusted; a changed file is
  classified against it, and whatever widens permissions is held back.

  Parameters: \<open>dbg\<close> renders a predicate (the derived \<^verbatim>\<open>Debug\<close>), \<open>b3\<close> is the hexadecimal
  \<^verbatim>\<open>blake3\<close> of a string.  The store is the directory of record files: a map from a file's path to
  what loading it yields (\<open>None\<close> for a missing file, an error for one that cannot be read or
  parsed).  Whether the write of a save succeeds is up to the file system, so \<open>save\<close> takes that as
  a boolean; a failed save leaves the old file, as the code renames a complete temporary file.
\<close>

subsection \<open>Records and their store\<close>

record trust_record =
  trusted_policy_hash :: string
  trusted_rule_signatures :: "string list"

datatype trust_load_error = TrustIo | TrustParse

type_synonym trust_files = "path \<Rightarrow> (trust_record option, trust_load_error) result"

record trust_store =
  ts_state_dir :: path
  ts_files :: trust_files

text \<open>\<^verbatim>\<open>TrustStore::new\<close> panics (\<open>None\<close>) on a path that is not absolute.\<close>

definition trust_store_new :: "path \<Rightarrow> trust_files \<Rightarrow> trust_store option" where
  "trust_store_new dir fs =
     (if path_is_absolute dir then Some \<lparr>ts_state_dir = dir, ts_files = fs\<rparr> else None)"

definition path_for :: "(string \<Rightarrow> string) \<Rightarrow> trust_store \<Rightarrow> path \<Rightarrow> path" where
  "path_for b3 st repo_root =
     path_join (path_join (path_join (ts_state_dir st) ''workspaces'') (b3 repo_root)) ''policy_trust.toml''"

definition trust_load ::
  "(string \<Rightarrow> string) \<Rightarrow> trust_store \<Rightarrow> path \<Rightarrow> (trust_record option, trust_load_error) result" where
  "trust_load b3 st repo_root = ts_files st (path_for b3 st repo_root)"

definition trust_save ::
  "(string \<Rightarrow> string) \<Rightarrow> bool \<Rightarrow> trust_store \<Rightarrow> path \<Rightarrow> trust_record \<Rightarrow> trust_store" where
  "trust_save b3 io_ok st repo_root rec =
     (if io_ok then st\<lparr>ts_files := (ts_files st)(path_for b3 st repo_root := Ok (Some rec))\<rparr> else st)"

subsection \<open>Signatures\<close>

fun tag_for :: "outcome \<Rightarrow> string" where
  "tag_for Allow = ''ALLOW''"
| "tag_for Ask = ''ASK''"
| "tag_for Deny = ''DENY''"

definition signature_string :: "(predicate \<Rightarrow> string) \<Rightarrow> compiled_rule \<Rightarrow> string option" where
  "signature_string dbg r =
     (if cr_scope r \<noteq> Project then None
      else Some (tag_for (cr_outcome r) @ '':'' @ dbg (cr_predicate r)))"

definition is_allow_signature :: "string \<Rightarrow> bool" where
  "is_allow_signature sig = list_prefix ''ALLOW:'' sig"

definition signature_sequence :: "(predicate \<Rightarrow> string) \<Rightarrow> compiled_rule list \<Rightarrow> string list" where
  "signature_sequence dbg rs =
     map (\<lambda>r. the (signature_string dbg r))
       (sort_key cr_file_order (filter (\<lambda>r. cr_scope r = Project) rs))"

datatype widening = WideningNone | Additive | Structural

definition classify :: "string list \<Rightarrow> string list \<Rightarrow> widening" where
  "classify trusted_seq current_seq =
     (let trusted_set = set trusted_seq; current_set = set current_seq;
          restriction_disappeared =
            list_ex (\<lambda>s. \<not> is_allow_signature s \<and> s \<notin> current_set) trusted_seq;
          reordered = (filter (\<lambda>s. s \<in> current_set) trusted_seq \<noteq>
                       filter (\<lambda>s. s \<in> trusted_set) current_seq)
      in if restriction_disappeared \<or> reordered then Structural
         else if list_ex (\<lambda>s. is_allow_signature s \<and> s \<notin> trusted_set) current_seq
         then Additive else WideningNone)"

subsection \<open>Applying trust\<close>

definition no_project_allow :: "compiled_rule list \<Rightarrow> compiled_rule list" where
  "no_project_allow rs = filter (\<lambda>r. \<not> (cr_scope r = Project \<and> cr_outcome r = Allow)) rs"

definition apply_project_scope_trust ::
  "(predicate \<Rightarrow> string) \<Rightarrow> (string \<Rightarrow> string) \<Rightarrow> bool \<Rightarrow> path \<Rightarrow> string \<Rightarrow> compiled_rule list
     \<Rightarrow> trust_store \<Rightarrow> compiled_rule list \<times> trust_store" where
  "apply_project_scope_trust dbg b3 io_ok repo_root contents parsed st =
     (let current_hash = b3 contents
      in case trust_load b3 st repo_root of
           Inl _ \<Rightarrow> (no_project_allow parsed, st)
         | Inr None \<Rightarrow>
             (no_project_allow parsed,
              trust_save b3 io_ok st repo_root
                \<lparr>trusted_policy_hash = current_hash, trusted_rule_signatures = []\<rparr>)
         | Inr (Some rec) \<Rightarrow>
             (let trusted_seq = trusted_rule_signatures rec;
                  current_seq = signature_sequence dbg parsed
              in case classify trusted_seq current_seq of
                   Structural \<Rightarrow>
                     (filter (\<lambda>r. \<not> (cr_scope r = Project \<and> cr_outcome r \<noteq> Deny)) parsed, st)
                 | Additive \<Rightarrow>
                     (let trusted_allow = filter is_allow_signature trusted_seq
                      in (filter (\<lambda>r. if cr_scope r = Project \<and> cr_outcome r = Allow
                                      then (case signature_string dbg r of
                                              None \<Rightarrow> False | Some s \<Rightarrow> s \<in> set trusted_allow)
                                      else True) parsed, st))
                 | WideningNone \<Rightarrow>
                     (parsed,
                      trust_save b3 io_ok st repo_root
                        \<lparr>trusted_policy_hash = current_hash,
                         trusted_rule_signatures = current_seq\<rparr>)))"

definition record_explicit_trust ::
  "(predicate \<Rightarrow> string) \<Rightarrow> (string \<Rightarrow> string) \<Rightarrow> bool \<Rightarrow> path \<Rightarrow> string \<Rightarrow> compiled_rule list
     \<Rightarrow> trust_store \<Rightarrow> trust_store" where
  "record_explicit_trust dbg b3 io_ok repo_root contents parsed st =
     trust_save b3 io_ok st repo_root
       \<lparr>trusted_policy_hash = b3 contents, trusted_rule_signatures = signature_sequence dbg parsed\<rparr>"

subsection \<open>Histories\<close>

text \<open>
  What happens to a store over time: policy files are applied, rules are explicitly trusted by
  the user, and record files are lost or damaged (\<open>TDamage\<close>).
\<close>

datatype trust_op =
    TApply bool path string "compiled_rule list"
  | TTrust bool path string "compiled_rule list"
  | TDamage path "(trust_record option, trust_load_error) result"

fun trust_step ::
  "(predicate \<Rightarrow> string) \<Rightarrow> (string \<Rightarrow> string) \<Rightarrow> trust_store \<Rightarrow> trust_op \<Rightarrow> trust_store" where
  "trust_step dbg b3 st (TApply io repo c rs) = snd (apply_project_scope_trust dbg b3 io repo c rs st)"
| "trust_step dbg b3 st (TTrust io repo c rs) = record_explicit_trust dbg b3 io repo c rs st"
| "trust_step dbg b3 st (TDamage p v) = st\<lparr>ts_files := (ts_files st)(p := v)\<rparr>"

fun harmless :: "trust_op \<Rightarrow> bool" where
  "harmless (TDamage p v) = (case v of Inr (Some _) \<Rightarrow> False | _ \<Rightarrow> True)"
| "harmless _ = True"

text \<open>The Allow signatures the user explicitly trusted in a history.\<close>

fun trusted_allows :: "(predicate \<Rightarrow> string) \<Rightarrow> trust_op \<Rightarrow> string set" where
  "trusted_allows dbg (TTrust io repo c rs) = {s \<in> set (signature_sequence dbg rs). is_allow_signature s}"
| "trusted_allows dbg _ = {}"

definition allows_within :: "string set \<Rightarrow> trust_store \<Rightarrow> bool" where
  "allows_within A st \<longleftrightarrow>
     (\<forall>p rec. ts_files st p = Ok (Some rec) \<longrightarrow>
        (\<forall>s \<in> set (trusted_rule_signatures rec). is_allow_signature s \<longrightarrow> s \<in> A))"

subsection \<open>Lemmas\<close>

lemma trust_save_within:
  assumes "allows_within A st"
    and "\<And>s. s \<in> set (trusted_rule_signatures rec) \<Longrightarrow> is_allow_signature s \<Longrightarrow> s \<in> A"
  shows "allows_within A (trust_save b3 io st repo rec)"
  using assms by (auto simp: allows_within_def trust_save_def)

lemma allow_signature_iff:
  "signature_string dbg r = Some s \<Longrightarrow> is_allow_signature s \<longleftrightarrow> cr_outcome r = Allow"
  by (cases "cr_outcome r") (auto simp: signature_string_def is_allow_signature_def split: if_splits)

lemma in_signature_sequence:
  "s \<in> set (signature_sequence dbg rs) \<longleftrightarrow>
     (\<exists>r \<in> set rs. cr_scope r = Project \<and> signature_string dbg r = Some s)"
  by (auto simp: signature_sequence_def signature_string_def)

lemma classify_same: "classify s s = WideningNone"
  by (auto simp: classify_def Let_def list_ex_iff)

lemma classify_none:
  "classify t c = WideningNone \<Longrightarrow> s \<in> set c \<Longrightarrow> is_allow_signature s \<Longrightarrow> s \<in> set t"
  by (auto simp: classify_def Let_def list_ex_iff split: if_splits)

lemma apply_within:
  assumes "allows_within A st"
  shows "allows_within A (snd (apply_project_scope_trust dbg b3 io repo c rs st))"
proof (cases "trust_load b3 st repo")
  case (Inr rec)
  show ?thesis
  proof (cases rec)
    case None
    then show ?thesis
      using assms Inr by (auto simp: apply_project_scope_trust_def Let_def intro!: trust_save_within)
  next
    case (Some r)
    have "s \<in> A" if "s \<in> set (trusted_rule_signatures r)" "is_allow_signature s" for s
      using assms Inr Some that by (auto simp: allows_within_def trust_load_def)
    then show ?thesis
      using assms Inr Some classify_none
      by (auto simp: apply_project_scope_trust_def Let_def split: widening.splits
          intro!: trust_save_within)
  qed
qed (use assms in \<open>simp add: apply_project_scope_trust_def Let_def\<close>)

lemma trust_step_within:
  assumes "allows_within A st" "harmless op" "trusted_allows dbg op \<subseteq> A"
  shows "allows_within A (trust_step dbg b3 st op)"
proof (cases op)
  case (TDamage p v)
  then show ?thesis
    using assms by (auto simp: allows_within_def split: sum.splits option.splits)
qed (use assms in \<open>auto simp: apply_within record_explicit_trust_def intro!: trust_save_within\<close>)

lemma trust_run_within:
  "allows_within A st \<Longrightarrow> \<forall>op \<in> set ops. harmless op \<and> trusted_allows dbg op \<subseteq> A \<Longrightarrow>
   allows_within A (foldl (trust_step dbg b3) st ops)"
  by (induction ops arbitrary: st) (simp_all add: trust_step_within)

text \<open>What is let through in any state of the store.\<close>

lemma applied_allow:
  assumes "allows_within A st" "r \<in> set (fst (apply_project_scope_trust dbg b3 io repo c rs st))"
    and "cr_scope r = Project" "cr_outcome r = Allow" "signature_string dbg r = Some s"
  shows "s \<in> A"
proof -
  have al: "is_allow_signature s"
    using allow_signature_iff assms(4,5) by blast
  obtain rec where rec: "trust_load b3 st repo = Ok (Some rec)"
    using assms(2-4) by (auto simp: apply_project_scope_trust_def Let_def no_project_allow_def
        split: sum.splits option.splits)
  have "s \<in> set (trusted_rule_signatures rec)"
  proof (cases "classify (trusted_rule_signatures rec) (signature_sequence dbg rs)")
    case WideningNone
    then have "r \<in> set rs"
      using assms(2) rec by (simp add: apply_project_scope_trust_def Let_def)
    then have "s \<in> set (signature_sequence dbg rs)"
      using assms(3,5) by (auto simp: in_signature_sequence)
    then show ?thesis using classify_none [OF WideningNone] al by blast
  qed (use assms(2-5) rec in \<open>auto simp: apply_project_scope_trust_def Let_def\<close>)
  then show ?thesis
    using assms(1) rec al by (auto simp: allows_within_def trust_load_def)
qed

text \<open>Dropping rules other than the winner's kind keeps the winner: sorting is stable.\<close>

lemma decide_rules_filter_allow:
  assumes "dc_outcome (decide_rules glob params rs) = Allow"
    and "\<And>r. r \<in> set rs \<Longrightarrow> cr_outcome r = Allow \<Longrightarrow> P r"
  shows "decide_rules glob params (filter P rs) = decide_rules glob params rs"
proof -
  have nd: "\<not> (\<exists>r \<in> set rs. is_deny_match glob params r)"
    using decide_rules_allow [OF assms(1)] by simp
  then have nd': "\<not> (\<exists>r \<in> set (filter P rs). is_deny_match glob params r)" by simp
  have mf: "matching_rules glob params (filter P rs) = filter (\<lambda>(r, _, _). P r) (matching_rules glob params rs)"
    by (induction rs) (auto simp: matching_rules_def map_filter_simps split: option.split)
  obtain r lp bp ys where sk: "sort_key match_key (matching_rules glob params rs) = (r, lp, bp) # ys"
      and "cr_outcome r = Allow"
    using assms(1) decide_rules_no_deny [OF nd] by (auto split: list.splits)
  then have "P r"
    using sort_key_first [OF sk] assms(2) by (auto simp: in_matching_rules)
  have "sort_key match_key (matching_rules glob params (filter P rs)) =
        filter (\<lambda>(r, _, _). P r) (sort_key match_key (matching_rules glob params rs))"
    unfolding mf by (rule filter_sort [symmetric])
  then show ?thesis
    using decide_rules_no_deny [OF nd] decide_rules_no_deny [OF nd'] sk \<open>P r\<close> by simp
qed

lemma apply_keeps:
  "set (fst (apply_project_scope_trust dbg b3 io repo c rs st)) \<subseteq> set rs"
  "r \<in> set rs \<Longrightarrow> cr_scope r \<noteq> Project \<or> cr_outcome r = Deny \<Longrightarrow>
   r \<in> set (fst (apply_project_scope_trust dbg b3 io repo c rs st))"
  by (auto simp: apply_project_scope_trust_def Let_def no_project_allow_def
      split: sum.splits option.splits widening.splits)

subsection \<open>Properties\<close>

text \<open>
  \<^bold>\<open>C23.\<close> A repository cannot grant itself permissions. Over any history of policy files being
  applied, records being lost, emptied or damaged, and the user explicitly trusting files, starting
  from an empty store, every project-scope Allow rule that ever takes effect has a signature that
  the user explicitly trusted in that history; in a history without explicit trust, none does.
\<close>

theorem project_allow_needs_explicit_trust:
  assumes "\<forall>op \<in> set ops. harmless op" "ts_files st0 = (\<lambda>_. Ok None)"
    and "st = foldl (trust_step dbg b3) st0 ops"
    and "r \<in> set (fst (apply_project_scope_trust dbg b3 io repo c rs st))"
    and "cr_scope r = Project" "cr_outcome r = Allow"
  shows "\<exists>op \<in> set ops. \<exists>s \<in> trusted_allows dbg op. signature_string dbg r = Some s"
proof -
  let ?A = "\<Union>op \<in> set ops. trusted_allows dbg op"
  have "allows_within ?A st0"
    using assms(2) by (simp add: allows_within_def)
  then have w: "allows_within ?A st"
    unfolding assms(3) by (rule trust_run_within) (use assms(1) in auto)
  obtain s where s: "signature_string dbg r = Some s"
    using assms(5) by (simp add: signature_string_def)
  show ?thesis
    using applied_allow [OF w assms(4-6) s] s by auto
qed

definition example_project_rule :: "outcome \<Rightarrow> path \<Rightarrow> nat \<Rightarrow> compiled_rule" where
  "example_project_rule out p n = \<lparr>cr_scope = Project, cr_outcome = out, cr_predicate = PFsExact FsRead p,
     cr_file_order = n, cr_id = ''p'' @ p\<rparr>"

definition example_dbg :: "predicate \<Rightarrow> string" where
  "example_dbg pr = (case pr of PFsExact _ p \<Rightarrow> p | _ \<Rightarrow> ''other'')"

definition example_store :: trust_store where
  "example_store = \<lparr>ts_state_dir = ''/s'', ts_files = (\<lambda>_. Ok None)\<rparr>"

theorem project_allow_needs_explicit_trust_witness:
  "\<exists>s \<in> trusted_allows example_dbg (TTrust True ''/r'' [] [example_project_rule Allow ''/x'' 0]).
     signature_string example_dbg (example_project_rule Allow ''/x'' 0) = Some s"
proof -
  let ?r = "example_project_rule Allow ''/x'' 0"
  have "?r \<in> set (fst (apply_project_scope_trust example_dbg id True ''/r'' [] [?r]
      (foldl (trust_step example_dbg id) example_store [TTrust True ''/r'' [] [?r]])))"
    by (simp add: apply_project_scope_trust_def trust_load_def record_explicit_trust_def trust_save_def
        path_for_def Let_def classify_same)
  from project_allow_needs_explicit_trust [OF _ _ refl this] show ?thesis
    by (simp add: example_store_def example_project_rule_def)
qed

text \<open>
  A project file only narrows. In any state of the store, applying trust keeps every rule of
  another scope and every Deny rule and adds nothing; and if no project-scope Allow rule was let
  through, then whatever the engine allows with the remaining project rules it allows, by the same
  decision, without any of them.
\<close>

theorem project_scope_only_narrows:
  assumes "rs' = fst (apply_project_scope_trust dbg b3 io repo c rs st)"
  shows "set rs' \<subseteq> set rs \<and>
         (\<forall>r \<in> set rs. cr_scope r \<noteq> Project \<or> cr_outcome r = Deny \<longrightarrow> r \<in> set rs') \<and>
         ((\<forall>r \<in> set rs'. cr_scope r = Project \<longrightarrow> cr_outcome r \<noteq> Allow) \<longrightarrow>
          (\<forall>glob params. dc_outcome (decide_rules glob params rs') = Allow \<longrightarrow>
             decide_rules glob params (filter (\<lambda>r. cr_scope r \<noteq> Project) rs')
             = decide_rules glob params rs'))"
proof (intro conjI impI allI ballI)
  show "set rs' \<subseteq> set rs"
    unfolding assms by (rule apply_keeps(1))
  show "r \<in> set rs'" if "r \<in> set rs" "cr_scope r \<noteq> Project \<or> cr_outcome r = Deny" for r
    unfolding assms using that by (rule apply_keeps(2))
  show "decide_rules glob params (filter (\<lambda>r. cr_scope r \<noteq> Project) rs') = decide_rules glob params rs'"
    if "\<forall>r \<in> set rs'. cr_scope r = Project \<longrightarrow> cr_outcome r \<noteq> Allow"
      "dc_outcome (decide_rules glob params rs') = Allow" for glob params
    using that(2) by (rule decide_rules_filter_allow) (use that(1) in auto)
qed

theorem project_scope_only_narrows_witness:
  "set (fst (apply_project_scope_trust example_dbg id True ''/r'' []
       [example_project_rule Allow ''/x'' 0, example_project_rule Deny ''/y'' 1] example_store))
   \<subseteq> {example_project_rule Allow ''/x'' 0, example_project_rule Deny ''/y'' 1}"
  using project_scope_only_narrows [OF refl, of example_dbg id True "''/r''" "[]"
      "[example_project_rule Allow ''/x'' 0, example_project_rule Deny ''/y'' 1]" example_store]
  by simp

text \<open>
  Explicit trust takes effect: once the user's decision on a set of rules has been written,
  applying a file with those rules admits all of them, in order, and again on every later load of
  an unchanged file.
\<close>

theorem explicit_trust_admits:
  "apply_project_scope_trust dbg b3 io repo c rs (record_explicit_trust dbg b3 True repo c rs st)
     = (rs, record_explicit_trust dbg b3 True repo c rs st)"
  by (auto simp: apply_project_scope_trust_def record_explicit_trust_def trust_load_def trust_save_def
      path_for_def Let_def classify_same)

text \<open>
  The structural fallback can widen relative to the trusted file. With a user-level Allow on
  \<open>/x\<close> and an explicitly trusted project file that asks before \<open>/x\<close> and before \<open>/y\<close>, reading \<open>/x\<close> is
  asked about; after the project file drops its rule on \<open>/y\<close>, the remaining, still trusted, Ask
  rule on \<open>/x\<close> is discarded as well and reading \<open>/x\<close> is allowed.
\<close>

theorem structural_fallback_widens:
  "let user = \<lparr>cr_scope = UserGlobal, cr_outcome = Allow, cr_predicate = PFsExact FsRead ''/x'',
               cr_file_order = 0, cr_id = ''u''\<rparr>;
       x = example_project_rule Ask ''/x'' 1; y = example_project_rule Ask ''/y'' 2;
       st = record_explicit_trust example_dbg id True ''/r'' [] [user, x, y] example_store;
       before = fst (apply_project_scope_trust example_dbg id True ''/r'' [] [user, x, y] st);
       after = fst (apply_project_scope_trust example_dbg id True ''/r'' [] [user, x] st);
       read_x = TpFs FsRead ''/x'' (Ok ''/x'')
   in dc_outcome (decide_rules (\<lambda>_. None) read_x before) = Ask \<and>
      dc_outcome (decide_rules (\<lambda>_. None) read_x after) = Allow"
  by code_simp

end
