(* ===== verification/Shell_Ast.thy ===== *)
theory Shell_Ast
  imports Policy_Engine
begin

text \<open>
  The shell syntax that \<^verbatim>\<open>roundhouse-policy/src/shell\<close> walks.  The trees and the word pieces are
  those of the crate \<^verbatim>\<open>brush-parser\<close>; the constructors are the ones the exhaustive matches of
  \<^verbatim>\<open>classify.rs\<close>, \<^verbatim>\<open>opaque.rs\<close> and \<^verbatim>\<open>pipeline.rs\<close> name.  Where a match has a wildcard arm
  (word pieces, parameter expressions) the constructor \<open>PUnlisted\<close> or \<open>EUnlisted\<close> stands for the
  variants that fall into it.  A process substitution is its kind and its location, all that any
  walker reads of it.

  Trees are polymorphic in the type \<open>'w\<close> of their words, and the layers below a command in the type
  \<open>'c\<close> of the commands they hold.  So the loops of the sources over nested commands are the
  functorial maps of these types, and \<open>set_command\<close> is the set of all words of a tree, however
  deeply nested: the yardstick for what a walker must reach.
\<close>

subsection \<open>Trees\<close>

type_synonym span = "nat \<times> nat"

record ast_word =
  w_value :: string
  w_loc :: "span option"

datatype io_file_redirect_kind =
  RkRead | RkWrite | RkAppend | RkReadAndWrite | RkClobber | RkDuplicateInput | RkDuplicateOutput

datatype process_substitution_kind = PsRead | PsWrite

datatype 'w io_file_redirect_target =
    Filename 'w
  | Fd int
  | TargetProcessSubstitution process_substitution_kind "span option"
  | Duplicate 'w

datatype 'w io_redirect =
    RFile "int option" io_file_redirect_kind "'w io_file_redirect_target"
  | RHereDocument "int option" 'w 'w
  | RHereString "int option" 'w
  | ROutputAndError 'w bool

datatype 'w command_item =
    IWord 'w
  | IAssignmentWord string 'w
  | IIoRedirect "'w io_redirect"
  | IProcessSubstitution process_substitution_kind "span option"

datatype 'w simple_command =
  SimpleCommand
    (sc_prefix: "'w command_item list option")
    (sc_word_or_name: "'w option")
    (sc_suffix: "'w command_item list option")

datatype 'w extended_test_expr =
    TestAnd "'w extended_test_expr" "'w extended_test_expr"
  | TestOr "'w extended_test_expr" "'w extended_test_expr"
  | TestNot "'w extended_test_expr"
  | TestParenthesized "'w extended_test_expr"
  | UnaryTest string 'w
  | BinaryTest string 'w 'w

datatype separator_operator = SepAsync | SepSequence

datatype 'c pipeline = Pipeline (pp_timed: bool) (pp_bang: bool) (pp_seq: "'c list")

datatype 'c and_or = AndThen "'c pipeline" | OrElse "'c pipeline"

text \<open>\<open>aol_location\<close> is what the crate's \<^verbatim>\<open>location()\<close> answers for the list.\<close>

datatype 'c and_or_list =
  AndOrList
    (aol_first: "'c pipeline")
    (aol_additional: "'c and_or list")
    (aol_location: "span option")

datatype 'c compound_list_item = ListItem (li_list: "'c and_or_list") (li_separator: separator_operator)

datatype 'c compound_list = CompoundList (cl_items: "'c compound_list_item list")

datatype ('w, 'c) case_item = CaseItem (ci_patterns: "'w list") (ci_cmd: "'c compound_list option")

datatype 'c else_clause = ElseClause (el_condition: "'c compound_list option") (el_body: "'c compound_list")

datatype ('w, 'c) compound_command =
    Arithmetic string
  | ArithmeticForClause "string option" "string option" "string option" "'c compound_list"
  | BraceGroup "'c compound_list"
  | Subshell "'c compound_list"
  | ForClause string "'w list option" "'c compound_list"
  | CaseClause 'w "('w, 'c) case_item list"
  | IfClause "'c compound_list" "'c compound_list" "'c else_clause list option"
  | WhileClause "'c compound_list" "'c compound_list"
  | UntilClause "'c compound_list" "'c compound_list"
  | Coprocess "'w option" 'c

type_synonym 'w redirect_list = "'w io_redirect list"

datatype 'w command =
    Simple "'w simple_command"
  | Compound "('w, 'w command) compound_command" "'w redirect_list option"
  | FunctionDef 'w "('w, 'w command) compound_command" "'w redirect_list option"
  | ExtendedTest "'w extended_test_expr" "'w redirect_list option"

datatype 'w program = Program (complete_commands: "'w command compound_list list")

type_synonym ast = "ast_word program"

subsection \<open>Word pieces\<close>

datatype parameter =
    Named string
  | Positional nat
  | Special string
  | NamedWithIndex string string
  | NamedWithAllIndices string

datatype parameter_test_type = UnsetOrNull | Unset

datatype parameter_expr =
    EParameter parameter bool
  | EParameterLength parameter bool
  | EUseDefaultValues parameter bool parameter_test_type "string option"
  | EAssignDefaultValues parameter bool parameter_test_type "string option"
  | EUseAlternativeValue parameter bool parameter_test_type "string option"
  | ERemoveSmallestPrefixPattern parameter bool "string option"
  | ERemoveLargestPrefixPattern parameter bool "string option"
  | ERemoveSmallestSuffixPattern parameter bool "string option"
  | ERemoveLargestSuffixPattern parameter bool "string option"
  | EUnlisted

datatype word_piece =
    PText string
  | PSingleQuotedText string
  | PAnsiCQuotedText string
  | PDoubleQuotedSequence "(word_piece \<times> span) list"
  | PGettextDoubleQuotedSequence "(word_piece \<times> span) list"
  | PParameterExpansion parameter_expr
  | PCommandSubstitution string
  | PBackquotedCommandSubstitution string
  | PEscapeSequence string
  | PArithmeticExpression string
  | PUnlisted

text \<open>What the crate outside the sources provides, and whether a thread can be had.\<close>

record shell_host =
  sh_spawns :: bool
  sh_parse_program :: "string \<Rightarrow> ast option"
  sh_parse_word :: "string \<Rightarrow> (word_piece \<times> span) list option"

end
