(* ===== verification/Shell_Classify.thy ===== *)
theory Shell_Classify
  imports Shell_Ast Rust_Str
begin

text \<open>
  \<^verbatim>\<open>roundhouse-policy/src/shell/classify.rs\<close>: the guard in front of the parser, the parse on a thread
  of its own, the allowlist of parameter expansions, the expansion of words against the session's
  variables, and the search for an opaque word piece.

  Strings are UTF-8 byte strings: \<^verbatim>\<open>len()\<close> is \<open>length\<close>, and a character boundary is an index that
  does not point at a continuation byte.  A walker that goes through nested commands is given the
  tree with each command replaced by the walker's result on it (\<open>map_compound_command\<close>), so each
  definition below says what one layer adds.
\<close>

subsection \<open>The input guard\<close>

definition MAX_INPUT_BYTES :: nat where
  "MAX_INPUT_BYTES = 4 * 1024"

definition MAX_STRUCTURAL_BUDGET :: nat where
  "MAX_STRUCTURAL_BUDGET = 16"

datatype guard_rejection = TooLarge | TooComplex

datatype opaque_reason =
  OParseError | OCommandSubstitution | OProcessSubstitution | OEval | OSource | OHereDoc | OBackgrounding

definition is_identifier_byte :: "char \<Rightarrow> bool" where
  "is_identifier_byte b \<longleftrightarrow> is_ascii_alphabetic b \<or> is_ascii_digit b \<or> b = CHR ''_''"

definition KEYWORDS :: "string list" where
  "KEYWORDS =
     [''case'', ''if'', ''then'', ''while'', ''until'', ''for'', ''select'', ''coproc'', ''function'']"

definition keyword_match :: "string \<Rightarrow> nat \<Rightarrow> nat option" where
  "keyword_match bytes start =
     find_map (\<lambda>kw.
       let end = start + length kw
       in if end > length bytes then None
          else if take (length kw) (drop start bytes) \<noteq> kw then None
          else if (start = 0 \<or> \<not> is_identifier_byte (bytes ! (start - 1))) \<and>
                  (end = length bytes \<or> \<not> is_identifier_byte (bytes ! end))
               then Some (length kw) else None) KEYWORDS"

lemma keyword_match_pos: "keyword_match bytes i = Some n \<Longrightarrow> 0 < n"
proof -
  assume "keyword_match bytes i = Some n"
  then obtain kw where "kw \<in> set KEYWORDS" "n = length kw"
    by (auto simp: keyword_match_def Let_def dest!: find_map_Some split: if_splits)
  then show ?thesis by (auto simp: KEYWORDS_def)
qed

function structural_loop :: "string \<Rightarrow> nat \<Rightarrow> nat \<Rightarrow> nat" where
  "structural_loop bytes i budget =
     (if i < length bytes then
        (let b = bytes ! i;
             next_is = (\<lambda>c. i + 1 < length bytes \<and> bytes ! (i + 1) = c)
         in if b = CHR ''('' \<or> b = CHR 0x60 then structural_loop bytes (i + 1) (budget + 1)
            else if b = CHR ''['' \<and> next_is (CHR ''['') then structural_loop bytes (i + 2) (budget + 1)
            else if b = CHR ''{'' then structural_loop bytes (i + 1) (budget + 1)
            else if b = CHR ''$'' \<and> next_is (CHR ''{'') then structural_loop bytes (i + 2) (budget + 1)
            else case keyword_match bytes i of
                   Some n \<Rightarrow> structural_loop bytes (i + n) (budget + 1)
                 | None \<Rightarrow> structural_loop bytes (i + 1) budget)
      else budget)"
  by pat_completeness auto
termination
  by (relation "measure (\<lambda>(bytes, i, _). length bytes - i)") (auto dest: keyword_match_pos)

declare structural_loop.simps [simp del]

definition structural_budget :: "string \<Rightarrow> nat" where
  "structural_budget raw = structural_loop raw 0 0"

definition check_input_guard :: "string \<Rightarrow> (unit, guard_rejection) result" where
  "check_input_guard raw =
     (if length raw > MAX_INPUT_BYTES then Err TooLarge
      else if structural_budget raw > MAX_STRUCTURAL_BUDGET then Err TooComplex
      else Ok ())"

definition input_guard :: "string \<Rightarrow> (unit, opaque_reason) result" where
  "input_guard raw = map_sum (\<lambda>_. OParseError) id (check_input_guard raw)"

text \<open>
  \<^verbatim>\<open>with_parse_stack\<close>: \<open>on\<close> is the thread-local flag, set while the caller already runs on such a
  thread.  The work itself is a total function, so the only failure is the spawn.
\<close>

definition with_parse_stack :: "shell_host \<Rightarrow> bool \<Rightarrow> 'a \<Rightarrow> ('a, opaque_reason) result" where
  "with_parse_stack host on f = (if on \<or> sh_spawns host then Ok f else Err OParseError)"

record parsed_shell_ast =
  psa_program_ast :: ast
  psa_raw :: string

datatype classification = ClProgram parsed_shell_ast | ClOpaque opaque_reason

definition parse_command_inner :: "shell_host \<Rightarrow> string \<Rightarrow> classification" where
  "parse_command_inner host raw =
     (case sh_parse_program host raw of
        Some p \<Rightarrow> ClProgram \<lparr>psa_program_ast = p, psa_raw = raw\<rparr>
      | None \<Rightarrow> ClOpaque OParseError)"

definition parse_command :: "shell_host \<Rightarrow> bool \<Rightarrow> string \<Rightarrow> classification" where
  "parse_command host on raw =
     (case input_guard raw of
        Inl reason \<Rightarrow> ClOpaque reason
      | Inr _ \<Rightarrow>
          (case with_parse_stack host on (parse_command_inner host raw) of
             Inr c \<Rightarrow> c
           | Inl reason \<Rightarrow> ClOpaque reason))"

subsection \<open>Opaque pieces and the allowlist\<close>

definition str_contains :: "string \<Rightarrow> string \<Rightarrow> bool" where
  "str_contains s needle = list_ex (\<lambda>i. list_prefix needle (drop i s)) [0..<Suc (length s)]"

definition parse_word_pieces :: "shell_host \<Rightarrow> string \<Rightarrow> ((word_piece \<times> span) list, opaque_reason) result" where
  "parse_word_pieces host w =
     res_bind (input_guard w) (\<lambda>_. ok_or OParseError (sh_parse_word host w))"

definition is_plain_named :: "parameter \<Rightarrow> bool" where
  "is_plain_named p = (case p of Named _ \<Rightarrow> True | _ \<Rightarrow> False)"

definition is_safe_literal_str :: "string \<Rightarrow> bool" where
  "is_safe_literal_str s \<longleftrightarrow> CHR ''$'' \<notin> set s \<and> CHR 0x60 \<notin> set s \<and> CHR ''~'' \<notin> set s"

definition is_safe_literal_payload :: "string option \<Rightarrow> bool" where
  "is_safe_literal_payload p = opt_ok is_safe_literal_str p"

text \<open>The inner loop over a bracket class: where it closes, if it does.\<close>

datatype bracket_scan = Nested | Closed nat | Unclosed

function bracket_loop :: "string \<Rightarrow> nat \<Rightarrow> bracket_scan" where
  "bracket_loop bytes j =
     (if j < length bytes then
        (if bytes ! j = CHR ''['' then Nested
         else if bytes ! j = CHR '']'' then Closed j
         else bracket_loop bytes (j + 1))
      else Unclosed)"
  by pat_completeness auto
termination
  by (relation "measure (\<lambda>(bytes, j). length bytes - j)") auto

declare bracket_loop.simps [simp del]

definition bracket_body_start :: "string \<Rightarrow> nat \<Rightarrow> nat" where
  "bracket_body_start bytes i =
     (let j = i + 1;
          j = (if j < length bytes \<and> (bytes ! j = CHR ''!'' \<or> bytes ! j = CHR ''^'') then j + 1 else j)
      in if j < length bytes \<and> bytes ! j = CHR '']'' then j + 1 else j)"

lemma bracket_loop_bound: "bracket_loop bytes j = Closed k \<Longrightarrow> j \<le> k \<and> k < length bytes"
  by (induction bytes j rule: bracket_loop.induct) (subst (asm) (2) bracket_loop.simps, force split: if_splits)

lemma bracket_body_start_gt: "i < bracket_body_start bytes i"
  by (simp add: bracket_body_start_def Let_def)

function safe_glob_loop :: "string \<Rightarrow> nat \<Rightarrow> bool" where
  "safe_glob_loop bytes i =
     (if i < length bytes then
        (let b = bytes ! i
         in if b = CHR ''*'' \<or> b = CHR ''?'' then safe_glob_loop bytes (i + 1)
            else if b = CHR ''['' then
              (case bracket_loop bytes (bracket_body_start bytes i) of
                 Nested \<Rightarrow> False
               | Unclosed \<Rightarrow> False
               | Closed j \<Rightarrow> if j = bracket_body_start bytes i then False else safe_glob_loop bytes (j + 1))
            else if b = CHR ''{'' \<or> b = CHR ''}'' \<or> b = CHR 0x5C then False
            else safe_glob_loop bytes (i + 1))
      else True)"
  by pat_completeness auto
termination
proof (relation "measure (\<lambda>(bytes, i). length bytes - i)", goal_cases)
  case (3 bytes i b j)
  then show ?case
    using bracket_loop_bound [of bytes "bracket_body_start bytes i" j] bracket_body_start_gt [of i bytes]
    by (auto intro: diff_less_mono2)
qed auto

declare safe_glob_loop.simps [simp del]

definition is_verified_safe_glob_pattern :: "string \<Rightarrow> bool" where
  "is_verified_safe_glob_pattern pattern = (\<not> str_contains pattern ''**'' \<and> safe_glob_loop pattern 0)"

definition compile_glob :: "glob_engine \<Rightarrow> string \<Rightarrow> (string \<Rightarrow> bool) option" where
  "compile_glob glob pattern = glob pattern"

definition prefix_suffix_pattern_is_safe :: "glob_engine \<Rightarrow> string option \<Rightarrow> bool" where
  "prefix_suffix_pattern_is_safe glob pattern =
     (case pattern of
        None \<Rightarrow> True
      | Some p \<Rightarrow> is_verified_safe_glob_pattern p \<and> compile_glob glob p \<noteq> None)"

definition pattern_allowlisted :: "glob_engine \<Rightarrow> parameter \<Rightarrow> bool \<Rightarrow> string option \<Rightarrow> bool" where
  "pattern_allowlisted glob p indirect pattern =
     (\<not> indirect \<and> is_plain_named p \<and> is_safe_literal_payload pattern \<and> prefix_suffix_pattern_is_safe glob pattern)"

fun parameter_expr_is_allowlisted :: "glob_engine \<Rightarrow> parameter_expr \<Rightarrow> bool" where
  "parameter_expr_is_allowlisted glob (EParameter p indirect) = (\<not> indirect \<and> is_plain_named p)"
| "parameter_expr_is_allowlisted glob (EParameterLength p indirect) = (\<not> indirect \<and> is_plain_named p)"
| "parameter_expr_is_allowlisted glob (EUseDefaultValues p indirect _ v) =
     (\<not> indirect \<and> is_plain_named p \<and> is_safe_literal_payload v)"
| "parameter_expr_is_allowlisted glob (EAssignDefaultValues p indirect _ v) =
     (\<not> indirect \<and> is_plain_named p \<and> is_safe_literal_payload v)"
| "parameter_expr_is_allowlisted glob (EUseAlternativeValue p indirect _ v) =
     (\<not> indirect \<and> is_plain_named p \<and> is_safe_literal_payload v)"
| "parameter_expr_is_allowlisted glob (ERemoveSmallestPrefixPattern p indirect pat) =
     pattern_allowlisted glob p indirect pat"
| "parameter_expr_is_allowlisted glob (ERemoveLargestPrefixPattern p indirect pat) =
     pattern_allowlisted glob p indirect pat"
| "parameter_expr_is_allowlisted glob (ERemoveSmallestSuffixPattern p indirect pat) =
     pattern_allowlisted glob p indirect pat"
| "parameter_expr_is_allowlisted glob (ERemoveLargestSuffixPattern p indirect pat) =
     pattern_allowlisted glob p indirect pat"
| "parameter_expr_is_allowlisted glob EUnlisted = False"

definition parameter_expr_is_opaque :: "glob_engine \<Rightarrow> parameter_expr \<Rightarrow> bool" where
  "parameter_expr_is_opaque glob e = (\<not> parameter_expr_is_allowlisted glob e)"

definition raw_string_has_command_substitution :: "string \<Rightarrow> bool" where
  "raw_string_has_command_substitution s =
     list_ex (\<lambda>(i, b).
       b = CHR 0x60 \<and> (i = 0 \<or> s ! (i - 1) \<noteq> CHR 0x5C) \<or>
       b = CHR ''$'' \<and> i + 1 < length s \<and> s ! (i + 1) = CHR ''('') (enumerate 0 s)"

fun piece_is_opaque :: "glob_engine \<Rightarrow> word_piece \<Rightarrow> bool" where
  "piece_is_opaque glob (PCommandSubstitution _) = True"
| "piece_is_opaque glob (PBackquotedCommandSubstitution _) = True"
| "piece_is_opaque glob (PDoubleQuotedSequence inner) = list_ex (\<lambda>(p, _). piece_is_opaque glob p) inner"
| "piece_is_opaque glob (PGettextDoubleQuotedSequence inner) = list_ex (\<lambda>(p, _). piece_is_opaque glob p) inner"
| "piece_is_opaque glob (PArithmeticExpression e) = raw_string_has_command_substitution e"
| "piece_is_opaque glob (PParameterExpansion e) = parameter_expr_is_opaque glob e"
| "piece_is_opaque glob _ = False"

subsection \<open>Expansion of a word\<close>

type_synonym session_env = "string \<rightharpoonup> string"

definition env_set :: "session_env \<Rightarrow> string \<Rightarrow> string \<Rightarrow> session_env" where
  "env_set env k v = env(k \<mapsto> v)"

definition env_get :: "session_env \<Rightarrow> string \<Rightarrow> string option" where
  "env_get env k = env k"

definition resolve_if_set :: "session_env \<Rightarrow> string \<Rightarrow> parameter_test_type \<Rightarrow> string option" where
  "resolve_if_set env name test =
     (case env_get env name of
        Some v \<Rightarrow> if test = UnsetOrNull \<and> v = [] then None else Some v
      | None \<Rightarrow> None)"

definition MAX_GLOB_STRIP_INPUT_BYTES :: nat where
  "MAX_GLOB_STRIP_INPUT_BYTES = 256"

definition char_count :: "string \<Rightarrow> nat" where
  "char_count s = length (filter (is_char_boundary s) [0..<length s])"

definition char_boundaries :: "string \<Rightarrow> nat list" where
  "char_boundaries value = filter (is_char_boundary value) [0..<length value] @ [length value]"

definition strip_prefix_pattern :: "glob_engine \<Rightarrow> string \<Rightarrow> string \<Rightarrow> bool \<Rightarrow> string" where
  "strip_prefix_pattern glob value pattern smallest =
     (if length value > MAX_GLOB_STRIP_INPUT_BYTES then value
      else case compile_glob glob pattern of
             None \<Rightarrow> value
           | Some is_match \<Rightarrow>
               (let boundaries = char_boundaries value;
                    found = List.find (\<lambda>b. is_match (take b value))
                              (if smallest then boundaries else rev boundaries)
                in case found of Some b \<Rightarrow> drop b value | None \<Rightarrow> value))"

definition strip_suffix_pattern :: "glob_engine \<Rightarrow> string \<Rightarrow> string \<Rightarrow> bool \<Rightarrow> string" where
  "strip_suffix_pattern glob value pattern smallest =
     (if length value > MAX_GLOB_STRIP_INPUT_BYTES then value
      else case compile_glob glob pattern of
             None \<Rightarrow> value
           | Some is_match \<Rightarrow>
               (let boundaries = char_boundaries value;
                    found = List.find (\<lambda>b. is_match (drop b value))
                              (if smallest then rev boundaries else boundaries)
                in case found of Some b \<Rightarrow> take b value | None \<Rightarrow> value))"

definition unwrap_str :: "string option \<Rightarrow> string" where
  [simp]: "unwrap_str x = (case x of None \<Rightarrow> [] | Some s \<Rightarrow> s)"

fun expand_parameter_expr :: "glob_engine \<Rightarrow> session_env \<Rightarrow> parameter_expr \<Rightarrow> string" where
  "expand_parameter_expr glob env (EParameter (Named name) False) = unwrap_str (env_get env name)"
| "expand_parameter_expr glob env (EParameterLength (Named name) False) =
     decimal (char_count (unwrap_str (env_get env name)))"
| "expand_parameter_expr glob env (EUseDefaultValues (Named name) False test dflt) =
     (case resolve_if_set env name test of Some v \<Rightarrow> v | None \<Rightarrow> unwrap_str dflt)"
| "expand_parameter_expr glob env (EAssignDefaultValues (Named name) False test dflt) =
     (case resolve_if_set env name test of Some v \<Rightarrow> v | None \<Rightarrow> unwrap_str dflt)"
| "expand_parameter_expr glob env (EUseAlternativeValue (Named name) False test alt) =
     (if resolve_if_set env name test \<noteq> None then unwrap_str alt else [])"
| "expand_parameter_expr glob env (ERemoveSmallestPrefixPattern (Named name) False pattern) =
     strip_prefix_pattern glob (unwrap_str (env_get env name)) (unwrap_str pattern) True"
| "expand_parameter_expr glob env (ERemoveLargestPrefixPattern (Named name) False pattern) =
     strip_prefix_pattern glob (unwrap_str (env_get env name)) (unwrap_str pattern) False"
| "expand_parameter_expr glob env (ERemoveSmallestSuffixPattern (Named name) False pattern) =
     strip_suffix_pattern glob (unwrap_str (env_get env name)) (unwrap_str pattern) True"
| "expand_parameter_expr glob env (ERemoveLargestSuffixPattern (Named name) False pattern) =
     strip_suffix_pattern glob (unwrap_str (env_get env name)) (unwrap_str pattern) False"
| "expand_parameter_expr glob env _ = []"

definition unescape :: "string \<Rightarrow> string" where
  "unescape s =
     (case s of
        c # d # rest \<Rightarrow>
          if c \<noteq> CHR 0x5C then s
          else if d = CHR 0x5C \<or> d = CHR ''$'' \<or> d = CHR 0x60 \<or> d = CHR 0x22 \<or> d = CHR 0x27 then [d]
          else d # rest
      | _ \<Rightarrow> s)"

definition is_quoted_expandable :: "glob_engine \<Rightarrow> word_piece \<Rightarrow> bool" where
  "is_quoted_expandable glob piece =
     (case piece of
        PText _ \<Rightarrow> True
      | PEscapeSequence _ \<Rightarrow> True
      | PParameterExpansion e \<Rightarrow> parameter_expr_is_allowlisted glob e
      | _ \<Rightarrow> False)"

definition is_expandable_piece :: "glob_engine \<Rightarrow> word_piece \<Rightarrow> bool" where
  "is_expandable_piece glob piece =
     (case piece of
        PText _ \<Rightarrow> True
      | PSingleQuotedText _ \<Rightarrow> True
      | PAnsiCQuotedText _ \<Rightarrow> True
      | PEscapeSequence _ \<Rightarrow> True
      | PParameterExpansion e \<Rightarrow> parameter_expr_is_allowlisted glob e
      | PDoubleQuotedSequence inner \<Rightarrow> list_all (\<lambda>(p, _). is_quoted_expandable glob p) inner
      | _ \<Rightarrow> False)"

fun expand_piece :: "glob_engine \<Rightarrow> session_env \<Rightarrow> word_piece \<Rightarrow> string" where
  "expand_piece glob env (PText s) = s"
| "expand_piece glob env (PSingleQuotedText s) = s"
| "expand_piece glob env (PAnsiCQuotedText s) = s"
| "expand_piece glob env (PEscapeSequence s) = unescape s"
| "expand_piece glob env (PParameterExpansion e) = expand_parameter_expr glob env e"
| "expand_piece glob env (PDoubleQuotedSequence inner) = concat (map (\<lambda>(p, _). expand_piece glob env p) inner)"
| "expand_piece glob env _ = []"

definition expand_word :: "shell_host \<Rightarrow> glob_engine \<Rightarrow> session_env \<Rightarrow> ast_word \<Rightarrow> ast_word" where
  "expand_word host glob env w =
     (case parse_word_pieces host (w_value w) of
        Inl _ \<Rightarrow> w
      | Inr pieces \<Rightarrow>
          if \<not> list_all (\<lambda>(p, _). is_expandable_piece glob p) pieces then w
          else w\<lparr>w_value := concat (map (\<lambda>(p, _). expand_piece glob env p) pieces)\<rparr>)"

subsection \<open>Expansion of a tree\<close>

fun expand_in_io_redirect ::
  "shell_host \<Rightarrow> glob_engine \<Rightarrow> session_env \<Rightarrow> ast_word io_redirect \<Rightarrow> ast_word io_redirect" where
  "expand_in_io_redirect host glob env (RFile fd kind (Filename w)) =
     RFile fd kind (Filename (expand_word host glob env w))"
| "expand_in_io_redirect host glob env (RFile fd kind (Duplicate w)) =
     RFile fd kind (Duplicate (expand_word host glob env w))"
| "expand_in_io_redirect host glob env (RHereString fd w) = RHereString fd (expand_word host glob env w)"
| "expand_in_io_redirect host glob env (ROutputAndError w app) =
     ROutputAndError (expand_word host glob env w) app"
| "expand_in_io_redirect host glob env (RHereDocument fd here_end doc) =
     RHereDocument fd (expand_word host glob env here_end) (expand_word host glob env doc)"
| "expand_in_io_redirect host glob env (RFile fd kind (Fd n)) = RFile fd kind (Fd n)"
| "expand_in_io_redirect host glob env (RFile fd kind (TargetProcessSubstitution k l)) =
     RFile fd kind (TargetProcessSubstitution k l)"

definition expand_in_redirect_list ::
  "shell_host \<Rightarrow> glob_engine \<Rightarrow> session_env \<Rightarrow> ast_word redirect_list \<Rightarrow> ast_word redirect_list" where
  "expand_in_redirect_list host glob env rl = map (expand_in_io_redirect host glob env) rl"

fun expand_in_prefix_or_suffix_item ::
  "shell_host \<Rightarrow> glob_engine \<Rightarrow> session_env \<Rightarrow> ast_word command_item \<Rightarrow> ast_word command_item" where
  "expand_in_prefix_or_suffix_item host glob env (IWord w) = IWord (expand_word host glob env w)"
| "expand_in_prefix_or_suffix_item host glob env (IAssignmentWord a w) =
     IAssignmentWord a (expand_word host glob env w)"
| "expand_in_prefix_or_suffix_item host glob env (IIoRedirect r) =
     IIoRedirect (expand_in_io_redirect host glob env r)"
| "expand_in_prefix_or_suffix_item host glob env (IProcessSubstitution k l) = IProcessSubstitution k l"

definition expand_in_simple_command ::
  "shell_host \<Rightarrow> glob_engine \<Rightarrow> session_env \<Rightarrow> ast_word simple_command \<Rightarrow> ast_word simple_command" where
  "expand_in_simple_command host glob env cmd =
     SimpleCommand
       (map_option (map (expand_in_prefix_or_suffix_item host glob env)) (sc_prefix cmd))
       (map_option (expand_word host glob env) (sc_word_or_name cmd))
       (map_option (map (expand_in_prefix_or_suffix_item host glob env)) (sc_suffix cmd))"

primrec expand_in_extended_test_expr ::
  "shell_host \<Rightarrow> glob_engine \<Rightarrow> session_env \<Rightarrow> ast_word extended_test_expr \<Rightarrow> ast_word extended_test_expr" where
  "expand_in_extended_test_expr host glob env (TestAnd l r) =
     TestAnd (expand_in_extended_test_expr host glob env l) (expand_in_extended_test_expr host glob env r)"
| "expand_in_extended_test_expr host glob env (TestOr l r) =
     TestOr (expand_in_extended_test_expr host glob env l) (expand_in_extended_test_expr host glob env r)"
| "expand_in_extended_test_expr host glob env (TestNot e) = TestNot (expand_in_extended_test_expr host glob env e)"
| "expand_in_extended_test_expr host glob env (TestParenthesized e) =
     TestParenthesized (expand_in_extended_test_expr host glob env e)"
| "expand_in_extended_test_expr host glob env (UnaryTest p w) = UnaryTest p (expand_word host glob env w)"
| "expand_in_extended_test_expr host glob env (BinaryTest p l r) =
     BinaryTest p (expand_word host glob env l) (expand_word host glob env r)"

fun expand_in_case_item ::
  "shell_host \<Rightarrow> glob_engine \<Rightarrow> session_env \<Rightarrow> (ast_word, 'c) case_item \<Rightarrow> (ast_word, 'c) case_item" where
  "expand_in_case_item host glob env (CaseItem patterns body) =
     CaseItem (map (expand_word host glob env) patterns) body"

text \<open>The words of a compound command itself; the commands inside come expanded.\<close>

fun expand_in_compound_command ::
  "shell_host \<Rightarrow> glob_engine \<Rightarrow> session_env \<Rightarrow> (ast_word, 'c) compound_command \<Rightarrow> (ast_word, 'c) compound_command" where
  "expand_in_compound_command host glob env (Arithmetic e) = Arithmetic e"
| "expand_in_compound_command host glob env (ArithmeticForClause i c u body) = ArithmeticForClause i c u body"
| "expand_in_compound_command host glob env (BraceGroup list) = BraceGroup list"
| "expand_in_compound_command host glob env (Subshell list) = Subshell list"
| "expand_in_compound_command host glob env (ForClause name values body) =
     ForClause name (map_option (map (expand_word host glob env)) values) body"
| "expand_in_compound_command host glob env (CaseClause value cases) =
     CaseClause (expand_word host glob env value) (map (expand_in_case_item host glob env) cases)"
| "expand_in_compound_command host glob env (IfClause condition then_list elses) = IfClause condition then_list elses"
| "expand_in_compound_command host glob env (WhileClause condition body) = WhileClause condition body"
| "expand_in_compound_command host glob env (UntilClause condition body) = UntilClause condition body"
| "expand_in_compound_command host glob env (Coprocess name body) =
     Coprocess (map_option (expand_word host glob env) name) body"

primrec expand_in_command ::
  "shell_host \<Rightarrow> glob_engine \<Rightarrow> session_env \<Rightarrow> ast_word command \<Rightarrow> ast_word command" where
  "expand_in_command host glob env (Simple cmd) = Simple (expand_in_simple_command host glob env cmd)"
| "expand_in_command host glob env (Compound cc rl) =
     Compound
       (expand_in_compound_command host glob env (map_compound_command id (expand_in_command host glob env) cc))
       (map_option (expand_in_redirect_list host glob env) rl)"
| "expand_in_command host glob env (FunctionDef fname cc rl) =
     FunctionDef (expand_word host glob env fname)
       (expand_in_compound_command host glob env (map_compound_command id (expand_in_command host glob env) cc))
       (map_option (expand_in_redirect_list host glob env) rl)"
| "expand_in_command host glob env (ExtendedTest e rl) =
     ExtendedTest (expand_in_extended_test_expr host glob env e)
       (map_option (expand_in_redirect_list host glob env) rl)"

definition expand_in_program :: "shell_host \<Rightarrow> glob_engine \<Rightarrow> session_env \<Rightarrow> ast \<Rightarrow> ast" where
  "expand_in_program host glob env p =
     Program (map (map_compound_list (expand_in_command host glob env)) (complete_commands p))"

definition resolve_variable_expansions ::
  "shell_host \<Rightarrow> glob_engine \<Rightarrow> bool \<Rightarrow> session_env \<Rightarrow> ast \<Rightarrow> ast" where
  "resolve_variable_expansions host glob on env p =
     (case with_parse_stack host on (expand_in_program host glob env p) of
        Inr p' \<Rightarrow> p'
      | Inl _ \<Rightarrow> p)"

subsection \<open>Searching a tree for a word piece\<close>

fun piece_matches :: "(word_piece \<Rightarrow> bool) \<Rightarrow> word_piece \<Rightarrow> bool" where
  "piece_matches predicate piece =
     (predicate piece \<or>
      (case piece of
         PDoubleQuotedSequence inner \<Rightarrow> list_ex (\<lambda>(p, _). piece_matches predicate p) inner
       | PGettextDoubleQuotedSequence inner \<Rightarrow> list_ex (\<lambda>(p, _). piece_matches predicate p) inner
       | _ \<Rightarrow> False))"

declare piece_matches.simps [simp del]

definition word_matches :: "shell_host \<Rightarrow> (word_piece \<Rightarrow> bool) \<Rightarrow> ast_word \<Rightarrow> bool" where
  "word_matches host predicate w =
     (case parse_word_pieces host (w_value w) of
        Inr pieces \<Rightarrow> list_ex (\<lambda>(p, _). piece_matches predicate p) pieces
      | Inl _ \<Rightarrow> True)"

fun io_redirect_matches :: "shell_host \<Rightarrow> (word_piece \<Rightarrow> bool) \<Rightarrow> ast_word io_redirect \<Rightarrow> bool" where
  "io_redirect_matches host predicate (RFile _ _ (Filename w)) = word_matches host predicate w"
| "io_redirect_matches host predicate (RFile _ _ (Duplicate w)) = word_matches host predicate w"
| "io_redirect_matches host predicate (RHereString _ w) = word_matches host predicate w"
| "io_redirect_matches host predicate (ROutputAndError w _) = word_matches host predicate w"
| "io_redirect_matches host predicate (RHereDocument _ here_end doc) =
     (word_matches host predicate here_end \<or> word_matches host predicate doc)"
| "io_redirect_matches host predicate (RFile _ _ (Fd _)) = False"
| "io_redirect_matches host predicate (RFile _ _ (TargetProcessSubstitution _ _)) = False"

definition redirect_list_matches :: "shell_host \<Rightarrow> (word_piece \<Rightarrow> bool) \<Rightarrow> ast_word redirect_list option \<Rightarrow> bool" where
  "redirect_list_matches host predicate rl =
     (case rl of None \<Rightarrow> False | Some rs \<Rightarrow> list_ex (io_redirect_matches host predicate) rs)"

fun prefix_or_suffix_item_matches :: "shell_host \<Rightarrow> (word_piece \<Rightarrow> bool) \<Rightarrow> ast_word command_item \<Rightarrow> bool" where
  "prefix_or_suffix_item_matches host predicate (IWord w) = word_matches host predicate w"
| "prefix_or_suffix_item_matches host predicate (IAssignmentWord _ w) = word_matches host predicate w"
| "prefix_or_suffix_item_matches host predicate (IIoRedirect r) = io_redirect_matches host predicate r"
| "prefix_or_suffix_item_matches host predicate (IProcessSubstitution _ _) = False"

primrec extended_test_expr_matches ::
  "shell_host \<Rightarrow> (word_piece \<Rightarrow> bool) \<Rightarrow> ast_word extended_test_expr \<Rightarrow> bool" where
  "extended_test_expr_matches host predicate (TestAnd l r) =
     (extended_test_expr_matches host predicate l \<or> extended_test_expr_matches host predicate r)"
| "extended_test_expr_matches host predicate (TestOr l r) =
     (extended_test_expr_matches host predicate l \<or> extended_test_expr_matches host predicate r)"
| "extended_test_expr_matches host predicate (TestNot e) = extended_test_expr_matches host predicate e"
| "extended_test_expr_matches host predicate (TestParenthesized e) = extended_test_expr_matches host predicate e"
| "extended_test_expr_matches host predicate (UnaryTest _ w) = word_matches host predicate w"
| "extended_test_expr_matches host predicate (BinaryTest _ l r) =
     (word_matches host predicate l \<or> word_matches host predicate r)"

definition any_word_piece_in_pipeline :: "bool pipeline \<Rightarrow> bool" where
  "any_word_piece_in_pipeline p = list_ex id (pp_seq p)"

fun and_or_pipeline :: "'c and_or \<Rightarrow> 'c pipeline" where
  "and_or_pipeline (AndThen p) = p"
| "and_or_pipeline (OrElse p) = p"

definition any_word_piece_in_and_or_list :: "bool and_or_list \<Rightarrow> bool" where
  "any_word_piece_in_and_or_list aol =
     (any_word_piece_in_pipeline (aol_first aol) \<or>
      list_ex (\<lambda>a. any_word_piece_in_pipeline (and_or_pipeline a)) (aol_additional aol))"

definition any_word_piece_in_compound_list :: "bool compound_list \<Rightarrow> bool" where
  "any_word_piece_in_compound_list list = list_ex (\<lambda>i. any_word_piece_in_and_or_list (li_list i)) (cl_items list)"

text \<open>An optional part that is absent has nothing to find.\<close>

definition opt_any :: "('a \<Rightarrow> bool) \<Rightarrow> 'a option \<Rightarrow> bool" where
  [simp]: "opt_any f x = (case x of None \<Rightarrow> False | Some a \<Rightarrow> f a)"

fun any_word_piece_in_case_item ::
  "shell_host \<Rightarrow> (word_piece \<Rightarrow> bool) \<Rightarrow> (ast_word, bool) case_item \<Rightarrow> bool" where
  "any_word_piece_in_case_item host predicate (CaseItem patterns body) =
     (list_ex (word_matches host predicate) patterns \<or> opt_any any_word_piece_in_compound_list body)"

fun any_word_piece_in_else_clause :: "bool else_clause \<Rightarrow> bool" where
  "any_word_piece_in_else_clause (ElseClause cond body) =
     (opt_any any_word_piece_in_compound_list cond \<or> any_word_piece_in_compound_list body)"

fun any_word_piece_in_compound_command ::
  "shell_host \<Rightarrow> (word_piece \<Rightarrow> bool) \<Rightarrow> (ast_word, bool) compound_command \<Rightarrow> bool" where
  "any_word_piece_in_compound_command host predicate (Arithmetic _) = False"
| "any_word_piece_in_compound_command host predicate (ArithmeticForClause _ _ _ body) =
     any_word_piece_in_compound_list body"
| "any_word_piece_in_compound_command host predicate (BraceGroup list) = any_word_piece_in_compound_list list"
| "any_word_piece_in_compound_command host predicate (Subshell list) = any_word_piece_in_compound_list list"
| "any_word_piece_in_compound_command host predicate (ForClause _ values body) =
     (opt_any (list_ex (word_matches host predicate)) values \<or> any_word_piece_in_compound_list body)"
| "any_word_piece_in_compound_command host predicate (CaseClause value cases) =
     (word_matches host predicate value \<or>
      list_ex (any_word_piece_in_case_item host predicate) cases)"
| "any_word_piece_in_compound_command host predicate (IfClause condition then_list elses) =
     (any_word_piece_in_compound_list condition \<or> any_word_piece_in_compound_list then_list \<or>
      opt_any (list_ex any_word_piece_in_else_clause) elses)"
| "any_word_piece_in_compound_command host predicate (WhileClause condition body) =
     (any_word_piece_in_compound_list condition \<or> any_word_piece_in_compound_list body)"
| "any_word_piece_in_compound_command host predicate (UntilClause condition body) =
     (any_word_piece_in_compound_list condition \<or> any_word_piece_in_compound_list body)"
| "any_word_piece_in_compound_command host predicate (Coprocess name body) =
     (opt_any (word_matches host predicate) name \<or> body)"

primrec any_word_piece_in_command ::
  "shell_host \<Rightarrow> (word_piece \<Rightarrow> bool) \<Rightarrow> ast_word command \<Rightarrow> bool" where
  "any_word_piece_in_command host predicate (Simple cmd) =
     (opt_any (word_matches host predicate) (sc_word_or_name cmd) \<or>
      opt_any (list_ex (prefix_or_suffix_item_matches host predicate)) (sc_prefix cmd) \<or>
      opt_any (list_ex (prefix_or_suffix_item_matches host predicate)) (sc_suffix cmd))"
| "any_word_piece_in_command host predicate (Compound cc rl) =
     (any_word_piece_in_compound_command host predicate
        (map_compound_command id (any_word_piece_in_command host predicate) cc) \<or>
      redirect_list_matches host predicate rl)"
| "any_word_piece_in_command host predicate (FunctionDef fname cc rl) =
     (word_matches host predicate fname \<or>
      any_word_piece_in_compound_command host predicate
        (map_compound_command id (any_word_piece_in_command host predicate) cc) \<or>
      redirect_list_matches host predicate rl)"
| "any_word_piece_in_command host predicate (ExtendedTest e rl) =
     (extended_test_expr_matches host predicate e \<or> redirect_list_matches host predicate rl)"

definition any_word_piece :: "shell_host \<Rightarrow> (word_piece \<Rightarrow> bool) \<Rightarrow> ast \<Rightarrow> bool" where
  "any_word_piece host predicate p =
     list_ex (\<lambda>cc. any_word_piece_in_compound_list
                     (map_compound_list (any_word_piece_in_command host predicate) cc)) (complete_commands p)"

definition contains_unresolved_command_substitution ::
  "shell_host \<Rightarrow> glob_engine \<Rightarrow> bool \<Rightarrow> parsed_shell_ast \<Rightarrow> bool" where
  "contains_unresolved_command_substitution host glob on a =
     (case with_parse_stack host on (any_word_piece host (piece_is_opaque glob) (psa_program_ast a)) of
        Inr b \<Rightarrow> b
      | Inl _ \<Rightarrow> True)"

definition head_option :: "'a list \<Rightarrow> 'a option" where
  [simp]: "head_option xs = (case xs of [] \<Rightarrow> None | x # _ \<Rightarrow> Some x)"

definition first_pipeline_command :: "ast \<Rightarrow> ast_word command option" where
  "first_pipeline_command p =
     Option.bind (head_option (complete_commands p)) (\<lambda>cc.
     Option.bind (head_option (cl_items cc)) (\<lambda>item.
     head_option (pp_seq (aol_first (li_list item)))))"

definition flatten_simple_command_argv :: "ast_word simple_command \<Rightarrow> string list" where
  "flatten_simple_command_argv cmd =
     (case sc_word_or_name cmd of None \<Rightarrow> [] | Some w \<Rightarrow> [w_value w]) @
     (case sc_suffix cmd of
        None \<Rightarrow> []
      | Some items \<Rightarrow>
          List.map_filter (\<lambda>i. case i of IWord w \<Rightarrow> Some (w_value w) | _ \<Rightarrow> None) items)"

definition first_node_argv :: "parsed_shell_ast \<Rightarrow> string list" where
  "first_node_argv a =
     (case first_pipeline_command (psa_program_ast a) of
        Some (Simple cmd) \<Rightarrow> flatten_simple_command_argv cmd
      | _ \<Rightarrow> [])"

end
