(* ===== verification/Shell_Pipeline.thy ===== *)
theory Shell_Pipeline
  imports Shell_Classify
begin

text \<open>
  \<^verbatim>\<open>roundhouse-policy/src/shell/opaque.rs\<close> and \<^verbatim>\<open>pipeline.rs\<close>: the constructs that are denied outright,
  the flattening of a tree into programs with their arguments and redirections, the decision over
  all of them, and (\<^verbatim>\<open>roundhouse-engine/src/agent_loop.rs\<close>) the tool that runs a shell string.
\<close>

subsection \<open>Opaque constructs\<close>

record opaque_node =
  on_reason :: opaque_reason
  on_span :: span

record restructure_hint =
  rh_error :: string
  rh_rule :: string
  rh_hint :: string

datatype shell_classification = ScProgram parsed_shell_ast | ScHardDeny restructure_hint

definition source_span_to_tuple :: "span option \<Rightarrow> span" where
  "source_span_to_tuple s = (case s of Some x \<Rightarrow> x | None \<Rightarrow> (0, 0))"

definition find_opaque_in_word :: "shell_host \<Rightarrow> glob_engine \<Rightarrow> ast_word \<Rightarrow> opaque_node list" where
  "find_opaque_in_word host glob w =
     (case parse_word_pieces host (w_value w) of
        Inr pieces \<Rightarrow>
          (case List.find (\<lambda>(p, _). piece_is_opaque glob p) pieces of
             Some (_, sp) \<Rightarrow> [\<lparr>on_reason = OCommandSubstitution, on_span = sp\<rparr>]
           | None \<Rightarrow> [])
      | Inl _ \<Rightarrow> [\<lparr>on_reason = OParseError, on_span = (0, 0)\<rparr>])"

definition check_eval_or_source :: "ast_word \<Rightarrow> opaque_node list" where
  "check_eval_or_source w =
     (if w_value w = ''eval'' then [\<lparr>on_reason = OEval, on_span = source_span_to_tuple (w_loc w)\<rparr>]
      else if w_value w = ''.'' \<or> w_value w = ''source''
           then [\<lparr>on_reason = OSource, on_span = source_span_to_tuple (w_loc w)\<rparr>]
      else [])"

fun find_opaque_in_io_redirect :: "shell_host \<Rightarrow> glob_engine \<Rightarrow> ast_word io_redirect \<Rightarrow> opaque_node list" where
  "find_opaque_in_io_redirect host glob (RFile _ _ (Filename w)) = find_opaque_in_word host glob w"
| "find_opaque_in_io_redirect host glob (RFile _ _ (Duplicate w)) = find_opaque_in_word host glob w"
| "find_opaque_in_io_redirect host glob (RHereString _ w) = find_opaque_in_word host glob w"
| "find_opaque_in_io_redirect host glob (ROutputAndError w _) = find_opaque_in_word host glob w"
| "find_opaque_in_io_redirect host glob (RHereDocument _ _ _) = [\<lparr>on_reason = OHereDoc, on_span = (0, 0)\<rparr>]"
| "find_opaque_in_io_redirect host glob (RFile _ _ (Fd _)) = []"
| "find_opaque_in_io_redirect host glob (RFile _ _ (TargetProcessSubstitution _ loc)) =
     [\<lparr>on_reason = OProcessSubstitution, on_span = source_span_to_tuple loc\<rparr>]"

definition opt_concat :: "('a \<Rightarrow> 'b list) \<Rightarrow> 'a option \<Rightarrow> 'b list" where
  [simp]: "opt_concat f x = (case x of None \<Rightarrow> [] | Some a \<Rightarrow> f a)"

definition find_opaque_in_redirect_list ::
  "shell_host \<Rightarrow> glob_engine \<Rightarrow> ast_word redirect_list \<Rightarrow> opaque_node list" where
  "find_opaque_in_redirect_list host glob rl = concat (map (find_opaque_in_io_redirect host glob) rl)"

fun find_opaque_in_prefix_or_suffix_item ::
  "shell_host \<Rightarrow> glob_engine \<Rightarrow> ast_word command_item \<Rightarrow> opaque_node list" where
  "find_opaque_in_prefix_or_suffix_item host glob (IWord w) = find_opaque_in_word host glob w"
| "find_opaque_in_prefix_or_suffix_item host glob (IAssignmentWord _ w) = find_opaque_in_word host glob w"
| "find_opaque_in_prefix_or_suffix_item host glob (IIoRedirect r) = find_opaque_in_io_redirect host glob r"
| "find_opaque_in_prefix_or_suffix_item host glob (IProcessSubstitution _ loc) =
     [\<lparr>on_reason = OProcessSubstitution, on_span = source_span_to_tuple loc\<rparr>]"

definition find_opaque_in_simple_command ::
  "shell_host \<Rightarrow> glob_engine \<Rightarrow> ast_word simple_command \<Rightarrow> opaque_node list" where
  "find_opaque_in_simple_command host glob cmd =
     opt_concat (\<lambda>items. concat (map (find_opaque_in_prefix_or_suffix_item host glob) items)) (sc_prefix cmd) @
     opt_concat (\<lambda>w. find_opaque_in_word host glob w @ check_eval_or_source w) (sc_word_or_name cmd) @
     opt_concat (\<lambda>items. concat (map (find_opaque_in_prefix_or_suffix_item host glob) items)) (sc_suffix cmd)"

primrec find_opaque_in_extended_test_expr ::
  "shell_host \<Rightarrow> glob_engine \<Rightarrow> ast_word extended_test_expr \<Rightarrow> opaque_node list" where
  "find_opaque_in_extended_test_expr host glob (TestAnd l r) =
     find_opaque_in_extended_test_expr host glob l @ find_opaque_in_extended_test_expr host glob r"
| "find_opaque_in_extended_test_expr host glob (TestOr l r) =
     find_opaque_in_extended_test_expr host glob l @ find_opaque_in_extended_test_expr host glob r"
| "find_opaque_in_extended_test_expr host glob (TestNot e) = find_opaque_in_extended_test_expr host glob e"
| "find_opaque_in_extended_test_expr host glob (TestParenthesized e) =
     find_opaque_in_extended_test_expr host glob e"
| "find_opaque_in_extended_test_expr host glob (UnaryTest _ w) = find_opaque_in_word host glob w"
| "find_opaque_in_extended_test_expr host glob (BinaryTest _ l r) =
     find_opaque_in_word host glob l @ find_opaque_in_word host glob r"

definition find_opaque_in_pipeline :: "opaque_node list pipeline \<Rightarrow> opaque_node list" where
  "find_opaque_in_pipeline p = concat (pp_seq p)"

definition find_opaque_in_and_or_list :: "opaque_node list and_or_list \<Rightarrow> opaque_node list" where
  "find_opaque_in_and_or_list aol =
     find_opaque_in_pipeline (aol_first aol) @
     concat (map (\<lambda>a. find_opaque_in_pipeline (and_or_pipeline a)) (aol_additional aol))"

definition find_opaque_in_compound_list_item :: "opaque_node list compound_list_item \<Rightarrow> opaque_node list" where
  "find_opaque_in_compound_list_item item =
     find_opaque_in_and_or_list (li_list item) @
     (if li_separator item = SepAsync
      then [\<lparr>on_reason = OBackgrounding, on_span = source_span_to_tuple (aol_location (li_list item))\<rparr>] else [])"

definition find_opaque_in_compound_list :: "opaque_node list compound_list \<Rightarrow> opaque_node list" where
  "find_opaque_in_compound_list list = concat (map find_opaque_in_compound_list_item (cl_items list))"

fun find_opaque_in_case_item ::
  "shell_host \<Rightarrow> glob_engine \<Rightarrow> (ast_word, opaque_node list) case_item \<Rightarrow> opaque_node list" where
  "find_opaque_in_case_item host glob (CaseItem patterns body) =
     concat (map (find_opaque_in_word host glob) patterns) @ opt_concat find_opaque_in_compound_list body"

fun find_opaque_in_else_clause :: "opaque_node list else_clause \<Rightarrow> opaque_node list" where
  "find_opaque_in_else_clause (ElseClause cond body) =
     opt_concat find_opaque_in_compound_list cond @ find_opaque_in_compound_list body"

fun find_opaque_in_compound_command ::
  "shell_host \<Rightarrow> glob_engine \<Rightarrow> (ast_word, opaque_node list) compound_command \<Rightarrow> opaque_node list" where
  "find_opaque_in_compound_command host glob (Arithmetic _) = []"
| "find_opaque_in_compound_command host glob (ArithmeticForClause _ _ _ body) = find_opaque_in_compound_list body"
| "find_opaque_in_compound_command host glob (BraceGroup list) = find_opaque_in_compound_list list"
| "find_opaque_in_compound_command host glob (Subshell list) = find_opaque_in_compound_list list"
| "find_opaque_in_compound_command host glob (ForClause _ values body) =
     opt_concat (\<lambda>ws. concat (map (find_opaque_in_word host glob) ws)) values @ find_opaque_in_compound_list body"
| "find_opaque_in_compound_command host glob (CaseClause value cases) =
     find_opaque_in_word host glob value @
     concat (map (find_opaque_in_case_item host glob) cases)"
| "find_opaque_in_compound_command host glob (IfClause condition then_list elses) =
     find_opaque_in_compound_list condition @ find_opaque_in_compound_list then_list @
     opt_concat (\<lambda>es. concat (map find_opaque_in_else_clause es)) elses"
| "find_opaque_in_compound_command host glob (WhileClause condition body) =
     find_opaque_in_compound_list condition @ find_opaque_in_compound_list body"
| "find_opaque_in_compound_command host glob (UntilClause condition body) =
     find_opaque_in_compound_list condition @ find_opaque_in_compound_list body"
| "find_opaque_in_compound_command host glob (Coprocess name body) =
     opt_concat (find_opaque_in_word host glob) name @ body"

primrec find_opaque_in_command :: "shell_host \<Rightarrow> glob_engine \<Rightarrow> ast_word command \<Rightarrow> opaque_node list" where
  "find_opaque_in_command host glob (Simple cmd) = find_opaque_in_simple_command host glob cmd"
| "find_opaque_in_command host glob (Compound cc rl) =
     find_opaque_in_compound_command host glob (map_compound_command id (find_opaque_in_command host glob) cc) @
     opt_concat (find_opaque_in_redirect_list host glob) rl"
| "find_opaque_in_command host glob (FunctionDef fname cc rl) =
     find_opaque_in_word host glob fname @
     find_opaque_in_compound_command host glob (map_compound_command id (find_opaque_in_command host glob) cc) @
     opt_concat (find_opaque_in_redirect_list host glob) rl"
| "find_opaque_in_command host glob (ExtendedTest e rl) =
     find_opaque_in_extended_test_expr host glob e @ opt_concat (find_opaque_in_redirect_list host glob) rl"

definition find_opaque_in_program :: "shell_host \<Rightarrow> glob_engine \<Rightarrow> ast \<Rightarrow> opaque_node list" where
  "find_opaque_in_program host glob p =
     concat (map (\<lambda>cc. find_opaque_in_compound_list (map_compound_list (find_opaque_in_command host glob) cc))
       (complete_commands p))"

definition find_opaque_nodes :: "shell_host \<Rightarrow> glob_engine \<Rightarrow> bool \<Rightarrow> ast \<Rightarrow> opaque_node list" where
  "find_opaque_nodes host glob on p =
     (case with_parse_stack host on (find_opaque_in_program host glob p) of
        Inr found \<Rightarrow> found
      | Inl _ \<Rightarrow> [\<lparr>on_reason = OParseError, on_span = (0, 0)\<rparr>])"

definition parse_failure_hint :: restructure_hint where
  "parse_failure_hint =
     \<lparr>rh_error = ''unparseable_shell_command'', rh_rule = ''sealed:shell-parse-failure'',
      rh_hint = ''The command could not be parsed as shell syntax. Restructure as a plain argv command.''\<rparr>"

definition guard_rejection_hint :: "guard_rejection \<Rightarrow> restructure_hint" where
  "guard_rejection_hint rejection =
     \<lparr>rh_error = ''unparseable_shell_command'', rh_rule = ''sealed:shell-parse-failure'',
      rh_hint =
        (case rejection of
           TooLarge \<Rightarrow>
             ''The command is longer than the '' @ decimal MAX_INPUT_BYTES @
             ''-byte limit the shell classifier will inspect. Split it into smaller commands.''
         | TooComplex \<Rightarrow>
             ''The command contains too many shell grouping constructs (parentheses, braces, backticks, '' @
             ''or compound-command keywords) for the classifier to inspect. Restructure it as one or more '' @
             ''plain argv commands.'')\<rparr>"

definition opaque_hint :: restructure_hint where
  "opaque_hint =
     \<lparr>rh_error = ''opaque_shell_construct'', rh_rule = ''sealed:shell-opaque'',
      rh_hint = ''Run the inner command as its own shell task, capture the result, '' @
                ''then reference the literal captured value in a follow-up command.''\<rparr>"

definition classify_shell_inner ::
  "shell_host \<Rightarrow> glob_engine \<Rightarrow> bool \<Rightarrow> string \<Rightarrow> session_env \<Rightarrow> shell_classification" where
  "classify_shell_inner host glob on raw env =
     (case parse_command host on raw of
        ClOpaque _ \<Rightarrow> ScHardDeny parse_failure_hint
      | ClProgram cmd \<Rightarrow>
          if find_opaque_nodes host glob on (psa_program_ast cmd) \<noteq> [] then ScHardDeny opaque_hint
          else ScProgram (cmd\<lparr>psa_program_ast := resolve_variable_expansions host glob on env (psa_program_ast cmd)\<rparr>))"

text \<open>The thread that runs the body is a parse-stack thread, so inside the flag is set.\<close>

definition classify_shell :: "shell_host \<Rightarrow> glob_engine \<Rightarrow> bool \<Rightarrow> string \<Rightarrow> session_env \<Rightarrow> shell_classification" where
  "classify_shell host glob on raw env =
     (case check_input_guard raw of
        Inl rejection \<Rightarrow> ScHardDeny (guard_rejection_hint rejection)
      | Inr _ \<Rightarrow>
          (case with_parse_stack host on (classify_shell_inner host glob True raw env) of
             Inr c \<Rightarrow> c
           | Inl _ \<Rightarrow> ScHardDeny parse_failure_hint))"

subsection \<open>Flattening\<close>

record redirection =
  rd_op :: fs_op
  rd_path :: path

record resolved_node =
  rn_program :: string
  rn_argv :: "string list"
  rn_redirections :: "redirection list"

fun fs_op_for_kind :: "io_file_redirect_kind \<Rightarrow> fs_op" where
  "fs_op_for_kind RkRead = FsRead"
| "fs_op_for_kind RkDuplicateInput = FsRead"
| "fs_op_for_kind RkWrite = FsWrite"
| "fs_op_for_kind RkAppend = FsWrite"
| "fs_op_for_kind RkReadAndWrite = FsWrite"
| "fs_op_for_kind RkClobber = FsWrite"
| "fs_op_for_kind RkDuplicateOutput = FsWrite"

definition duplicate_target_is_path :: "string \<Rightarrow> bool" where
  "duplicate_target_is_path v \<longleftrightarrow> v \<noteq> [] \<and> v \<noteq> ''-'' \<and> \<not> list_all is_ascii_digit v"

fun collect_redirect :: "ast_word io_redirect \<Rightarrow> redirection list" where
  "collect_redirect (RFile _ kind (Filename w)) = [\<lparr>rd_op = fs_op_for_kind kind, rd_path = w_value w\<rparr>]"
| "collect_redirect (RFile _ kind (Duplicate w)) =
     (if duplicate_target_is_path (w_value w) then [\<lparr>rd_op = fs_op_for_kind kind, rd_path = w_value w\<rparr>] else [])"
| "collect_redirect (ROutputAndError w _) = [\<lparr>rd_op = FsWrite, rd_path = w_value w\<rparr>]"
| "collect_redirect (RHereDocument _ _ _) = []"
| "collect_redirect (RHereString _ _) = []"
| "collect_redirect (RFile _ _ (Fd _)) = []"
| "collect_redirect (RFile _ _ (TargetProcessSubstitution _ _)) = []"

fun collect_prefix_or_suffix_item ::
  "ast_word command_item \<Rightarrow> string list \<times> redirection list \<Rightarrow> string list \<times> redirection list" where
  "collect_prefix_or_suffix_item (IWord w) (argv, redirs) = (argv @ [w_value w], redirs)"
| "collect_prefix_or_suffix_item (IAssignmentWord _ _) acc = acc"
| "collect_prefix_or_suffix_item (IIoRedirect r) (argv, redirs) = (argv, redirs @ collect_redirect r)"
| "collect_prefix_or_suffix_item (IProcessSubstitution _ _) acc = acc"

definition resolve_simple_command :: "ast_word simple_command \<Rightarrow> resolved_node" where
  "resolve_simple_command cmd =
     (let program = (case sc_word_or_name cmd of None \<Rightarrow> [] | Some w \<Rightarrow> w_value w);
          items = opt_concat id (sc_prefix cmd) @ opt_concat id (sc_suffix cmd);
          (argv, redirs) = fold collect_prefix_or_suffix_item items ([], [])
      in \<lparr>rn_program = program, rn_argv = argv, rn_redirections = redirs\<rparr>)"

definition attach_command_level_redirects ::
  "ast_word redirect_list \<Rightarrow> resolved_node list \<Rightarrow> resolved_node list" where
  "attach_command_level_redirects rl out =
     (let redirs = concat (map collect_redirect rl)
      in if redirs = [] then out
         else case rev out of
                node # before \<Rightarrow> rev before @ [node\<lparr>rn_redirections := rn_redirections node @ redirs\<rparr>]
              | [] \<Rightarrow> [\<lparr>rn_program = [], rn_argv = [], rn_redirections = redirs\<rparr>])"

text \<open>What a walk does to the nodes collected so far.\<close>

type_synonym node_walk = "resolved_node list \<Rightarrow> resolved_node list"

definition walk_pipeline :: "node_walk pipeline \<Rightarrow> node_walk" where
  "walk_pipeline p out = fold (\<lambda>walk. walk) (pp_seq p) out"

definition walk_and_or_list :: "node_walk and_or_list \<Rightarrow> node_walk" where
  "walk_and_or_list aol out =
     fold (\<lambda>a. walk_pipeline (and_or_pipeline a)) (aol_additional aol) (walk_pipeline (aol_first aol) out)"

definition walk_compound_list :: "node_walk compound_list \<Rightarrow> node_walk" where
  "walk_compound_list list out = fold (\<lambda>i. walk_and_or_list (li_list i)) (cl_items list) out"

definition opt_walk :: "('a \<Rightarrow> node_walk) \<Rightarrow> 'a option \<Rightarrow> node_walk" where
  [simp]: "opt_walk f x out = (case x of None \<Rightarrow> out | Some a \<Rightarrow> f a out)"

fun walk_case_item :: "(ast_word, node_walk) case_item \<Rightarrow> node_walk" where
  "walk_case_item (CaseItem _ body) out = opt_walk walk_compound_list body out"

fun walk_else_clause :: "node_walk else_clause \<Rightarrow> node_walk" where
  "walk_else_clause (ElseClause cond body) out = walk_compound_list body (opt_walk walk_compound_list cond out)"

fun walk_compound_command :: "(ast_word, node_walk) compound_command \<Rightarrow> node_walk" where
  "walk_compound_command (Arithmetic _) out = out"
| "walk_compound_command (ArithmeticForClause _ _ _ body) out = walk_compound_list body out"
| "walk_compound_command (BraceGroup list) out = walk_compound_list list out"
| "walk_compound_command (Subshell list) out = walk_compound_list list out"
| "walk_compound_command (ForClause _ _ body) out = walk_compound_list body out"
| "walk_compound_command (CaseClause _ cases) out =
     fold walk_case_item cases out"
| "walk_compound_command (IfClause condition then_list elses) out =
     opt_walk (fold walk_else_clause) elses
       (walk_compound_list then_list (walk_compound_list condition out))"
| "walk_compound_command (WhileClause condition body) out =
     walk_compound_list body (walk_compound_list condition out)"
| "walk_compound_command (UntilClause condition body) out =
     walk_compound_list body (walk_compound_list condition out)"
| "walk_compound_command (Coprocess _ body) out = body out"

primrec walk_command :: "ast_word command \<Rightarrow> node_walk" where
  "walk_command (Simple cmd) = (\<lambda>out. out @ [resolve_simple_command cmd])"
| "walk_command (Compound cc rl) =
     (\<lambda>out. opt_walk attach_command_level_redirects rl
              (walk_compound_command (map_compound_command id walk_command cc) out))"
| "walk_command (FunctionDef _ cc rl) =
     (\<lambda>out. opt_walk attach_command_level_redirects rl
              (walk_compound_command (map_compound_command id walk_command cc) out))"
| "walk_command (ExtendedTest _ rl) = (\<lambda>out. opt_walk attach_command_level_redirects rl out)"

definition walk_program :: "ast \<Rightarrow> node_walk" where
  "walk_program p out = fold (\<lambda>cc. walk_compound_list (map_compound_list walk_command cc)) (complete_commands p) out"

definition resolve_nodes :: "shell_host \<Rightarrow> bool \<Rightarrow> ast \<Rightarrow> resolved_node list" where
  "resolve_nodes host on p =
     (case with_parse_stack host on (walk_program p []) of Inr nodes \<Rightarrow> nodes | Inl _ \<Rightarrow> [])"

definition flatten_argv :: "shell_host \<Rightarrow> bool \<Rightarrow> ast \<Rightarrow> string list list" where
  "flatten_argv host on p = map (\<lambda>n. rn_program n # rn_argv n) (resolve_nodes host on p)"

datatype unsupported_shell_syntax = UCommandList | UPipeline | UCompound

definition is_simple :: "'w command \<Rightarrow> bool" where
  "is_simple c = (case c of Simple _ \<Rightarrow> True | _ \<Rightarrow> False)"

definition pipeline_unsupported_shell_syntax :: "ast_word command pipeline \<Rightarrow> unsupported_shell_syntax option" where
  "pipeline_unsupported_shell_syntax p =
     (if length (pp_seq p) > 1 then Some UPipeline
      else if pp_timed p \<or> pp_bang p \<or> list_ex (\<lambda>c. \<not> is_simple c) (pp_seq p) then Some UCompound
      else None)"

definition and_or_unsupported_shell_syntax :: "ast_word command and_or_list \<Rightarrow> unsupported_shell_syntax option" where
  "and_or_unsupported_shell_syntax list =
     (if aol_additional list \<noteq> [] then Some UCompound else pipeline_unsupported_shell_syntax (aol_first list))"

definition unsupported_syntax :: "ast \<Rightarrow> unsupported_shell_syntax option" where
  "unsupported_syntax p =
     (if length (complete_commands p) \<noteq> 1 then Some UCommandList
      else find_map (\<lambda>cmd.
             if length (cl_items cmd) \<noteq> 1 then Some UCommandList
             else find_map (\<lambda>item. and_or_unsupported_shell_syntax (li_list item)) (cl_items cmd))
           (complete_commands p))"

text \<open>One byte of the glob scanner: \<open>None\<close> is the early \<^verbatim>\<open>return true\<close>.\<close>

record glob_scan =
  gs_quote :: "char option"
  gs_escaped :: bool
  gs_comment :: bool
  gs_at_word_start :: bool

definition glob_scan_step :: "glob_scan \<Rightarrow> char \<Rightarrow> glob_scan option" where
  "glob_scan_step s b =
     (let newline = (b = CHR 0x0A \<or> b = CHR 0x0D)
      in if gs_comment s then
           Some (if newline then s\<lparr>gs_comment := False, gs_at_word_start := True\<rparr> else s)
         else if gs_escaped s then Some (s\<lparr>gs_escaped := False, gs_at_word_start := False\<rparr>)
         else case gs_quote s of
           Some q \<Rightarrow>
             if q = CHR 0x27 then Some (if b = CHR 0x27 then s\<lparr>gs_quote := None\<rparr> else s)
             else Some (if b = CHR 0x22 then s\<lparr>gs_quote := None\<rparr>
                        else if b = CHR 0x5C then s\<lparr>gs_escaped := True\<rparr> else s)
         | None \<Rightarrow>
             if b = CHR 0x5C then Some (s\<lparr>gs_escaped := True, gs_at_word_start := False\<rparr>)
             else if b = CHR 0x27 \<or> b = CHR 0x22 then Some (s\<lparr>gs_quote := Some b\<rparr>)
             else if b = CHR ''#'' \<and> gs_at_word_start s then Some (s\<lparr>gs_comment := True\<rparr>)
             else if newline \<or> b = CHR '' '' \<or> b = CHR 0x09 then Some (s\<lparr>gs_at_word_start := True\<rparr>)
             else if b = CHR '';'' \<or> b = CHR ''|'' \<or> b = CHR ''&'' then Some (s\<lparr>gs_at_word_start := True\<rparr>)
             else if b = CHR ''*'' \<or> b = CHR ''?'' \<or> b = CHR ''['' \<or> b = CHR '']'' then None
             else Some (s\<lparr>gs_at_word_start := False\<rparr>))"

fun glob_scan_loop :: "glob_scan \<Rightarrow> string \<Rightarrow> bool" where
  "glob_scan_loop s [] = False"
| "glob_scan_loop s (b # bs) = (case glob_scan_step s b of None \<Rightarrow> True | Some s' \<Rightarrow> glob_scan_loop s' bs)"

definition contains_unresolved_glob :: "string \<Rightarrow> bool" where
  "contains_unresolved_glob cmd =
     glob_scan_loop \<lparr>gs_quote = None, gs_escaped = False, gs_comment = False, gs_at_word_start = True\<rparr> cmd"

subsection \<open>The decision\<close>

definition combine :: "decision option \<Rightarrow> decision \<Rightarrow> decision option" where
  "combine acc d =
     (case acc of
        None \<Rightarrow> Some d
      | Some prev \<Rightarrow>
          if dc_outcome prev = Deny then Some prev
          else if dc_outcome d = Deny then Some d
          else if dc_outcome prev = Ask \<or> dc_outcome d = Ask then
            Some \<lparr>dc_outcome = Ask, dc_rule = (case dc_rule d of None \<Rightarrow> dc_rule prev | Some r \<Rightarrow> Some r)\<rparr>
          else Some d)"

text \<open>
  The loops of \<^verbatim>\<open>decide_pipeline\<close>: \<open>Inl\<close> is the early return, \<open>Inr\<close> the accumulator.  \<open>canon\<close> is
  \<^verbatim>\<open>Path::canonicalize\<close> on the file system as it is at that moment, with its error as text.
\<close>

type_synonym canonicalizer = "path \<Rightarrow> (path, string) result"

fun decide_redirections ::
  "(task_params \<Rightarrow> decision) \<Rightarrow> canonicalizer \<Rightarrow> redirection list \<Rightarrow> decision option \<Rightarrow> decision + decision option" where
  "decide_redirections judge canon [] worst = Inr worst"
| "decide_redirections judge canon (r # rs) worst =
     (let d = judge (TpFs (rd_op r) (rd_path r) (canon (rd_path r)));
          worst' = combine worst d
      in if dc_outcome d = Deny then Inl (the worst') else decide_redirections judge canon rs worst')"

fun decide_nodes ::
  "(task_params \<Rightarrow> decision) \<Rightarrow> canonicalizer \<Rightarrow> resolved_node list \<Rightarrow> decision option \<Rightarrow> decision + decision option" where
  "decide_nodes judge canon [] worst = Inr worst"
| "decide_nodes judge canon (n # ns) worst =
     (let d = judge (TpShell \<lparr>pc_program = rn_program n, pc_argv = rn_argv n\<rparr>);
          worst' = combine worst d
      in if dc_outcome d = Deny then Inl (the worst')
         else case decide_redirections judge canon (rn_redirections n) worst' of
                Inl d' \<Rightarrow> Inl d'
              | Inr worst'' \<Rightarrow> decide_nodes judge canon ns worst'')"

definition decide_pipeline ::
  "shell_host \<Rightarrow> glob_engine \<Rightarrow> canonicalizer \<Rightarrow> policy_engine \<Rightarrow> sealed_context \<Rightarrow> bool \<Rightarrow>
   parsed_shell_ast \<Rightarrow> taint \<Rightarrow> decision" where
  "decide_pipeline host glob canon pe ctx on cmd t =
     (let nodes = resolve_nodes host on (psa_program_ast cmd)
      in case decide_nodes (\<lambda>params. decide_sealed glob pe params ctx t) canon nodes None of
           Inl d \<Rightarrow> d
         | Inr (Some d) \<Rightarrow> d
         | Inr None \<Rightarrow> \<lparr>dc_outcome = Deny, dc_rule = None\<rparr>)"

definition decide_shell_command ::
  "shell_host \<Rightarrow> glob_engine \<Rightarrow> canonicalizer \<Rightarrow> policy_engine \<Rightarrow> sealed_context \<Rightarrow> bool \<Rightarrow>
   string \<Rightarrow> session_env \<Rightarrow> taint \<Rightarrow> decision" where
  "decide_shell_command host glob canon pe ctx on raw env t =
     (case classify_shell host glob on raw env of
        ScHardDeny hint \<Rightarrow> \<lparr>dc_outcome = Deny, dc_rule = Some (rh_rule hint)\<rparr>
      | ScProgram cmd \<Rightarrow> decide_pipeline host glob canon pe ctx on cmd t)"

subsection \<open>The tool that runs a shell string\<close>

text \<open>
  \<^verbatim>\<open>dispatch_shell_command\<close> of the agent loop.  \<open>refuse\<close> records a refusal under a category and answers
  with the text the model sees; \<open>run\<close> is \<^verbatim>\<open>dispatch_builtin\<close> for \<^verbatim>\<open>TaskKind::Shell\<close>.  Both are given the
  engine's state, and the session's policy, context and taint are read once for the decision.
\<close>

definition json_str_field :: "json \<Rightarrow> string \<Rightarrow> string option" where
  "json_str_field input k =
     (case input of
        JObject kvs \<Rightarrow> (case map_of kvs k of Some (JString s) \<Rightarrow> Some s | _ \<Rightarrow> None)
      | _ \<Rightarrow> None)"

definition shell_node_input :: "resolved_node \<Rightarrow> string \<Rightarrow> json" where
  "shell_node_input n cwd =
     JObject [(''program'', JString (rn_program n)), (''argv'', JArray (map JString (rn_argv n))),
              (''cwd'', JString cwd)]"

fun dispatch_nodes ::
  "(json \<Rightarrow> 's \<Rightarrow> ('p list, string) result \<times> 's) \<Rightarrow> string \<Rightarrow> resolved_node list \<Rightarrow> 'p list \<Rightarrow> 's \<Rightarrow>
   ('p list, string) result \<times> 's" where
  "dispatch_nodes run cwd [] output s = (Ok output, s)"
| "dispatch_nodes run cwd (n # ns) output s =
     (case run (shell_node_input n cwd) s of
        (Inr parts, s') \<Rightarrow> dispatch_nodes run cwd ns (output @ parts) s'
      | (Inl e, s') \<Rightarrow> (Err e, s'))"

fun unsupported_category :: "unsupported_shell_syntax \<Rightarrow> string \<times> string" where
  "unsupported_category UCommandList =
     (''shell_command_command_list'', ''shell command lists are not supported by this tool'')"
| "unsupported_category UPipeline = (''shell_command_pipeline'', ''shell pipelines are not supported by this tool'')"
| "unsupported_category UCompound =
     (''shell_command_control_flow'', ''shell compound syntax is not supported by this tool'')"

definition missing_argument :: "string \<Rightarrow> string" where
  "missing_argument field =
     ''the '' @ [CHR 0x60] @ ''shell_command'' @ [CHR 0x60] @ '' tool call is missing or has an invalid '' @
     [CHR 0x60] @ field @ [CHR 0x60] @ '' argument''"

definition dispatch_shell_command ::
  "shell_host \<Rightarrow> glob_engine \<Rightarrow> canonicalizer \<Rightarrow> policy_engine \<Rightarrow> sealed_context \<Rightarrow> taint \<Rightarrow>
   (string \<Rightarrow> string \<Rightarrow> 's \<Rightarrow> string \<times> 's) \<Rightarrow> (json \<Rightarrow> 's \<Rightarrow> ('p list, string) result \<times> 's) \<Rightarrow>
   json \<Rightarrow> 's \<Rightarrow> ('p list, string) result \<times> 's" where
  "dispatch_shell_command host glob canon pe ctx t refuse run input s =
     (let refused = (\<lambda>category message. map_prod Err id (refuse category message s))
      in case json_str_field input ''command'' of
           None \<Rightarrow> refused ''bad_args'' (missing_argument ''command'')
         | Some cmd \<Rightarrow>
         (case json_str_field input ''cwd'' of
           None \<Rightarrow> refused ''bad_args'' (missing_argument ''cwd'')
         | Some cwd \<Rightarrow>
         (case classify_shell host glob False cmd Map.empty of
           ScHardDeny hint \<Rightarrow> refused ''shell_command_opaque'' (rh_hint hint)
         | ScProgram parsed \<Rightarrow>
           if contains_unresolved_glob cmd then
             refused ''shell_command_glob'' ''unresolved shell globs are not supported by this tool''
           else (case unsupported_syntax (psa_program_ast parsed) of
             Some syn \<Rightarrow> refused (fst (unsupported_category syn)) (snd (unsupported_category syn))
           | None \<Rightarrow>
             if dc_outcome (decide_shell_command host glob canon pe ctx False cmd Map.empty t) = Deny then
               refused ''policy_denied'' ''the shell command was denied by policy''
             else
               let nodes = resolve_nodes host False (psa_program_ast parsed)
               in if nodes = [] then
                    refused ''shell_command_empty'' ''the shell command did not contain an executable command''
                  else if list_ex (\<lambda>n. rn_redirections n \<noteq> []) nodes then
                    refused ''shell_command_redirection'' ''shell redirections are not supported by this tool''
                  else dispatch_nodes run cwd nodes [] s))))"

end
