(* ===== verification/Shell_Policy.thy ===== *)
theory Shell_Policy
  imports Shell_Pipeline
begin

text \<open>
  What the shell classifier guarantees.  The specification side says, without any walk, which simple
  commands, redirections and command lists a tree contains, and the walkers are shown to reach all
  of them: expansion is the map over all words, the opacity search finds exactly the trees with an
  opaque construct, and every program and redirection of an allowed tree has been judged on its own.
\<close>

subsection \<open>What a tree contains\<close>

fun cc_lists :: "('w, 'c) compound_command \<Rightarrow> 'c compound_list list" where
  "cc_lists (Arithmetic _) = []"
| "cc_lists (ArithmeticForClause _ _ _ body) = [body]"
| "cc_lists (BraceGroup list) = [list]"
| "cc_lists (Subshell list) = [list]"
| "cc_lists (ForClause _ _ body) = [body]"
| "cc_lists (CaseClause _ cases) = List.map_filter ci_cmd cases"
| "cc_lists (IfClause condition then_list elses) =
     condition # then_list #
     opt_concat (\<lambda>es. List.map_filter el_condition es @ map el_body es) elses"
| "cc_lists (WhileClause condition body) = [condition, body]"
| "cc_lists (UntilClause condition body) = [condition, body]"
| "cc_lists (Coprocess _ _) = []"

definition sc_items :: "'w simple_command \<Rightarrow> 'w command_item list" where
  "sc_items c = opt_concat id (sc_prefix c) @ opt_concat id (sc_suffix c)"

text \<open>\<open>parts\<close>: the compound command and the redirections of a command that is not a simple one.\<close>

fun inner_command :: "'w command \<Rightarrow> ('w, 'w command) compound_command option" where
  "inner_command (Compound cc _) = Some cc"
| "inner_command (FunctionDef _ cc _) = Some cc"
| "inner_command _ = None"

fun own_redirects :: "'w command \<Rightarrow> 'w io_redirect list" where
  "own_redirects (Simple c) = List.map_filter (\<lambda>i. case i of IIoRedirect r \<Rightarrow> Some r | _ \<Rightarrow> None) (sc_items c)"
| "own_redirects (Compound _ rl) = opt_concat id rl"
| "own_redirects (FunctionDef _ _ rl) = opt_concat id rl"
| "own_redirects (ExtendedTest _ rl) = opt_concat id rl"

text \<open>\<open>part_of d c\<close>: the command \<open>d\<close> is \<open>c\<close> or nested in it at any depth.\<close>

inductive part_of :: "'w command \<Rightarrow> 'w command \<Rightarrow> bool" where
  itself: "part_of c c"
| nested: "inner_command c = Some cc \<Longrightarrow> e \<in> set2_compound_command cc \<Longrightarrow> part_of d e \<Longrightarrow> part_of d c"

inductive_simps part_of_Simple [simp]: "part_of d (Simple c)"
inductive_simps part_of_ExtendedTest [simp]: "part_of d (ExtendedTest e rl)"
inductive_simps part_of_Compound: "part_of d (Compound cc rl)"
inductive_simps part_of_FunctionDef: "part_of d (FunctionDef f cc rl)"

definition program_commands :: "'w program \<Rightarrow> 'w command set" where
  "program_commands p = {d. \<exists>cl \<in> set (complete_commands p). \<exists>c \<in> set_compound_list cl. part_of d c}"

subsection \<open>Layers\<close>

lemma set_map_filter: "set (List.map_filter f xs) = {y. \<exists>x \<in> set xs. f x = Some y}"
  by (force simp: List.map_filter_def)

named_theorems layer_sets "the commands of each layer, as a set"

lemma and_or_pipeline_map [simp]: "and_or_pipeline (map_and_or f a) = map_pipeline f (and_or_pipeline a)"
  by (cases a) simp_all

lemma set_and_or [layer_sets]: "set_and_or a = set_pipeline (and_or_pipeline a)"
  by (cases a) simp_all

lemma set_pipeline_seq [layer_sets]: "set_pipeline p = set (pp_seq p)"
  by (cases p) simp

lemma set_and_or_list_parts [layer_sets]:
  "set_and_or_list a = set (pp_seq (aol_first a)) \<union> (\<Union>x \<in> set (aol_additional a). set (pp_seq (and_or_pipeline x)))"
  by (cases a) (simp add: layer_sets)

lemma set_compound_list_item_parts [layer_sets]: "set_compound_list_item i = set_and_or_list (li_list i)"
  by (cases i) simp

lemma set_compound_list_parts [layer_sets]: "set_compound_list l = (\<Union>i \<in> set (cl_items l). set_and_or_list (li_list i))"
  by (cases l) (simp add: layer_sets)

lemma map_layers [simp]:
  "pp_seq (map_pipeline f p) = map f (pp_seq p)"
  "aol_first (map_and_or_list f a) = map_pipeline f (aol_first a)"
  "aol_additional (map_and_or_list f a) = map (map_and_or f) (aol_additional a)"
  "li_list (map_compound_list_item f i) = map_and_or_list f (li_list i)"
  "li_separator (map_compound_list_item f i) = li_separator i"
  "cl_items (map_compound_list f l) = map (map_compound_list_item f) (cl_items l)"
  by (simp_all add: pipeline.map_sel and_or_list.map_sel compound_list_item.map_sel compound_list.map_sel)

subsection \<open>Expansion reaches every word\<close>

lemma expand_redirect_map: "expand_in_io_redirect host glob env = map_io_redirect (expand_word host glob env)"
proof
  fix r show "expand_in_io_redirect host glob env r = map_io_redirect (expand_word host glob env) r"
    by (induction host glob env r rule: expand_in_io_redirect.induct) simp_all
qed

lemma expand_item_map: "expand_in_prefix_or_suffix_item host glob env = map_command_item (expand_word host glob env)"
proof
  fix i show "expand_in_prefix_or_suffix_item host glob env i = map_command_item (expand_word host glob env) i"
    by (cases i) (simp_all add: expand_redirect_map)
qed

lemma expand_simple_map: "expand_in_simple_command host glob env = map_simple_command (expand_word host glob env)"
proof
  fix c show "expand_in_simple_command host glob env c = map_simple_command (expand_word host glob env) c"
    by (cases c) (simp add: expand_in_simple_command_def expand_item_map)
qed

lemma expand_test_map: "expand_in_extended_test_expr host glob env e = map_extended_test_expr (expand_word host glob env) e"
  by (induction e) simp_all

lemma expand_compound_map:
  "expand_in_compound_command host glob env (map_compound_command id f cc) =
     map_compound_command (expand_word host glob env) f cc"
proof (cases cc)
  case (CaseClause v cs)
  have "expand_in_case_item host glob env (map_case_item id f c) = map_case_item (expand_word host glob env) f c" for c
    by (cases c) simp
  then show ?thesis by (simp add: CaseClause)
qed (simp_all add: option.map_id0)

lemma expand_command_map: "expand_in_command host glob env c = map_command (expand_word host glob env) c"
proof (induction c)
  case (Compound cc rl)
  then show ?case
    by (auto simp: expand_compound_map expand_in_redirect_list_def expand_redirect_map
        intro: compound_command.map_cong0 option.map_cong0)
next
  case (FunctionDef f cc rl)
  then show ?case
    by (auto simp: expand_compound_map expand_in_redirect_list_def expand_redirect_map
        intro: compound_command.map_cong0 option.map_cong0)
qed (auto simp: expand_simple_map expand_test_map expand_in_redirect_list_def expand_redirect_map
      intro: option.map_cong0)

lemma expand_program_map: "expand_in_program host glob env p = map_program (expand_word host glob env) p"
  by (cases p) (simp add: expand_in_program_def expand_command_map [abs_def] cong: map_cong)

subsection \<open>The search for opaque constructs\<close>

definition transparent_word :: "shell_host \<Rightarrow> glob_engine \<Rightarrow> ast_word \<Rightarrow> bool" where
  "transparent_word host glob w \<longleftrightarrow>
     (\<exists>pieces. parse_word_pieces host (w_value w) = Ok pieces \<and> (\<forall>(p, _) \<in> set pieces. \<not> piece_is_opaque glob p))"

fun transparent_redirect :: "'w io_redirect \<Rightarrow> bool" where
  "transparent_redirect (RHereDocument _ _ _) = False"
| "transparent_redirect (RFile _ _ (TargetProcessSubstitution _ _)) = False"
| "transparent_redirect _ = True"

definition transparent_simple :: "ast_word simple_command \<Rightarrow> bool" where
  "transparent_simple c \<longleftrightarrow>
     (\<forall>k loc. IProcessSubstitution k loc \<notin> set (sc_items c)) \<and>
     (\<forall>w. sc_word_or_name c = Some w \<longrightarrow> w_value w \<notin> {''eval'', ''.'', ''source''})"

definition foreground :: "'c compound_list \<Rightarrow> bool" where
  "foreground l \<longleftrightarrow> (\<forall>i \<in> set (cl_items l). li_separator i \<noteq> SepAsync)"

fun transparent_command :: "ast_word command \<Rightarrow> bool" where
  "transparent_command (Simple c) = (list_all transparent_redirect (own_redirects (Simple c)) \<and> transparent_simple c)"
| "transparent_command (Compound cc rl) =
     (list_all transparent_redirect (own_redirects (Compound cc rl)) \<and> list_all foreground (cc_lists cc))"
| "transparent_command (FunctionDef f cc rl) =
     (list_all transparent_redirect (own_redirects (FunctionDef f cc rl)) \<and> list_all foreground (cc_lists cc))"
| "transparent_command (ExtendedTest e rl) = list_all transparent_redirect (own_redirects (ExtendedTest e rl))"

text \<open>No word and no command of the tree, at any depth, is one of the opaque constructs.\<close>

definition transparent_program :: "shell_host \<Rightarrow> glob_engine \<Rightarrow> ast \<Rightarrow> bool" where
  "transparent_program host glob p \<longleftrightarrow>
     (\<forall>w \<in> set_program p. transparent_word host glob w) \<and>
     (\<forall>d \<in> program_commands p. transparent_command d) \<and>
     (\<forall>l \<in> set (complete_commands p). foreground l)"

lemma find_opaque_word_Nil: "find_opaque_in_word host glob w = [] \<longleftrightarrow> transparent_word host glob w"
  by (auto simp: find_opaque_in_word_def transparent_word_def find_None_iff
      dest!: find_Some_mem split: sum.splits option.splits)

lemma find_opaque_redirect_Nil:
  "find_opaque_in_io_redirect host glob r = [] \<longleftrightarrow>
     transparent_redirect r \<and> (\<forall>w \<in> set_io_redirect r. transparent_word host glob w)"
  by (induction host glob r rule: find_opaque_in_io_redirect.induct) (simp_all add: find_opaque_word_Nil)

lemma find_opaque_test_Nil:
  "find_opaque_in_extended_test_expr host glob e = [] \<longleftrightarrow> (\<forall>w \<in> set_extended_test_expr e. transparent_word host glob w)"
  by (induction e) (auto simp: find_opaque_word_Nil)

lemma find_opaque_list_Nil:
  "find_opaque_in_compound_list (map_compound_list g l) = [] \<longleftrightarrow> foreground l \<and> (\<forall>c \<in> set_compound_list l. g c = [])"
  by (auto simp: find_opaque_in_compound_list_def find_opaque_in_compound_list_item_def
      find_opaque_in_and_or_list_def find_opaque_in_pipeline_def foreground_def layer_sets split: if_splits)

lemma find_opaque_case_Nil:
  "find_opaque_in_case_item host glob (map_case_item id g c) = [] \<longleftrightarrow>
   (\<forall>w \<in> set1_case_item c. transparent_word host glob w) \<and> (\<forall>d \<in> set2_case_item c. g d = []) \<and>
   (\<forall>l \<in> set_option (ci_cmd c). foreground l)"
  by (cases c) (auto simp: find_opaque_word_Nil find_opaque_list_Nil split: option.splits)

lemma find_opaque_else_Nil:
  "find_opaque_in_else_clause (map_else_clause g e) = [] \<longleftrightarrow>
   (\<forall>d \<in> set_else_clause e. g d = []) \<and>
   (\<forall>l \<in> set_option (el_condition e). foreground l) \<and> foreground (el_body e)"
  by (cases e) (auto simp: find_opaque_list_Nil split: option.splits)

lemma find_opaque_compound_Nil:
  "find_opaque_in_compound_command host glob (map_compound_command id g cc) = [] \<longleftrightarrow>
     (\<forall>w \<in> set1_compound_command cc. transparent_word host glob w) \<and>
     list_all foreground (cc_lists cc) \<and> (\<forall>c \<in> set2_compound_command cc. g c = [])"
proof (cases cc)
  case (CaseClause v cs)
  then show ?thesis
    by (fastforce simp: comp_def find_opaque_word_Nil find_opaque_case_Nil set_map_filter list_all_iff)
next
  case (IfClause c t es)
  then show ?thesis
    by (cases es) (fastforce simp: comp_def find_opaque_list_Nil find_opaque_else_Nil set_map_filter list_all_iff)+
qed (auto simp: find_opaque_word_Nil find_opaque_list_Nil list_all_iff split: option.splits)

lemma find_opaque_item_Nil:
  "find_opaque_in_prefix_or_suffix_item host glob i = [] \<longleftrightarrow>
     (\<forall>w \<in> set_command_item i. transparent_word host glob w) \<and>
     (\<forall>r. i = IIoRedirect r \<longrightarrow> transparent_redirect r) \<and> (\<forall>k loc. i \<noteq> IProcessSubstitution k loc)"
  by (cases i) (auto simp: find_opaque_word_Nil find_opaque_redirect_Nil)

lemma check_eval_Nil: "check_eval_or_source w = [] \<longleftrightarrow> w_value w \<notin> {''eval'', ''.'', ''source''}"
  by (simp add: check_eval_or_source_def)

lemma set_simple_command_parts:
  "set_simple_command c = set_option (sc_word_or_name c) \<union> (\<Union>i \<in> set (sc_items c). set_command_item i)"
  by (cases c) (auto simp: sc_items_def split: option.splits)

lemma redirects_of_simple: "set (own_redirects (Simple c)) = {r. IIoRedirect r \<in> set (sc_items c)}"
proof -
  have "(case i of IIoRedirect r \<Rightarrow> Some r | _ \<Rightarrow> None) = Some x \<longleftrightarrow> i = IIoRedirect x" for i :: "'a command_item" and x
    by (cases i) simp_all
  then show ?thesis by (auto simp: set_map_filter)
qed

lemma find_opaque_simple_Nil:
  "find_opaque_in_simple_command host glob c = [] \<longleftrightarrow>
     (\<forall>w \<in> set_simple_command c. transparent_word host glob w) \<and> transparent_command (Simple c)"
proof -
  have "find_opaque_in_simple_command host glob c = [] \<longleftrightarrow>
      (\<forall>i \<in> set (sc_items c). find_opaque_in_prefix_or_suffix_item host glob i = []) \<and>
      (\<forall>w. sc_word_or_name c = Some w \<longrightarrow> find_opaque_in_word host glob w = [] \<and> check_eval_or_source w = [])"
    by (auto simp: find_opaque_in_simple_command_def sc_items_def split: option.splits)
  also have "\<dots> \<longleftrightarrow> (\<forall>w \<in> set_simple_command c. transparent_word host glob w) \<and> transparent_command (Simple c)"
    unfolding find_opaque_item_Nil find_opaque_word_Nil check_eval_Nil transparent_command.simps list_all_iff
      redirects_of_simple transparent_simple_def set_simple_command_parts
    by fastforce
  finally show ?thesis .
qed

lemma find_opaque_redirects_Nil:
  "opt_concat (find_opaque_in_redirect_list host glob) rl = [] \<longleftrightarrow>
     (\<forall>r \<in> set (opt_concat id rl). transparent_redirect r \<and> (\<forall>w \<in> set_io_redirect r. transparent_word host glob w))"
  by (auto simp: find_opaque_in_redirect_list_def find_opaque_redirect_Nil split: option.splits)

lemma find_opaque_command_Nil:
  "find_opaque_in_command host glob c = [] \<longleftrightarrow>
     (\<forall>w \<in> set_command c. transparent_word host glob w) \<and> (\<forall>d. part_of d c \<longrightarrow> transparent_command d)"
proof (induction c)
  case (Compound cc rl)
  have "find_opaque_in_command host glob (Compound cc rl) = [] \<longleftrightarrow>
     (\<forall>w \<in> set1_compound_command cc. transparent_word host glob w) \<and> list_all foreground (cc_lists cc) \<and>
     (\<forall>c \<in> set2_compound_command cc. find_opaque_in_command host glob c = []) \<and>
     (\<forall>r \<in> set (opt_concat id rl). transparent_redirect r \<and> (\<forall>w \<in> set_io_redirect r. transparent_word host glob w))"
    unfolding find_opaque_in_command.simps append_is_Nil_conv find_opaque_compound_Nil find_opaque_redirects_Nil by blast
  also have "\<dots> \<longleftrightarrow> (\<forall>w \<in> set_command (Compound cc rl). transparent_word host glob w) \<and>
      (\<forall>d. part_of d (Compound cc rl) \<longrightarrow> transparent_command d)"
    by (cases rl) (auto simp: Compound.IH part_of_Compound list_all_iff)
  finally show ?case .
next
  case (FunctionDef f cc rl)
  have "find_opaque_in_command host glob (FunctionDef f cc rl) = [] \<longleftrightarrow>
     transparent_word host glob f \<and>
     (\<forall>w \<in> set1_compound_command cc. transparent_word host glob w) \<and> list_all foreground (cc_lists cc) \<and>
     (\<forall>c \<in> set2_compound_command cc. find_opaque_in_command host glob c = []) \<and>
     (\<forall>r \<in> set (opt_concat id rl). transparent_redirect r \<and> (\<forall>w \<in> set_io_redirect r. transparent_word host glob w))"
    unfolding find_opaque_in_command.simps append_is_Nil_conv find_opaque_compound_Nil find_opaque_redirects_Nil
      find_opaque_word_Nil by blast
  also have "\<dots> \<longleftrightarrow> (\<forall>w \<in> set_command (FunctionDef f cc rl). transparent_word host glob w) \<and>
      (\<forall>d. part_of d (FunctionDef f cc rl) \<longrightarrow> transparent_command d)"
    by (cases rl) (auto simp: FunctionDef.IH part_of_FunctionDef list_all_iff)
  finally show ?case .
next
  case (ExtendedTest e rl)
  show ?case
    unfolding find_opaque_in_command.simps append_is_Nil_conv find_opaque_redirects_Nil find_opaque_test_Nil
    by (cases rl) (auto simp: list_all_iff)
qed (simp_all add: find_opaque_simple_Nil)

lemma set_program_parts:
  "set_program p = (\<Union>l \<in> set (complete_commands p). \<Union>c \<in> set_compound_list l. set_command c)"
  by (cases p) simp

lemma find_opaque_program_Nil: "find_opaque_in_program host glob p = [] \<longleftrightarrow> transparent_program host glob p"
  unfolding transparent_program_def set_program_parts program_commands_def find_opaque_in_program_def
    concat_eq_Nil_conv
  by (auto simp: find_opaque_list_Nil find_opaque_command_Nil) blast+

subsection \<open>The walk gathers every task\<close>

text \<open>What \<^verbatim>\<open>decide_pipeline\<close> asks the engine about a node, in order.\<close>

definition redirection_task :: "canonicalizer \<Rightarrow> redirection \<Rightarrow> task_params" where
  "redirection_task canon r = TpFs (rd_op r) (rd_path r) (canon (rd_path r))"

definition node_task :: "resolved_node \<Rightarrow> task_params" where
  "node_task n = TpShell \<lparr>pc_program = rn_program n, pc_argv = rn_argv n\<rparr>"

definition node_tasks :: "canonicalizer \<Rightarrow> resolved_node list \<Rightarrow> task_params list" where
  "node_tasks canon nodes = concat (map (\<lambda>n. node_task n # map (redirection_task canon) (rn_redirections n)) nodes)"

text \<open>What the tree itself would have the engine judge.\<close>

definition redirect_tasks :: "canonicalizer \<Rightarrow> ast_word command \<Rightarrow> task_params set" where
  "redirect_tasks canon d = (\<Union>r \<in> set (own_redirects d). redirection_task canon ` set (collect_redirect r))"

definition command_tasks :: "canonicalizer \<Rightarrow> ast_word command \<Rightarrow> task_params set" where
  "command_tasks canon c =
     {node_task (resolve_simple_command s) | s. part_of (Simple s) c} \<union> (\<Union>d \<in> {d. part_of d c}. redirect_tasks canon d)"

definition gathers :: "canonicalizer \<Rightarrow> node_walk \<Rightarrow> task_params set \<Rightarrow> bool" where
  "gathers canon walk S \<longleftrightarrow> (\<forall>out. set (node_tasks canon out) \<union> S \<subseteq> set (node_tasks canon (walk out)))"

lemma node_tasks_append [simp]: "node_tasks canon (xs @ ys) = node_tasks canon xs @ node_tasks canon ys"
  by (simp add: node_tasks_def)

lemma gathers_empty [simp]: "gathers canon (\<lambda>out. out) {}"
  by (simp add: gathers_def)

lemma gathers_comp:
  "gathers canon f S \<Longrightarrow> gathers canon g T \<Longrightarrow> gathers canon (\<lambda>out. g (f out)) (S \<union> T)"
  unfolding gathers_def by (meson Un_least Un_subset_iff subset_trans)

lemma gathers_fold:
  "(\<And>x. x \<in> set xs \<Longrightarrow> gathers canon (f x) (S x)) \<Longrightarrow> gathers canon (fold f xs) (\<Union>x \<in> set xs. S x)"
proof (induction xs)
  case (Cons x xs)
  then have "gathers canon (\<lambda>out. fold f xs (f x out)) (S x \<union> (\<Union>x \<in> set xs. S x))"
    by (intro gathers_comp) auto
  then show ?case by (simp add: comp_def)
qed (simp add: gathers_def)

lemma gathers_opt:
  "(\<And>a. x = Some a \<Longrightarrow> gathers canon (f a) (S a)) \<Longrightarrow> gathers canon (opt_walk f x) (\<Union>a \<in> set_option x. S a)"
  by (cases x) (auto simp: gathers_def)

lemma gathers_attach:
  "gathers canon (attach_command_level_redirects rl) (\<Union>r \<in> set rl. redirection_task canon ` set (collect_redirect r))"
proof -
  have "set (node_tasks canon out) \<union> (redirection_task canon ` set (concat (map collect_redirect rl)))
      \<subseteq> set (node_tasks canon (attach_command_level_redirects rl out))" for out
  proof (cases "rev out")
    case (Cons n before)
    then have "out = rev before @ [n]" by simp
    then show ?thesis
      by (auto simp: attach_command_level_redirects_def Let_def node_tasks_def node_task_def)
  qed (auto simp: attach_command_level_redirects_def Let_def node_tasks_def)
  then show ?thesis by (simp add: gathers_def image_UN)
qed

lemma gathers_pipeline:
  assumes "\<And>c. c \<in> set (pp_seq p) \<Longrightarrow> gathers canon (g c) (S c)"
  shows "gathers canon (walk_pipeline (map_pipeline g p)) (\<Union>c \<in> set (pp_seq p). S c)"
proof -
  have "walk_pipeline (map_pipeline g p) = fold g (pp_seq p)"
    by (rule ext) (simp add: walk_pipeline_def fold_map comp_def)
  then show ?thesis using gathers_fold [of "pp_seq p" canon g S] assms by simp
qed

lemma gathers_and_or:
  assumes "\<And>c. c \<in> set_and_or_list a \<Longrightarrow> gathers canon (g c) (S c)"
  shows "gathers canon (walk_and_or_list (map_and_or_list g a)) (\<Union>c \<in> set_and_or_list a. S c)"
proof -
  have "walk_and_or_list (map_and_or_list g a) =
      (\<lambda>out. fold (\<lambda>x. walk_pipeline (map_pipeline g (and_or_pipeline x))) (aol_additional a)
               (walk_pipeline (map_pipeline g (aol_first a)) out))"
    by (rule ext) (simp add: walk_and_or_list_def fold_map comp_def)
  moreover have "gathers canon \<dots> ((\<Union>c \<in> set (pp_seq (aol_first a)). S c) \<union>
      (\<Union>x \<in> set (aol_additional a). \<Union>c \<in> set (pp_seq (and_or_pipeline x)). S c))"
    using assms by (intro gathers_comp gathers_fold gathers_pipeline) (auto simp: layer_sets)
  ultimately show ?thesis by (simp add: layer_sets)
qed

lemma gathers_list:
  assumes "\<And>c. c \<in> set_compound_list l \<Longrightarrow> gathers canon (g c) (S c)"
  shows "gathers canon (walk_compound_list (map_compound_list g l)) (\<Union>c \<in> set_compound_list l. S c)"
proof -
  have "walk_compound_list (map_compound_list g l) = fold (\<lambda>i. walk_and_or_list (map_and_or_list g (li_list i))) (cl_items l)"
    by (rule ext) (simp add: walk_compound_list_def fold_map comp_def)
  moreover have "gathers canon \<dots> (\<Union>i \<in> set (cl_items l). \<Union>c \<in> set_and_or_list (li_list i). S c)"
    using assms by (intro gathers_fold gathers_and_or) (auto simp: set_compound_list_parts)
  ultimately show ?thesis by (simp add: set_compound_list_parts)
qed

lemma gathers_opt_list:
  assumes "\<And>c. c \<in> (\<Union>l \<in> set_option x. set_compound_list l) \<Longrightarrow> gathers canon (g c) (S c)"
  shows "gathers canon (opt_walk walk_compound_list (map_option (map_compound_list g) x))
           (\<Union>l \<in> set_option x. \<Union>c \<in> set_compound_list l. S c)"
  using assms gathers_list [of _ canon g S] by (cases x) (auto simp: gathers_def)

lemma gathers_case:
  assumes "\<And>d. d \<in> set2_case_item c \<Longrightarrow> gathers canon (g d) (S d)"
  shows "gathers canon (walk_case_item (map_case_item id g c)) (\<Union>d \<in> set2_case_item c. S d)"
proof (cases c)
  case (CaseItem ps body)
  have "walk_case_item (map_case_item id g c) = opt_walk walk_compound_list (map_option (map_compound_list g) body)"
    by (rule ext) (simp add: CaseItem)
  then show ?thesis using gathers_opt_list [of body canon g S] assms by (simp add: CaseItem)
qed

lemma gathers_else:
  assumes "\<And>d. d \<in> set_else_clause e \<Longrightarrow> gathers canon (g d) (S d)"
  shows "gathers canon (walk_else_clause (map_else_clause g e)) (\<Union>d \<in> set_else_clause e. S d)"
proof (cases e)
  case (ElseClause cond body)
  have "walk_else_clause (map_else_clause g e) =
      (\<lambda>out. walk_compound_list (map_compound_list g body)
               (opt_walk walk_compound_list (map_option (map_compound_list g) cond) out))"
    by (rule ext) (simp add: ElseClause)
  moreover have "gathers canon \<dots> ((\<Union>l \<in> set_option cond. \<Union>c \<in> set_compound_list l. S c) \<union> (\<Union>c \<in> set_compound_list body. S c))"
    using assms by (intro gathers_comp gathers_opt_list gathers_list) (auto simp: ElseClause)
  ultimately show ?thesis by (simp add: ElseClause)
qed

lemma gathers_compound:
  assumes "\<And>c. c \<in> set2_compound_command cc \<Longrightarrow> gathers canon (g c) (S c)"
  shows "gathers canon (walk_compound_command (map_compound_command id g cc)) (\<Union>c \<in> set2_compound_command cc. S c)"
proof (cases cc)
  case (CaseClause v cs)
  have "walk_compound_command (map_compound_command id g cc) = fold (\<lambda>c. walk_case_item (map_case_item id g c)) cs"
    by (rule ext) (simp add: CaseClause fold_map comp_def)
  moreover have "gathers canon \<dots> (\<Union>c \<in> set cs. \<Union>d \<in> set2_case_item c. S d)"
    using assms by (intro gathers_fold gathers_case) (auto simp: CaseClause)
  ultimately show ?thesis by (simp add: CaseClause)
next
  case (IfClause c t es)
  let ?w = "\<lambda>l. walk_compound_list (map_compound_list g l)"
  have "walk_compound_command (map_compound_command id g cc) =
      (\<lambda>out. opt_walk (fold (\<lambda>e. walk_else_clause (map_else_clause g e))) es (?w t (?w c out)))"
    by (rule ext) (simp add: IfClause fold_map comp_def split: option.split)
  moreover have "gathers canon \<dots> (((\<Union>d \<in> set_compound_list c. S d) \<union> (\<Union>d \<in> set_compound_list t. S d)) \<union>
      (\<Union>es \<in> set_option es. \<Union>e \<in> set es. \<Union>d \<in> set_else_clause e. S d))"
    using assms by (intro gathers_comp gathers_opt gathers_fold gathers_else gathers_list) (auto simp: IfClause)
  ultimately show ?thesis by (simp add: IfClause Un_assoc)
next
  case (WhileClause c b)
  have "gathers canon (\<lambda>out. walk_compound_list (map_compound_list g b) (walk_compound_list (map_compound_list g c) out))
      ((\<Union>d \<in> set_compound_list c. S d) \<union> (\<Union>d \<in> set_compound_list b. S d))"
    using assms by (intro gathers_comp gathers_list) (auto simp: WhileClause)
  then show ?thesis by (simp add: WhileClause gathers_def)
next
  case (UntilClause c b)
  have "gathers canon (\<lambda>out. walk_compound_list (map_compound_list g b) (walk_compound_list (map_compound_list g c) out))
      ((\<Union>d \<in> set_compound_list c. S d) \<union> (\<Union>d \<in> set_compound_list b. S d))"
    using assms by (intro gathers_comp gathers_list) (auto simp: UntilClause)
  then show ?thesis by (simp add: UntilClause gathers_def)
qed (use assms gathers_list [of _ canon g S] in \<open>auto simp: gathers_def\<close>)

lemma fold_collect:
  "fold collect_prefix_or_suffix_item items (argv, redirs) =
     (argv @ List.map_filter (\<lambda>i. case i of IWord w \<Rightarrow> Some (w_value w) | _ \<Rightarrow> None) items,
      redirs @ concat (map collect_redirect (List.map_filter (\<lambda>i. case i of IIoRedirect r \<Rightarrow> Some r | _ \<Rightarrow> None) items)))"
proof (induction items arbitrary: argv redirs)
  case (Cons i items)
  then show ?case by (cases i) (simp_all add: map_filter_simps)
qed (simp add: map_filter_simps)

lemma resolve_simple_command_eq:
  "resolve_simple_command c =
     \<lparr>rn_program = (case sc_word_or_name c of None \<Rightarrow> [] | Some w \<Rightarrow> w_value w),
      rn_argv = List.map_filter (\<lambda>i. case i of IWord w \<Rightarrow> Some (w_value w) | _ \<Rightarrow> None) (sc_items c),
      rn_redirections = concat (map collect_redirect (own_redirects (Simple c)))\<rparr>"
  by (simp add: resolve_simple_command_def sc_items_def fold_collect Let_def)

lemma command_tasks_nested:
  assumes "inner_command c = Some cc"
  shows "command_tasks canon c = (\<Union>d \<in> set2_compound_command cc. command_tasks canon d) \<union> redirect_tasks canon c"
proof -
  have "part_of d c \<longleftrightarrow> d = c \<or> (\<exists>e \<in> set2_compound_command cc. part_of d e)" for d
    using assms by (subst part_of.simps) auto
  moreover have "Simple s \<noteq> c" for s using assms by auto
  ultimately show ?thesis by (auto simp: command_tasks_def)
qed

lemma gathers_redirects:
  "gathers canon (opt_walk attach_command_level_redirects rl)
     (\<Union>r \<in> set (opt_concat id rl). redirection_task canon ` set (collect_redirect r))"
  using gathers_attach [of canon] by (cases rl) (auto simp: gathers_def)

lemma gathers_nested:
  assumes "\<And>d. d \<in> set2_compound_command cc \<Longrightarrow> gathers canon (walk_command d) (command_tasks canon d)"
    and "inner_command c = Some cc" "own_redirects c = opt_concat id rl"
  shows "gathers canon
           (\<lambda>out. opt_walk attach_command_level_redirects rl (walk_compound_command (map_compound_command id walk_command cc) out))
           (command_tasks canon c)"
  unfolding command_tasks_nested [OF assms(2)] redirect_tasks_def assms(3)
  by (intro gathers_comp gathers_compound gathers_redirects assms(1))

lemma gathers_command: "gathers canon (walk_command c) (command_tasks canon c)"
proof (induction c)
  case (Simple s)
  have "command_tasks canon (Simple s) = set (node_tasks canon [resolve_simple_command s])"
    by (auto simp: command_tasks_def redirect_tasks_def node_tasks_def resolve_simple_command_eq)
  then show ?case by (auto simp: gathers_def)
next
  case (Compound cc rl)
  then show ?case unfolding walk_command.simps by (rule gathers_nested) simp_all
next
  case (FunctionDef f cc rl)
  then show ?case unfolding walk_command.simps by (rule gathers_nested) simp_all
next
  case (ExtendedTest e rl)
  have "command_tasks canon (ExtendedTest e rl) = redirect_tasks canon (ExtendedTest e rl)"
    by (auto simp: command_tasks_def)
  then show ?case using gathers_redirects [of canon rl] by (simp add: redirect_tasks_def gathers_def)
qed

lemma walk_program_gathers:
  assumes "l \<in> set (complete_commands p)" "c \<in> set_compound_list l"
  shows "command_tasks canon c \<subseteq> set (node_tasks canon (walk_program p []))"
proof -
  have "gathers canon (walk_program p) (\<Union>l \<in> set (complete_commands p). \<Union>c \<in> set_compound_list l. command_tasks canon c)"
    unfolding walk_program_def [abs_def] by (intro gathers_fold gathers_list gathers_command)
  then show ?thesis using assms unfolding gathers_def by blast
qed

subsection \<open>The decision over the tasks\<close>

fun judge_all :: "('t \<Rightarrow> decision) \<Rightarrow> 't list \<Rightarrow> decision option \<Rightarrow> decision + decision option" where
  "judge_all judge [] worst = Inr worst"
| "judge_all judge (t # ts) worst =
     (if dc_outcome (judge t) = Deny then Inl (the (combine worst (judge t)))
      else judge_all judge ts (combine worst (judge t)))"

lemma judge_all_append:
  "judge_all judge (xs @ ys) worst =
     (case judge_all judge xs worst of Inl d \<Rightarrow> Inl d | Inr w \<Rightarrow> judge_all judge ys w)"
  by (induction xs arbitrary: worst) auto

lemma decide_redirections_judge:
  "decide_redirections judge canon rs worst = judge_all judge (map (redirection_task canon) rs) worst"
  by (induction rs arbitrary: worst) (simp_all add: redirection_task_def Let_def)

lemma decide_nodes_judge: "decide_nodes judge canon nodes worst = judge_all judge (node_tasks canon nodes) worst"
  by (induction nodes arbitrary: worst)
     (auto simp: node_tasks_def node_task_def decide_redirections_judge judge_all_append Let_def split: sum.splits)

text \<open>The reference: the worst outcome of the list, and \<open>Deny\<close> where there is nothing to judge.\<close>

definition worst_outcome :: "outcome list \<Rightarrow> outcome" where
  "worst_outcome os =
     (if os = [] \<or> Deny \<in> set os then Deny else if Ask \<in> set os then Ask else Allow)"

definition final_decision :: "decision + decision option \<Rightarrow> decision" where
  "final_decision r =
     (case r of Inl d \<Rightarrow> d | Inr (Some d) \<Rightarrow> d | Inr None \<Rightarrow> \<lparr>dc_outcome = Deny, dc_rule = None\<rparr>)"

lemma combine_outcome:
  "dc_outcome (the (combine (Some w) d)) = worst_outcome [dc_outcome w, dc_outcome d] \<and> combine (Some w) d \<noteq> None"
  by (cases "dc_outcome w"; cases "dc_outcome d") (simp_all add: combine_def worst_outcome_def)

lemma judge_all_outcome:
  assumes "dc_outcome w \<noteq> Deny"
  shows "dc_outcome (final_decision (judge_all judge ts (Some w))) = worst_outcome (dc_outcome w # map (dc_outcome \<circ> judge) ts)"
  using assms
proof (induction ts arbitrary: w)
  case (Cons t ts)
  obtain v where v: "combine (Some w) (judge t) = Some v" using combine_outcome [of w "judge t"] by blast
  with combine_outcome [of w "judge t"] have "dc_outcome v = worst_outcome [dc_outcome w, dc_outcome (judge t)]" by simp
  with Cons v show ?case by (auto simp: worst_outcome_def final_decision_def split: if_splits)
next
  case Nil
  then show ?case by (cases "dc_outcome w") (simp_all add: worst_outcome_def final_decision_def)
qed

lemma judge_all_worst:
  "dc_outcome (final_decision (judge_all judge ts None)) = worst_outcome (map (dc_outcome \<circ> judge) ts)"
  by (cases ts) (auto simp: combine_def judge_all_outcome, simp_all add: final_decision_def worst_outcome_def)

text \<open>The outcome of \<^verbatim>\<open>decide_pipeline\<close> is the worst of all its judgements.\<close>

lemma decide_pipeline_outcome:
  "dc_outcome (decide_pipeline host glob canon pe ctx on cmd t) =
     worst_outcome (map (\<lambda>p. dc_outcome (decide_sealed glob pe p ctx t))
       (node_tasks canon (resolve_nodes host on (psa_program_ast cmd))))"
  using judge_all_worst [of "\<lambda>p. decide_sealed glob pe p ctx t"]
  by (simp add: decide_pipeline_def Let_def decide_nodes_judge comp_def final_decision_def)

subsection \<open>Classification\<close>

lemma with_parse_stack_on [simp]: "with_parse_stack host True f = Ok f"
  by (simp add: with_parse_stack_def)

lemma check_input_guard_Ok:
  "check_input_guard raw = Ok u \<longleftrightarrow> length raw \<le> MAX_INPUT_BYTES \<and> structural_budget raw \<le> MAX_STRUCTURAL_BUDGET"
  by (auto simp: check_input_guard_def)

lemma classify_shell_Program:
  "classify_shell host glob on raw env = ScProgram cmd \<longleftrightarrow>
     (on \<or> sh_spawns host) \<and> length raw \<le> MAX_INPUT_BYTES \<and> structural_budget raw \<le> MAX_STRUCTURAL_BUDGET \<and>
     (\<exists>p. sh_parse_program host raw = Some p \<and> transparent_program host glob p \<and>
          cmd = \<lparr>psa_program_ast = map_program (expand_word host glob env) p, psa_raw = raw\<rparr>)"
proof (cases "check_input_guard raw")
  case (Inr u)
  then have ok: "length raw \<le> MAX_INPUT_BYTES" "structural_budget raw \<le> MAX_STRUCTURAL_BUDGET"
    by (simp_all add: check_input_guard_Ok)
  show ?thesis
    unfolding classify_shell_def Inr classify_shell_inner_def parse_command_def input_guard_def
      parse_command_inner_def find_opaque_nodes_def resolve_variable_expansions_def with_parse_stack_on
    by (cases "sh_parse_program host raw")
       (auto simp: ok find_opaque_program_Nil expand_program_map with_parse_stack_def)
qed (auto simp: classify_shell_def check_input_guard_def split: if_splits)

lemma inner_command_map: "inner_command (map_command f c) = map_option (map_compound_command f (map_command f)) (inner_command c)"
  by (cases c) simp_all

lemma part_of_map: "part_of d c \<Longrightarrow> part_of (map_command f d) (map_command f c)"
proof (induction rule: part_of.induct)
  case (nested c cc e d)
  show ?case
    by (rule part_of.nested [of _ "map_compound_command f (map_command f) cc" "map_command f e"])
       (simp_all add: inner_command_map compound_command.set_map nested)
qed (rule part_of.itself)

lemma own_redirects_map: "own_redirects (map_command f c) = map (map_io_redirect f) (own_redirects c)"
proof (cases c)
  case (Simple sc)
  have items: "sc_items (map_simple_command f sc) = map (map_command_item f) (sc_items sc)"
    by (cases sc) (simp add: sc_items_def split: option.splits)
  have "List.map_filter (\<lambda>i. case i of IIoRedirect r \<Rightarrow> Some r | _ \<Rightarrow> None) (map (map_command_item f) is) =
      map (map_io_redirect f) (List.map_filter (\<lambda>i. case i of IIoRedirect r \<Rightarrow> Some r | _ \<Rightarrow> None) is)" for "is"
    by (induction "is") (auto simp: map_filter_simps split: command_item.splits option.splits)
  then show ?thesis by (simp add: Simple items)
qed (simp_all split: option.split)

lemma program_commands_gathered:
  assumes "d \<in> program_commands p"
  shows "Simple s = d \<Longrightarrow> node_task (resolve_simple_command s) \<in> set (node_tasks canon (walk_program p []))"
    and "redirect_tasks canon d \<subseteq> set (node_tasks canon (walk_program p []))"
proof -
  obtain l c where c: "l \<in> set (complete_commands p)" "c \<in> set_compound_list l" "part_of d c"
    using assms by (auto simp: program_commands_def)
  from walk_program_gathers [OF c(1,2), of canon] c(3)
  show "Simple s = d \<Longrightarrow> node_task (resolve_simple_command s) \<in> set (node_tasks canon (walk_program p []))"
    "redirect_tasks canon d \<subseteq> set (node_tasks canon (walk_program p []))"
    by (auto simp: command_tasks_def)
qed

lemma program_commands_map: "d \<in> program_commands p \<Longrightarrow> map_command f d \<in> program_commands (map_program f p)"
proof (cases p)
  case (Program ls)
  assume "d \<in> program_commands p"
  then obtain l c where "l \<in> set ls" "c \<in> set_compound_list l" "part_of d c"
    by (auto simp: program_commands_def Program)
  then have "map_compound_list (map_command f) l \<in> set (complete_commands (map_program f p))"
    "map_command f c \<in> set_compound_list (map_compound_list (map_command f) l)"
    "part_of (map_command f d) (map_command f c)"
    by (simp_all add: Program compound_list.set_map part_of_map)
  then show ?thesis unfolding program_commands_def by blast
qed

lemma decide_shell_Program:
  assumes "dc_outcome (decide_shell_command host glob canon pe ctx on raw env t) \<noteq> Deny"
  obtains cmd where "classify_shell host glob on raw env = ScProgram cmd"
    "decide_shell_command host glob canon pe ctx on raw env t = decide_pipeline host glob canon pe ctx on cmd t"
  using assms by (auto simp: decide_shell_command_def split: shell_classification.splits)

lemma worst_outcome_not_Deny: "worst_outcome os \<noteq> Deny \<Longrightarrow> x \<in> set os \<Longrightarrow> x \<noteq> Deny"
  by (auto simp: worst_outcome_def split: if_splits)

lemma worst_outcome_Allow: "worst_outcome os = Allow \<Longrightarrow> x \<in> set os \<Longrightarrow> x = Allow"
  by (cases x) (auto simp: worst_outcome_def split: if_splits)

subsection \<open>The second walker sees the same words\<close>

lemma opaque_piece_matches: "piece_matches (piece_is_opaque glob) p \<longleftrightarrow> piece_is_opaque glob p"
proof (induction p)
  case (PDoubleQuotedSequence inner)
  then show ?case by (subst piece_matches.simps) (fastforce simp: list_ex_iff)
next
  case (PGettextDoubleQuotedSequence inner)
  then show ?case by (subst piece_matches.simps) (fastforce simp: list_ex_iff)
qed (simp_all add: piece_matches.simps)

lemma opaque_word_matches: "word_matches host (piece_is_opaque glob) w \<longleftrightarrow> \<not> transparent_word host glob w"
  by (auto simp: word_matches_def transparent_word_def opaque_piece_matches list_ex_iff split: sum.splits)

lemma redirect_matches_words: "io_redirect_matches host P r \<longleftrightarrow> (\<exists>w \<in> set_io_redirect r. word_matches host P w)"
  by (induction host P r rule: io_redirect_matches.induct) auto

lemma redirect_list_matches_words:
  "redirect_list_matches host P rl \<longleftrightarrow> (\<exists>rs \<in> set_option rl. \<exists>r \<in> set rs. \<exists>w \<in> set_io_redirect r. word_matches host P w)"
  by (cases rl) (auto simp: redirect_list_matches_def list_ex_iff redirect_matches_words)

lemma item_matches_words: "prefix_or_suffix_item_matches host P i \<longleftrightarrow> (\<exists>w \<in> set_command_item i. word_matches host P w)"
  by (cases i) (simp_all add: redirect_matches_words)

lemma test_matches_words: "extended_test_expr_matches host P e \<longleftrightarrow> (\<exists>w \<in> set_extended_test_expr e. word_matches host P w)"
  by (induction e) auto

lemma any_word_list: "any_word_piece_in_compound_list (map_compound_list g l) \<longleftrightarrow> (\<exists>c \<in> set_compound_list l. g c)"
  by (fastforce simp: any_word_piece_in_compound_list_def any_word_piece_in_and_or_list_def
      any_word_piece_in_pipeline_def list_ex_iff layer_sets)

lemma any_word_case:
  "any_word_piece_in_case_item host P (map_case_item id g c) \<longleftrightarrow>
     (\<exists>w \<in> set1_case_item c. word_matches host P w) \<or> (\<exists>d \<in> set2_case_item c. g d)"
  by (cases c) (auto simp: any_word_list list_ex_iff split: option.splits)

lemma any_word_else: "any_word_piece_in_else_clause (map_else_clause g e) \<longleftrightarrow> (\<exists>d \<in> set_else_clause e. g d)"
  by (cases e) (auto simp: any_word_list split: option.splits)

lemma any_word_compound:
  "any_word_piece_in_compound_command host P (map_compound_command id g cc) \<longleftrightarrow>
     (\<exists>w \<in> set1_compound_command cc. word_matches host P w) \<or> (\<exists>c \<in> set2_compound_command cc. g c)"
  by (cases cc) (auto simp: any_word_list any_word_case any_word_else list_ex_iff comp_def split: option.splits)

lemma any_word_command: "any_word_piece_in_command host P c \<longleftrightarrow> (\<exists>w \<in> set_command c. word_matches host P w)"
proof (induction c)
  case (Simple s)
  then show ?case
    by (cases s) (auto simp: item_matches_words list_ex_iff split: option.splits)
next
  case (Compound cc rl)
  then show ?case
    unfolding any_word_piece_in_command.simps any_word_compound redirect_list_matches_words by auto
next
  case (FunctionDef f cc rl)
  then show ?case
    unfolding any_word_piece_in_command.simps any_word_compound redirect_list_matches_words by auto
next
  case (ExtendedTest e rl)
  then show ?case
    unfolding any_word_piece_in_command.simps test_matches_words redirect_list_matches_words by auto
qed

lemma unresolved_substitution_words:
  "contains_unresolved_command_substitution host glob on a \<longleftrightarrow>
     \<not> (on \<or> sh_spawns host) \<or> (\<exists>w \<in> set_program (psa_program_ast a). \<not> transparent_word host glob w)"
  by (auto simp: contains_unresolved_command_substitution_def with_parse_stack_def any_word_piece_def list_ex_iff
      any_word_list any_word_command opaque_word_matches set_program_parts)

subsection \<open>Words in step\<close>

text \<open>Every piece but arithmetic, gettext strings and the unlisted ones, also inside double quotes.\<close>

fun quotable_piece :: "word_piece \<Rightarrow> bool" where
  "quotable_piece (PSingleQuotedText _) = False"
| "quotable_piece (PAnsiCQuotedText _) = False"
| "quotable_piece (PDoubleQuotedSequence _) = False"
| "quotable_piece (PGettextDoubleQuotedSequence _) = False"
| "quotable_piece (PArithmeticExpression _) = False"
| "quotable_piece PUnlisted = False"
| "quotable_piece _ = True"

fun ordinary_piece :: "word_piece \<Rightarrow> bool" where
  "ordinary_piece (PGettextDoubleQuotedSequence _) = False"
| "ordinary_piece (PArithmeticExpression _) = False"
| "ordinary_piece PUnlisted = False"
| "ordinary_piece (PDoubleQuotedSequence inner) = list_all (\<lambda>(p, _). quotable_piece p) inner"
| "ordinary_piece _ = True"

lemma quoted_in_step: "quotable_piece p \<Longrightarrow> is_quoted_expandable glob p \<longleftrightarrow> \<not> piece_is_opaque glob p"
  by (cases p) (simp_all add: is_quoted_expandable_def parameter_expr_is_opaque_def)

lemma piece_in_step: "ordinary_piece p \<Longrightarrow> is_expandable_piece glob p \<longleftrightarrow> \<not> piece_is_opaque glob p"
  by (cases p) (fastforce simp: is_expandable_piece_def parameter_expr_is_opaque_def list_all_iff list_ex_iff quoted_in_step)+

text \<open>Among the boundaries, the first match from either end is the least or the greatest one.\<close>

lemma find_sorted:
  assumes "sorted xs" "List.find P xs = Some b"
  shows "\<forall>b' \<in> set xs. P b' \<longrightarrow> b \<le> b'"
  using assms by (induction xs) (auto split: if_splits dest: find_Some_mem)

lemma find_sorted_rev:
  assumes "sorted xs" "List.find P (rev xs) = Some b"
  shows "\<forall>b' \<in> set xs. P b' \<longrightarrow> b' \<le> b"
  using assms
proof (induction xs rule: rev_induct)
  case (snoc x xs)
  then show ?case by (auto simp: sorted_append split: if_splits dest: find_Some_mem)
qed simp

lemma sorted_boundaries: "sorted (char_boundaries v)"
  by (auto simp: char_boundaries_def sorted_append sorted_wrt_filter less_imp_le)

lemma find_boundary:
  assumes "\<exists>b \<in> set (char_boundaries v). P b"
  obtains b where "List.find P (if least then char_boundaries v else rev (char_boundaries v)) = Some b"
    "b \<in> set (char_boundaries v)" "P b"
    "\<forall>b' \<in> set (char_boundaries v). P b' \<longrightarrow> (if least then b \<le> b' else b' \<le> b)"
proof -
  obtain b where b: "List.find P (if least then char_boundaries v else rev (char_boundaries v)) = Some b"
    using assms by (fastforce simp: find_None_iff split: if_splits)
  then have "b \<in> set (char_boundaries v) \<and> P b" by (auto dest!: find_Some_mem split: if_splits)
  with b show thesis
    using find_sorted [OF sorted_boundaries, of P v b] find_sorted_rev [OF sorted_boundaries, of P v b]
    by (intro that [of b]) (auto split: if_splits)
qed

subsection \<open>One simple command\<close>

lemma find_map_map: "find_map f (map g xs) = find_map (\<lambda>x. f (g x)) xs"
  by (induction xs) (auto split: option.splits)

lemma is_simple_map [simp]: "is_simple (map_command f c) = is_simple c"
  by (cases c) (simp_all add: is_simple_def)

lemma pipeline_map_flags [simp]: "pp_timed (map_pipeline f p) = pp_timed p" "pp_bang (map_pipeline f p) = pp_bang p"
  by (cases p, simp)+

lemma and_or_unsupported_map [simp]:
  "and_or_unsupported_shell_syntax (map_and_or_list (map_command f) a) = and_or_unsupported_shell_syntax a"
  by (simp add: and_or_unsupported_shell_syntax_def pipeline_unsupported_shell_syntax_def list_ex_iff)

lemma unsupported_syntax_map: "unsupported_syntax (map_program f p) = unsupported_syntax p"
  by (cases p) (simp add: unsupported_syntax_def find_map_map cong: if_cong)

lemma supported_shape:
  assumes "unsupported_syntax p = None"
  obtains seq loc sep where
    "p = Program [CompoundList [ListItem (AndOrList (Pipeline False False seq) [] loc) sep]]"
    "seq = [] \<or> (\<exists>c. seq = [Simple c])"
proof -
  obtain cc where cc: "complete_commands p = [cc]" "length (cl_items cc) = 1"
      "find_map (\<lambda>item. and_or_unsupported_shell_syntax (li_list item)) (cl_items cc) = None"
    using assms by (auto simp: unsupported_syntax_def length_Suc_conv split: if_splits option.splits)
  then obtain item where item: "cl_items cc = [item]" "and_or_unsupported_shell_syntax (li_list item) = None"
    by (auto simp: length_Suc_conv split: option.splits)
  then have aol: "aol_additional (li_list item) = []"
    and pl: "pipeline_unsupported_shell_syntax (aol_first (li_list item)) = None"
    by (auto simp: and_or_unsupported_shell_syntax_def split: if_splits)
  have "pp_seq (aol_first (li_list item)) = [] \<or> (\<exists>c. pp_seq (aol_first (li_list item)) = [Simple c])"
    using pl by (cases "pp_seq (aol_first (li_list item))")
      (auto simp: pipeline_unsupported_shell_syntax_def is_simple_def split: if_splits command.splits)
  moreover have "p = Program [CompoundList [ListItem (AndOrList (Pipeline False False (pp_seq (aol_first (li_list item)))) []
      (aol_location (li_list item))) (li_separator item)]]"
    using cc(1) item(1) aol pl
    by (intro program.expand compound_list.expand compound_list_item.expand and_or_list.expand pipeline.expand)
       (auto simp: pipeline_unsupported_shell_syntax_def program.expand compound_list.expand compound_list_item.expand
          and_or_list.expand pipeline.expand split: if_splits)
  ultimately show thesis using that by blast
qed

subsection \<open>The guarantees\<close>



lemma shape_nodes:
  "walk_program (Program [CompoundList [ListItem (AndOrList (Pipeline tm bang seq) [] loc) sep]]) [] = fold walk_command seq []"
  by (simp add: walk_program_def walk_compound_list_def walk_and_or_list_def walk_pipeline_def fold_map comp_def)

lemma dispatch_not_refused:
  assumes no: "\<And>category message.
      dispatch_shell_command host glob canon pe ctx t refuse run input s \<noteq> map_prod Err id (refuse category message s)"
  obtains cmd cwd parsed where
    "json_str_field input ''command'' = Some cmd" "json_str_field input ''cwd'' = Some cwd"
    "classify_shell host glob False cmd Map.empty = ScProgram parsed" "unsupported_syntax (psa_program_ast parsed) = None"
    "dc_outcome (decide_shell_command host glob canon pe ctx False cmd Map.empty t) \<noteq> Deny"
    "resolve_nodes host False (psa_program_ast parsed) \<noteq> []"
    "\<not> list_ex (\<lambda>n. rn_redirections n \<noteq> []) (resolve_nodes host False (psa_program_ast parsed))"
    "dispatch_shell_command host glob canon pe ctx t refuse run input s =
       dispatch_nodes run cwd (resolve_nodes host False (psa_program_ast parsed)) [] s"
proof -
  note [simp] = dispatch_shell_command_def Let_def
  obtain cmd where [simp]: "json_str_field input ''command'' = Some cmd"
    using no by (cases "json_str_field input ''command''") auto
  obtain cwd where [simp]: "json_str_field input ''cwd'' = Some cwd"
    using no by (cases "json_str_field input ''cwd''") auto
  obtain parsed where [simp]: "classify_shell host glob False cmd Map.empty = ScProgram parsed"
    using no by (cases "classify_shell host glob False cmd Map.empty") auto
  have [simp]: "\<not> contains_unresolved_glob cmd" using no by (cases "contains_unresolved_glob cmd") auto
  have [simp]: "unsupported_syntax (psa_program_ast parsed) = None"
    using no by (cases "unsupported_syntax (psa_program_ast parsed)") auto
  have d [simp]: "dc_outcome (decide_shell_command host glob canon pe ctx False cmd Map.empty t) \<noteq> Deny"
    using no by (cases "dc_outcome (decide_shell_command host glob canon pe ctx False cmd Map.empty t) = Deny") auto
  have n [simp]: "resolve_nodes host False (psa_program_ast parsed) \<noteq> []"
    using no by (cases "resolve_nodes host False (psa_program_ast parsed) = []") auto
  have r: "\<not> list_ex (\<lambda>n. rn_redirections n \<noteq> []) (resolve_nodes host False (psa_program_ast parsed))"
    using no by (cases "list_ex (\<lambda>n. rn_redirections n \<noteq> []) (resolve_nodes host False (psa_program_ast parsed))") auto
  show thesis by (rule that [of cmd cwd parsed]) (simp_all add: r d n)
qed


text \<open>
  Opacity and expansion are in step.  For a word made of text, quoted text, escapes, substitutions
  and parameter expansions, also inside double quotes, the word is transparent if and only if every piece has a
  resolution, and then the word's new value is the concatenation of the pieces' values: no accepted
  parameter expansion reaches an argument vector unexpanded.
\<close>

theorem transparent_words_are_resolved:
  assumes "parse_word_pieces host (w_value w) = Ok pieces" "list_all (\<lambda>(p, _). ordinary_piece p) pieces"
  shows "(transparent_word host glob w \<longleftrightarrow> list_all (\<lambda>(p, _). is_expandable_piece glob p) pieces) \<and>
         (transparent_word host glob w \<longrightarrow>
            w_value (expand_word host glob env w) = concat (map (\<lambda>(p, _). expand_piece glob env p) pieces))"
proof -
  have "transparent_word host glob w \<longleftrightarrow> list_all (\<lambda>(p, _). is_expandable_piece glob p) pieces"
    using assms piece_in_step [of _ glob] by (fastforce simp: transparent_word_def list_all_iff)
  then show ?thesis using assms(1) by (simp add: expand_word_def)
qed

text \<open>
  Prefix and suffix removal.  On a value of at most 256 bytes and a pattern that compiles, if some
  character boundary splits off a matching prefix, the result is what follows the shortest such
  prefix (\<open>#\<close>) or the longest (\<open>##\<close>), and likewise for suffixes; if none does, the value stays.
\<close>

lemma prefix_removal_exact:
  assumes "length v \<le> MAX_GLOB_STRIP_INPUT_BYTES" "glob pat = Some m"
  shows "if \<exists>b \<in> set (char_boundaries v). m (take b v)
         then \<exists>b \<in> set (char_boundaries v). m (take b v) \<and> strip_prefix_pattern glob v pat smallest = drop b v \<and>
                (\<forall>b' \<in> set (char_boundaries v). m (take b' v) \<longrightarrow> (if smallest then b \<le> b' else b' \<le> b))
         else strip_prefix_pattern glob v pat smallest = v"
proof (cases "\<exists>b \<in> set (char_boundaries v). m (take b v)")
  case True
  show ?thesis
    by (rule find_boundary [OF True, where least = smallest])
       (use assms True in \<open>auto simp: strip_prefix_pattern_def compile_glob_def Let_def\<close>)
next
  case False
  then have "List.find (\<lambda>b. m (take b v)) (if smallest then char_boundaries v else rev (char_boundaries v)) = None"
    by (auto simp: find_None_iff)
  with False assms show ?thesis by (simp add: strip_prefix_pattern_def compile_glob_def Let_def)
qed

lemma suffix_removal_exact:
  assumes "length v \<le> MAX_GLOB_STRIP_INPUT_BYTES" "glob pat = Some m"
  shows "if \<exists>b \<in> set (char_boundaries v). m (drop b v)
         then \<exists>b \<in> set (char_boundaries v). m (drop b v) \<and> strip_suffix_pattern glob v pat smallest = take b v \<and>
                (\<forall>b' \<in> set (char_boundaries v). m (drop b' v) \<longrightarrow> (if smallest then b' \<le> b else b \<le> b'))
         else strip_suffix_pattern glob v pat smallest = v"
proof (cases "\<exists>b \<in> set (char_boundaries v). m (drop b v)")
  case True
  show ?thesis
    by (rule find_boundary [OF True, where least = "\<not> smallest"])
       (use assms True in \<open>auto simp: strip_suffix_pattern_def compile_glob_def Let_def split: if_splits\<close>)
next
  case False
  then have "List.find (\<lambda>b. m (drop b v)) (if smallest then rev (char_boundaries v) else char_boundaries v) = None"
    by (auto simp: find_None_iff)
  with False assms show ?thesis by (simp add: strip_suffix_pattern_def compile_glob_def Let_def)
qed

subsection \<open>A concrete string\<close>

definition plain_word :: "string \<Rightarrow> ast_word" where
  "plain_word v = \<lparr>w_value = v, w_loc = None\<rparr>"

text \<open>\<^verbatim>\<open>{ ls -l; } > out\<close>, as the parser has it, and a word parser for words without any expansion.\<close>

definition sample_shell :: string where
  "sample_shell = ''{ ls -l; } > out''"

definition sample_list :: "'c \<Rightarrow> 'c compound_list" where
  "sample_list c = CompoundList [ListItem (AndOrList (Pipeline False False [c]) [] None) SepSequence]"

definition sample_ls :: "ast_word command" where
  "sample_ls = Simple (SimpleCommand None (Some (plain_word ''ls'')) (Some [IWord (plain_word ''-l'')]))"

definition sample_ast :: ast where
  "sample_ast =
     Program [sample_list (Compound (BraceGroup (sample_list sample_ls))
                             (Some [RFile None RkWrite (Filename (plain_word ''out''))]))]"

definition sample_host :: shell_host where
  "sample_host =
     \<lparr>sh_spawns = True, sh_parse_program = (\<lambda>s. if s = sample_shell then Some sample_ast else None),
      sh_parse_word = (\<lambda>s. Some [(PText s, (0, length s))])\<rparr>"

definition sample_shell_engine :: policy_engine where
  "sample_shell_engine =
     from_rules None
       [\<lparr>cr_scope = Project, cr_outcome = Allow, cr_predicate = PShell ''ls'' (ArgvPrefix []) False,
         cr_file_order = 0, cr_id = ''ls''\<rparr>,
        \<lparr>cr_scope = Project, cr_outcome = Allow, cr_predicate = PFsPrefix FsWrite ''/w'',
         cr_file_order = 1, cr_id = ''w''\<rparr>]"

definition sample_canon :: canonicalizer where
  "sample_canon p = Ok (''/w/'' @ p)"

lemma sample_allowed:
  "dc_outcome (decide_shell_command sample_host (\<lambda>_. None) sample_canon sample_shell_engine (default_context None) False
     sample_shell Map.empty TaintTrusted) = Allow"
  by code_simp


theorem transparent_words_are_resolved_witness:
  "transparent_word sample_host (\<lambda>_. None) (plain_word ''ls'') \<and>
   w_value (expand_word sample_host (\<lambda>_. None) Map.empty (plain_word ''ls'')) = ''ls''"
proof -
  have "parse_word_pieces sample_host (w_value (plain_word ''ls'')) = Ok [(PText ''ls'', (0, 2))]"
    by code_simp
  from transparent_words_are_resolved [OF this, where glob = "\<lambda>_. None" and env = Map.empty] show ?thesis
    by (simp add: is_expandable_piece_def)
qed

subsection \<open>Where the code and its comments part\<close>

text \<open>
  \<^verbatim>\<open>contains_unresolved_glob\<close> leaves \<^verbatim>\<open>at_word_start\<close> set across a quoted part, so a \<open>#\<close> right behind it
  passes for a comment and the glob after it is not seen: \<^verbatim>\<open>echo 'x'#*\<close>.
\<close>

lemma glob_behind_quote_is_missed:
  "\<not> contains_unresolved_glob (''echo '' @ [CHR 0x27, CHR ''x'', CHR 0x27] @ ''#*'') \<and>
   contains_unresolved_glob ''echo x#*''"
  by code_simp

text \<open>
  A word with an arithmetic expansion is transparent and is left as it is, a parameter expansion in it
  included: \<^verbatim>\<open>$X$((1))\<close> reaches the argument vector verbatim.
\<close>

lemma arithmetic_word_stays_raw:
  assumes "w_value w = ''$X$((1))''"
    and "sh_parse_word host (w_value w) =
           Some [(PParameterExpansion (EParameter (Named ''X'') False), (0, 2)), (PArithmeticExpression ''1'', (2, 8))]"
  shows "transparent_word host glob w \<and> expand_word host glob env w = w"
proof -
  have "check_input_guard ''$X$((1))'' = Ok ()" by code_simp
  moreover have "\<not> raw_string_has_command_substitution ''1''" by code_simp
  ultimately show ?thesis
    using assms by (simp add: transparent_word_def expand_word_def parse_word_pieces_def input_guard_def
        parameter_expr_is_opaque_def is_plain_named_def is_expandable_piece_def ok_or_def)
qed

text \<open>
  The check for \<^verbatim>\<open>eval\<close> and \<^verbatim>\<open>source\<close> reads the word before expansion: the quoted word \<^verbatim>\<open>'eval'\<close> is
  transparent and expands to the program \<^verbatim>\<open>eval\<close>.
\<close>

lemma quoted_eval_is_transparent:
  assumes "w_value w = [CHR 0x27] @ ''eval'' @ [CHR 0x27]"
    and "sh_parse_word host (w_value w) = Some [(PSingleQuotedText ''eval'', (0, 6))]"
  shows "find_opaque_in_word host glob w @ check_eval_or_source w = [] \<and> w_value (expand_word host glob env w) = ''eval''"
proof -
  have "check_input_guard ([CHR 0x27] @ ''eval'' @ [CHR 0x27]) = Ok ()" by code_simp
  then show ?thesis
    using assms by (simp add: find_opaque_in_word_def check_eval_or_source_def expand_word_def parse_word_pieces_def
        input_guard_def is_expandable_piece_def ok_or_def)
qed

end
