(* ===== verification/Sched_Admission.thy ===== *)
theory Sched_Admission
  imports Core_Task
begin

text \<open>
  \<^verbatim>\<open>roundhouse-sched/src/trigger.rs\<close> and \<^verbatim>\<open>admission.rs\<close>, and the daemon's in-memory run registry
  (\<^verbatim>\<open>roundhouse-daemon/src/scheduler_driver.rs\<close>): triggers, bindings, the overlap policies, the
  admission decision, and the per-binding locks under which concurrent callers take it.

  The trait \<^verbatim>\<open>RunRegistry\<close> is a record of state-passing operations over a registry type \<open>'r\<close>;
  \<open>decide_admission\<close> runs against any such record.  The locale \<open>run_registry\<close> states the trait's
  documented contract and proves what admission guarantees from it; the daemon's registry is its
  interpretation.  Instants are integers (nanoseconds since the epoch), durations are natural
  numbers of nanoseconds, a time zone is its name.
\<close>

subsection \<open>Triggers and bindings\<close>

datatype catch_up = CatchUpLatest | CatchUpAll | CatchUpNone

datatype dst_gap = FireAtGapEnd | GapSkip

datatype dst_ambiguous = AmbFirst | AmbSecond | AmbBoth

record fs_event_mask =
  fm_create :: bool
  fm_modify :: bool
  fm_remove :: bool

record git_event_mask =
  gm_push :: bool
  gm_tag :: bool
  gm_branch_created :: bool

datatype webhook_auth = AuthNone | SharedSecret string

datatype outcome_filter = FilterAny | FilterOutcome string

datatype trigger_spec =
    TsManual
  | TsCron string string catch_up nat dst_gap dst_ambiguous
  | TsInterval nat bool "int option"
  | TsFs "string list" "string list" "string list" fs_event_mask nat bool
  | TsGit string git_event_mask "string list"
  | TsWebhook string webhook_auth "json option"
  | TsRunComplete binding_id outcome_filter
  | TsMessage address "string option"

definition MAX_OVERLAP_CONCURRENCY :: u32 where
  [rh_simps]: "MAX_OVERLAP_CONCURRENCY = 1000"

definition MAX_OVERLAP_QUEUE_DEPTH :: u32 where
  [rh_simps]: "MAX_OVERLAP_QUEUE_DEPTH = 1000"

datatype overlap_policy = OvSkip | OvQueue u32 | OvConcurrent u32 | OvCancelPrevious

text \<open>Deserialisation clamps the two configurable bounds.\<close>

fun overlap_policy_deserialize :: "overlap_policy \<Rightarrow> overlap_policy" where
  "overlap_policy_deserialize OvSkip = OvSkip"
| "overlap_policy_deserialize OvCancelPrevious = OvCancelPrevious"
| "overlap_policy_deserialize (OvQueue depth) = OvQueue (min depth MAX_OVERLAP_QUEUE_DEPTH)"
| "overlap_policy_deserialize (OvConcurrent m) = OvConcurrent (min m MAX_OVERLAP_CONCURRENCY)"

definition overlap_default_for :: "trigger_spec \<Rightarrow> overlap_policy" where
  "overlap_default_for spec =
     (case spec of
        TsCron _ _ _ _ _ _ \<Rightarrow> OvSkip
      | TsInterval _ _ _ \<Rightarrow> OvSkip
      | TsWebhook _ _ _ \<Rightarrow> OvQueue 8
      | TsMessage _ _ \<Rightarrow> OvQueue 8
      | TsFs _ _ _ _ _ _ \<Rightarrow> OvCancelPrevious
      | TsManual \<Rightarrow> OvSkip
      | TsGit _ _ _ \<Rightarrow> OvSkip
      | TsRunComplete _ _ \<Rightarrow> OvSkip)"

record binding =
  bd_id :: binding_id
  bd_job_id :: job_id
  bd_spec :: trigger_spec
  bd_overlap :: overlap_policy
  bd_last_fired_for :: "int option"
  bd_next_fire_at :: "int option"
  bd_enabled :: bool

definition binding_new :: "binding_id \<Rightarrow> job_id \<Rightarrow> trigger_spec \<Rightarrow> binding" where
  "binding_new fresh job spec =
     \<lparr>bd_id = fresh, bd_job_id = job, bd_spec = spec, bd_overlap = overlap_default_for spec,
      bd_last_fired_for = None, bd_next_fire_at = None, bd_enabled = True\<rparr>"

definition binding_new_cron :: "binding_id \<Rightarrow> job_id \<Rightarrow> string \<Rightarrow> string \<Rightarrow> binding" where
  "binding_new_cron fresh job expr tz =
     binding_new fresh job (TsCron expr tz CatchUpLatest 0 FireAtGapEnd AmbFirst)"

subsection \<open>The run registry\<close>

datatype registry_error = ReadFailed binding_id | CounterOutOfRange binding_id | Poisoned binding_id

datatype cancellation_outcome = Confirmed | Unconfirmed

datatype admission_decision =
    Admit
  | SkipDueToOverlap
  | QueueAt u32
  | CancelledPreviousAndAdmit
  | SkippedQueueFull u32
  | SkippedCancellationUnconfirmed

type_synonym ('r, 'a) reg_op = "'r \<Rightarrow> binding_id \<Rightarrow> ('a, registry_error) result \<times> 'r"

record 'r registry_ops =
  rr_active_run_count :: "('r, u32) reg_op"
  rr_queued_count :: "('r, u32) reg_op"
  rr_cancel_active :: "('r, cancellation_outcome) reg_op"
  rr_note_admitted :: "('r, unit) reg_op"
  rr_note_queued :: "('r, unit) reg_op"
  rr_note_finished :: "('r, unit) reg_op"
  rr_note_dequeued :: "('r, unit) reg_op"
  rr_note_promoted :: "('r, unit) reg_op"

text \<open>The two process-wide gates that thin out repeated log lines.\<close>

record drop_log_gate =
  dg_counts :: "binding_id \<rightharpoonup> u64"
  dg_has_any :: bool

definition gate_note :: "drop_log_gate \<Rightarrow> binding_id \<Rightarrow> u64 \<times> drop_log_gate" where
  "gate_note g b =
     (let n = lookup_or 0 (dg_counts g) b + 1
      in (n, g\<lparr>dg_counts := (dg_counts g)(b \<mapsto> n), dg_has_any := True\<rparr>))"

definition gate_reset :: "drop_log_gate \<Rightarrow> binding_id \<Rightarrow> drop_log_gate" where
  "gate_reset g b = (if \<not> dg_has_any g then g else g\<lparr>dg_counts := (dg_counts g)(b := None)\<rparr>)"

record gates =
  queue_full_gate :: drop_log_gate
  cancel_unconfirmed_gate :: drop_log_gate

text \<open>The \<^verbatim>\<open>?\<close> operator with the registry threaded through.\<close>

definition reg_bind ::
  "('a, 'e) result \<times> 's \<Rightarrow> ('a \<Rightarrow> 's \<Rightarrow> ('b, 'e) result \<times> 's) \<Rightarrow> ('b, 'e) result \<times> 's" where
  "reg_bind x f = (case x of (Inl e, s) \<Rightarrow> (Err e, s) | (Inr a, s) \<Rightarrow> f a s)"

definition reg_call ::
  "('r, 'a) reg_op \<Rightarrow> binding_id \<Rightarrow> 'r \<times> gates \<Rightarrow> ('a, registry_error) result \<times> 'r \<times> gates" where
  "reg_call f b s = (let (x, r) = f (fst s) b in (x, r, snd s))"

definition decide_admission ::
  "'r registry_ops \<Rightarrow> overlap_policy \<Rightarrow> 'r \<times> gates \<Rightarrow> binding_id
     \<Rightarrow> (admission_decision, registry_error) result \<times> 'r \<times> gates" where
  "decide_admission ops policy s b =
     (case policy of
           OvSkip \<Rightarrow>
             reg_bind (reg_call (rr_active_run_count ops) b s) (\<lambda>n s.
               if n > 0 then (Ok SkipDueToOverlap, s)
               else reg_bind (reg_call (rr_note_admitted ops) b s) (\<lambda>_ s. (Ok Admit, s)))
         | OvConcurrent m \<Rightarrow>
             (let m = min m MAX_OVERLAP_CONCURRENCY
              in reg_bind (reg_call (rr_active_run_count ops) b s) (\<lambda>n s.
                   if n < m then reg_bind (reg_call (rr_note_admitted ops) b s) (\<lambda>_ s. (Ok Admit, s))
                   else (Ok SkipDueToOverlap, s)))
         | OvQueue depth \<Rightarrow>
             (let depth = min depth MAX_OVERLAP_QUEUE_DEPTH
              in reg_bind (reg_call (rr_active_run_count ops) b s) (\<lambda>active s.
                 reg_bind (reg_call (rr_queued_count ops) b s) (\<lambda>queued s.
                   if active = 0 \<and> queued = 0
                   then reg_bind (reg_call (rr_note_admitted ops) b s) (\<lambda>_ (r, g).
                          (Ok Admit, r, g\<lparr>queue_full_gate := gate_reset (queue_full_gate g) b\<rparr>))
                   else if queued < depth
                   then reg_bind (reg_call (rr_note_queued ops) b s) (\<lambda>_ (r, g).
                          (Ok (QueueAt queued), r,
                           g\<lparr>queue_full_gate := gate_reset (queue_full_gate g) b\<rparr>))
                   else (let (r, g) = s
                         in (Ok (SkippedQueueFull depth), r,
                             g\<lparr>queue_full_gate := snd (gate_note (queue_full_gate g) b)\<rparr>)))))
         | OvCancelPrevious \<Rightarrow>
             reg_bind (reg_call (rr_active_run_count ops) b s) (\<lambda>n s.
               if n > 0
               then reg_bind (reg_call (rr_cancel_active ops) b s) (\<lambda>oc s.
                      case oc of
                        Confirmed \<Rightarrow>
                          reg_bind (reg_call (rr_note_admitted ops) b s) (\<lambda>_ (r, g).
                            (Ok CancelledPreviousAndAdmit, r,
                             g\<lparr>cancel_unconfirmed_gate := gate_reset (cancel_unconfirmed_gate g) b\<rparr>))
                      | Unconfirmed \<Rightarrow>
                          (let (r, g) = s
                           in (Ok SkippedCancellationUnconfirmed, r,
                               g\<lparr>cancel_unconfirmed_gate :=
                                   snd (gate_note (cancel_unconfirmed_gate g) b)\<rparr>)))
               else reg_bind (reg_call (rr_note_admitted ops) b s) (\<lambda>_ (r, g).
                      (Ok CancelledPreviousAndAdmit, r,
                       g\<lparr>cancel_unconfirmed_gate := gate_reset (cancel_unconfirmed_gate g) b\<rparr>))))"

subsection \<open>The daemon's registry\<close>

record counts =
  ct_active :: u32
  ct_queued :: u32

text \<open>A poisoned lock makes every operation fail.\<close>

record in_memory_registry =
  im_counts :: "binding_id \<rightharpoonup> counts"
  im_poisoned :: bool

definition in_memory_new :: in_memory_registry where
  "in_memory_new = \<lparr>im_counts = Map.empty, im_poisoned = False\<rparr>"

definition with_counts ::
  "in_memory_registry \<Rightarrow> binding_id \<Rightarrow> (counts \<Rightarrow> ('a, registry_error) result \<times> counts)
     \<Rightarrow> ('a, registry_error) result \<times> in_memory_registry" where
  "with_counts reg b f =
     (if im_poisoned reg then (Err (Poisoned b), reg)
      else let (r, c) = f (lookup_or \<lparr>ct_active = 0, ct_queued = 0\<rparr> (im_counts reg) b)
           in (r, reg\<lparr>im_counts := (im_counts reg)(b \<mapsto> c)\<rparr>))"

definition im_active_run_count :: "(in_memory_registry, u32) reg_op" where
  "im_active_run_count reg b = with_counts reg b (\<lambda>c. (Ok (ct_active c), c))"

definition im_queued_count :: "(in_memory_registry, u32) reg_op" where
  "im_queued_count reg b = with_counts reg b (\<lambda>c. (Ok (ct_queued c), c))"

definition im_cancel_active :: "(in_memory_registry, cancellation_outcome) reg_op" where
  "im_cancel_active reg b = (Ok Unconfirmed, reg)"

definition im_note_admitted :: "(in_memory_registry, unit) reg_op" where
  "im_note_admitted reg b = with_counts reg b (\<lambda>c.
     case checked_add (ct_active c) 1 of
       None \<Rightarrow> (Err (CounterOutOfRange b), c) | Some n \<Rightarrow> (Ok (), c\<lparr>ct_active := n\<rparr>))"

definition im_note_queued :: "(in_memory_registry, unit) reg_op" where
  "im_note_queued reg b = with_counts reg b (\<lambda>c.
     case checked_add (ct_queued c) 1 of
       None \<Rightarrow> (Err (CounterOutOfRange b), c) | Some n \<Rightarrow> (Ok (), c\<lparr>ct_queued := n\<rparr>))"

definition im_note_finished :: "(in_memory_registry, unit) reg_op" where
  "im_note_finished reg b = with_counts reg b (\<lambda>c.
     case checked_sub (ct_active c) 1 of
       None \<Rightarrow> (Err (CounterOutOfRange b), c) | Some n \<Rightarrow> (Ok (), c\<lparr>ct_active := n\<rparr>))"

definition im_note_dequeued :: "(in_memory_registry, unit) reg_op" where
  "im_note_dequeued reg b = with_counts reg b (\<lambda>c.
     case checked_sub (ct_queued c) 1 of
       None \<Rightarrow> (Err (CounterOutOfRange b), c) | Some n \<Rightarrow> (Ok (), c\<lparr>ct_queued := n\<rparr>))"

definition im_note_promoted :: "(in_memory_registry, unit) reg_op" where
  "im_note_promoted reg b = with_counts reg b (\<lambda>c.
     case checked_sub (ct_queued c) 1 of
       None \<Rightarrow> (Err (CounterOutOfRange b), c)
     | Some q \<Rightarrow>
         (case checked_add (ct_active c) 1 of
            None \<Rightarrow> (Err (CounterOutOfRange b), c)
          | Some a \<Rightarrow> (Ok (), c\<lparr>ct_queued := q, ct_active := a\<rparr>)))"

definition in_memory_ops :: "in_memory_registry registry_ops" where
  "in_memory_ops =
     \<lparr>rr_active_run_count = im_active_run_count, rr_queued_count = im_queued_count,
      rr_cancel_active = im_cancel_active, rr_note_admitted = im_note_admitted,
      rr_note_queued = im_note_queued, rr_note_finished = im_note_finished,
      rr_note_dequeued = im_note_dequeued, rr_note_promoted = im_note_promoted\<rparr>"

subsection \<open>Operation\<close>

text \<open>Calls on a shared registry, each under the binding's lock, so one at a time per binding.\<close>

datatype adm_op = AdDecide binding_id | AdFinished binding_id | AdDequeued binding_id
  | AdPromoted binding_id

fun adm_step ::
  "'r registry_ops \<Rightarrow> (binding_id \<Rightarrow> overlap_policy) \<Rightarrow> 'r \<times> gates \<Rightarrow> adm_op \<Rightarrow> 'r \<times> gates" where
  "adm_step ops pol s (AdDecide b) = snd (decide_admission ops (pol b) s b)"
| "adm_step ops pol s (AdFinished b) = snd (reg_call (rr_note_finished ops) b s)"
| "adm_step ops pol s (AdDequeued b) = snd (reg_call (rr_note_dequeued ops) b s)"
| "adm_step ops pol s (AdPromoted b) = snd (reg_call (rr_note_promoted ops) b s)"

definition gates_new :: gates where
  "gates_new = \<lparr>queue_full_gate = \<lparr>dg_counts = Map.empty, dg_has_any = False\<rparr>,
     cancel_unconfirmed_gate = \<lparr>dg_counts = Map.empty, dg_has_any = False\<rparr>\<rparr>"

text \<open>What each overlap policy promises of the counts of its binding.\<close>

fun overlap_ok :: "overlap_policy \<Rightarrow> nat \<Rightarrow> nat \<Rightarrow> bool" where
  "overlap_ok OvSkip a q \<longleftrightarrow> a \<le> 1 \<and> q = 0"
| "overlap_ok (OvConcurrent m) a q \<longleftrightarrow> a \<le> min (unat m) 1000 \<and> q = 0"
| "overlap_ok (OvQueue d) a q \<longleftrightarrow> q \<le> min (unat d) 1000"
| "overlap_ok OvCancelPrevious a q \<longleftrightarrow> a \<le> 1 \<and> q = 0"

lemma overlap_ok_mono: "overlap_ok p a q \<Longrightarrow> a' \<le> a \<Longrightarrow> q' \<le> q \<Longrightarrow> overlap_ok p a' q'"
  by (cases p) auto

lemma overlap_ok_promote: "overlap_ok p a q \<Longrightarrow> 0 < q \<Longrightarrow> overlap_ok p a' (q - Suc 0)"
  by (cases p) auto

text \<open>The counts an operation leaves, from its result and the counts before.\<close>

definition counts_after ::
  "('a, 'e) result \<Rightarrow> (binding_id \<Rightarrow> nat) \<Rightarrow> binding_id \<Rightarrow> nat \<Rightarrow> binding_id \<Rightarrow> nat" where
  "counts_after x f b n = (case x of Inl _ \<Rightarrow> f | Inr _ \<Rightarrow> f(b := n))"

locale run_registry =
  fixes ops :: "'r registry_ops"
    and active :: "'r \<Rightarrow> binding_id \<Rightarrow> nat"
    and queued :: "'r \<Rightarrow> binding_id \<Rightarrow> nat"
  assumes read_active: "rr_active_run_count ops r b = (x, r') \<Longrightarrow>
      active r' = active r \<and> queued r' = queued r \<and> (\<forall>n. x = Inr n \<longrightarrow> unat n = active r b)"
    and read_queued: "rr_queued_count ops r b = (x, r') \<Longrightarrow>
      active r' = active r \<and> queued r' = queued r \<and> (\<forall>n. x = Inr n \<longrightarrow> unat n = queued r b)"
    and cancel: "rr_cancel_active ops r b = (xc, r') \<Longrightarrow>
      queued r' = queued r \<and> active r' b \<le> active r b \<and>
      (\<forall>b'. b' \<noteq> b \<longrightarrow> active r' b' = active r b') \<and>
      (xc = Inr Confirmed \<longrightarrow> active r' b = 0)"
    and admitted: "rr_note_admitted ops r b = (u, r') \<Longrightarrow>
      queued r' = queued r \<and> active r' = counts_after u (active r) b (active r b + 1)"
    and enqueued: "rr_note_queued ops r b = (u, r') \<Longrightarrow>
      active r' = active r \<and> queued r' = counts_after u (queued r) b (queued r b + 1)"
    and finished: "rr_note_finished ops r b = (u, r') \<Longrightarrow>
      queued r' = queued r \<and> active r' = counts_after u (active r) b (active r b - 1)"
    and dequeued: "rr_note_dequeued ops r b = (u, r') \<Longrightarrow>
      active r' = active r \<and> queued r' = counts_after u (queued r) b (queued r b - 1)"
    and promoted: "rr_note_promoted ops r b = (u, r') \<Longrightarrow>
      active r' = counts_after u (active r) b (active r b + 1) \<and>
      queued r' = counts_after u (queued r) b (queued r b - 1) \<and>
      (u = Inr () \<longrightarrow> 0 < queued r b)"
begin

lemma call_read_active: "reg_call (rr_active_run_count ops) b s = (x, s') \<Longrightarrow>
    active (fst s') = active (fst s) \<and> queued (fst s') = queued (fst s) \<and>
    (\<forall>n. x = Inr n \<longrightarrow> unat n = active (fst s) b)"
  by (auto simp: reg_call_def split: prod.splits dest!: read_active)

lemma call_read_queued: "reg_call (rr_queued_count ops) b s = (x, s') \<Longrightarrow>
    active (fst s') = active (fst s) \<and> queued (fst s') = queued (fst s) \<and>
    (\<forall>n. x = Inr n \<longrightarrow> unat n = queued (fst s) b)"
  by (auto simp: reg_call_def split: prod.splits dest!: read_queued)

lemma call_cancel: "reg_call (rr_cancel_active ops) b s = (xc, s') \<Longrightarrow>
    queued (fst s') = queued (fst s) \<and>
    active (fst s') b \<le> active (fst s) b \<and>
    (\<forall>b'. b' \<noteq> b \<longrightarrow> active (fst s') b' = active (fst s) b') \<and>
    (xc = Inr Confirmed \<longrightarrow> active (fst s') b = 0)"
  using cancel [of "fst s" b] by (auto simp: reg_call_def split: prod.splits)

lemma call_admitted: "reg_call (rr_note_admitted ops) b s = (u, s') \<Longrightarrow>
    queued (fst s') = queued (fst s) \<and>
    active (fst s') = counts_after u (active (fst s)) b (active (fst s) b + 1)"
  using admitted [of "fst s" b] by (auto simp: reg_call_def split: prod.splits)

lemma call_queued: "reg_call (rr_note_queued ops) b s = (u, s') \<Longrightarrow>
    active (fst s') = active (fst s) \<and>
    queued (fst s') = counts_after u (queued (fst s)) b (queued (fst s) b + 1)"
  using enqueued [of "fst s" b] by (auto simp: reg_call_def split: prod.splits)

lemma decide_within:
  assumes ok: "overlap_ok p (active (fst s) b) (queued (fst s) b)"
    and d: "decide_admission ops p s b = (x, s')"
  shows "overlap_ok p (active (fst s') b) (queued (fst s') b) \<and>
         (\<forall>b'. b' \<noteq> b \<longrightarrow> active (fst s') b' = active (fst s) b' \<and> queued (fst s') b' = queued (fst s) b')"
proof (cases p)
  case OvSkip
  obtain n s1 where r1: "reg_call (rr_active_run_count ops) b s = (n, s1)" by (rule prod.exhaust)
  obtain u s2 where r2: "reg_call (rr_note_admitted ops) b s1 = (u, s2)" by (rule prod.exhaust)
  show ?thesis
    using ok d call_read_active [OF r1] call_admitted [OF r2]
    by (auto simp: OvSkip decide_admission_def reg_bind_def r1 r2 counts_after_def word_facts
        split: sum.splits if_splits)
next
  case (OvConcurrent m)
  obtain n s1 where r1: "reg_call (rr_active_run_count ops) b s = (n, s1)" by (rule prod.exhaust)
  obtain u s2 where r2: "reg_call (rr_note_admitted ops) b s1 = (u, s2)" by (rule prod.exhaust)
  show ?thesis
    using ok d call_read_active [OF r1] call_admitted [OF r2]
    by (auto simp: OvConcurrent decide_admission_def reg_bind_def r1 r2 counts_after_def
        word_facts MAX_OVERLAP_CONCURRENCY_def min_def Let_def split: sum.splits if_splits)
next
  case (OvQueue d)
  obtain n s1 where r1: "reg_call (rr_active_run_count ops) b s = (n, s1)" by (rule prod.exhaust)
  obtain q s2 where r2: "reg_call (rr_queued_count ops) b s1 = (q, s2)" by (rule prod.exhaust)
  obtain u s3 where r3: "reg_call (rr_note_admitted ops) b s2 = (u, s3)" by (rule prod.exhaust)
  obtain v s4 where r4: "reg_call (rr_note_queued ops) b s2 = (v, s4)" by (rule prod.exhaust)
  show ?thesis
    using ok d call_read_active [OF r1] call_read_queued [OF r2] call_admitted [OF r3] call_queued [OF r4]
    by (auto simp: OvQueue decide_admission_def reg_bind_def r1 r2 r3 r4 counts_after_def
        word_facts MAX_OVERLAP_QUEUE_DEPTH_def min_def Let_def
        split: sum.splits if_splits prod.splits)
next
  case OvCancelPrevious
  obtain n s1 where r1: "reg_call (rr_active_run_count ops) b s = (n, s1)" by (rule prod.exhaust)
  obtain u s2 where r2: "reg_call (rr_note_admitted ops) b s1 = (u, s2)" by (rule prod.exhaust)
  obtain c s3 where r3: "reg_call (rr_cancel_active ops) b s1 = (c, s3)" by (rule prod.exhaust)
  obtain v s4 where r4: "reg_call (rr_note_admitted ops) b s3 = (v, s4)" by (rule prod.exhaust)
  show ?thesis
    using ok d call_read_active [OF r1] call_admitted [OF r2] call_cancel [OF r3] call_admitted [OF r4]
    by (auto simp: OvCancelPrevious decide_admission_def reg_bind_def r1 r2 r3 r4 counts_after_def
        word_facts Let_def split: sum.splits if_splits prod.splits cancellation_outcome.splits)
qed

lemma step_within:
  assumes "\<forall>b. overlap_ok (pol b) (active (fst s) b) (queued (fst s) b)"
  shows "\<forall>b. overlap_ok (pol b) (active (fst (adm_step ops pol s op)) b)
                              (queued (fst (adm_step ops pol s op)) b)"
proof (cases op)
  case (AdDecide b)
  obtain x s' where d: "decide_admission ops (pol b) s b = (x, s')" by (rule prod.exhaust)
  have "overlap_ok (pol b') (active (fst s') b') (queued (fst s') b')" for b'
    using decide_within [OF _ d] assms by (cases "b' = b") auto
  then show ?thesis by (simp add: AdDecide d)
next
  case (AdFinished b)
  obtain x r' where f: "rr_note_finished ops (fst s) b = (x, r')" by (rule prod.exhaust)
  have "overlap_ok (pol b') (active r' b') (queued r' b')" for b'
    using spec [OF assms, of b'] finished [OF f]
    by (elim overlap_ok_mono) (auto simp: counts_after_def split: sum.splits)
  then show ?thesis by (simp add: AdFinished reg_call_def f)
next
  case (AdDequeued b)
  obtain x r' where f: "rr_note_dequeued ops (fst s) b = (x, r')" by (rule prod.exhaust)
  have "overlap_ok (pol b') (active r' b') (queued r' b')" for b'
    using spec [OF assms, of b'] dequeued [OF f]
    by (elim overlap_ok_mono) (auto simp: counts_after_def split: sum.splits)
  then show ?thesis by (simp add: AdDequeued reg_call_def f)
next
  case (AdPromoted b)
  obtain x r' where f: "rr_note_promoted ops (fst s) b = (x, r')" by (rule prod.exhaust)
  have "overlap_ok (pol b') (active r' b') (queued r' b')" for b'
    using spec [OF assms, of b'] promoted [OF f] overlap_ok_promote
    by (auto simp: counts_after_def split: sum.splits)
  then show ?thesis by (simp add: AdPromoted reg_call_def f)
qed

lemma run_within:
  "\<forall>b. overlap_ok (pol b) (active (fst s) b) (queued (fst s) b) \<Longrightarrow>
   \<forall>b. overlap_ok (pol b) (active (fst (foldl (adm_step ops pol) s as)) b)
                         (queued (fst (foldl (adm_step ops pol) s as)) b)"
proof (induction as arbitrary: s)
  case (Cons a as)
  show ?case
    using Cons.IH [OF step_within [OF Cons.prems, of a]] by simp
qed simp

text \<open>An error admits nothing: no count goes up.\<close>

lemma decide_error:
  assumes "decide_admission ops p s b = (Inl e, s')"
  shows "queued (fst s') = queued (fst s) \<and> active (fst s') b \<le> active (fst s) b \<and>
         (\<forall>b'. b' \<noteq> b \<longrightarrow> active (fst s') b' = active (fst s) b')"
proof -
  obtain n s1 where r1: "reg_call (rr_active_run_count ops) b s = (n, s1)" by (rule prod.exhaust)
  obtain u s2 where r2: "reg_call (rr_note_admitted ops) b s1 = (u, s2)" by (rule prod.exhaust)
  obtain q s3 where r3: "reg_call (rr_queued_count ops) b s1 = (q, s3)" by (rule prod.exhaust)
  obtain v s4 where r4: "reg_call (rr_note_admitted ops) b s3 = (v, s4)" by (rule prod.exhaust)
  obtain w s5 where r5: "reg_call (rr_note_queued ops) b s3 = (w, s5)" by (rule prod.exhaust)
  obtain c s6 where r6: "reg_call (rr_cancel_active ops) b s1 = (c, s6)" by (rule prod.exhaust)
  obtain y s7 where r7: "reg_call (rr_note_admitted ops) b s6 = (y, s7)" by (rule prod.exhaust)
  note laws = call_read_active [OF r1] call_admitted [OF r2] call_read_queued [OF r3]
    call_admitted [OF r4] call_queued [OF r5] call_cancel [OF r6] call_admitted [OF r7]
  show ?thesis
    using assms laws
    by (cases p)
       (auto simp: decide_admission_def reg_bind_def r1 r2 r3 r4 r5 r6 r7 counts_after_def Let_def
        split: sum.splits if_splits prod.splits cancellation_outcome.splits)
qed

end

definition im_cell :: "in_memory_registry \<Rightarrow> binding_id \<Rightarrow> counts" where
  "im_cell reg b = lookup_or \<lparr>ct_active = 0, ct_queued = 0\<rparr> (im_counts reg) b"

definition im_active :: "in_memory_registry \<Rightarrow> binding_id \<Rightarrow> nat" where
  "im_active reg b = unat (ct_active (im_cell reg b))"

definition im_queued :: "in_memory_registry \<Rightarrow> binding_id \<Rightarrow> nat" where
  "im_queued reg b = unat (ct_queued (im_cell reg b))"

lemmas im_op_defs = im_active_run_count_def im_queued_count_def im_cancel_active_def
  im_note_admitted_def im_note_queued_def im_note_finished_def im_note_dequeued_def
  im_note_promoted_def

text \<open>One access under the lock: it fails and changes nothing, or updates one cell.\<close>

lemma with_counts_cases:
  assumes "with_counts reg b f = (x, reg')"
  obtains e where "x = Inl e" "reg' = reg"
  | c' where "f (im_cell reg b) = (x, c')"
      "im_active reg' = (im_active reg)(b := unat (ct_active c'))"
      "im_queued reg' = (im_queued reg)(b := unat (ct_queued c'))"
proof (cases "im_poisoned reg")
  case True
  then show thesis using assms that(1) by (auto simp: with_counts_def)
next
  case False
  obtain y c' where f: "f (im_cell reg b) = (y, c')" by (rule prod.exhaust)
  then have "x = y" "reg' = reg\<lparr>im_counts := (im_counts reg)(b \<mapsto> c')\<rparr>"
    using assms False by (auto simp: with_counts_def im_cell_def)
  then show thesis
    using f by (intro that(2)) (auto simp: im_active_def im_queued_def im_cell_def fun_eq_iff)
qed

lemma im_read_active: "im_active_run_count r b = (x, r') \<Longrightarrow>
    im_active r' = im_active r \<and> im_queued r' = im_queued r \<and> (\<forall>n. x = Inr n \<longrightarrow> unat n = im_active r b)"
  unfolding im_active_run_count_def
  by (erule with_counts_cases) (auto simp: im_active_def im_queued_def fun_eq_iff)

lemma im_read_queued: "im_queued_count r b = (x, r') \<Longrightarrow>
    im_active r' = im_active r \<and> im_queued r' = im_queued r \<and> (\<forall>n. x = Inr n \<longrightarrow> unat n = im_queued r b)"
  unfolding im_queued_count_def
  by (erule with_counts_cases) (auto simp: im_active_def im_queued_def fun_eq_iff)

lemma im_admitted: "im_note_admitted r b = (u, r') \<Longrightarrow>
    im_queued r' = im_queued r \<and> im_active r' = counts_after u (im_active r) b (im_active r b + 1)"
  unfolding im_note_admitted_def
  by (erule with_counts_cases)
     (auto simp: im_active_def im_queued_def fun_eq_iff counts_after_def split: option.splits
       dest: checked_add_Some)

lemma im_enqueued: "im_note_queued r b = (u, r') \<Longrightarrow>
    im_active r' = im_active r \<and> im_queued r' = counts_after u (im_queued r) b (im_queued r b + 1)"
  unfolding im_note_queued_def
  by (erule with_counts_cases)
     (auto simp: im_active_def im_queued_def fun_eq_iff counts_after_def split: option.splits
       dest: checked_add_Some)

lemma im_finished: "im_note_finished r b = (u, r') \<Longrightarrow>
    im_queued r' = im_queued r \<and> im_active r' = counts_after u (im_active r) b (im_active r b - 1)"
  unfolding im_note_finished_def
  by (erule with_counts_cases)
     (auto simp: im_active_def im_queued_def fun_eq_iff counts_after_def split: option.splits
       dest: checked_sub_Some)

lemma im_dequeued: "im_note_dequeued r b = (u, r') \<Longrightarrow>
    im_active r' = im_active r \<and> im_queued r' = counts_after u (im_queued r) b (im_queued r b - 1)"
  unfolding im_note_dequeued_def
  by (erule with_counts_cases)
     (auto simp: im_active_def im_queued_def fun_eq_iff counts_after_def split: option.splits
       dest: checked_sub_Some)

lemma im_promoted: "im_note_promoted r b = (u, r') \<Longrightarrow>
    im_active r' = counts_after u (im_active r) b (im_active r b + 1) \<and>
    im_queued r' = counts_after u (im_queued r) b (im_queued r b - 1) \<and>
    (u = Inr () \<longrightarrow> 0 < im_queued r b)"
  unfolding im_note_promoted_def
  by (erule with_counts_cases)
     (auto simp: im_active_def im_queued_def fun_eq_iff counts_after_def split: option.splits
       dest!: checked_sub_Some checked_add_Some)

interpretation imr: run_registry in_memory_ops im_active im_queued
  by unfold_locales
     (simp_all add: in_memory_ops_def im_read_active im_read_queued im_admitted im_enqueued
       im_finished im_dequeued im_promoted im_cancel_active_def)

lemma checked_add_one:
  assumes "unat (n :: u32) < 2 ^ 32 - 1"
  shows "checked_add n 1 = Some (n + 1)" "unat (n + 1) = unat n + 1"
proof -
  have "unat n + unat (1 :: u32) < 2 ^ LENGTH(32)"
    using assms by simp
  then show "checked_add n 1 = Some (n + 1)"
    unfolding checked_add_def by (rule if_P)
  from checked_add_Some [OF this] show "unat (n + 1) = unat n + 1"
    by (simp only: unsigned_1)
qed

text \<open>The calls of a decision on a healthy registry, in terms of the binding's cell.\<close>

lemma im_calls:
  fixes r :: in_memory_registry and b :: binding_id
  defines "c \<equiv> im_cell r b"
  defines "r1 \<equiv> r\<lparr>im_counts := (im_counts r)(b \<mapsto> c)\<rparr>"
  assumes "\<not> im_poisoned r" "im_active r b < 2 ^ 32 - 1" "im_queued r b < 2 ^ 32 - 1"
  shows "reg_call (rr_active_run_count in_memory_ops) b (r, g) = (Ok (ct_active c), r1, g)"
    "reg_call (rr_queued_count in_memory_ops) b (r1, g) = (Ok (ct_queued c), r1, g)"
    "reg_call (rr_cancel_active in_memory_ops) b (r1, g) = (Ok Unconfirmed, r1, g)"
    "reg_call (rr_note_admitted in_memory_ops) b (r1, g)
       = (Ok (), r\<lparr>im_counts := (im_counts r)(b \<mapsto> c\<lparr>ct_active := ct_active c + 1\<rparr>)\<rparr>, g)"
    "reg_call (rr_note_queued in_memory_ops) b (r1, g)
       = (Ok (), r\<lparr>im_counts := (im_counts r)(b \<mapsto> c\<lparr>ct_queued := ct_queued c + 1\<rparr>)\<rparr>, g)"
    "unat (ct_active c + 1) = unat (ct_active c) + 1"
    "unat (ct_queued c + 1) = unat (ct_queued c) + 1"
proof -
  have a: "checked_add (ct_active c) 1 = Some (ct_active c + 1) \<and> unat (ct_active c + 1) = unat (ct_active c) + 1"
    and q: "checked_add (ct_queued c) 1 = Some (ct_queued c + 1) \<and> unat (ct_queued c + 1) = unat (ct_queued c) + 1"
    using checked_add_one [of "ct_active c"] checked_add_one [of "ct_queued c"] assms(4,5)
    unfolding im_active_def im_queued_def c_def by blast+
  have cell: "lookup_or \<lparr>ct_active = 0, ct_queued = 0\<rparr> (im_counts r) b = c"
    by (simp add: c_def im_cell_def)
  note [simp] = reg_call_def in_memory_ops_def im_op_defs with_counts_def assms(3) a q cell r1_def
  show "reg_call (rr_active_run_count in_memory_ops) b (r, g) = (Ok (ct_active c), r1, g)" by simp
  show "reg_call (rr_queued_count in_memory_ops) b (r1, g) = (Ok (ct_queued c), r1, g)" by simp
  show "reg_call (rr_cancel_active in_memory_ops) b (r1, g) = (Ok Unconfirmed, r1, g)" by simp
  show "reg_call (rr_note_admitted in_memory_ops) b (r1, g)
       = (Ok (), r\<lparr>im_counts := (im_counts r)(b \<mapsto> c\<lparr>ct_active := ct_active c + 1\<rparr>)\<rparr>, g)" by simp
  show "reg_call (rr_note_queued in_memory_ops) b (r1, g)
       = (Ok (), r\<lparr>im_counts := (im_counts r)(b \<mapsto> c\<lparr>ct_queued := ct_queued c + 1\<rparr>)\<rparr>, g)" by simp
  show "unat (ct_active c + 1) = unat (ct_active c) + 1" "unat (ct_queued c + 1) = unat (ct_queued c) + 1"
    using a q by simp_all
qed

lemma im_counts_upd:
  "im_active (r\<lparr>im_counts := (im_counts r)(b \<mapsto> c)\<rparr>) b = unat (ct_active c)"
  "im_queued (r\<lparr>im_counts := (im_counts r)(b \<mapsto> c)\<rparr>) b = unat (ct_queued c)"
  by (simp_all add: im_active_def im_queued_def im_cell_def)

lemma decide_poisoned:
  "im_poisoned r \<Longrightarrow> decide_admission in_memory_ops p (r, g) b = (Err (Poisoned b), r, g)"
  by (cases p) (simp_all add: decide_admission_def reg_bind_def reg_call_def in_memory_ops_def im_op_defs
      with_counts_def)

subsection \<open>Properties\<close>

text \<open>
  \<^bold>\<open>C12.\<close> The overlap policies hold whatever happens: after any sequence of admission decisions and
  run completions, dequeuings and promotions, over any bindings, from an empty registry, a Skip or
  CancelPrevious binding never has more than one active run, a Concurrent binding never more than
  its maximum or 1000, and a Queue binding never a longer backlog than its depth or 1000.
\<close>

theorem overlap_caps_hold:
  "let r = fst (foldl (adm_step in_memory_ops pol) (in_memory_new, gates_new) as)
   in overlap_ok (pol b) (im_active r b) (im_queued r b)"
proof -
  have "overlap_ok (pol b) 0 0" for b
    by (cases "pol b") auto
  then have "\<forall>b. overlap_ok (pol b) (im_active in_memory_new b) (im_queued in_memory_new b)"
    by (simp add: im_active_def im_queued_def im_cell_def in_memory_new_def)
  then show ?thesis
    using imr.run_within [of pol "(in_memory_new, gates_new)" as] by (simp add: Let_def)
qed

text \<open>
  What the daemon decides, exactly: with a healthy registry whose counters are below the
  32-bit limit, the decision is the one the policy prescribes for the counts, and exactly the
  admitting decisions charge a counter, by one; with a poisoned registry every decision is an
  error and nothing is charged.
\<close>

theorem decide_admission_exact:
  assumes "im_active r b < 2 ^ 32 - 1" "im_queued r b < 2 ^ 32 - 1"
  shows "case decide_admission in_memory_ops p (r, g) b of (x, r', g') \<Rightarrow>
    if im_poisoned r then x = Err (Poisoned b) \<and> r' = r
    else let a = im_active r b; q = im_queued r b in
      (case p of
         OvSkip \<Rightarrow> if a = 0 then x = Ok Admit \<and> im_active r' b = a + 1 \<and> im_queued r' b = q
                   else x = Ok SkipDueToOverlap \<and> im_active r' b = a \<and> im_queued r' b = q
       | OvConcurrent m \<Rightarrow>
           if a < min (unat m) 1000
           then x = Ok Admit \<and> im_active r' b = a + 1 \<and> im_queued r' b = q
           else x = Ok SkipDueToOverlap \<and> im_active r' b = a \<and> im_queued r' b = q
       | OvQueue d \<Rightarrow>
           if a = 0 \<and> q = 0 then x = Ok Admit \<and> im_active r' b = a + 1 \<and> im_queued r' b = q
           else if q < min (unat d) 1000
           then x = Ok (QueueAt (of_nat q)) \<and> im_active r' b = a \<and> im_queued r' b = q + 1
           else x = Ok (SkippedQueueFull (min d 1000)) \<and> im_active r' b = a \<and> im_queued r' b = q
       | OvCancelPrevious \<Rightarrow>
           if a = 0 then x = Ok CancelledPreviousAndAdmit \<and> im_active r' b = a + 1 \<and> im_queued r' b = q
           else x = Ok SkippedCancellationUnconfirmed \<and> im_active r' b = a \<and> im_queued r' b = q)"
proof (cases "im_poisoned r")
  case True
  then show ?thesis by (simp add: decide_poisoned)
next
  case False
  note c = im_calls [OF False assms]
  have u: "im_active r b = unat (ct_active (im_cell r b))" "im_queued r b = unat (ct_queued (im_cell r b))"
    by (simp_all add: im_active_def im_queued_def)
  show ?thesis
    unfolding u
    by (cases p)
       (simp_all add: decide_admission_def reg_bind_def c im_counts_upd False word_facts unat_eq_zero
         MAX_OVERLAP_CONCURRENCY_def MAX_OVERLAP_QUEUE_DEPTH_def min_def Let_def)
qed

theorem decide_admission_exact_witness:
  "fst (decide_admission in_memory_ops OvSkip (in_memory_new, gates_new) 5) = Ok Admit"
  using decide_admission_exact [of in_memory_new 5 OvSkip gates_new]
  by (simp add: im_active_def im_queued_def im_cell_def in_memory_new_def split: prod.splits)

end
