(* ===== verification/Sched_Locks.thy ===== *)
theory Sched_Locks
  imports Prelude
begin

text \<open>
  \<^verbatim>\<open>SharedRegistry::with_binding_lock\<close> and \<^verbatim>\<open>forget\<close>, at the granularity of what the two mutexes
  make atomic.  A caller looks its binding's lock up under the directory lock, creating it if
  needed, and keeps a reference (\<open>HasArc\<close>); it then acquires that lock (\<open>InCS\<close>), releases it
  (\<open>Released\<close>) and drops the reference.  \<open>forget\<close> removes an entry only if its reference count is 1,
  the directory's own.
\<close>

datatype caller_state =
    Idle
  | HasArc binding_id nat
  | InCS binding_id nat
  | Released binding_id nat

record lock_system =
  ls_directory :: "binding_id \<rightharpoonup> nat"
  ls_callers :: "caller_state list"
  ls_next_lock :: nat

fun arc_of :: "caller_state \<Rightarrow> (binding_id \<times> nat) option" where
  "arc_of Idle = None"
| "arc_of (HasArc b l) = Some (b, l)"
| "arc_of (InCS b l) = Some (b, l)"
| "arc_of (Released b l) = Some (b, l)"

definition strong_count :: "lock_system \<Rightarrow> nat \<Rightarrow> nat" where
  "strong_count s l =
     1 + length (filter (\<lambda>c. map_option snd (arc_of c) = Some l) (ls_callers s))"

fun holds_lock :: "nat \<Rightarrow> caller_state \<Rightarrow> bool" where
  "holds_lock l (InCS b l') \<longleftrightarrow> l' = l"
| "holds_lock l _ \<longleftrightarrow> False"

definition lock_held :: "lock_system \<Rightarrow> nat \<Rightarrow> bool" where
  "lock_held s l = list_ex (holds_lock l) (ls_callers s)"

definition get_lock :: "lock_system \<Rightarrow> nat \<Rightarrow> binding_id \<Rightarrow> lock_system" where
  "get_lock s i b =
     (case ls_directory s b of
        Some l \<Rightarrow> s\<lparr>ls_callers := (ls_callers s)[i := HasArc b l]\<rparr>
      | None \<Rightarrow> s\<lparr>ls_directory := (ls_directory s)(b \<mapsto> ls_next_lock s),
                  ls_callers := (ls_callers s)[i := HasArc b (ls_next_lock s)],
                  ls_next_lock := ls_next_lock s + 1\<rparr>)"

definition forget :: "lock_system \<Rightarrow> binding_id \<Rightarrow> lock_system" where
  "forget s b =
     (case ls_directory s b of
        None \<Rightarrow> s
      | Some l \<Rightarrow> if strong_count s l = 1 then s\<lparr>ls_directory := (ls_directory s)(b := None)\<rparr> else s)"

inductive lock_step :: "lock_system \<Rightarrow> lock_system \<Rightarrow> bool" where
  l_get: "i < length (ls_callers s) \<Longrightarrow> ls_callers s ! i = Idle \<Longrightarrow> lock_step s (get_lock s i b)"
| l_acquire: "i < length (ls_callers s) \<Longrightarrow> ls_callers s ! i = HasArc b l \<Longrightarrow> \<not> lock_held s l \<Longrightarrow>
     lock_step s (s\<lparr>ls_callers := (ls_callers s)[i := InCS b l]\<rparr>)"
| l_release: "i < length (ls_callers s) \<Longrightarrow> ls_callers s ! i = InCS b l \<Longrightarrow>
     lock_step s (s\<lparr>ls_callers := (ls_callers s)[i := Released b l]\<rparr>)"
| l_drop: "i < length (ls_callers s) \<Longrightarrow> ls_callers s ! i = Released b l \<Longrightarrow>
     lock_step s (s\<lparr>ls_callers := (ls_callers s)[i := Idle]\<rparr>)"
| l_forget: "lock_step s (forget s b)"

definition lock_system_new :: "nat \<Rightarrow> lock_system" where
  "lock_system_new n = \<lparr>ls_directory = Map.empty, ls_callers = replicate n Idle, ls_next_lock = 0\<rparr>"

text \<open>Every reference is to the lock that the directory has for the binding.\<close>

definition arcs_ok :: "(binding_id \<rightharpoonup> nat) \<Rightarrow> caller_state \<Rightarrow> bool" where
  "arcs_ok d c \<longleftrightarrow> (\<forall>b l. arc_of c = Some (b, l) \<longrightarrow> d b = Some l)"

definition exclusive :: "caller_state list \<Rightarrow> bool" where
  "exclusive cs \<longleftrightarrow> (\<forall>l i j. i < length cs \<longrightarrow> j < length cs \<longrightarrow> holds_lock l (cs ! i) \<longrightarrow>
     holds_lock l (cs ! j) \<longrightarrow> i = j)"

definition lock_inv :: "lock_system \<Rightarrow> bool" where
  "lock_inv s \<longleftrightarrow>
     (\<forall>c \<in> set (ls_callers s). arcs_ok (ls_directory s) c) \<and>
     (\<forall>b l. ls_directory s b = Some l \<longrightarrow> l < ls_next_lock s) \<and>
     inj_on (ls_directory s) (dom (ls_directory s)) \<and>
     exclusive (ls_callers s)"

lemma lock_held_iff: "lock_held s l \<longleftrightarrow> (\<exists>c \<in> set (ls_callers s). holds_lock l c)"
  by (simp add: lock_held_def list_ex_iff)

lemma strong_count_one:
  assumes "strong_count s l = 1" "c \<in> set (ls_callers s)"
  shows "arc_of c \<noteq> Some (b, l)"
proof -
  have "filter (\<lambda>c. map_option snd (arc_of c) = Some l) (ls_callers s) = []"
    using assms(1) by (simp add: strong_count_def)
  then show ?thesis
    using assms(2) by (fastforce simp: filter_empty_conv)
qed

lemma exclusive_update:
  assumes "exclusive cs" "\<And>l. holds_lock l c \<Longrightarrow> \<not> (\<exists>c' \<in> set cs. holds_lock l c')"
  shows "exclusive (cs[i := c])"
  unfolding exclusive_def
proof (intro allI impI)
  fix l j k
  assume b: "j < length (cs[i := c])" "k < length (cs[i := c])"
    and h: "holds_lock l (cs[i := c] ! j)" "holds_lock l (cs[i := c] ! k)"
  show "j = k"
  proof (cases "holds_lock l c")
    case True
    then have "\<not> holds_lock l (cs ! m)" if "m < length cs" for m
      using assms(2) that nth_mem by blast
    then have "j = i" "k = i"
      using b h by (cases "j = i"; cases "k = i"; simp)+
    then show ?thesis by simp
  next
    case False
    then have "holds_lock l (cs ! j)" "holds_lock l (cs ! k)"
      using b h by (cases "j = i"; cases "k = i"; simp)+
    then show ?thesis
      using assms(1) b unfolding exclusive_def length_list_update by blast
  qed
qed

lemma callers_update:
  assumes "\<forall>c \<in> set cs. P c" "P c'"
  shows "\<forall>c \<in> set (cs[i := c']). P c"
  using assms set_update_subset_insert [of cs i c'] by blast

text \<open>A step that changes one caller, within the directory.\<close>

lemma lock_inv_caller:
  assumes "lock_inv s" "arcs_ok (ls_directory s) c"
    and "\<And>l. holds_lock l c \<Longrightarrow> \<not> lock_held s l"
  shows "lock_inv (s\<lparr>ls_callers := (ls_callers s)[i := c]\<rparr>)"
  using assms callers_update [of "ls_callers s" "arcs_ok (ls_directory s)" c i]
    exclusive_update [of "ls_callers s" c i]
  by (simp add: lock_inv_def lock_held_iff)

lemma holds_lock_nth:
  "exclusive cs \<Longrightarrow> i < length cs \<Longrightarrow> j < length cs \<Longrightarrow> holds_lock l (cs ! i) \<Longrightarrow> holds_lock l (cs ! j) \<Longrightarrow> i = j"
  unfolding exclusive_def by blast

lemma lock_inv_arc:
  "lock_inv s \<Longrightarrow> i < length (ls_callers s) \<Longrightarrow> arc_of (ls_callers s ! i) = Some (b, l) \<Longrightarrow>
   ls_directory s b = Some l"
  unfolding lock_inv_def arcs_ok_def using nth_mem by blast

lemma lock_inv_new_lock:
  assumes "lock_inv s" "ls_directory s b = None"
  shows "lock_inv (s\<lparr>ls_directory := (ls_directory s)(b \<mapsto> ls_next_lock s),
                     ls_next_lock := ls_next_lock s + 1\<rparr>)"
proof -
  have new: "ls_directory s b' \<noteq> Some (ls_next_lock s)" for b'
    using assms(1) by (auto simp: lock_inv_def)
  have "arcs_ok ((ls_directory s)(b \<mapsto> ls_next_lock s)) c" if "arcs_ok (ls_directory s) c" for c
    using that assms(2) by (auto simp: arcs_ok_def)
  moreover have "inj_on ((ls_directory s)(b \<mapsto> ls_next_lock s)) (insert b (dom (ls_directory s)))"
    using assms new by (auto simp: lock_inv_def inj_on_def dom_def)
  ultimately show ?thesis
    using assms(1) by (auto simp: lock_inv_def less_Suc_eq)
qed

lemma lock_inv_get:
  assumes "lock_inv s"
  shows "lock_inv (get_lock s i b)"
proof (cases "ls_directory s b")
  case None
  define q where "q = s\<lparr>ls_directory := (ls_directory s)(b \<mapsto> ls_next_lock s), ls_next_lock := ls_next_lock s + 1\<rparr>"
  have "lock_inv (q\<lparr>ls_callers := (ls_callers q)[i := HasArc b (ls_next_lock s)]\<rparr>)"
    using lock_inv_new_lock [OF assms None]
    by (intro lock_inv_caller) (auto simp: arcs_ok_def q_def)
  moreover have "get_lock s i b = q\<lparr>ls_callers := (ls_callers q)[i := HasArc b (ls_next_lock s)]\<rparr>"
    by (simp add: get_lock_def None q_def)
  ultimately show ?thesis by simp
next
  case (Some l)
  have "lock_inv (s\<lparr>ls_callers := (ls_callers s)[i := HasArc b l]\<rparr>)"
    by (rule lock_inv_caller [OF assms]) (auto simp: arcs_ok_def Some)
  then show ?thesis by (simp add: get_lock_def Some)
qed

lemma lock_inv_forget:
  assumes "lock_inv s"
  shows "lock_inv (forget s b)"
proof (cases "\<exists>l. ls_directory s b = Some l \<and> strong_count s l = 1")
  case True
  then obtain l where l: "ls_directory s b = Some l" "strong_count s l = 1" by blast
  have "arcs_ok ((ls_directory s)(b := None)) c" if "c \<in> set (ls_callers s)" for c
    using strong_count_one [OF l(2) that] that assms l(1) by (auto simp: lock_inv_def arcs_ok_def)
  moreover have "inj_on ((ls_directory s)(b := None)) (dom (ls_directory s) - {b})"
    using assms by (auto simp: lock_inv_def inj_on_def)
  ultimately show ?thesis
    using assms l by (auto simp: lock_inv_def forget_def)
next
  case False
  then have "forget s b = s"
    by (auto simp: forget_def split: option.split)
  then show ?thesis using assms by simp
qed

lemma lock_step_inv: "lock_step s s' \<Longrightarrow> lock_inv s \<Longrightarrow> lock_inv s'"
proof (induction rule: lock_step.induct)
  case (l_acquire i s b l)
  then have "ls_directory s b = Some l"
    using lock_inv_arc [of s i b l] by simp
  then show ?case
    using l_acquire by (intro lock_inv_caller) (auto simp: arcs_ok_def)
next
  case (l_release i s b l)
  then have "ls_directory s b = Some l"
    using lock_inv_arc [of s i b l] by simp
  then show ?case
    using l_release by (intro lock_inv_caller) (auto simp: arcs_ok_def)
next
  case (l_drop i s b l)
  then show ?case
    by (intro lock_inv_caller) (auto simp: arcs_ok_def)
qed (simp_all add: lock_inv_get lock_inv_forget)

lemma lock_reachable_inv: "lock_step\<^sup>*\<^sup>* (lock_system_new n) s \<Longrightarrow> lock_inv s"
proof (induction rule: rtranclp_induct)
  case base
  show ?case
    by (auto simp: lock_inv_def lock_system_new_def exclusive_def arcs_ok_def)
qed (rule lock_step_inv)

subsection \<open>Properties\<close>

text \<open>
  \<^bold>\<open>C39.\<close> Admission for one binding is mutually exclusive: in every interleaving of any number of
  callers and of \<^verbatim>\<open>forget\<close> calls, at most one caller is inside the critical section of a binding,
  although \<^verbatim>\<open>forget\<close> removes locks and later callers create new ones.
\<close>

theorem binding_lock_exclusive:
  assumes "lock_step\<^sup>*\<^sup>* (lock_system_new n) s"
    and "i < length (ls_callers s)" "j < length (ls_callers s)"
    and "ls_callers s ! i = InCS b l" "ls_callers s ! j = InCS b l'"
  shows "i = j"
proof -
  have inv: "lock_inv s"
    by (rule lock_reachable_inv [OF assms(1)])
  then have "l = l'"
    using lock_inv_arc [OF inv assms(2), of b l] lock_inv_arc [OF inv assms(3), of b l'] assms(4,5) by simp
  then show ?thesis
    using inv assms(2-5) unfolding lock_inv_def exclusive_def by (metis holds_lock.simps(1))
qed

lemma lock_reachable_example:
  "lock_step\<^sup>*\<^sup>* (lock_system_new 2)
     \<lparr>ls_directory = [7 \<mapsto> 0], ls_callers = [InCS 7 0, Idle], ls_next_lock = 1\<rparr>"
proof -
  have g: "lock_step (lock_system_new 2)
      \<lparr>ls_directory = [7 \<mapsto> 0], ls_callers = [HasArc 7 0, Idle], ls_next_lock = 1\<rparr>"
    using l_get [of 0 "lock_system_new 2" 7]
    by (simp add: get_lock_def lock_system_new_def numeral_2_eq_2)
  have "lock_step \<lparr>ls_directory = [7 \<mapsto> 0], ls_callers = [HasArc 7 0, Idle], ls_next_lock = 1\<rparr>
      \<lparr>ls_directory = [7 \<mapsto> 0], ls_callers = [InCS 7 0, Idle], ls_next_lock = 1\<rparr>"
    using l_acquire [of 0 "\<lparr>ls_directory = [7 \<mapsto> 0], ls_callers = [HasArc 7 0, Idle], ls_next_lock = 1\<rparr>" 7 0]
    by (simp add: lock_held_def)
  with g show ?thesis by (meson converse_rtranclp_into_rtranclp rtranclp.rtrancl_refl)
qed

theorem binding_lock_exclusive_witness: "(0 :: nat) = 0 \<and> ls_callers
     \<lparr>ls_directory = [7 \<mapsto> 0], ls_callers = [InCS 7 0, Idle], ls_next_lock = 1\<rparr> ! 0 = InCS 7 0"
  using binding_lock_exclusive [OF lock_reachable_example, of 0 0 7 0 0] by simp

end
