(* ===== verification/Sched_Cron.thy ===== *)
theory Sched_Cron
  imports Sched_Admission
begin

unbundle bit_operations_syntax

text \<open>
  \<^verbatim>\<open>roundhouse-sched/src/cron.rs\<close>: from a cron expression in a time zone to the next UTC instant.
  Instants and local times are numbers of nanoseconds.  The cron parser with its iterator and the
  time-zone database are libraries: \<open>cron_env\<close> holds what the code calls of them, together with the
  range of representable instants.
\<close>

subsection \<open>The libraries\<close>

datatype local_result = LocalSingle int | LocalAmbiguous int int | LocalNone

text \<open>
  \<open>ce_schedule\<close> is \<^verbatim>\<open>Schedule::from_str\<close>, \<open>ce_after s t n\<close> the first \<open>n\<close> elements of
  \<^verbatim>\<open>schedule.after(t)\<close> (fewer if it ends), \<open>ce_to_local\<close> and \<open>ce_from_local\<close> the two conversions of
  a zone, \<open>ce_in_range\<close> the instants that \<^verbatim>\<open>checked_add_signed\<close> can return.
\<close>

record 's cron_env =
  ce_schedule :: "string \<Rightarrow> ('s, string) result"
  ce_after :: "'s \<Rightarrow> int \<Rightarrow> nat \<Rightarrow> int list"
  ce_to_local :: "string \<Rightarrow> int \<Rightarrow> int"
  ce_from_local :: "string \<Rightarrow> int \<Rightarrow> local_result"
  ce_in_range :: "int \<Rightarrow> bool"

datatype cron_error =
    InvalidExpr string string
  | Exhausted string
  | ZeroInterval
  | IntervalTooLarge nat
  | JitterTooLarge nat

definition NANOS_PER_SEC :: nat where
  "NANOS_PER_SEC = 1000000000"

definition MAX_JITTER :: nat where
  "MAX_JITTER = 24 * 60 * 60 * NANOS_PER_SEC"

subsection \<open>Jitter\<close>

definition FNV_OFFSET_BASIS :: u64 where
  "FNV_OFFSET_BASIS = 0xcbf29ce484222325"

definition FNV_PRIME :: u64 where
  "FNV_PRIME = 0x100000001b3"

definition fnv1a64 :: "u8 list \<Rightarrow> u64" where
  "fnv1a64 bytes = foldl (\<lambda>hash byte. (hash XOR ucast byte) * FNV_PRIME) FNV_OFFSET_BASIS bytes"

text \<open>\<^verbatim>\<open>i64::to_le_bytes\<close>.\<close>

definition to_le_bytes :: "64 word \<Rightarrow> u8 list" where
  "to_le_bytes w = map (\<lambda>i. ucast (drop_bit (8 * i) w)) [0..<8]"

definition timestamp_nanos_or_zero :: "int \<Rightarrow> 64 word" where
  "timestamp_nanos_or_zero t = (if - (2 ^ 63) \<le> t \<and> t < 2 ^ 63 then word_of_int t else 0)"

definition deterministic_jitter :: "int \<Rightarrow> nat \<Rightarrow> nat" where
  "deterministic_jitter base jitter =
     (if jitter = 0 then 0
      else unat (fnv1a64 (to_le_bytes (timestamp_nanos_or_zero base))) mod jitter)"

subsection \<open>Occurrences\<close>

definition naive_candidates :: "'s cron_env \<Rightarrow> 's \<Rightarrow> int \<Rightarrow> int list" where
  "naive_candidates env schedule after_local = ce_after env schedule after_local (366 * 2)"

definition MINUTE :: int where
  "MINUTE = 60 * 1000000000"

text \<open>The probe for the end of a gap: up to six hours, minute by minute.\<close>

fun probe_gap :: "'s cron_env \<Rightarrow> string \<Rightarrow> int \<Rightarrow> nat \<Rightarrow> int option" where
  "probe_gap env tz probe 0 = None"
| "probe_gap env tz probe (Suc n) =
     (case ce_from_local env tz (probe + MINUTE) of
        LocalSingle dt \<Rightarrow> Some dt
      | _ \<Rightarrow> probe_gap env tz (probe + MINUTE) n)"

definition resolve_local ::
  "'s cron_env \<Rightarrow> string \<Rightarrow> dst_gap \<Rightarrow> dst_ambiguous \<Rightarrow> int \<Rightarrow> int option" where
  "resolve_local env tz gap amb candidate =
     (case ce_from_local env tz candidate of
        LocalSingle dt \<Rightarrow> Some dt
      | LocalAmbiguous first second \<Rightarrow>
          Some (case amb of AmbFirst \<Rightarrow> first | AmbSecond \<Rightarrow> second | AmbBoth \<Rightarrow> first)
      | LocalNone \<Rightarrow>
          (case gap of GapSkip \<Rightarrow> None | FireAtGapEnd \<Rightarrow> probe_gap env tz candidate (6 * 60)))"

definition next_fire_after ::
  "'s cron_env \<Rightarrow> string \<Rightarrow> string \<Rightarrow> int \<Rightarrow> dst_gap \<Rightarrow> dst_ambiguous \<Rightarrow> nat \<Rightarrow> (int, cron_error) result" where
  "next_fire_after env expr tz after gap amb jitter =
     (if jitter > MAX_JITTER then Err (JitterTooLarge jitter)
      else case ce_schedule env (''0 '' @ expr) of
             Inl e \<Rightarrow> Err (InvalidExpr expr e)
           | Inr schedule \<Rightarrow>
               (case find_map (resolve_local env tz gap amb)
                       (naive_candidates env schedule (ce_to_local env tz after)) of
                  None \<Rightarrow> Err (Exhausted expr)
                | Some base \<Rightarrow>
                    (let fire = base + int (deterministic_jitter base jitter)
                     in if ce_in_range env fire then Ok fire else Err (JitterTooLarge jitter))))"

definition is_ambiguous_local :: "'s cron_env \<Rightarrow> string \<Rightarrow> int \<Rightarrow> bool" where
  "is_ambiguous_local env tz naive =
     (case ce_from_local env tz naive of LocalAmbiguous _ _ \<Rightarrow> True | _ \<Rightarrow> False)"

definition both_instants :: "'s cron_env \<Rightarrow> string \<Rightarrow> int \<Rightarrow> int list option" where
  "both_instants env tz candidate =
     (case ce_from_local env tz candidate of
        LocalAmbiguous first second \<Rightarrow> Some [first, second] | _ \<Rightarrow> None)"

definition fire_all_ambiguous ::
  "'s cron_env \<Rightarrow> string \<Rightarrow> string \<Rightarrow> int \<Rightarrow> (int list, cron_error) result" where
  "fire_all_ambiguous env expr tz after =
     (case ce_schedule env (''0 '' @ expr) of
        Inl e \<Rightarrow> Err (InvalidExpr expr e)
      | Inr schedule \<Rightarrow>
          Ok (case find_map (both_instants env tz)
                     (naive_candidates env schedule (ce_to_local env tz after)) of
                None \<Rightarrow> [] | Some both \<Rightarrow> both))"

subsection \<open>Properties\<close>

text \<open>The published test vectors of the hash.\<close>

lemma fnv1a64_empty: "fnv1a64 [] = 0xcbf29ce484222325"
  by (simp add: fnv1a64_def FNV_OFFSET_BASIS_def)

lemma fnv1a64_a: "fnv1a64 [0x61] = 0xaf63dc4c8601ec8c"
  by (simp add: fnv1a64_def FNV_OFFSET_BASIS_def FNV_PRIME_def)

lemma deterministic_jitter_bound: "deterministic_jitter base jitter \<le> jitter - 1"
  by (simp add: deterministic_jitter_def Suc_le_lessD less_Suc_eq_le [symmetric])

lemma length_to_le_bytes [simp]: "length (to_le_bytes w) = 8"
  by (simp add: to_le_bytes_def)

text \<open>What a gap resolves to is the image of a later local minute, at most six hours on.\<close>

lemma probe_gap_origin:
  "probe_gap env tz p n = Some t \<Longrightarrow>
     \<exists>k. 0 < k \<and> k \<le> n \<and> ce_from_local env tz (p + int k * MINUTE) = LocalSingle t"
proof (induction env tz p n rule: probe_gap.induct)
  case (2 env tz probe n)
  show ?case
  proof (cases "ce_from_local env tz (probe + MINUTE)")
    case (LocalSingle dt)
    then show ?thesis using "2.prems" by (intro exI [of _ 1]) simp
  next
    case (LocalAmbiguous a b)
    with 2 obtain k where "0 < k" "k \<le> n" "ce_from_local env tz (probe + MINUTE + int k * MINUTE) = LocalSingle t"
      by auto
    then show ?thesis by (intro exI [of _ "Suc k"]) (simp add: algebra_simps)
  next
    case LocalNone
    with 2 obtain k where "0 < k" "k \<le> n" "ce_from_local env tz (probe + MINUTE + int k * MINUTE) = LocalSingle t"
      by auto
    then show ?thesis by (intro exI [of _ "Suc k"]) (simp add: algebra_simps)
  qed
qed simp

lemma find_map_split:
  "find_map f xs = Some y \<Longrightarrow> \<exists>pre x post. xs = pre @ x # post \<and> (\<forall>z \<in> set pre. f z = None) \<and> f x = Some y"
proof (induction xs)
  case (Cons a xs)
  show ?case
  proof (cases "f a")
    case None
    with Cons obtain pre x post where "xs = pre @ x # post" "\<forall>z \<in> set pre. f z = None" "f x = Some y" by auto
    with None show ?thesis by (intro exI [of _ "a # pre"]) auto
  next
    case (Some b)
    with Cons.prems show ?thesis by (intro exI [of _ "[]"]) auto
  qed
qed simp

text \<open>
  The next firing of a cron trigger is that of the first of the schedule's next 732 local
  times that exists in the zone (or is moved out of a gap, or chosen in a fold, as configured), and
  it is delayed by less than the configured jitter, which is at most a day.
\<close>

theorem next_fire_exact:
  assumes "next_fire_after env expr tz after gap amb jitter = Ok t"
  shows "\<exists>schedule pre c post base.
    ce_schedule env (''0 '' @ expr) = Ok schedule \<and>
    ce_after env schedule (ce_to_local env tz after) 732 = pre @ c # post \<and>
    (\<forall>c' \<in> set pre. resolve_local env tz gap amb c' = None) \<and>
    resolve_local env tz gap amb c = Some base \<and>
    base \<le> t \<and> t < base + int (max 1 jitter) \<and> jitter \<le> 86400 * 1000000000"
proof -
  obtain schedule base where s: "ce_schedule env (''0 '' @ expr) = Ok schedule"
    and f: "find_map (resolve_local env tz gap amb) (naive_candidates env schedule (ce_to_local env tz after)) = Some base"
    and t: "t = base + int (deterministic_jitter base jitter)" and j: "jitter \<le> MAX_JITTER"
    using assms by (auto simp: next_fire_after_def Let_def split: if_splits sum.splits option.splits)
  obtain pre c post where c: "naive_candidates env schedule (ce_to_local env tz after) = pre @ c # post"
    "\<forall>z \<in> set pre. resolve_local env tz gap amb z = None" "resolve_local env tz gap amb c = Some base"
    using find_map_split [OF f] by blast
  have "deterministic_jitter base jitter < max 1 jitter"
    by (auto simp: deterministic_jitter_def)
  then have "t < base + int (max 1 jitter)" unfolding t by linarith
  then show ?thesis
    using s c j t by (intro exI conjI) (auto simp: naive_candidates_def MAX_JITTER_def NANOS_PER_SEC_def)
qed

text \<open>A zone without transitions and a schedule that fires at the next full minute.\<close>

definition next_minute :: "unit cron_env" where
  "next_minute =
     \<lparr>ce_schedule = (\<lambda>e. if e = ''0 * * * * *'' then Ok () else Err ''bad''),
      ce_after = (\<lambda>_ t n. take n [(t div MINUTE + 1) * MINUTE]),
      ce_to_local = (\<lambda>_ t. t), ce_from_local = (\<lambda>_ t. LocalSingle t), ce_in_range = (\<lambda>_. True)\<rparr>"

lemma next_minute_next:
  "next_fire_after next_minute ''* * * * *'' tz t gap amb 0 = Ok ((t div MINUTE + 1) * MINUTE)"
  by (simp add: next_fire_after_def next_minute_def naive_candidates_def resolve_local_def
      deterministic_jitter_def Let_def)

theorem next_fire_exact_witness:
  "\<exists>c. (90 * 1000000000 div MINUTE + 1) * MINUTE \<in> {c..<c + 1} \<and>
       resolve_local next_minute ''UTC'' GapSkip AmbFirst c = Some c"
  using next_fire_exact [OF next_minute_next [of "''UTC''" "90 * 1000000000" GapSkip AmbFirst]]
  by (auto simp: resolve_local_def next_minute_def)

text \<open>
  A zone whose clocks go back by an hour at instant zero, with a schedule that fires every minute.
  Asked half an hour after the change, when the repeated hour is running for the second time, the
  code answers with an instant of the first pass, 59 minutes before the time it was asked about:
  the next firing is not always after the given instant.
\<close>

definition fold_zone :: "unit cron_env" where
  "fold_zone =
     \<lparr>ce_schedule = (\<lambda>e. Ok ()),
      ce_after = (\<lambda>_ t n. map (\<lambda>i. (t div MINUTE + 1 + int i) * MINUTE) [0..<n]),
      ce_to_local = (\<lambda>_ t. if t < 0 then t + 60 * MINUTE else t),
      ce_from_local = (\<lambda>_ l. if l < 0 then LocalSingle (l - 60 * MINUTE)
                             else if l < 60 * MINUTE then LocalAmbiguous (l - 60 * MINUTE) l
                             else LocalSingle l),
      ce_in_range = (\<lambda>_. True)\<rparr>"

lemma fold_zone_simps:
  "ce_schedule fold_zone e = Ok ()" "ce_in_range fold_zone t"
  by (simp_all add: fold_zone_def)

theorem next_fire_may_go_back:
  "next_fire_after fold_zone ''* * * * *'' ''Z'' (30 * MINUTE) gap AmbFirst 0 = Ok (- 29 * MINUTE)"
proof -
  have "[0..<366 * 2] = 0 # [Suc 0..<366 * 2]" by (rule upt_conv_Cons) simp
  then obtain rest where c: "naive_candidates fold_zone () (30 * MINUTE) = 31 * MINUTE # rest"
    unfolding naive_candidates_def by (simp only: fold_zone_def cron_env.simps list.map) (simp add: MINUTE_def)
  have r: "resolve_local fold_zone ''Z'' gap AmbFirst (31 * MINUTE) = Some (- 29 * MINUTE)"
    by (simp add: resolve_local_def fold_zone_def MINUTE_def)
  have l: "ce_to_local fold_zone ''Z'' (30 * MINUTE) = 30 * MINUTE" by (simp add: fold_zone_def MINUTE_def)
  show ?thesis
    unfolding next_fire_after_def l
    using c r by (simp add: fold_zone_simps deterministic_jitter_def)
qed

end
