(* ===== verification/Sched_Store.thy ===== *)
theory Sched_Store
  imports Sched_Admission "HOL-Library.Product_Lexorder" "HOL-Library.List_Lexorder" "HOL-Library.Char_ord"
begin

text \<open>
  \<^verbatim>\<open>roundhouse-sched/src/store.rs\<close> and \<^verbatim>\<open>delivery.rs\<close>: the durable side of the scheduler.  The tables
  \<^verbatim>\<open>trigger_event\<close>, \<^verbatim>\<open>trigger_delivery\<close> and \<^verbatim>\<open>trigger_binding_cursor\<close> are lists of rows and a map,
  rows hold the column texts, and each function is one immediate transaction.  Any statement, the
  commit included, may fail: \<open>fault\<close> says which ones do, and a transaction that is not committed
  leaves the tables as they were.  The textual forms of ids and instants belong to libraries and
  are the fields of the \<open>sql_codec\<close> argument.  An instant is its number of nanoseconds.
\<close>

subsection \<open>Discriminants\<close>

datatype delivery_state =
    DsReady | DsLeased | DsReserved | DsRunning | DsDelivered | DsFailed
  | DsCancellationRequested | DsCancelled | DsSkipped

fun delivery_state_sql :: "delivery_state \<Rightarrow> string" where
  "delivery_state_sql DsReady = ''ready''"
| "delivery_state_sql DsLeased = ''leased''"
| "delivery_state_sql DsReserved = ''reserved''"
| "delivery_state_sql DsRunning = ''running''"
| "delivery_state_sql DsDelivered = ''delivered''"
| "delivery_state_sql DsFailed = ''failed''"
| "delivery_state_sql DsCancellationRequested = ''cancellation_requested''"
| "delivery_state_sql DsCancelled = ''cancelled''"
| "delivery_state_sql DsSkipped = ''skipped''"

datatype trigger_event_outcome =
    OcAdmitted | OcSkippedDueToOverlap | OcQueued | OcCancelledPreviousAndAdmitted
  | OcSkippedQueueFull | OcSkippedCancellationUnconfirmed

fun event_outcome_sql :: "trigger_event_outcome \<Rightarrow> string" where
  "event_outcome_sql OcAdmitted = ''admitted''"
| "event_outcome_sql OcSkippedDueToOverlap = ''skipped_due_to_overlap''"
| "event_outcome_sql OcQueued = ''queued''"
| "event_outcome_sql OcCancelledPreviousAndAdmitted = ''cancelled_previous_and_admitted''"
| "event_outcome_sql OcSkippedQueueFull = ''skipped_queue_full''"
| "event_outcome_sql OcSkippedCancellationUnconfirmed = ''skipped_cancellation_unconfirmed''"

datatype store_error =
    Sqlite
  | IdempotencyKeyTooLong nat nat
  | BindingIdentityMismatch binding_id binding_id
  | MalformedId string
  | OutOfRange string int
  | DeliveryUnrecognized string string
  | OutcomeUnrecognized string string
  | Admission registry_error

definition delivery_state_from_sql :: "string \<Rightarrow> (delivery_state, store_error) result" where
  "delivery_state_from_sql s =
     (if s = ''ready'' then Ok DsReady
      else if s = ''leased'' then Ok DsLeased
      else if s = ''reserved'' then Ok DsReserved
      else if s = ''running'' then Ok DsRunning
      else if s = ''delivered'' then Ok DsDelivered
      else if s = ''failed'' then Ok DsFailed
      else if s = ''cancellation_requested'' then Ok DsCancellationRequested
      else if s = ''cancelled'' then Ok DsCancelled
      else if s = ''skipped'' then Ok DsSkipped
      else Err (DeliveryUnrecognized ''trigger_delivery.state'' s))"

definition event_outcome_from_sql :: "string \<Rightarrow> (trigger_event_outcome, store_error) result" where
  "event_outcome_from_sql s =
     (if s = ''admitted'' then Ok OcAdmitted
      else if s = ''skipped_due_to_overlap'' then Ok OcSkippedDueToOverlap
      else if s = ''queued'' then Ok OcQueued
      else if s = ''cancelled_previous_and_admitted'' then Ok OcCancelledPreviousAndAdmitted
      else if s = ''skipped_queue_full'' then Ok OcSkippedQueueFull
      else if s = ''skipped_cancellation_unconfirmed'' then Ok OcSkippedCancellationUnconfirmed
      else Err (OutcomeUnrecognized ''trigger_event.outcome'' s))"

subsection \<open>Rows and tables\<close>

record trigger_delivery =
  td_delivery_id :: string
  td_trigger_event_id :: int
  td_binding_id :: binding_id
  td_state :: delivery_state
  td_attempts :: u32
  td_lease_expires_at :: "int option"
  td_run_id :: "string option"
  td_session_id :: "session_id option"
  td_last_error :: "string option"
  td_created_at :: int
  td_updated_at :: int

record trigger_event =
  te_binding_id :: binding_id
  te_idempotency_key :: string
  te_scheduled_for :: int
  te_fired_at :: int
  te_is_catch_up :: bool
  te_session_id :: "session_id option"
  te_outcome :: "trigger_event_outcome option"

record scheduled_occurrence =
  so_binding_id :: binding_id
  so_scheduled_for :: int
  so_is_catch_up :: bool

record stored_binding =
  sb_workspace :: workspace_id
  sb_binding :: binding

record event_row =
  er_id :: int
  er_binding_id :: string
  er_idempotency_key :: string
  er_scheduled_for :: string
  er_fired_at :: string
  er_is_catch_up :: bool
  er_session_id :: "string option"
  er_outcome :: "string option"

record delivery_row =
  dr_delivery_id :: string
  dr_trigger_event_id :: int
  dr_binding_id :: string
  dr_state :: string
  dr_attempts :: int
  dr_lease_expires_at :: "int option"
  dr_run_id :: "string option"
  dr_session_id :: "string option"
  dr_last_error :: "string option"
  dr_created_at :: int
  dr_updated_at :: int

text \<open>\<open>db_next_id\<close> is the next value of the \<^verbatim>\<open>AUTOINCREMENT\<close> sequence of \<^verbatim>\<open>trigger_event\<close>.\<close>

record sched_db =
  db_events :: "event_row list"
  db_next_id :: int
  db_deliveries :: "delivery_row list"
  db_cursors :: "string \<rightharpoonup> int option"

definition sched_db_new :: sched_db where
  "sched_db_new = \<lparr>db_events = [], db_next_id = 1, db_deliveries = [], db_cursors = Map.empty\<rparr>"

record sql_codec =
  uuid_str :: "nat \<Rightarrow> string"
  uuid_parse :: "string \<Rightarrow> nat option"
  rfc3339 :: "int \<Rightarrow> string"

text \<open>The statements that can fail, in the order the transactions issue them.\<close>

datatype sql_step =
    StBegin | StInsertEvent | StSelectEvent | StSelectDelivery | StUpdateOutcome
  | StSelectPrevious | StInsertDelivery | StRequestCancellation | StUpdateDelivery
  | StAdvanceCursor | StCommit

type_synonym faults = "sql_step \<Rightarrow> bool"

definition sql_update :: "('row \<Rightarrow> bool) \<Rightarrow> ('row \<Rightarrow> 'row) \<Rightarrow> 'row list \<Rightarrow> nat \<times> 'row list" where
  "sql_update P f rows = (length (filter P rows), map (\<lambda>r. if P r then f r else r) rows)"

fun res_mapM :: "('a \<Rightarrow> ('b, 'e) result) \<Rightarrow> 'a list \<Rightarrow> ('b list, 'e) result" where
  "res_mapM f [] = Ok []"
| "res_mapM f (x # xs) = res_bind (f x) (\<lambda>y. res_bind (res_mapM f xs) (\<lambda>ys. Ok (y # ys)))"

definition opt_transpose :: "('b, 'e) result option \<Rightarrow> ('b option, 'e) result" where
  "opt_transpose x = (case x of None \<Rightarrow> Ok None | Some r \<Rightarrow> res_bind r (\<lambda>y. Ok (Some y)))"

subsection \<open>Catch-up and keys\<close>

definition catch_up_policy :: "binding \<Rightarrow> catch_up option" where
  "catch_up_policy b = (case bd_spec b of TsCron _ _ c _ _ _ \<Rightarrow> Some c | _ \<Rightarrow> None)"

definition compute_catch_up :: "binding \<Rightarrow> int list \<Rightarrow> int list" where
  "compute_catch_up b missed =
     (case catch_up_policy b of
        None \<Rightarrow> missed
      | Some CatchUpNone \<Rightarrow> []
      | Some CatchUpAll \<Rightarrow> missed
      | Some CatchUpLatest \<Rightarrow> (if missed = [] then [] else [Max (set missed)]))"

definition occurrence_key :: "sql_codec \<Rightarrow> binding_id \<Rightarrow> int \<Rightarrow> string" where
  "occurrence_key cd b t = uuid_str cd b @ ''@'' @ rfc3339 cd t"

definition MAX_IDEMPOTENCY_KEY_LEN :: nat where
  "MAX_IDEMPOTENCY_KEY_LEN = 512"

text \<open>An instant that does not fit into 64 bits of nanoseconds becomes the epoch.\<close>

definition timestamp_from_datetime :: "int \<Rightarrow> int" where
  "timestamp_from_datetime dt = (if - (2 ^ 63) \<le> dt \<and> dt < 2 ^ 63 then dt else 0)"

subsection \<open>Reading rows\<close>

definition parse_id :: "sql_codec \<Rightarrow> string \<Rightarrow> string \<Rightarrow> (nat, store_error) result" where
  "parse_id cd s column = ok_or (MalformedId column) (uuid_parse cd s)"

definition decode_delivery_row :: "sql_codec \<Rightarrow> delivery_row \<Rightarrow> (trigger_delivery, store_error) result" where
  "decode_delivery_row cd raw =
     (if \<not> (0 \<le> dr_attempts raw \<and> dr_attempts raw < 2 ^ 32)
      then Err (OutOfRange ''trigger_delivery.attempts'' (dr_attempts raw))
      else
        res_bind (parse_id cd (dr_binding_id raw) ''trigger_delivery.binding_id'') (\<lambda>b.
        res_bind (delivery_state_from_sql (dr_state raw)) (\<lambda>st.
        res_bind (opt_transpose (map_option (\<lambda>s. parse_id cd s ''trigger_delivery.session_id'')
                    (dr_session_id raw))) (\<lambda>sid.
        Ok \<lparr>td_delivery_id = dr_delivery_id raw, td_trigger_event_id = dr_trigger_event_id raw,
            td_binding_id = b, td_state = st, td_attempts = word_of_int (dr_attempts raw),
            td_lease_expires_at = dr_lease_expires_at raw, td_run_id = dr_run_id raw,
            td_session_id = sid, td_last_error = dr_last_error raw,
            td_created_at = dr_created_at raw, td_updated_at = dr_updated_at raw\<rparr>))))"

definition delivery_to_row :: "sql_codec \<Rightarrow> trigger_delivery \<Rightarrow> delivery_row" where
  "delivery_to_row cd d =
     \<lparr>dr_delivery_id = td_delivery_id d, dr_trigger_event_id = td_trigger_event_id d,
      dr_binding_id = uuid_str cd (td_binding_id d), dr_state = delivery_state_sql (td_state d),
      dr_attempts = uint (td_attempts d), dr_lease_expires_at = td_lease_expires_at d,
      dr_run_id = td_run_id d, dr_session_id = map_option (uuid_str cd) (td_session_id d),
      dr_last_error = td_last_error d, dr_created_at = td_created_at d,
      dr_updated_at = td_updated_at d\<rparr>"

definition select_delivery_by_trigger_event_id ::
  "sql_codec \<Rightarrow> faults \<Rightarrow> sched_db \<Rightarrow> int \<Rightarrow> (trigger_delivery option, store_error) result" where
  "select_delivery_by_trigger_event_id cd fault db eid =
     (if fault StSelectDelivery then Err Sqlite
      else opt_transpose (map_option (decode_delivery_row cd)
             (List.find (\<lambda>d. dr_trigger_event_id d = eid) (db_deliveries db))))"

definition terminal_states :: "string list" where
  "terminal_states = [''delivered'', ''failed'', ''cancelled'', ''skipped'']"

definition delivery_order :: "delivery_row \<Rightarrow> int \<times> string" where
  "delivery_order d = (dr_created_at d, dr_delivery_id d)"

definition select_latest_nonterminal_delivery ::
  "sql_codec \<Rightarrow> faults \<Rightarrow> sched_db \<Rightarrow> binding_id \<Rightarrow> (trigger_delivery option, store_error) result" where
  "select_latest_nonterminal_delivery cd fault db b =
     (if fault StSelectPrevious then Err Sqlite
      else opt_transpose (map_option (decode_delivery_row cd)
             (case rev (sort_key delivery_order
                     (filter (\<lambda>d. dr_binding_id d = uuid_str cd b \<and> dr_state d \<notin> set terminal_states)
                        (db_deliveries db))) of
                [] \<Rightarrow> None | d # _ \<Rightarrow> Some d)))"

definition fetch_delivery ::
  "sql_codec \<Rightarrow> faults \<Rightarrow> sched_db \<Rightarrow> string \<Rightarrow> (trigger_delivery option, store_error) result" where
  "fetch_delivery cd fault db did =
     (if fault StSelectDelivery then Err Sqlite
      else opt_transpose (map_option (decode_delivery_row cd)
             (List.find (\<lambda>d. dr_delivery_id d = did) (db_deliveries db))))"

definition fetch_trigger_event_outcome ::
  "faults \<Rightarrow> sched_db \<Rightarrow> int \<Rightarrow> (trigger_event_outcome option, store_error) result" where
  "fetch_trigger_event_outcome fault db eid =
     (if fault StSelectEvent then Err Sqlite
      else opt_transpose (map_option event_outcome_from_sql
             (Option.bind (List.find (\<lambda>e. er_id e = eid) (db_events db)) er_outcome)))"

definition list_ready_deliveries ::
  "sql_codec \<Rightarrow> faults \<Rightarrow> sched_db \<Rightarrow> nat \<Rightarrow> (trigger_delivery list, store_error) result" where
  "list_ready_deliveries cd fault db limit =
     (if fault StSelectDelivery then Err Sqlite
      else res_mapM (decode_delivery_row cd)
             (take (min limit (2 ^ 63 - 1))
                (sort_key delivery_order (filter (\<lambda>d. dr_state d = ''ready'') (db_deliveries db)))))"

definition list_deliveries_in_states ::
  "sql_codec \<Rightarrow> faults \<Rightarrow> sched_db \<Rightarrow> delivery_state list \<Rightarrow> (trigger_delivery list, store_error) result" where
  "list_deliveries_in_states cd fault db states =
     (if states = [] then Ok []
      else if fault StSelectDelivery then Err Sqlite
      else res_mapM (decode_delivery_row cd)
             (sort_key delivery_order
                (filter (\<lambda>d. dr_state d \<in> set (map delivery_state_sql states)) (db_deliveries db))))"

subsection \<open>Statements inside a transaction\<close>

definition insert_trigger_event_in_txn ::
  "sql_codec \<Rightarrow> faults \<Rightarrow> sched_db \<Rightarrow> trigger_event \<Rightarrow> (int option, store_error) result \<times> sched_db" where
  "insert_trigger_event_in_txn cd fault db ev =
     (if length (te_idempotency_key ev) > MAX_IDEMPOTENCY_KEY_LEN
      then (Err (IdempotencyKeyTooLong (length (te_idempotency_key ev)) MAX_IDEMPOTENCY_KEY_LEN), db)
      else if fault StInsertEvent then (Err Sqlite, db)
      else if list_ex (\<lambda>e. er_binding_id e = uuid_str cd (te_binding_id ev) \<and>
                            er_idempotency_key e = te_idempotency_key ev) (db_events db)
      then (Ok None, db)
      else (Ok (Some (db_next_id db)),
            db\<lparr>db_events := db_events db @
                 [\<lparr>er_id = db_next_id db, er_binding_id = uuid_str cd (te_binding_id ev),
                   er_idempotency_key = te_idempotency_key ev,
                   er_scheduled_for = rfc3339 cd (te_scheduled_for ev),
                   er_fired_at = rfc3339 cd (te_fired_at ev), er_is_catch_up = te_is_catch_up ev,
                   er_session_id = map_option (uuid_str cd) (te_session_id ev),
                   er_outcome = None\<rparr>],
               db_next_id := db_next_id db + 1\<rparr>))"

definition record_trigger_event ::
  "sql_codec \<Rightarrow> faults \<Rightarrow> sched_db \<Rightarrow> trigger_event \<Rightarrow> (bool, store_error) result \<times> sched_db" where
  "record_trigger_event cd fault db ev =
     (if fault StBegin then (Err Sqlite, db)
      else case insert_trigger_event_in_txn cd fault db ev of
             (Inl e, _) \<Rightarrow> (Err e, db)
           | (Inr inserted, db') \<Rightarrow>
               if fault StCommit then (Err Sqlite, db) else (Ok (inserted \<noteq> None), db'))"

fun decision_creates_delivery :: "admission_decision \<Rightarrow> bool" where
  "decision_creates_delivery Admit = True"
| "decision_creates_delivery (QueueAt _) = True"
| "decision_creates_delivery CancelledPreviousAndAdmit = True"
| "decision_creates_delivery _ = False"

fun outcome_for_decision :: "admission_decision \<Rightarrow> trigger_event_outcome" where
  "outcome_for_decision Admit = OcAdmitted"
| "outcome_for_decision SkipDueToOverlap = OcSkippedDueToOverlap"
| "outcome_for_decision (QueueAt _) = OcQueued"
| "outcome_for_decision CancelledPreviousAndAdmit = OcCancelledPreviousAndAdmitted"
| "outcome_for_decision (SkippedQueueFull _) = OcSkippedQueueFull"
| "outcome_for_decision SkippedCancellationUnconfirmed = OcSkippedCancellationUnconfirmed"

text \<open>The primary key of \<^verbatim>\<open>trigger_delivery\<close> refuses a second row with the same id.\<close>

definition insert_delivery_in_txn ::
  "sql_codec \<Rightarrow> faults \<Rightarrow> sched_db \<Rightarrow> trigger_delivery \<Rightarrow> (unit, store_error) result \<times> sched_db" where
  "insert_delivery_in_txn cd fault db d =
     (if fault StInsertDelivery \<or> list_ex (\<lambda>r. dr_delivery_id r = td_delivery_id d) (db_deliveries db)
      then (Err Sqlite, db)
      else (Ok (), db\<lparr>db_deliveries := db_deliveries db @ [delivery_to_row cd d]\<rparr>))"

definition advance_cursor_in_txn ::
  "sql_codec \<Rightarrow> faults \<Rightarrow> sched_db \<Rightarrow> binding_id \<Rightarrow> int \<Rightarrow> (unit, store_error) result \<times> sched_db" where
  "advance_cursor_in_txn cd fault db b scheduled_for =
     (if fault StAdvanceCursor then (Err Sqlite, db)
      else let nanos = timestamp_from_datetime scheduled_for; k = uuid_str cd b;
               next = (case db_cursors db k of
                         Some (Some old) \<Rightarrow> (if nanos > old then nanos else old)
                       | _ \<Rightarrow> nanos)
           in (Ok (), db\<lparr>db_cursors := (db_cursors db)(k \<mapsto> Some next)\<rparr>))"

definition request_cancellation_in_txn ::
  "faults \<Rightarrow> sched_db \<Rightarrow> string \<Rightarrow> delivery_state \<Rightarrow> int \<Rightarrow> (bool, store_error) result \<times> sched_db" where
  "request_cancellation_in_txn fault db did expected now =
     (if fault StRequestCancellation then (Err Sqlite, db)
      else let (n, rows) = sql_update
                 (\<lambda>d. dr_delivery_id d = did \<and> dr_state d = delivery_state_sql expected)
                 (\<lambda>d. d\<lparr>dr_state := ''cancellation_requested'', dr_updated_at := now\<rparr>)
                 (db_deliveries db)
           in (Ok (n > 0), db\<lparr>db_deliveries := rows\<rparr>))"

definition request_cancellation ::
  "faults \<Rightarrow> sched_db \<Rightarrow> string \<Rightarrow> delivery_state \<Rightarrow> int \<Rightarrow> (bool, store_error) result \<times> sched_db" where
  "request_cancellation fault db did expected now =
     (if fault StBegin then (Err Sqlite, db)
      else case request_cancellation_in_txn fault db did expected now of
             (Inl e, _) \<Rightarrow> (Err e, db)
           | (Inr applied, db') \<Rightarrow> if fault StCommit then (Err Sqlite, db) else (Ok applied, db'))"

subsection \<open>Accepting an occurrence\<close>

datatype acceptance =
    AccNew int admission_decision trigger_event_outcome "trigger_delivery option"
  | AccDuplicate int "trigger_event_outcome option" "trigger_delivery option"

definition compensate_registry_charge ::
  "'r registry_ops \<Rightarrow> admission_decision option \<Rightarrow> 'r \<times> gates \<Rightarrow> binding_id \<Rightarrow> 'r \<times> gates" where
  "compensate_registry_charge ops charged s b =
     (case charged of
        Some Admit \<Rightarrow> snd (reg_call (rr_note_finished ops) b s)
      | Some CancelledPreviousAndAdmit \<Rightarrow> snd (reg_call (rr_note_finished ops) b s)
      | Some (QueueAt _) \<Rightarrow> snd (reg_call (rr_note_dequeued ops) b s)
      | _ \<Rightarrow> s)"

text \<open>The branch of the attempt on which the row was already there.\<close>

definition duplicate_of ::
  "sql_codec \<Rightarrow> faults \<Rightarrow> sched_db \<Rightarrow> trigger_event \<Rightarrow> (acceptance, store_error) result" where
  "duplicate_of cd fault db ev =
     (case (if fault StSelectEvent then None
            else List.find (\<lambda>e. er_binding_id e = uuid_str cd (te_binding_id ev) \<and>
                                er_idempotency_key e = te_idempotency_key ev) (db_events db)) of
        None \<Rightarrow> Err Sqlite
      | Some e \<Rightarrow>
          res_bind (opt_transpose (map_option event_outcome_from_sql (er_outcome e))) (\<lambda>oc.
          res_bind (select_delivery_by_trigger_event_id cd fault db (er_id e)) (\<lambda>d.
          Ok (AccDuplicate (er_id e) oc d))))"

definition ready_delivery :: "string \<Rightarrow> int \<Rightarrow> binding_id \<Rightarrow> int \<Rightarrow> trigger_delivery" where
  "ready_delivery new_id eid b ts =
     \<lparr>td_delivery_id = new_id, td_trigger_event_id = eid, td_binding_id = b, td_state = DsReady,
      td_attempts = 0, td_lease_expires_at = None, td_run_id = None, td_session_id = None,
      td_last_error = None, td_created_at = ts, td_updated_at = ts\<rparr>"

text \<open>The branch of a new row, after the decision: outcome, delivery, cancellation.\<close>

definition store_decision ::
  "sql_codec \<Rightarrow> faults \<Rightarrow> string \<Rightarrow> binding_id \<Rightarrow> int \<Rightarrow> int \<Rightarrow> admission_decision \<Rightarrow> sched_db
     \<Rightarrow> (acceptance, store_error) result \<times> sched_db" where
  "store_decision cd fault new_id b eid ts d db =
     (if fault StUpdateOutcome then (Err Sqlite, db)
      else
        let oc = outcome_for_decision d;
            db = db\<lparr>db_events := map (\<lambda>e. if er_id e = eid
                      then e\<lparr>er_outcome := Some (event_outcome_sql oc)\<rparr> else e) (db_events db)\<rparr>
        in case (if d = CancelledPreviousAndAdmit
                 then select_latest_nonterminal_delivery cd fault db b else Ok None) of
             Inl e \<Rightarrow> (Err e, db)
           | Inr previous \<Rightarrow>
               (let delivery = (if decision_creates_delivery d
                                then Some (ready_delivery new_id eid b ts) else None)
                in case (case delivery of None \<Rightarrow> (Ok (), db)
                         | Some td \<Rightarrow> insert_delivery_in_txn cd fault db td) of
                     (Inl e, db) \<Rightarrow> (Err e, db)
                   | (Inr _, db) \<Rightarrow>
                       (case (case previous of None \<Rightarrow> (Ok False, db)
                              | Some p \<Rightarrow> request_cancellation_in_txn fault db
                                            (td_delivery_id p) (td_state p) ts) of
                          (Inl e, db) \<Rightarrow> (Err e, db)
                        | (Inr _, db) \<Rightarrow> (Ok (AccNew eid d oc delivery), db))))"

definition accept_attempt ::
  "sql_codec \<Rightarrow> 'r registry_ops \<Rightarrow> faults \<Rightarrow> string \<Rightarrow> stored_binding \<Rightarrow> scheduled_occurrence \<Rightarrow> int
     \<Rightarrow> trigger_event \<Rightarrow> sched_db \<Rightarrow> 'r \<times> gates
     \<Rightarrow> (acceptance, store_error) result \<times> admission_decision option \<times> sched_db \<times> 'r \<times> gates" where
  "accept_attempt cd ops fault new_id sb occ ts ev db s =
     (case insert_trigger_event_in_txn cd fault db ev of
        (Inl e, db) \<Rightarrow> (Err e, None, db, s)
      | (Inr None, db) \<Rightarrow> (duplicate_of cd fault db ev, None, db, s)
      | (Inr (Some eid), db) \<Rightarrow>
          (case decide_admission ops (bd_overlap (sb_binding sb)) s (so_binding_id occ) of
             (Inl e, s) \<Rightarrow> (Err (Admission e), None, db, s)
           | (Inr d, s) \<Rightarrow>
               (let (x, db) = store_decision cd fault new_id (so_binding_id occ) eid ts d db
                in (x, Some d, db, s))))"

definition occurrence_event :: "sql_codec \<Rightarrow> scheduled_occurrence \<Rightarrow> int \<Rightarrow> trigger_event" where
  "occurrence_event cd occ fired_at =
     \<lparr>te_binding_id = so_binding_id occ,
      te_idempotency_key = occurrence_key cd (so_binding_id occ) (so_scheduled_for occ),
      te_scheduled_for = so_scheduled_for occ, te_fired_at = fired_at,
      te_is_catch_up = so_is_catch_up occ, te_session_id = None, te_outcome = None\<rparr>"

definition accept_occurrence ::
  "sql_codec \<Rightarrow> 'r registry_ops \<Rightarrow> faults \<Rightarrow> string \<Rightarrow> stored_binding \<Rightarrow> scheduled_occurrence \<Rightarrow> int
     \<Rightarrow> sched_db \<Rightarrow> 'r \<times> gates \<Rightarrow> (acceptance, store_error) result \<times> sched_db \<times> 'r \<times> gates" where
  "accept_occurrence cd ops fault new_id sb occ fired_at db s =
     (let b = so_binding_id occ in
      if bd_id (sb_binding sb) \<noteq> b
      then (Err (BindingIdentityMismatch (bd_id (sb_binding sb)) b), db, s)
      else if fault StBegin then (Err Sqlite, db, s)
      else
        case accept_attempt cd ops fault new_id sb occ (timestamp_from_datetime fired_at)
               (occurrence_event cd occ fired_at) db s of
             (Inl e, charged, _, s) \<Rightarrow> (Err e, db, compensate_registry_charge ops charged s b)
           | (Inr a, charged, db1, s) \<Rightarrow>
               (case advance_cursor_in_txn cd fault db1 b (so_scheduled_for occ) of
                  (Inl e, _) \<Rightarrow> (Err e, db, compensate_registry_charge ops charged s b)
                | (Inr _, db2) \<Rightarrow>
                    if fault StCommit then (Err Sqlite, db, compensate_registry_charge ops charged s b)
                    else (Ok a, db2, s)))"

subsection \<open>The delivery state machine\<close>

text \<open>One conditional \<^verbatim>\<open>UPDATE\<close> in its own transaction; \<open>bad\<close> is a violated constraint.\<close>

definition delivery_txn ::
  "faults \<Rightarrow> bool \<Rightarrow> (delivery_row \<Rightarrow> bool) \<Rightarrow> (delivery_row \<Rightarrow> delivery_row) \<Rightarrow> sched_db
     \<Rightarrow> (bool, store_error) result \<times> sched_db" where
  "delivery_txn fault bad P f db =
     (if fault StBegin \<or> fault StUpdateDelivery \<or> bad \<or> fault StCommit then (Err Sqlite, db)
      else let (n, rows) = sql_update P f (db_deliveries db)
           in (Ok (n > 0), db\<lparr>db_deliveries := rows\<rparr>))"

definition lease_delivery ::
  "faults \<Rightarrow> sched_db \<Rightarrow> string \<Rightarrow> int \<Rightarrow> int \<Rightarrow> (bool, store_error) result \<times> sched_db" where
  "lease_delivery fault db did lease_expires_at now =
     delivery_txn fault False
       (\<lambda>d. dr_delivery_id d = did \<and> dr_state d = ''ready'')
       (\<lambda>d. d\<lparr>dr_state := ''leased'', dr_lease_expires_at := Some lease_expires_at, dr_updated_at := now\<rparr>) db"

definition reclaim_expired_lease ::
  "faults \<Rightarrow> sched_db \<Rightarrow> string \<Rightarrow> int \<Rightarrow> (bool, store_error) result \<times> sched_db" where
  "reclaim_expired_lease fault db did now =
     delivery_txn fault False
       (\<lambda>d. dr_delivery_id d = did \<and> dr_state d = ''leased'' \<and>
            (case dr_lease_expires_at d of None \<Rightarrow> False | Some t \<Rightarrow> t \<le> now))
       (\<lambda>d. d\<lparr>dr_state := ''ready'', dr_lease_expires_at := None, dr_updated_at := now\<rparr>) db"

text \<open>Two partial unique indexes forbid a run id or a session id on two deliveries.\<close>

definition reserve_delivery ::
  "sql_codec \<Rightarrow> faults \<Rightarrow> sched_db \<Rightarrow> string \<Rightarrow> string \<Rightarrow> session_id \<Rightarrow> int \<Rightarrow> (bool, store_error) result \<times> sched_db" where
  "reserve_delivery cd fault db did run_id sid now =
     (let P = (\<lambda>d. dr_delivery_id d = did \<and> dr_state d = ''leased'')
      in delivery_txn fault
           (list_ex P (db_deliveries db) \<and>
            list_ex (\<lambda>d. \<not> P d \<and> (dr_run_id d = Some run_id \<or> dr_session_id d = Some (uuid_str cd sid)))
              (db_deliveries db)) P
           (\<lambda>d. d\<lparr>dr_state := ''reserved'', dr_run_id := Some run_id,
                  dr_session_id := Some (uuid_str cd sid), dr_updated_at := now\<rparr>) db)"

definition mark_delivery_running ::
  "faults \<Rightarrow> sched_db \<Rightarrow> string \<Rightarrow> int \<Rightarrow> (bool, store_error) result \<times> sched_db" where
  "mark_delivery_running fault db did now =
     delivery_txn fault False
       (\<lambda>d. dr_delivery_id d = did \<and> dr_state d = ''reserved'')
       (\<lambda>d. d\<lparr>dr_state := ''running'', dr_updated_at := now\<rparr>) db"

definition complete_delivery ::
  "faults \<Rightarrow> sched_db \<Rightarrow> string \<Rightarrow> int \<Rightarrow> (bool, store_error) result \<times> sched_db" where
  "complete_delivery fault db did now =
     delivery_txn fault False
       (\<lambda>d. dr_delivery_id d = did \<and> dr_state d \<in> set [''running'', ''cancellation_requested''])
       (\<lambda>d. d\<lparr>dr_state := ''delivered'', dr_updated_at := now\<rparr>) db"

text \<open>A counter at the 64-bit limit does not stay an integer, which the \<^verbatim>\<open>STRICT\<close> table refuses.\<close>

definition fail_delivery ::
  "faults \<Rightarrow> sched_db \<Rightarrow> string \<Rightarrow> string \<Rightarrow> int \<Rightarrow> (bool, store_error) result \<times> sched_db" where
  "fail_delivery fault db did err now =
     (let P = (\<lambda>d. dr_delivery_id d = did \<and>
                   dr_state d \<in> set [''running'', ''reserved'', ''cancellation_requested''])
      in delivery_txn fault (list_ex (\<lambda>d. P d \<and> dr_attempts d + 1 \<ge> 2 ^ 63) (db_deliveries db)) P
           (\<lambda>d. d\<lparr>dr_state := ''failed'', dr_last_error := Some err,
                  dr_attempts := dr_attempts d + 1, dr_updated_at := now\<rparr>) db)"

definition cancel_delivery ::
  "faults \<Rightarrow> sched_db \<Rightarrow> string \<Rightarrow> int \<Rightarrow> (bool, store_error) result \<times> sched_db" where
  "cancel_delivery fault db did now =
     delivery_txn fault False
       (\<lambda>d. dr_delivery_id d = did \<and>
            dr_state d \<in> set [''running'', ''reserved'', ''cancellation_requested''])
       (\<lambda>d. d\<lparr>dr_state := ''cancelled'', dr_updated_at := now\<rparr>) db"

subsection \<open>Histories\<close>

text \<open>
  A call on the store.  Each call has its own faults, and an acceptance finds the registry in
  whatever state it is in by then.
\<close>

datatype 'r store_op =
    SAccept faults string stored_binding scheduled_occurrence int "'r \<times> gates"
  | SRecord faults trigger_event
  | SRequestCancellation faults string delivery_state int
  | SLease faults string int int
  | SReclaim faults string int
  | SReserve faults string string session_id int
  | SRunning faults string int
  | SComplete faults string int
  | SFail faults string string int
  | SCancel faults string int

fun store_step :: "sql_codec \<Rightarrow> 'r registry_ops \<Rightarrow> sched_db \<Rightarrow> 'r store_op \<Rightarrow> sched_db" where
  "store_step cd ops db (SAccept fault new_id sb occ fired_at s) =
     fst (snd (accept_occurrence cd ops fault new_id sb occ fired_at db s))"
| "store_step cd ops db (SRecord fault ev) = snd (record_trigger_event cd fault db ev)"
| "store_step cd ops db (SRequestCancellation fault did expected now) =
     snd (request_cancellation fault db did expected now)"
| "store_step cd ops db (SLease fault did t now) = snd (lease_delivery fault db did t now)"
| "store_step cd ops db (SReclaim fault did now) = snd (reclaim_expired_lease fault db did now)"
| "store_step cd ops db (SReserve fault did run_id sid now) =
     snd (reserve_delivery cd fault db did run_id sid now)"
| "store_step cd ops db (SRunning fault did now) = snd (mark_delivery_running fault db did now)"
| "store_step cd ops db (SComplete fault did now) = snd (complete_delivery fault db did now)"
| "store_step cd ops db (SFail fault did err now) = snd (fail_delivery fault db did err now)"
| "store_step cd ops db (SCancel fault did now) = snd (cancel_delivery fault db did now)"

definition admitting_event :: "event_row \<Rightarrow> bool" where
  "admitting_event e \<longleftrightarrow>
     er_outcome e \<in> Some ` set [''admitted'', ''queued'', ''cancelled_previous_and_admitted'']"

abbreviation event_keys :: "sched_db \<Rightarrow> (string \<times> string) list" where
  "event_keys db \<equiv> map (\<lambda>e. (er_binding_id e, er_idempotency_key e)) (db_events db)"

abbreviation delivery_keys :: "delivery_row list \<Rightarrow> (string \<times> int \<times> string) list" where
  "delivery_keys ds \<equiv> map (\<lambda>d. (dr_delivery_id d, dr_trigger_event_id d, dr_binding_id d)) ds"

text \<open>
  The tables agree: occurrences are recorded once, ids are fresh, and the deliveries are, in
  order, those of the events whose recorded outcome admits.
\<close>

definition db_ok :: "sched_db \<Rightarrow> bool" where
  "db_ok db \<longleftrightarrow>
     distinct (event_keys db) \<and> distinct (map er_id (db_events db)) \<and>
     (\<forall>e \<in> set (db_events db). er_id e < db_next_id db) \<and>
     distinct (map fst (delivery_keys (db_deliveries db))) \<and>
     map snd (delivery_keys (db_deliveries db)) =
       map (\<lambda>e. (er_id e, er_binding_id e)) (filter admitting_event (db_events db))"

subsection \<open>Effects of the calls\<close>

lemma event_outcome_roundtrip [simp]: "event_outcome_from_sql (event_outcome_sql oc) = Ok oc"
  by (cases oc) (simp_all add: event_outcome_from_sql_def)

lemma delivery_state_roundtrip [simp]: "delivery_state_from_sql (delivery_state_sql st) = Ok st"
  by (cases st) (simp_all add: delivery_state_from_sql_def)

lemma delivery_state_from_sql_inverse:
  "delivery_state_from_sql s = Ok st \<Longrightarrow> delivery_state_sql st = s"
  by (auto simp: delivery_state_from_sql_def split: if_splits)

lemma res_bind_Ok_iff: "res_bind x f = Ok y \<longleftrightarrow> (\<exists>a. x = Ok a \<and> f a = Ok y)"
  by (cases x) auto

lemma opt_transpose_Ok_iff:
  "opt_transpose x = Ok y \<longleftrightarrow> (case x of None \<Rightarrow> y = None | Some r \<Rightarrow> \<exists>a. r = Ok a \<and> y = Some a)"
  by (cases x) (auto simp: opt_transpose_def res_bind_Ok_iff)

lemma decode_delivery_row_Ok:
  assumes "decode_delivery_row cd raw = Ok d"
  shows "td_delivery_id d = dr_delivery_id raw" "delivery_state_sql (td_state d) = dr_state raw"
    "td_trigger_event_id d = dr_trigger_event_id raw"
  using assms
  by (auto simp: decode_delivery_row_def res_bind_Ok_iff delivery_state_from_sql_inverse
      split: if_splits)

lemma delivery_row_roundtrip:
  assumes "\<And>n. uuid_parse cd (uuid_str cd n) = Some n"
  shows "decode_delivery_row cd (delivery_to_row cd d) = Ok d"
proof -
  have "uint (td_attempts d) < 2 ^ 32"
    using uint_lt2p [of "td_attempts d"] by simp
  then show ?thesis
    by (cases "td_session_id d")
      (simp_all add: decode_delivery_row_def delivery_to_row_def parse_id_def ok_or_def assms
        opt_transpose_def)
qed

lemma delivery_txn_snd:
  "snd (delivery_txn fault bad P f db) =
     (if fault StBegin \<or> fault StUpdateDelivery \<or> bad \<or> fault StCommit then db
      else db\<lparr>db_deliveries := map (\<lambda>r. if P r then f r else r) (db_deliveries db)\<rparr>)"
  by (auto simp: delivery_txn_def sql_update_def)

lemma delivery_keys_update:
  assumes "\<And>d. (dr_delivery_id (f d), dr_trigger_event_id (f d), dr_binding_id (f d))
                = (dr_delivery_id d, dr_trigger_event_id d, dr_binding_id d)"
  shows "delivery_keys (map (\<lambda>r. if P r then f r else r) ds) = delivery_keys ds"
  using assms by (auto simp: comp_def)

lemmas delivery_op_defs = lease_delivery_def reclaim_expired_lease_def reserve_delivery_def
  mark_delivery_running_def complete_delivery_def fail_delivery_def cancel_delivery_def

lemma select_latest_nonterminal_Ok:
  assumes "select_latest_nonterminal_delivery cd fault db b = Ok (Some p)"
  shows "\<exists>r \<in> set (db_deliveries db). dr_delivery_id r = td_delivery_id p \<and>
           dr_state r = delivery_state_sql (td_state p) \<and> dr_state r \<notin> set terminal_states"
proof -
  let ?rows = "sort_key delivery_order (filter (\<lambda>d. dr_binding_id d = uuid_str cd b \<and>
                 dr_state d \<notin> set terminal_states) (db_deliveries db))"
  obtain r rs where r: "rev ?rows = r # rs" and d: "decode_delivery_row cd r = Ok p"
    using assms by (auto simp: select_latest_nonterminal_delivery_def opt_transpose_Ok_iff
        split: if_splits list.splits)
  have "r \<in> set (rev ?rows)" by (simp only: r list.set_intros)
  then have "r \<in> set (db_deliveries db)" "dr_state r \<notin> set terminal_states" by auto
  with decode_delivery_row_Ok [OF d] show ?thesis by auto
qed

lemma ready_delivery_fields [simp]:
  "td_delivery_id (ready_delivery new_id eid b ts) = new_id"
  "td_trigger_event_id (ready_delivery new_id eid b ts) = eid"
  "td_binding_id (ready_delivery new_id eid b ts) = b"
  by (simp_all add: ready_delivery_def)

text \<open>What a successful \<open>store_decision\<close> does to the tables.\<close>

lemma store_decision_Ok:
  assumes "store_decision cd fault new_id b eid ts d db = (Ok a, db')"
  obtains P where
    "a = AccNew eid d (outcome_for_decision d)
           (if decision_creates_delivery d then Some (ready_delivery new_id eid b ts) else None)"
    "db' = db\<lparr>db_events := map (\<lambda>e. if er_id e = eid
                then e\<lparr>er_outcome := Some (event_outcome_sql (outcome_for_decision d))\<rparr> else e) (db_events db),
              db_deliveries := map (\<lambda>r. if P r then r\<lparr>dr_state := ''cancellation_requested'', dr_updated_at := ts\<rparr> else r)
                (db_deliveries db @ (if decision_creates_delivery d
                   then [delivery_to_row cd (ready_delivery new_id eid b ts)] else []))\<rparr>"
    "\<forall>r. P r \<longrightarrow> dr_state r \<notin> set terminal_states"
    "decision_creates_delivery d \<Longrightarrow> new_id \<notin> dr_delivery_id ` set (db_deliveries db)"
proof -
  let ?delivery = "if decision_creates_delivery d then Some (ready_delivery new_id eid b ts) else None"
  define db1 where "db1 = db\<lparr>db_events := map (\<lambda>e. if er_id e = eid
      then e\<lparr>er_outcome := Some (event_outcome_sql (outcome_for_decision d))\<rparr> else e) (db_events db)\<rparr>"
  define db2 where "db2 = db1\<lparr>db_deliveries := db_deliveries db @ (if decision_creates_delivery d
      then [delivery_to_row cd (ready_delivery new_id eid b ts)] else [])\<rparr>"
  have unfold: "(if fault StUpdateOutcome then (Err Sqlite, db)
      else case (if d = CancelledPreviousAndAdmit
                 then select_latest_nonterminal_delivery cd fault db1 b else Ok None) of
             Inl e \<Rightarrow> (Err e, db1)
           | Inr previous \<Rightarrow>
               (case (case ?delivery of None \<Rightarrow> (Ok (), db1)
                         | Some td \<Rightarrow> insert_delivery_in_txn cd fault db1 td) of
                     (Inl e, db) \<Rightarrow> (Err e, db)
                   | (Inr _, db) \<Rightarrow>
                       (case (case previous of None \<Rightarrow> (Ok False, db)
                              | Some p \<Rightarrow> request_cancellation_in_txn fault db
                                            (td_delivery_id p) (td_state p) ts) of
                          (Inl e, db) \<Rightarrow> (Err e, db)
                        | (Inr _, db) \<Rightarrow> (Ok (AccNew eid d (outcome_for_decision d) ?delivery), db))))
      = (Ok a, db')"
    using assms by (simp only: store_decision_def Let_def db1_def)
  obtain previous where prev: "(if d = CancelledPreviousAndAdmit
      then select_latest_nonterminal_delivery cd fault db1 b else Ok None) = Ok previous"
    using unfold by (auto split: if_splits sum.splits)
  have ins: "(case ?delivery of None \<Rightarrow> (Ok (), db1) | Some td \<Rightarrow> insert_delivery_in_txn cd fault db1 td)
      = (Ok (), db2)"
    and new: "decision_creates_delivery d \<Longrightarrow> new_id \<notin> dr_delivery_id ` set (db_deliveries db)"
    using unfold by (auto simp: prev insert_delivery_in_txn_def db1_def db2_def list_ex_iff
        split: if_splits)
  obtain x where rest: "(case previous of None \<Rightarrow> (Ok False, db2)
      | Some p \<Rightarrow> request_cancellation_in_txn fault db2 (td_delivery_id p) (td_state p) ts) = (Ok x, db')"
    and a: "a = AccNew eid d (outcome_for_decision d) ?delivery"
    using unfold by (auto simp: prev ins split: if_splits prod.splits sum.splits)
  show thesis
  proof (cases previous)
    case None
    show thesis
      by (rule that [of "\<lambda>_. False"]) (use rest a new in \<open>auto simp: None db1_def db2_def\<close>)
  next
    case (Some p)
    then have "select_latest_nonterminal_delivery cd fault db1 b = Ok (Some p)"
      using prev by (auto split: if_splits)
    from select_latest_nonterminal_Ok [OF this]
    have nt: "delivery_state_sql (td_state p) \<notin> set terminal_states" by auto
    show thesis
      by (rule that [of "\<lambda>r. dr_delivery_id r = td_delivery_id p \<and> dr_state r = delivery_state_sql (td_state p)"])
        (use rest a new nt in \<open>auto simp: Some db1_def db2_def request_cancellation_in_txn_def
           sql_update_def split: if_splits\<close>)
  qed
qed

text \<open>The three ways in which an acceptance ends.\<close>

definition accept_fails ::
  "sched_db \<Rightarrow> (acceptance, store_error) result \<times> sched_db \<times> 'r \<times> gates \<Rightarrow> bool" where
  "accept_fails db out \<longleftrightarrow> (\<exists>e. fst out = Err e) \<and> fst (snd out) = db"

definition accept_repeats ::
  "sql_codec \<Rightarrow> faults \<Rightarrow> trigger_event \<Rightarrow> sched_db \<Rightarrow> 'r \<times> gates
     \<Rightarrow> (acceptance, store_error) result \<times> sched_db \<times> 'r \<times> gates \<Rightarrow> bool" where
  "accept_repeats cd fault ev db s out \<longleftrightarrow>
     list_ex (\<lambda>e. er_binding_id e = uuid_str cd (te_binding_id ev) \<and>
                  er_idempotency_key e = te_idempotency_key ev) (db_events db) \<and>
     (\<exists>a. duplicate_of cd fault db ev = Ok a \<and>
          out = (Ok a, snd (advance_cursor_in_txn cd fault db (te_binding_id ev) (te_scheduled_for ev)), s))"

definition accept_creates ::
  "sql_codec \<Rightarrow> 'r registry_ops \<Rightarrow> faults \<Rightarrow> string \<Rightarrow> overlap_policy \<Rightarrow> trigger_event \<Rightarrow> sched_db \<Rightarrow> 'r \<times> gates
     \<Rightarrow> (acceptance, store_error) result \<times> sched_db \<times> 'r \<times> gates \<Rightarrow> bool" where
  "accept_creates cd ops fault new_id pol ev db s out \<longleftrightarrow>
     (\<exists>d a db1 db2 s'. insert_trigger_event_in_txn cd fault db ev = (Ok (Some (db_next_id db)), db1) \<and>
        decide_admission ops pol s (te_binding_id ev) = (Ok d, s') \<and>
        store_decision cd fault new_id (te_binding_id ev) (db_next_id db)
          (timestamp_from_datetime (te_fired_at ev)) d db1 = (Ok a, db2) \<and>
        out = (Ok a, snd (advance_cursor_in_txn cd fault db2 (te_binding_id ev) (te_scheduled_for ev)), s'))"

lemma insert_trigger_event_cases:
  "insert_trigger_event_in_txn cd fault db ev = (x, db1) \<Longrightarrow>
     (\<exists>e. x = Inl e) \<or>
     (x = Inr None \<and> db1 = db \<and>
      list_ex (\<lambda>e. er_binding_id e = uuid_str cd (te_binding_id ev) \<and>
                   er_idempotency_key e = te_idempotency_key ev) (db_events db)) \<or>
     x = Inr (Some (db_next_id db))"
  by (auto simp: insert_trigger_event_in_txn_def split: if_splits)

lemma advance_cursor_Ok: "advance_cursor_in_txn cd fault db b t = (Inr u, db') \<Longrightarrow>
    db' = snd (advance_cursor_in_txn cd fault db b t)"
  by simp

lemma accept_occurrence_cases:
  "accept_fails db (accept_occurrence cd ops fault new_id sb occ fired_at db s) \<or>
   accept_repeats cd fault (occurrence_event cd occ fired_at) db s
     (accept_occurrence cd ops fault new_id sb occ fired_at db s) \<or>
   accept_creates cd ops fault new_id (bd_overlap (sb_binding sb)) (occurrence_event cd occ fired_at) db s
     (accept_occurrence cd ops fault new_id sb occ fired_at db s)"
proof -
  let ?ev = "occurrence_event cd occ fired_at"
  have ev [simp]: "te_binding_id ?ev = so_binding_id occ" "te_scheduled_for ?ev = so_scheduled_for occ"
    "te_fired_at ?ev = fired_at"
    by (simp_all add: occurrence_event_def)
  obtain x charged db1 s1 where att: "accept_attempt cd ops fault new_id sb occ
      (timestamp_from_datetime fired_at) ?ev db s = (x, charged, db1, s1)"
    by (metis prod.exhaust)
  obtain i db0 where ins: "insert_trigger_event_in_txn cd fault db ?ev = (i, db0)" by (rule prod.exhaust)
  obtain d s2 where dec: "decide_admission ops (bd_overlap (sb_binding sb)) s (so_binding_id occ) = (d, s2)"
    by (rule prod.exhaust)
  obtain u db2 where cur: "advance_cursor_in_txn cd fault db1 (so_binding_id occ) (so_scheduled_for occ) = (u, db2)"
    by (rule prod.exhaust)
  show ?thesis
  proof (cases "bd_id (sb_binding sb) = so_binding_id occ \<and> \<not> fault StBegin \<and> (\<exists>a. x = Inr a) \<and>
      (\<exists>v. u = Inr v) \<and> \<not> fault StCommit")
    case False
    then have "accept_fails db (accept_occurrence cd ops fault new_id sb occ fired_at db s)"
      by (cases x; cases u) (auto simp: accept_fails_def accept_occurrence_def Let_def att cur)
    then show ?thesis by blast
  next
    case True
    then obtain a where out: "x = Inr a"
      "accept_occurrence cd ops fault new_id sb occ fired_at db s = (Inr a, db2, s1)"
      by (auto simp: accept_occurrence_def Let_def att cur)
    consider "i = Inr None" "db0 = db" "list_ex (\<lambda>e. er_binding_id e = uuid_str cd (so_binding_id occ) \<and>
                   er_idempotency_key e = te_idempotency_key ?ev) (db_events db)"
      | "i = Inr (Some (db_next_id db))"
      using insert_trigger_event_cases [OF ins] att out(1) by (auto simp: accept_attempt_def ins)
    then show ?thesis
    proof cases
      case 1
      then have "duplicate_of cd fault db ?ev = Inr a" "db1 = db" "s1 = s"
        using att out(1) by (auto simp: accept_attempt_def ins)
      with 1 cur have "accept_repeats cd fault ?ev db s (accept_occurrence cd ops fault new_id sb occ fired_at db s)"
        by (simp add: accept_repeats_def out(2))
      then show ?thesis by blast
    next
      case 2
      then have "accept_creates cd ops fault new_id (bd_overlap (sb_binding sb)) ?ev db s
          (accept_occurrence cd ops fault new_id sb occ fired_at db s)"
        using att out(1) cur
        by (auto simp: accept_creates_def out(2) accept_attempt_def ins dec split: sum.splits prod.splits)
      then show ?thesis by blast
    qed
  qed
qed

subsection \<open>The tables agree\<close>

lemma advance_cursor_tables [simp]:
  "db_events (snd (advance_cursor_in_txn cd fault db b t)) = db_events db"
  "db_next_id (snd (advance_cursor_in_txn cd fault db b t)) = db_next_id db"
  "db_deliveries (snd (advance_cursor_in_txn cd fault db b t)) = db_deliveries db"
  by (simp_all add: advance_cursor_in_txn_def Let_def)

lemma db_ok_cong:
  assumes "db_ok db" "db_events db' = db_events db" "db_next_id db' = db_next_id db"
    "delivery_keys (db_deliveries db') = delivery_keys (db_deliveries db)"
  shows "db_ok db'"
  using assms(1) unfolding db_ok_def assms(2-4) .

lemma delivery_txn_keys:
  assumes "\<And>d. (dr_delivery_id (f d), dr_trigger_event_id (f d), dr_binding_id (f d))
                = (dr_delivery_id d, dr_trigger_event_id d, dr_binding_id d)"
  shows "delivery_keys (db_deliveries (snd (delivery_txn fault bad P f db))) = delivery_keys (db_deliveries db)"
  using delivery_keys_update [of f P "db_deliveries db", OF assms]
  by (simp add: delivery_txn_snd)

lemma delivery_txn_db_ok:
  assumes "db_ok db"
    and "\<And>d. (dr_delivery_id (f d), dr_trigger_event_id (f d), dr_binding_id (f d))
                = (dr_delivery_id d, dr_trigger_event_id d, dr_binding_id d)"
  shows "db_ok (snd (delivery_txn fault bad P f db))"
  by (rule db_ok_cong [OF assms(1) _ _ delivery_txn_keys [OF assms(2)]])
     (simp_all add: delivery_txn_snd)

definition new_event_row :: "sql_codec \<Rightarrow> int \<Rightarrow> trigger_event \<Rightarrow> event_row" where
  "new_event_row cd eid ev =
     \<lparr>er_id = eid, er_binding_id = uuid_str cd (te_binding_id ev),
      er_idempotency_key = te_idempotency_key ev, er_scheduled_for = rfc3339 cd (te_scheduled_for ev),
      er_fired_at = rfc3339 cd (te_fired_at ev), er_is_catch_up = te_is_catch_up ev,
      er_session_id = map_option (uuid_str cd) (te_session_id ev), er_outcome = None\<rparr>"

lemma new_event_row_fields [simp]:
  "er_id (new_event_row cd eid ev) = eid"
  "er_binding_id (new_event_row cd eid ev) = uuid_str cd (te_binding_id ev)"
  "er_idempotency_key (new_event_row cd eid ev) = te_idempotency_key ev"
  "er_outcome (new_event_row cd eid ev) = None"
  by (simp_all add: new_event_row_def)

lemma insert_trigger_event_new:
  assumes "insert_trigger_event_in_txn cd fault db ev = (Ok (Some eid), db1)"
  shows "eid = db_next_id db"
    "db1 = db\<lparr>db_events := db_events db @ [new_event_row cd eid ev], db_next_id := db_next_id db + 1\<rparr>"
    "(uuid_str cd (te_binding_id ev), te_idempotency_key ev) \<notin> set (event_keys db)"
    "length (te_idempotency_key ev) \<le> MAX_IDEMPOTENCY_KEY_LEN"
  using assms by (auto simp: insert_trigger_event_in_txn_def new_event_row_def list_ex_iff
      split: if_splits)

lemma admitting_outcome [simp]:
  "Some (event_outcome_sql (outcome_for_decision d))
     \<in> Some ` set [''admitted'', ''queued'', ''cancelled_previous_and_admitted''] \<longleftrightarrow>
   decision_creates_delivery d"
  by (cases d) auto

lemma update_new_event:
  assumes "\<forall>e \<in> set es. er_id e < er_id n"
  shows "map (\<lambda>e. if er_id e = er_id n then f e else e) (es @ [n]) = es @ [f n]"
  using assms by (induction es) auto

lemma accept_creates_tables:
  assumes "accept_creates cd ops fault new_id pol ev db s out" "db_ok db"
  obtains d P where
    "fst out = Ok (AccNew (db_next_id db) d (outcome_for_decision d)
        (if decision_creates_delivery d
         then Some (ready_delivery new_id (db_next_id db) (te_binding_id ev)
                      (timestamp_from_datetime (te_fired_at ev))) else None))"
    "db_events (fst (snd out)) = db_events db @
       [(new_event_row cd (db_next_id db) ev)\<lparr>er_outcome := Some (event_outcome_sql (outcome_for_decision d))\<rparr>]"
    "db_next_id (fst (snd out)) = db_next_id db + 1"
    "db_deliveries (fst (snd out)) =
       map (\<lambda>r. if P r then r\<lparr>dr_state := ''cancellation_requested'',
                              dr_updated_at := timestamp_from_datetime (te_fired_at ev)\<rparr> else r)
         (db_deliveries db @ (if decision_creates_delivery d
            then [delivery_to_row cd (ready_delivery new_id (db_next_id db) (te_binding_id ev)
                    (timestamp_from_datetime (te_fired_at ev)))] else []))"
    "\<forall>r. P r \<longrightarrow> dr_state r \<notin> set terminal_states"
    "decision_creates_delivery d \<Longrightarrow> new_id \<notin> dr_delivery_id ` set (db_deliveries db)"
    "(uuid_str cd (te_binding_id ev), te_idempotency_key ev) \<notin> set (event_keys db)"
    "length (te_idempotency_key ev) \<le> MAX_IDEMPOTENCY_KEY_LEN"
proof -
  obtain d a db1 db2 s' where c:
    "insert_trigger_event_in_txn cd fault db ev = (Ok (Some (db_next_id db)), db1)"
    "store_decision cd fault new_id (te_binding_id ev) (db_next_id db)
          (timestamp_from_datetime (te_fired_at ev)) d db1 = (Ok a, db2)"
    "out = (Ok a, snd (advance_cursor_in_txn cd fault db2 (te_binding_id ev) (te_scheduled_for ev)), s')"
    using assms(1) unfolding accept_creates_def by blast
  note i = insert_trigger_event_new [OF c(1)]
  let ?n = "new_event_row cd (db_next_id db) ev"
  have ids: "\<forall>e \<in> set (db_events db). er_id e < er_id ?n"
    using assms(2) by (simp add: db_ok_def)
  show thesis
  proof (rule store_decision_Ok [OF c(2)])
    fix P
    assume a: "a = AccNew (db_next_id db) d (outcome_for_decision d)
           (if decision_creates_delivery d then Some (ready_delivery new_id (db_next_id db) (te_binding_id ev)
              (timestamp_from_datetime (te_fired_at ev))) else None)"
      and d: "db2 = db1\<lparr>db_events := map (\<lambda>e. if er_id e = db_next_id db
                then e\<lparr>er_outcome := Some (event_outcome_sql (outcome_for_decision d))\<rparr> else e) (db_events db1),
              db_deliveries := map (\<lambda>r. if P r then r\<lparr>dr_state := ''cancellation_requested'',
                    dr_updated_at := timestamp_from_datetime (te_fired_at ev)\<rparr> else r)
                (db_deliveries db1 @ (if decision_creates_delivery d
                   then [delivery_to_row cd (ready_delivery new_id (db_next_id db) (te_binding_id ev)
                     (timestamp_from_datetime (te_fired_at ev)))] else []))\<rparr>"
      and P: "\<forall>r. P r \<longrightarrow> dr_state r \<notin> set terminal_states"
      and new: "decision_creates_delivery d \<Longrightarrow> new_id \<notin> dr_delivery_id ` set (db_deliveries db1)"
    have ev: "db_events db2 = db_events db @
        [?n\<lparr>er_outcome := Some (event_outcome_sql (outcome_for_decision d))\<rparr>]"
      using update_new_event [OF ids, of "\<lambda>e. e\<lparr>er_outcome := Some (event_outcome_sql (outcome_for_decision d))\<rparr>"]
      by (simp add: d i(2))
    show thesis
      by (rule that [of d P]) (use a ev P new i in \<open>simp_all add: c(3) d\<close>)
  qed
qed

lemma accept_db_ok:
  assumes "db_ok db"
  shows "db_ok (fst (snd (accept_occurrence cd ops fault new_id sb occ fired_at db s)))"
    (is "db_ok (fst (snd ?out))")
proof -
  let ?ev = "occurrence_event cd occ fired_at"
  consider "accept_fails db ?out" | "accept_repeats cd fault ?ev db s ?out"
    | "accept_creates cd ops fault new_id (bd_overlap (sb_binding sb)) ?ev db s ?out"
    using accept_occurrence_cases by blast
  then show ?thesis
  proof cases
    case 1
    then show ?thesis using assms by (simp add: accept_fails_def)
  next
    case 2
    then show ?thesis using assms by (auto simp: accept_repeats_def intro: db_ok_cong)
  next
    case 3
    show ?thesis
    proof (rule accept_creates_tables [OF 3 assms], goal_cases)
      case (1 d P)
      let ?row = "delivery_to_row cd (ready_delivery new_id (db_next_id db) (te_binding_id ?ev)
                    (timestamp_from_datetime (te_fired_at ?ev)))"
      have keys: "delivery_keys (db_deliveries (fst (snd ?out))) =
          delivery_keys (db_deliveries db @ (if decision_creates_delivery d then [?row] else []))"
        unfolding 1(4) by (rule delivery_keys_update) simp
      have row: "dr_delivery_id ?row = new_id" "dr_trigger_event_id ?row = db_next_id db"
        "dr_binding_id ?row = uuid_str cd (te_binding_id ?ev)"
        by (simp_all add: delivery_to_row_def)
      have adm: "admitting_event ((new_event_row cd (db_next_id db) ?ev)
          \<lparr>er_outcome := Some (event_outcome_sql (outcome_for_decision d))\<rparr>) = decision_creates_delivery d"
        using admitting_outcome [of d] by (simp add: admitting_event_def)
      show ?case
        unfolding db_ok_def keys 1(2,3)
        using assms 1(6,7) by (auto simp: db_ok_def adm row)
    qed
  qed
qed

lemma record_db_ok:
  assumes "db_ok db"
  shows "db_ok (snd (record_trigger_event cd fault db ev))"
proof -
  obtain x db1 where i: "insert_trigger_event_in_txn cd fault db ev = (x, db1)" by (rule prod.exhaust)
  consider e where "x = Inl e" | "x = Inr None" "db1 = db" | "x = Ok (Some (db_next_id db))"
    using insert_trigger_event_cases [OF i] by blast
  then show ?thesis
  proof cases
    case 3
    note n = insert_trigger_event_new [OF i [unfolded 3]]
    have "db_ok db1"
      using assms n(3) by (auto simp: db_ok_def n(2) admitting_event_def)
    then show ?thesis using assms by (simp add: record_trigger_event_def i 3)
  qed (use assms in \<open>simp_all add: record_trigger_event_def i\<close>)
qed

lemma request_cancellation_snd:
  "snd (request_cancellation fault db did expected now) =
     (if fault StBegin \<or> fault StRequestCancellation \<or> fault StCommit then db
      else db\<lparr>db_deliveries := map (\<lambda>d. if dr_delivery_id d = did \<and> dr_state d = delivery_state_sql expected
             then d\<lparr>dr_state := ''cancellation_requested'', dr_updated_at := now\<rparr> else d) (db_deliveries db)\<rparr>)"
  by (simp add: request_cancellation_def request_cancellation_in_txn_def sql_update_def)

lemma request_cancellation_keys:
  "delivery_keys (db_deliveries (snd (request_cancellation fault db did expected now)))
     = delivery_keys (db_deliveries db)"
  by (simp add: request_cancellation_snd comp_def if_distrib cong: if_cong)

lemma request_cancellation_db_ok:
  assumes "db_ok db"
  shows "db_ok (snd (request_cancellation fault db did expected now))"
  by (rule db_ok_cong [OF assms _ _ request_cancellation_keys]) (simp_all add: request_cancellation_snd)

lemma store_step_db_ok: "db_ok db \<Longrightarrow> db_ok (store_step cd ops db op)"
  by (cases op)
     (simp_all add: accept_db_ok record_db_ok request_cancellation_db_ok delivery_op_defs Let_def
       delivery_txn_db_ok)

lemma store_run_db_ok: "db_ok db \<Longrightarrow> db_ok (foldl (store_step cd ops) db xs)"
  by (induction xs arbitrary: db) (auto simp: store_step_db_ok)

lemma sched_db_new_ok [simp]: "db_ok sched_db_new"
  by (simp add: db_ok_def sched_db_new_def)

text \<open>
  \<^bold>\<open>C24.\<close> One delivery per occurrence.  After any calls on an empty store, with any statements
  failing and any registry states, no occurrence of a binding is recorded twice, delivery ids are
  unique, and the deliveries are, one for one and in order, those of the recorded events whose
  outcome admits (admitted, queued, or admitted after cancelling the previous run).
\<close>

theorem one_delivery_per_occurrence:
  "let db = foldl (store_step cd ops) sched_db_new xs
   in distinct (map (\<lambda>e. (er_binding_id e, er_idempotency_key e)) (db_events db)) \<and>
      distinct (map er_id (db_events db)) \<and>
      distinct (map dr_delivery_id (db_deliveries db)) \<and>
      map (\<lambda>d. (dr_trigger_event_id d, dr_binding_id d)) (db_deliveries db) =
        map (\<lambda>e. (er_id e, er_binding_id e)) (filter admitting_event (db_events db))"
  using store_run_db_ok [OF sched_db_new_ok, of cd ops xs]
  by (simp add: db_ok_def Let_def comp_def)

subsection \<open>Repeated acceptance\<close>

abbreviation has_key :: "sql_codec \<Rightarrow> trigger_event \<Rightarrow> event_row \<Rightarrow> bool" where
  "has_key cd ev e \<equiv> er_binding_id e = uuid_str cd (te_binding_id ev) \<and>
     er_idempotency_key e = te_idempotency_key ev"

lemma accept_known_registry:
  assumes "list_ex (has_key cd (occurrence_event cd occ t)) (db_events db)"
  shows "snd (snd (accept_occurrence cd ops fault new_id sb occ t db s)) = s"
proof -
  obtain i db0 where ins: "insert_trigger_event_in_txn cd fault db (occurrence_event cd occ t) = (i, db0)"
    by (rule prod.exhaust)
  have "(\<exists>e. i = Inl e) \<or> i = Inr None"
    using assms ins by (auto simp: insert_trigger_event_in_txn_def split: if_splits)
  then obtain x db1 where "accept_attempt cd ops fault new_id sb occ (timestamp_from_datetime t)
      (occurrence_event cd occ t) db s = (x, None, db1, s)"
    by (auto simp: accept_attempt_def ins)
  then show ?thesis
    by (auto simp: accept_occurrence_def Let_def compensate_registry_charge_def
        split: prod.splits sum.splits)
qed

lemma accept_known_tables:
  assumes "list_ex (has_key cd (occurrence_event cd occ t)) (db_events db)"
    and "accept_occurrence cd ops fault new_id sb occ t db s = (x, db', s')"
  shows "db_events db' = db_events db" "db_deliveries db' = db_deliveries db"
    "\<forall>a. x = Ok a \<longrightarrow> duplicate_of cd fault db (occurrence_event cd occ t) = Ok a"
proof -
  have "\<not> accept_creates cd ops fault new_id p (occurrence_event cd occ t) db s out" for p out
    using assms(1) by (auto simp: accept_creates_def insert_trigger_event_in_txn_def)
  then have "accept_fails db (x, db', s') \<or>
      accept_repeats cd fault (occurrence_event cd occ t) db s (x, db', s')"
    using accept_occurrence_cases [of db cd ops fault new_id sb occ t s] assms(2) by auto
  then show "db_events db' = db_events db" "db_deliveries db' = db_deliveries db"
    "\<forall>a. x = Ok a \<longrightarrow> duplicate_of cd fault db (occurrence_event cd occ t) = Ok a"
    by (auto simp: accept_fails_def accept_repeats_def)
qed

text \<open>No call removes or rewrites a recorded event, or removes a delivery.\<close>

definition db_extends :: "sched_db \<Rightarrow> sched_db \<Rightarrow> bool" where
  "db_extends db db' \<longleftrightarrow> set (db_events db) \<subseteq> set (db_events db') \<and>
     set (delivery_keys (db_deliveries db)) \<subseteq> set (delivery_keys (db_deliveries db'))"

lemma db_extendsI:
  assumes "db_events db' = db_events db" "delivery_keys (db_deliveries db') = delivery_keys (db_deliveries db)"
  shows "db_extends db db'"
  unfolding db_extends_def assms by blast

lemma db_extends_refl [simp]: "db_extends db db"
  by (simp add: db_extends_def)

lemma db_extends_trans: "db_extends a b \<Longrightarrow> db_extends b c \<Longrightarrow> db_extends a c"
  unfolding db_extends_def by blast

lemma delivery_txn_extends:
  assumes "\<And>d. (dr_delivery_id (f d), dr_trigger_event_id (f d), dr_binding_id (f d))
                = (dr_delivery_id d, dr_trigger_event_id d, dr_binding_id d)"
  shows "db_extends db (snd (delivery_txn fault bad P f db))"
  by (rule db_extendsI [OF _ delivery_txn_keys [OF assms]]) (simp add: delivery_txn_snd)

lemma accept_extends:
  assumes "db_ok db"
  shows "db_extends db (fst (snd (accept_occurrence cd ops fault new_id sb occ fired_at db s)))"
    (is "db_extends db (fst (snd ?out))")
proof -
  let ?ev = "occurrence_event cd occ fired_at"
  consider "accept_fails db ?out" | "accept_repeats cd fault ?ev db s ?out"
    | "accept_creates cd ops fault new_id (bd_overlap (sb_binding sb)) ?ev db s ?out"
    using accept_occurrence_cases by blast
  then show ?thesis
  proof cases
    case 3
    show ?thesis
    proof (rule accept_creates_tables [OF 3 assms], goal_cases)
      case (1 d P)
      let ?rows = "db_deliveries db @ (if decision_creates_delivery d
          then [delivery_to_row cd (ready_delivery new_id (db_next_id db) (te_binding_id ?ev)
                  (timestamp_from_datetime (te_fired_at ?ev)))] else [])"
      have keys: "delivery_keys (db_deliveries (fst (snd ?out))) = delivery_keys ?rows"
        unfolding 1(4) by (rule delivery_keys_update) simp
      show ?case
        unfolding db_extends_def keys 1(2) by auto
    qed
  qed (auto simp: accept_fails_def accept_repeats_def db_extends_def)
qed

lemma record_extends: "db_extends db (snd (record_trigger_event cd fault db ev))"
  by (auto simp: record_trigger_event_def insert_trigger_event_in_txn_def db_extends_def)

lemma request_cancellation_extends:
  "db_extends db (snd (request_cancellation fault db did expected now))"
  by (rule db_extendsI [OF _ request_cancellation_keys]) (simp add: request_cancellation_snd)

lemma store_step_extends: "db_ok db \<Longrightarrow> db_extends db (store_step cd ops db op)"
  by (cases op)
     (simp_all add: accept_extends record_extends request_cancellation_extends delivery_op_defs Let_def
       delivery_txn_extends)

lemma store_run_extends: "db_ok db \<Longrightarrow> db_extends db (foldl (store_step cd ops) db xs)"
proof (induction xs arbitrary: db)
  case (Cons x xs)
  then show ?case
    using db_extends_trans [OF store_step_extends] store_step_db_ok by fastforce
qed simp

lemma find_unique:
  assumes "distinct (map k xs)" "x \<in> set xs" "\<And>y. P y \<longleftrightarrow> k y = k x"
  shows "List.find P xs = Some x"
  using assms
proof (induction xs)
  case (Cons y ys)
  show ?case
  proof (cases "y = x")
    case False
    with Cons.prems have "x \<in> set ys" "k y \<noteq> k x" by (auto intro: rev_image_eqI)
    with Cons show ?thesis by simp
  qed (use Cons.prems(3) in simp)
qed simp

text \<open>What a duplicate acceptance reports about an event that is in the table.\<close>

lemma duplicate_of_known:
  assumes ok: "db_ok db" and e: "e \<in> set (db_events db)" "has_key cd ev e"
    and oc: "er_outcome e = Some (event_outcome_sql oc)"
    and dup: "duplicate_of cd fault db ev = Ok a"
  shows "\<exists>del. a = AccDuplicate (er_id e) (Some oc) del \<and>
    (\<forall>did b. (did, er_id e, b) \<in> set (delivery_keys (db_deliveries db)) \<longrightarrow>
       map_option td_delivery_id del = Some did) \<and>
    (\<not> admitting_event e \<longrightarrow> del = None)"
proof -
  have f: "List.find (has_key cd ev) (db_events db) = Some e"
    by (rule find_unique [where k = "\<lambda>e. (er_binding_id e, er_idempotency_key e)"])
      (use ok e in \<open>auto simp: db_ok_def\<close>)
  obtain del where a: "a = AccDuplicate (er_id e) (Some oc) del"
    and sel: "select_delivery_by_trigger_event_id cd fault db (er_id e) = Ok del"
    using dup by (auto simp: duplicate_of_def f oc res_bind_Ok_iff opt_transpose_Ok_iff
        split: if_splits)
  have map: "map (\<lambda>d. (dr_trigger_event_id d, dr_binding_id d)) (db_deliveries db) =
      map (\<lambda>e. (er_id e, er_binding_id e)) (filter admitting_event (db_events db))"
    using ok by (simp add: db_ok_def comp_def)
  have "map dr_trigger_event_id (db_deliveries db) = map er_id (filter admitting_event (db_events db))"
    using arg_cong [OF map, of "map fst"] by (simp add: comp_def)
  moreover have "distinct (map er_id (db_events db))" using ok by (simp add: db_ok_def)
  ultimately have dist: "distinct (map dr_trigger_event_id (db_deliveries db))"
    and sub: "dr_trigger_event_id ` set (db_deliveries db) = er_id ` set (filter admitting_event (db_events db))"
    by (simp add: distinct_map_filter, metis list.set_map)
  show ?thesis
  proof (intro exI conjI allI impI, rule a)
    fix did b assume "(did, er_id e, b) \<in> set (delivery_keys (db_deliveries db))"
    then obtain r where r: "r \<in> set (db_deliveries db)" "dr_delivery_id r = did" "dr_trigger_event_id r = er_id e"
      by auto
    have "List.find (\<lambda>d. dr_trigger_event_id d = er_id e) (db_deliveries db) = Some r"
      by (rule find_unique [where k = dr_trigger_event_id]) (use dist r in auto)
    then show "map_option td_delivery_id del = Some did"
      using sel r(2) by (auto simp: select_delivery_by_trigger_event_id_def opt_transpose_Ok_iff
          decode_delivery_row_Ok split: if_splits)
  next
    assume "\<not> admitting_event e"
    have "er_id e \<notin> dr_trigger_event_id ` set (db_deliveries db)"
    proof
      assume "er_id e \<in> dr_trigger_event_id ` set (db_deliveries db)"
      then obtain e' where "e' \<in> set (db_events db)" "admitting_event e'" "er_id e' = er_id e"
        unfolding sub by auto
      then have "e' = e"
        using e(1) \<open>distinct (map er_id (db_events db))\<close> by (metis distinct_map inj_onD)
      then show False using \<open>admitting_event e'\<close> \<open>\<not> admitting_event e\<close> by simp
    qed
    then have "List.find (\<lambda>d. dr_trigger_event_id d = er_id e) (db_deliveries db) = None"
      unfolding find_None_iff by (metis image_eqI)
    then show "del = None"
      using sel by (auto simp: select_delivery_by_trigger_event_id_def opt_transpose_Ok_iff
          split: if_splits)
  qed
qed


lemma accept_new_row:
  assumes "accept_creates cd ops fault new_id pol ev db s (Ok (AccNew eid d oc del), db1, s1)" "db_ok db"
  shows "oc = outcome_for_decision d \<and>
    (new_event_row cd eid ev)\<lparr>er_outcome := Some (event_outcome_sql oc)\<rparr> \<in> set (db_events db1) \<and>
    (del = None \<and> \<not> decision_creates_delivery d \<or>
     (\<exists>b. del \<noteq> None \<and> (td_delivery_id (the del), eid, b) \<in> set (delivery_keys (db_deliveries db1))))"
proof (rule accept_creates_tables [OF assms], goal_cases)
  case (1 d' P)
  let ?row = "delivery_to_row cd (ready_delivery new_id (db_next_id db) (te_binding_id ev)
      (timestamp_from_datetime (te_fired_at ev)))"
  from 1(1) have [simp]: "eid = db_next_id db" "d' = d" "oc = outcome_for_decision d"
    "del = (if decision_creates_delivery d then Some (ready_delivery new_id (db_next_id db) (te_binding_id ev)
        (timestamp_from_datetime (te_fired_at ev))) else None)"
    by simp_all
  have keys: "delivery_keys (db_deliveries db1) =
      delivery_keys (db_deliveries db @ (if decision_creates_delivery d then [?row] else []))"
    using 1(4) delivery_keys_update by simp
  have row: "(dr_delivery_id ?row, dr_trigger_event_id ?row, dr_binding_id ?row)
      = (new_id, db_next_id db, uuid_str cd (te_binding_id ev))"
    by (simp add: delivery_to_row_def)
  have "decision_creates_delivery d \<Longrightarrow>
      (new_id, db_next_id db, uuid_str cd (te_binding_id ev)) \<in> set (delivery_keys (db_deliveries db1))"
    unfolding keys using row by simp
  then show ?case
    using 1(2) by (cases "decision_creates_delivery d") auto
qed

text \<open>
  An occurrence is accepted once.  If an acceptance created an event, then after any
  further calls, whatever faults they meet, another acceptance of the same occurrence changes
  neither the events nor the deliveries nor the registry, whichever registry it is given, and if
  it succeeds it reports the first one's event, outcome and delivery.
\<close>

theorem accept_once:
  assumes "db = foldl (store_step cd ops) sched_db_new xs"
    and "accept_occurrence cd ops fault new_id sb occ t db s = (Ok (AccNew eid d oc del), db1, s1)"
    and "db2 = foldl (store_step cd ops') db1 ys"
    and "so_binding_id occ' = so_binding_id occ" "so_scheduled_for occ' = so_scheduled_for occ"
    and "accept_occurrence cd ops' fault' new_id' sb' occ' t' db2 s2 = (x, db3, s3)"
  shows "s3 = s2 \<and> db_events db3 = db_events db2 \<and> db_deliveries db3 = db_deliveries db2 \<and>
         (\<forall>a. x = Ok a \<longrightarrow> (\<exists>del'. a = AccDuplicate eid (Some oc) del' \<and>
            map_option td_delivery_id del' = map_option td_delivery_id del))"
proof -
  let ?ev = "occurrence_event cd occ t" and ?ev' = "occurrence_event cd occ' t'"
  have ok: "db_ok db" unfolding assms(1) by (rule store_run_db_ok) simp
  have ok1: "db_ok db1" using accept_db_ok [OF ok, of cd ops fault new_id sb occ t s] assms(2) by simp
  have ok2: "db_ok db2" unfolding assms(3) by (rule store_run_db_ok [OF ok1])
  have ext: "db_extends db1 db2" unfolding assms(3) by (rule store_run_extends [OF ok1])
  have not_dup: "duplicate_of cd fault db ?ev \<noteq> Ok (AccNew eid d oc del)"
    by (auto simp: duplicate_of_def res_bind_Ok_iff split: option.splits)
  have c: "accept_creates cd ops fault new_id (bd_overlap (sb_binding sb)) ?ev db s
      (Ok (AccNew eid d oc del), db1, s1)"
    using accept_occurrence_cases [of db cd ops fault new_id sb occ t s] not_dup
    unfolding assms(2) by (auto simp: accept_fails_def accept_repeats_def)
  define e where "e = (new_event_row cd eid ?ev)\<lparr>er_outcome := Some (event_outcome_sql oc)\<rparr>"
  have e1: "e \<in> set (db_events db1)" and oc: "oc = outcome_for_decision d"
    and del: "del = None \<and> \<not> decision_creates_delivery d \<or>
      (\<exists>b. del \<noteq> None \<and> (td_delivery_id (the del), eid, b) \<in> set (delivery_keys (db_deliveries db1)))"
    using accept_new_row [OF c ok] unfolding e_def by blast+
  have e2: "e \<in> set (db_events db2)" using e1 ext by (auto simp: db_extends_def)
  have has: "has_key cd ?ev' e"
    using assms(4,5) by (simp add: e_def occurrence_event_def)
  have known: "list_ex (has_key cd ?ev') (db_events db2)"
    using e2 has by (auto simp: list_ex_iff)
  note tabs = accept_known_tables [OF known assms(6)]
  have reg: "s3 = s2"
    using accept_known_registry [OF known, of ops' fault' new_id' sb' s2] assms(6) by simp
  have "\<exists>del'. a = AccDuplicate eid (Some oc) del' \<and>
      map_option td_delivery_id del' = map_option td_delivery_id del" if "x = Ok a" for a
  proof -
    have dup: "duplicate_of cd fault' db2 ?ev' = Ok a" using tabs(3) that by blast
    have o: "er_outcome e = Some (event_outcome_sql oc)" by (simp add: e_def)
    obtain del' where d': "a = AccDuplicate (er_id e) (Some oc) del'"
      "\<forall>did b. (did, er_id e, b) \<in> set (delivery_keys (db_deliveries db2)) \<longrightarrow>
         map_option td_delivery_id del' = Some did"
      "\<not> admitting_event e \<longrightarrow> del' = None"
      using duplicate_of_known [OF ok2 e2 has o dup] by blast
    have "er_id e = eid" by (simp add: e_def)
    have "map_option td_delivery_id del' = map_option td_delivery_id del"
      using del
    proof
      assume n: "del = None \<and> \<not> decision_creates_delivery d"
      then have "\<not> admitting_event e"
        using admitting_outcome [of d] by (simp add: admitting_event_def e_def oc)
      with d'(3) n show ?thesis by simp
    next
      assume "\<exists>b. del \<noteq> None \<and> (td_delivery_id (the del), eid, b) \<in> set (delivery_keys (db_deliveries db1))"
      then obtain b where "del \<noteq> None" "(td_delivery_id (the del), eid, b) \<in> set (delivery_keys (db_deliveries db2))"
        using ext unfolding db_extends_def by blast
      with d'(2) \<open>er_id e = eid\<close> have "map_option td_delivery_id del' = Some (td_delivery_id (the del))"
        by blast
      with \<open>del \<noteq> None\<close> show ?thesis by auto
    qed
    with d'(1) \<open>er_id e = eid\<close> show ?thesis by blast
  qed
  with tabs(1,2) reg show ?thesis by blast
qed


subsection \<open>Failed acceptance\<close>

text \<open>
  What compensation needs of a registry: a charge just made can be released, and cancelling
  changes no count unless it is confirmed, which the registry never does.
\<close>

locale releasable_registry = run_registry +
  assumes finish_after_admit: "rr_note_admitted ops r b = (Inr (), r') \<Longrightarrow>
      \<exists>r''. rr_note_finished ops r' b = (Inr (), r'')"
    and dequeue_after_queue: "rr_note_queued ops r b = (Inr (), r') \<Longrightarrow>
      \<exists>r''. rr_note_dequeued ops r' b = (Inr (), r'')"
    and passive_cancel: "rr_cancel_active ops r b = (xc, r') \<Longrightarrow>
      xc \<noteq> Inr Confirmed \<and> active r' = active r"
begin

definition same_counts :: "'a \<Rightarrow> 'a \<Rightarrow> bool" where
  "same_counts r r' \<longleftrightarrow> active r' = active r \<and> queued r' = queued r"

definition charged_by :: "('a, unit) reg_op \<Rightarrow> binding_id \<Rightarrow> 'a \<Rightarrow> 'a \<Rightarrow> bool" where
  "charged_by f b r r' \<longleftrightarrow> (\<exists>r0. same_counts r r0 \<and> f r0 b = (Inr (), r'))"

lemma call_passive: "reg_call (rr_cancel_active ops) b s = (xc, s') \<Longrightarrow>
    xc \<noteq> Inr Confirmed \<and> same_counts (fst s) (fst s')"
  using passive_cancel [of "fst s" b] cancel [of "fst s" b]
  by (auto simp: reg_call_def same_counts_def split: prod.splits)

lemma same_counts_trans: "same_counts a b \<Longrightarrow> same_counts b c \<Longrightarrow> same_counts a c"
  by (simp add: same_counts_def)

lemma call_reads:
  "reg_call (rr_active_run_count ops) b s = (n, s1) \<Longrightarrow> same_counts (fst s) (fst s1)"
  "reg_call (rr_queued_count ops) b s = (q, s1) \<Longrightarrow> same_counts (fst s) (fst s1)"
  using call_read_active [of b s n s1] call_read_queued [of b s q s1] by (auto simp: same_counts_def)

lemma call_charges:
  assumes "same_counts (fst s0) (fst s)"
  shows "reg_call (rr_note_admitted ops) b s = (u, s') \<Longrightarrow>
      (case u of Inl _ \<Rightarrow> same_counts (fst s0) (fst s')
       | Inr _ \<Rightarrow> charged_by (rr_note_admitted ops) b (fst s0) (fst s'))"
    and "reg_call (rr_note_queued ops) b s = (u, s') \<Longrightarrow>
      (case u of Inl _ \<Rightarrow> same_counts (fst s0) (fst s')
       | Inr _ \<Rightarrow> charged_by (rr_note_queued ops) b (fst s0) (fst s'))"
  using assms admitted [of "fst s" b] enqueued [of "fst s" b]
  by (auto simp: reg_call_def same_counts_def charged_by_def counts_after_def
      split: prod.splits sum.splits)

text \<open>A decision charges exactly what it says it charges.\<close>

definition decision_charge ::
  "binding_id \<Rightarrow> 'a \<Rightarrow> (admission_decision, registry_error) result \<Rightarrow> 'a \<Rightarrow> bool" where
  "decision_charge b r x r' =
     (case x of
        Inr Admit \<Rightarrow> charged_by (rr_note_admitted ops) b r r'
      | Inr CancelledPreviousAndAdmit \<Rightarrow> charged_by (rr_note_admitted ops) b r r'
      | Inr (QueueAt _) \<Rightarrow> charged_by (rr_note_queued ops) b r r'
      | _ \<Rightarrow> same_counts r r')"

lemma decide_charges:
  assumes "decide_admission ops p s b = (x, s')"
  shows "decision_charge b (fst s) x (fst s')"
proof -
  obtain n s1 where r1: "reg_call (rr_active_run_count ops) b s = (n, s1)" by (rule prod.exhaust)
  obtain u s2 where r2: "reg_call (rr_note_admitted ops) b s1 = (u, s2)" by (rule prod.exhaust)
  obtain q s3 where r3: "reg_call (rr_queued_count ops) b s1 = (q, s3)" by (rule prod.exhaust)
  obtain v s4 where r4: "reg_call (rr_note_admitted ops) b s3 = (v, s4)" by (rule prod.exhaust)
  obtain w s5 where r5: "reg_call (rr_note_queued ops) b s3 = (w, s5)" by (rule prod.exhaust)
  obtain c s6 where r6: "reg_call (rr_cancel_active ops) b s1 = (c, s6)" by (rule prod.exhaust)
  have s1: "same_counts (fst s) (fst s1)" and s3: "same_counts (fst s) (fst s3)"
    and s6: "same_counts (fst s) (fst s6)" "c \<noteq> Inr Confirmed"
    using call_reads(1) [OF r1] call_reads(2) [OF r3] call_passive [OF r6] same_counts_trans by blast+
  note charges = call_charges(1) [OF s1 r2] call_charges(1) [OF s3 r4] call_charges(2) [OF s3 r5]
  show ?thesis
    using assms charges s1 s3 s6
    by (cases p)
       (auto simp: decide_admission_def reg_bind_def r1 r2 r3 r4 r5 r6 Let_def decision_charge_def
        split: sum.splits if_splits prod.splits cancellation_outcome.splits)
qed

lemma compensate_restores:
  assumes "decision_charge b r (Inr d) (fst s)"
  shows "same_counts r (fst (compensate_registry_charge ops (Some d) s b))"
proof -
  have fin: "same_counts r (fst (snd (reg_call (rr_note_finished ops) b s)))"
    if ch: "charged_by (rr_note_admitted ops) b r (fst s)"
  proof -
    obtain r0 where r0: "same_counts r r0" "rr_note_admitted ops r0 b = (Inr (), fst s)"
      using ch unfolding charged_by_def by blast
    obtain r2 where r2: "rr_note_finished ops (fst s) b = (Inr (), r2)"
      using finish_after_admit [OF r0(2)] by blast
    show ?thesis
      using r0(1) admitted [OF r0(2)] finished [OF r2]
      by (auto simp: reg_call_def r2 same_counts_def counts_after_def)
  qed
  have deq: "same_counts r (fst (snd (reg_call (rr_note_dequeued ops) b s)))"
    if ch: "charged_by (rr_note_queued ops) b r (fst s)"
  proof -
    obtain r0 where r0: "same_counts r r0" "rr_note_queued ops r0 b = (Inr (), fst s)"
      using ch unfolding charged_by_def by blast
    obtain r2 where r2: "rr_note_dequeued ops (fst s) b = (Inr (), r2)"
      using dequeue_after_queue [OF r0(2)] by blast
    show ?thesis
      using r0(1) enqueued [OF r0(2)] dequeued [OF r2]
      by (auto simp: reg_call_def r2 same_counts_def counts_after_def)
  qed
  show ?thesis
    using assms fin deq
    by (cases d) (auto simp: compensate_registry_charge_def decision_charge_def)
qed

lemma failed_accept_restores:
  assumes "accept_occurrence cd ops fault new_id sb occ t db s = (Inl e, db', s')"
  shows "db' = db \<and> same_counts (fst s) (fst s')"
proof -
  let ?b = "so_binding_id occ"
  obtain x charged db1 s1 where att: "accept_attempt cd ops fault new_id sb occ
      (timestamp_from_datetime t) (occurrence_event cd occ t) db s = (x, charged, db1, s1)"
    by (metis prod.exhaust)
  obtain i db0 where ins: "insert_trigger_event_in_txn cd fault db (occurrence_event cd occ t) = (i, db0)"
    by (rule prod.exhaust)
  obtain d s2 where dec: "decide_admission ops (bd_overlap (sb_binding sb)) s ?b = (d, s2)"
    by (rule prod.exhaust)
  have ch: "case charged of None \<Rightarrow> same_counts (fst s) (fst s1)
      | Some d \<Rightarrow> decision_charge ?b (fst s) (Inr d) (fst s1)"
    using att decide_charges [OF dec]
    by (auto simp: accept_attempt_def ins dec same_counts_def decision_charge_def
        split: sum.splits option.splits prod.splits)
  have comp: "same_counts (fst s) (fst (compensate_registry_charge ops charged s1 ?b))"
  proof (cases charged)
    case None
    then show ?thesis using ch by (simp add: compensate_registry_charge_def)
  next
    case (Some d)
    then show ?thesis using ch compensate_restores by simp
  qed
  have "s' = s \<or> s' = compensate_registry_charge ops charged s1 ?b"
    using assms by (auto simp: accept_occurrence_def Let_def att split: if_splits sum.splits prod.splits)
  moreover have "db' = db"
    using assms by (auto simp: accept_occurrence_def Let_def att split: if_splits sum.splits prod.splits)
  ultimately show ?thesis using comp by (auto simp: same_counts_def)
qed

end

lemma checked_add_one_nonzero: "checked_add (n :: u32) 1 = Some m \<Longrightarrow> m \<noteq> 0"
  using checked_add_Some [of n 1 m] by auto

lemma with_counts_healthy:
  assumes "with_counts r b f = (Inr u, r')"
  shows "im_poisoned r' = False" "f (im_cell r b) = (Inr u, im_cell r' b)"
  using assms by (auto simp: with_counts_def im_cell_def lookup_or_def Let_def
      split: if_splits prod.splits)

lemma im_release:
  "im_note_admitted r b = (Inr (), r') \<Longrightarrow> \<exists>r''. im_note_finished r' b = (Inr (), r'')"
  "im_note_queued r b = (Inr (), r') \<Longrightarrow> \<exists>r''. im_note_dequeued r' b = (Inr (), r'')"
proof -
  assume "im_note_admitted r b = (Inr (), r')"
  note h = with_counts_healthy [OF this [unfolded im_note_admitted_def]]
  then obtain n where n: "(im_cell r b)\<lparr>ct_active := n\<rparr> = im_cell r' b" "n \<noteq> 0"
    by (auto split: option.splits dest: checked_add_one_nonzero)
  then have "ct_active (im_cell r' b) \<noteq> 0" by (simp add: n(1) [symmetric])
  with h(1) show "\<exists>r''. im_note_finished r' b = (Inr (), r'')"
    by (auto simp: im_note_finished_def with_counts_def im_cell_def [symmetric] split: option.splits)
next
  assume "im_note_queued r b = (Inr (), r')"
  note h = with_counts_healthy [OF this [unfolded im_note_queued_def]]
  then obtain n where n: "(im_cell r b)\<lparr>ct_queued := n\<rparr> = im_cell r' b" "n \<noteq> 0"
    by (auto split: option.splits dest: checked_add_one_nonzero)
  then have "ct_queued (im_cell r' b) \<noteq> 0" by (simp add: n(1) [symmetric])
  with h(1) show "\<exists>r''. im_note_dequeued r' b = (Inr (), r'')"
    by (auto simp: im_note_dequeued_def with_counts_def im_cell_def [symmetric] split: option.splits)
qed

interpretation rel: releasable_registry in_memory_ops im_active im_queued
  by unfold_locales (simp_all add: in_memory_ops_def im_release im_cancel_active_def)

text \<open>
  \<^bold>\<open>C25.\<close> A failed acceptance leaves no trace: whatever fails, a statement, the commit or the
  admission itself, the tables are unchanged and the daemon's run registry has the counts it had
  before, a charge that was already made having been released.
\<close>

theorem failed_accept_leaves_no_trace:
  assumes "accept_occurrence cd in_memory_ops fault new_id sb occ t db s = (Err e, db', s')"
  shows "db' = db \<and> im_active (fst s') = im_active (fst s) \<and> im_queued (fst s') = im_queued (fst s)"
  using rel.failed_accept_restores [OF assms] by (simp add: rel.same_counts_def)

subsection \<open>The life of a delivery\<close>

text \<open>Calls that do not ask for the cancellation of a delivery in a terminal state.\<close>

fun calm :: "'r store_op \<Rightarrow> bool" where
  "calm (SRequestCancellation _ _ expected _) \<longleftrightarrow> delivery_state_sql expected \<notin> set terminal_states"
| "calm _ \<longleftrightarrow> True"

text \<open>
  What one call does to the rows of \<^verbatim>\<open>trigger_delivery\<close>: each row is kept or changed along an edge
  of the state machine, and at most one row, ready and with a new id, is added.
\<close>

definition row_edges :: "(string \<times> string) list" where
  "row_edges =
     [(''ready'', ''leased''), (''leased'', ''ready''), (''leased'', ''reserved''),
      (''reserved'', ''running''), (''running'', ''delivered''),
      (''cancellation_requested'', ''delivered''), (''running'', ''failed''),
      (''reserved'', ''failed''), (''cancellation_requested'', ''failed''),
      (''running'', ''cancelled''), (''reserved'', ''cancelled''),
      (''cancellation_requested'', ''cancelled'')]"

definition row_moves :: "delivery_row \<Rightarrow> delivery_row \<Rightarrow> bool" where
  "row_moves r r' \<longleftrightarrow> dr_delivery_id r' = dr_delivery_id r \<and>
     (r' = r \<or> (dr_state r, dr_state r') \<in> set row_edges \<or>
      (dr_state r \<notin> set terminal_states \<and> dr_state r' = ''cancellation_requested''))"

lemma row_moves_refl [simp]: "row_moves r r"
  by (simp add: row_moves_def)

lemma row_moves_terminal: "row_moves r r' \<Longrightarrow> dr_state r \<in> set terminal_states \<Longrightarrow> r' = r"
  by (auto simp: row_moves_def row_edges_def terminal_states_def)

lemma delivery_txn_rows:
  assumes "\<And>r. P r \<Longrightarrow> row_moves r (f r)"
  shows "\<exists>g. db_deliveries (snd (delivery_txn fault bad P f db)) = map g (db_deliveries db) \<and>
             (\<forall>r. row_moves r (g r))"
proof (cases "fault StBegin \<or> fault StUpdateDelivery \<or> bad \<or> fault StCommit")
  case True
  then show ?thesis by (intro exI [of _ id]) (simp add: delivery_txn_snd)
next
  case False
  then show ?thesis
    using assms by (intro exI [of _ "\<lambda>r. if P r then f r else r"]) (simp add: delivery_txn_snd)
qed

lemma delivery_op_rows:
  "\<exists>g. db_deliveries (snd (lease_delivery fault db did t now)) = map g (db_deliveries db) \<and> (\<forall>r. row_moves r (g r))"
  "\<exists>g. db_deliveries (snd (reclaim_expired_lease fault db did now)) = map g (db_deliveries db) \<and> (\<forall>r. row_moves r (g r))"
  "\<exists>g. db_deliveries (snd (reserve_delivery cd fault db did run_id sid now)) = map g (db_deliveries db) \<and> (\<forall>r. row_moves r (g r))"
  "\<exists>g. db_deliveries (snd (mark_delivery_running fault db did now)) = map g (db_deliveries db) \<and> (\<forall>r. row_moves r (g r))"
  "\<exists>g. db_deliveries (snd (complete_delivery fault db did now)) = map g (db_deliveries db) \<and> (\<forall>r. row_moves r (g r))"
  "\<exists>g. db_deliveries (snd (fail_delivery fault db did err now)) = map g (db_deliveries db) \<and> (\<forall>r. row_moves r (g r))"
  "\<exists>g. db_deliveries (snd (cancel_delivery fault db did now)) = map g (db_deliveries db) \<and> (\<forall>r. row_moves r (g r))"
  unfolding delivery_op_defs Let_def
  by (rule delivery_txn_rows; auto simp: row_moves_def row_edges_def)+

definition rows_move :: "sched_db \<Rightarrow> sched_db \<Rightarrow> bool" where
  "rows_move db db' \<longleftrightarrow> (\<exists>g new. db_deliveries db' = map g (db_deliveries db) @ new \<and>
     (\<forall>r. row_moves r (g r)) \<and>
     (\<forall>n \<in> set new. dr_delivery_id n \<notin> dr_delivery_id ` set (db_deliveries db)))"

lemma rows_move_mapI:
  "\<exists>g. db_deliveries db' = map g (db_deliveries db) \<and> (\<forall>r. row_moves r (g r)) \<Longrightarrow> rows_move db db'"
  unfolding rows_move_def by (metis append_Nil2 empty_iff list.set(1))

lemma accept_rows_move:
  assumes "db_ok db"
  shows "rows_move db (fst (snd (accept_occurrence cd ops fault new_id sb occ t db s)))"
    (is "rows_move db (fst (snd ?out))")
proof -
  let ?ev = "occurrence_event cd occ t"
  consider "accept_fails db ?out \<or> accept_repeats cd fault ?ev db s ?out"
    | "accept_creates cd ops fault new_id (bd_overlap (sb_binding sb)) ?ev db s ?out"
    using accept_occurrence_cases by blast
  then show ?thesis
  proof cases
    case 1
    then have "db_deliveries (fst (snd ?out)) = db_deliveries db"
      by (auto simp: accept_fails_def accept_repeats_def)
    then show ?thesis by (intro rows_move_mapI exI [of _ id]) simp
  next
    case 2
    show ?thesis
    proof (rule accept_creates_tables [OF 2 assms], goal_cases)
      case (1 d P)
      let ?g = "\<lambda>r. if P r then r\<lparr>dr_state := ''cancellation_requested'',
                   dr_updated_at := timestamp_from_datetime (te_fired_at ?ev)\<rparr> else r"
      show ?case
        unfolding rows_move_def 1(4) map_append
        by (intro exI conjI, rule refl)
          (use 1(5,6) in \<open>auto simp: row_moves_def delivery_to_row_def\<close>)
    qed
  qed
qed

lemma record_rows: "db_deliveries (snd (record_trigger_event cd fault db ev)) = db_deliveries db"
  by (auto simp: record_trigger_event_def insert_trigger_event_in_txn_def)

lemma request_cancellation_rows:
  assumes "delivery_state_sql expected \<notin> set terminal_states"
  shows "rows_move db (snd (request_cancellation fault db did expected now))"
proof (cases "fault StBegin \<or> fault StRequestCancellation \<or> fault StCommit")
  case True
  then show ?thesis by (intro rows_move_mapI exI [of _ id]) (auto simp: request_cancellation_snd)
next
  case False
  then show ?thesis
    using assms unfolding request_cancellation_snd
    by (intro rows_move_mapI exI [of _ "\<lambda>d. if dr_delivery_id d = did \<and> dr_state d = delivery_state_sql expected
             then d\<lparr>dr_state := ''cancellation_requested'', dr_updated_at := now\<rparr> else d"])
       (auto simp: row_moves_def)
qed

lemma store_step_rows_move: "db_ok db \<Longrightarrow> calm op \<Longrightarrow> rows_move db (store_step cd ops db op)"
proof (cases op)
  case (SRecord fault ev)
  then show ?thesis by (intro rows_move_mapI exI [of _ id]) (simp add: record_rows)
qed (simp_all add: accept_rows_move request_cancellation_rows rows_move_mapI delivery_op_rows)

lemma rows_move_keeps:
  assumes "rows_move db db'" "r \<in> set (db_deliveries db)" "dr_state r \<in> set terminal_states"
  shows "r \<in> set (db_deliveries db')"
proof -
  obtain g new where g: "db_deliveries db' = map g (db_deliveries db) @ new" "row_moves r (g r)"
    using assms(1) unfolding rows_move_def by blast
  have "g r = r" using row_moves_terminal [OF g(2) assms(3)] .
  then show ?thesis using assms(2) unfolding g(1) by (metis UnI1 image_eqI list.set_map set_append)
qed

lemma store_run_keeps_terminal:
  assumes "db_ok db" "\<forall>op \<in> set ops'. calm op" "r \<in> set (db_deliveries db)" "dr_state r \<in> set terminal_states"
  shows "r \<in> set (db_deliveries (foldl (store_step cd ops) db ops'))"
  using assms
proof (induction ops' arbitrary: db)
  case (Cons op ops')
  have "r \<in> set (db_deliveries (store_step cd ops db op))"
    using rows_move_keeps [OF store_step_rows_move [OF Cons.prems(1), of op cd ops]] Cons.prems by simp
  then show ?case
    using Cons.IH [OF store_step_db_ok [OF Cons.prems(1), of cd ops op]] Cons.prems by simp
qed simp

text \<open>
  A delivery that is delivered, failed, cancelled or skipped stays exactly as it is: in
  every reachable store, and over all later calls that do not themselves name a terminal state as
  the one to be cancelled, the row found under its id is the same row.
\<close>

theorem terminal_deliveries_are_final:
  assumes "db = foldl (store_step cd ops) sched_db_new xs"
    and "List.find (\<lambda>d. dr_delivery_id d = did) (db_deliveries db) = Some r"
    and "dr_state r \<in> set terminal_states" "\<forall>op \<in> set ys. calm op"
  shows "List.find (\<lambda>d. dr_delivery_id d = did) (db_deliveries (foldl (store_step cd ops) db ys)) = Some r"
proof -
  let ?db = "foldl (store_step cd ops) db ys"
  have r: "r \<in> set (db_deliveries db)" "dr_delivery_id r = did"
    using assms(2) by (auto simp: find_Some_iff in_set_conv_nth)
  have ok: "db_ok db" unfolding assms(1) by (rule store_run_db_ok) simp
  have "distinct (map dr_delivery_id (db_deliveries ?db))"
    using store_run_db_ok [OF ok, of cd ops ys] by (simp add: db_ok_def comp_def)
  moreover have "r \<in> set (db_deliveries ?db)"
    using store_run_keeps_terminal [OF ok assms(4) r(1) assms(3)] .
  ultimately show ?thesis
    by (rule find_unique) (use r in auto)
qed

text \<open>A delivery that is not up for leasing, and whose lease, if it is leased, ends at \<open>t\<close>.\<close>

definition row_held :: "int \<Rightarrow> delivery_row \<Rightarrow> bool" where
  "row_held t r \<longleftrightarrow> dr_state r \<noteq> ''ready'' \<and> (dr_state r = ''leased'' \<longrightarrow> dr_lease_expires_at r = Some t)"

definition held :: "string \<Rightarrow> int \<Rightarrow> sched_db \<Rightarrow> bool" where
  "held did t db \<longleftrightarrow> did \<in> dr_delivery_id ` set (db_deliveries db) \<and>
     (\<forall>r \<in> set (db_deliveries db). dr_delivery_id r = did \<longrightarrow> row_held t r)"

fun reclaims :: "string \<Rightarrow> int \<Rightarrow> 'r store_op \<Rightarrow> bool" where
  "reclaims did t (SReclaim _ did' now) \<longleftrightarrow> did' = did \<and> t \<le> now"
| "reclaims did t _ \<longleftrightarrow> False"

lemma held_map:
  assumes "held did t db" "db_deliveries db' = map g (db_deliveries db)"
    and "\<And>r. dr_delivery_id (g r) = dr_delivery_id r"
    and "\<And>r. dr_delivery_id r = did \<Longrightarrow> row_held t r \<Longrightarrow> row_held t (g r)"
  shows "held did t db'"
  using assms by (auto simp: held_def image_iff)

lemma delivery_txn_held:
  assumes "held did t db" "\<And>r. dr_delivery_id (f r) = dr_delivery_id r"
    and "\<And>r. dr_delivery_id r = did \<Longrightarrow> P r \<Longrightarrow> row_held t r \<Longrightarrow> row_held t (f r)"
  shows "held did t (snd (delivery_txn fault bad P f db))"
proof (cases "fault StBegin \<or> fault StUpdateDelivery \<or> bad \<or> fault StCommit")
  case True
  then show ?thesis using assms(1) by (simp add: delivery_txn_snd)
next
  case False
  then show ?thesis
    by (intro held_map [OF assms(1), where g = "\<lambda>r. if P r then f r else r"])
       (simp_all add: delivery_txn_snd assms)
qed

lemma accept_held:
  assumes "db_ok db" "held did t db"
  shows "held did t (fst (snd (accept_occurrence cd ops fault new_id sb occ t' db s)))"
    (is "held did t (fst (snd ?out))")
proof -
  let ?ev = "occurrence_event cd occ t'"
  consider "accept_fails db ?out \<or> accept_repeats cd fault ?ev db s ?out"
    | "accept_creates cd ops fault new_id (bd_overlap (sb_binding sb)) ?ev db s ?out"
    using accept_occurrence_cases by blast
  then show ?thesis
  proof cases
    case 1
    then have "db_deliveries (fst (snd ?out)) = map id (db_deliveries db)"
      by (auto simp: accept_fails_def accept_repeats_def)
    then show ?thesis by (rule held_map [OF assms(2)]) simp_all
  next
    case 2
    show ?thesis
    proof (rule accept_creates_tables [OF 2 assms(1)], goal_cases)
      case (1 d P)
      let ?n = "delivery_to_row cd (ready_delivery new_id (db_next_id db) (te_binding_id ?ev)
          (timestamp_from_datetime (te_fired_at ?ev)))"
      have n: "dr_delivery_id ?n = new_id" by (simp add: delivery_to_row_def)
      let ?db = "db\<lparr>db_deliveries := db_deliveries db @ (if decision_creates_delivery d then [?n] else [])\<rparr>"
      let ?g = "\<lambda>r. if P r then r\<lparr>dr_state := ''cancellation_requested'',
                   dr_updated_at := timestamp_from_datetime (te_fired_at ?ev)\<rparr> else r"
      have h: "held did t ?db"
        using assms(2) 1(6) by (auto simp: held_def n)
      have rows: "db_deliveries (fst (snd ?out)) = map ?g (db_deliveries ?db)"
        unfolding 1(4) by simp
      show ?case
        by (rule held_map [OF h rows]) (simp_all add: row_held_def)
    qed
  qed
qed

lemma request_cancellation_held:
  assumes "held did t db"
  shows "held did t (snd (request_cancellation fault db did' expected now))"
proof (cases "fault StBegin \<or> fault StRequestCancellation \<or> fault StCommit")
  case True
  then show ?thesis using assms by (simp add: request_cancellation_snd)
next
  case False
  then show ?thesis
    by (intro held_map [OF assms, where g = "\<lambda>d. if dr_delivery_id d = did' \<and> dr_state d = delivery_state_sql expected
             then d\<lparr>dr_state := ''cancellation_requested'', dr_updated_at := now\<rparr> else d"])
       (simp_all add: request_cancellation_snd row_held_def)
qed

lemma store_step_held:
  assumes "db_ok db" "held did t db" "\<not> reclaims did t op"
  shows "held did t (store_step cd ops db op)"
proof (cases op)
  case (SRecord fault ev)
  then show ?thesis using assms(2) by (simp add: held_def record_rows)
next
  case (SReclaim fault did' now)
  then show ?thesis
    using assms unfolding SReclaim store_step.simps reclaim_expired_lease_def
    by (intro delivery_txn_held) (auto simp: row_held_def split: option.splits)
qed (use assms in \<open>auto simp: accept_held request_cancellation_held delivery_op_defs Let_def row_held_def
       intro!: delivery_txn_held\<close>)

lemma store_run_held:
  assumes "db_ok db" "held did t db" "\<forall>op \<in> set ys. \<not> reclaims did t op"
  shows "held did t (foldl (store_step cd ops) db ys)"
  using assms
proof (induction ys arbitrary: db)
  case (Cons y ys)
  then show ?case
    using store_step_held [OF Cons.prems(1,2), of y cd ops] store_step_db_ok [OF Cons.prems(1), of cd ops y]
    by simp
qed simp

lemma lease_held:
  assumes "lease_delivery fault db did t now = (Ok True, db1)"
    and dist: "distinct (map dr_delivery_id (db_deliveries db))"
  shows "held did t db1"
proof -
  define g :: "delivery_row \<Rightarrow> delivery_row" where "g = (\<lambda>r. if dr_delivery_id r = did \<and> dr_state r = ''ready''
      then r\<lparr>dr_state := ''leased'', dr_lease_expires_at := Some t, dr_updated_at := now\<rparr> else r)"
  obtain x where x: "x \<in> set (db_deliveries db)" "dr_delivery_id x = did" "dr_state x = ''ready''"
    and rows: "db_deliveries db1 = map g (db_deliveries db)"
    using assms(1) by (auto simp: lease_delivery_def delivery_txn_def sql_update_def g_def
        filter_empty_conv split: if_splits)
  have id: "dr_delivery_id (g r) = dr_delivery_id r" for r by (simp add: g_def)
  have "r = x" if "r \<in> set (db_deliveries db)" "dr_delivery_id r = did" for r
    using dist x that by (metis distinct_map inj_onD)
  moreover have "row_held t (g x)" by (simp add: g_def x row_held_def)
  ultimately have "\<forall>r \<in> set (db_deliveries db). dr_delivery_id (g r) = did \<longrightarrow> row_held t (g r)"
    by (metis id)
  moreover have "did \<in> dr_delivery_id ` set (map g (db_deliveries db))"
    using x(1) id [of x] unfolding x(2) [symmetric] by (metis image_eqI list.set_map)
  ultimately show ?thesis
    unfolding held_def rows by auto
qed

text \<open>
  \<^bold>\<open>C26.\<close> A lease is exclusive: after a delivery was leased until \<open>t\<close> in a reachable store, no
  later call leases it again, whatever else happens, unless the lease was reclaimed in between at
  an instant at or after \<open>t\<close>.
\<close>

theorem lease_exclusive:
  assumes "db = foldl (store_step cd ops) sched_db_new xs"
    and "lease_delivery fault db did t now = (Ok True, db1)"
    and "\<forall>op \<in> set ys. \<not> reclaims did t op"
  shows "fst (lease_delivery fault' (foldl (store_step cd ops) db1 ys) did t' now') \<noteq> Ok True"
proof -
  have ok: "db_ok db" unfolding assms(1) by (rule store_run_db_ok) simp
  have ok1: "db_ok db1"
    using store_step_db_ok [OF ok, of cd ops "SLease fault did t now"] assms(2) by simp
  have "distinct (map dr_delivery_id (db_deliveries db))"
    using ok by (simp add: db_ok_def comp_def)
  then have "held did t db1" by (rule lease_held [OF assms(2)])
  then have "held did t (foldl (store_step cd ops) db1 ys)"
    by (rule store_run_held [OF ok1 _ assms(3)])
  then show ?thesis
    by (auto simp: lease_delivery_def delivery_txn_def sql_update_def held_def row_held_def
        filter_empty_conv)
qed

subsection \<open>The cursor\<close>

lemma advance_cursor_mono:
  assumes "db_cursors db k = Some (Some n)"
  shows "\<exists>m. db_cursors (snd (advance_cursor_in_txn cd fault db b t)) k = Some (Some m) \<and> n \<le> m"
  using assms by (auto simp: advance_cursor_in_txn_def Let_def)

lemma store_decision_cursors:
  "store_decision cd fault new_id b eid ts d db = (Ok a, db') \<Longrightarrow> db_cursors db' = db_cursors db"
  by (erule store_decision_Ok) simp

lemma accept_cursor:
  assumes "accept_occurrence cd ops fault new_id sb occ t db s = (x, db', s')"
  shows "db_cursors db' = (case x of Inl _ \<Rightarrow> db_cursors db
           | Inr _ \<Rightarrow> db_cursors (snd (advance_cursor_in_txn cd fault db
                        (so_binding_id occ) (so_scheduled_for occ))))"
proof -
  let ?ev = "occurrence_event cd occ t"
  have ev: "te_binding_id ?ev = so_binding_id occ" "te_scheduled_for ?ev = so_scheduled_for occ"
    by (simp_all add: occurrence_event_def)
  have adv: "db_cursors a = db_cursors b \<Longrightarrow> db_cursors (snd (advance_cursor_in_txn cd fault a k u))
      = db_cursors (snd (advance_cursor_in_txn cd fault b k u))" for a b k u
    by (simp add: advance_cursor_in_txn_def Let_def)
  consider "accept_fails db (x, db', s')" | "accept_repeats cd fault ?ev db s (x, db', s')"
    | "accept_creates cd ops fault new_id (bd_overlap (sb_binding sb)) ?ev db s (x, db', s')"
    using accept_occurrence_cases [of db cd ops fault new_id sb occ t s] assms by auto
  then show ?thesis
  proof cases
    case 3
    then obtain d a db1 db2 where
      "insert_trigger_event_in_txn cd fault db ?ev = (Ok (Some (db_next_id db)), db1)"
      "store_decision cd fault new_id (te_binding_id ?ev) (db_next_id db)
          (timestamp_from_datetime (te_fired_at ?ev)) d db1 = (Ok a, db2)"
      "x = Ok a" "db' = snd (advance_cursor_in_txn cd fault db2 (te_binding_id ?ev) (te_scheduled_for ?ev))"
      unfolding accept_creates_def by blast
    moreover from this have "db_cursors db2 = db_cursors db"
      using store_decision_cursors insert_trigger_event_new(2) by fastforce
    ultimately show ?thesis using adv [of db2 db] by (simp add: ev)
  qed (auto simp: accept_fails_def accept_repeats_def ev)
qed

lemma other_cursors:
  "db_cursors (snd (record_trigger_event cd fault db ev)) = db_cursors db"
  "db_cursors (snd (request_cancellation fault db did expected now)) = db_cursors db"
  "db_cursors (snd (delivery_txn fault bad P f db)) = db_cursors db"
  by (auto simp: record_trigger_event_def insert_trigger_event_in_txn_def request_cancellation_snd
      delivery_txn_snd)

lemma store_step_cursor:
  assumes "db_cursors db k = Some (Some n)"
  shows "\<exists>m. db_cursors (store_step cd ops db op) k = Some (Some m) \<and> n \<le> m"
proof (cases op)
  case (SAccept fault new_id sb occ t s)
  obtain x db' s' where out: "accept_occurrence cd ops fault new_id sb occ t db s = (x, db', s')"
    by (metis prod.exhaust)
  show ?thesis
    using accept_cursor [OF out] assms advance_cursor_mono [OF assms, of cd fault]
    by (auto simp: SAccept out split: sum.splits)
qed (use assms in \<open>simp_all add: delivery_op_defs Let_def other_cursors\<close>)

text \<open>
  The cursor of a binding never goes back: a successful acceptance leaves it at or after
  the occurrence's instant, and no later call, in whatever order occurrences arrive, moves it to
  an earlier one.
\<close>

theorem cursor_never_regresses:
  assumes "accept_occurrence cd ops fault new_id sb occ t db s = (Ok a, db1, s1)"
  shows "\<exists>m. db_cursors (foldl (store_step cd ops) db1 ys) (uuid_str cd (so_binding_id occ)) = Some (Some m) \<and>
             timestamp_from_datetime (so_scheduled_for occ) \<le> m"
proof -
  let ?k = "uuid_str cd (so_binding_id occ)"
  have "fault StAdvanceCursor \<Longrightarrow> fst (accept_occurrence cd ops fault new_id sb occ t db s) \<noteq> Ok a"
    by (auto simp: accept_occurrence_def Let_def advance_cursor_in_txn_def split: sum.splits prod.splits)
  then have "\<not> fault StAdvanceCursor" using assms by auto
  then have start: "\<exists>m. db_cursors db1 ?k = Some (Some m) \<and> timestamp_from_datetime (so_scheduled_for occ) \<le> m"
    using accept_cursor [OF assms]
    by (auto simp: advance_cursor_in_txn_def Let_def split: option.splits)
  show ?thesis
    using start
  proof (induction ys arbitrary: db1)
    case (Cons y ys)
    then show ?case using store_step_cursor [of db1 ?k _ cd ops y] by (fastforce intro: order_trans)
  qed simp
qed

subsection \<open>Witnesses\<close>

text \<open>A unary codec, a binding that skips overlapping runs, and the daemon's empty registry.\<close>

definition example_codec :: sql_codec where
  "example_codec = \<lparr>uuid_str = (\<lambda>n. replicate n (CHR ''u'')), uuid_parse = (\<lambda>s. Some (length s)),
     rfc3339 = (\<lambda>t. replicate (nat t) (CHR ''t''))\<rparr>"

definition example_binding :: stored_binding where
  "example_binding = \<lparr>sb_workspace = 1, sb_binding = (binding_new 1 2 TsManual)\<lparr>bd_overlap := OvSkip\<rparr>\<rparr>"

definition example_occurrence :: scheduled_occurrence where
  "example_occurrence = \<lparr>so_binding_id = 1, so_scheduled_for = 5, so_is_catch_up = False\<rparr>"

definition no_fault :: faults where
  "no_fault = (\<lambda>_. False)"

definition commit_fault :: faults where
  "commit_fault = (\<lambda>st. case st of StCommit \<Rightarrow> True | _ \<Rightarrow> False)"

abbreviation example_accept ::
  "faults \<Rightarrow> sched_db \<Rightarrow> (acceptance, store_error) result \<times> sched_db \<times> in_memory_registry \<times> gates" where
  "example_accept fault db \<equiv> accept_occurrence example_codec in_memory_ops fault ''d'' example_binding
     example_occurrence 6 db (in_memory_new, gates_new)"

definition example_row :: "string \<Rightarrow> int option \<Rightarrow> string option \<Rightarrow> string option \<Rightarrow> int \<Rightarrow> delivery_row" where
  "example_row st lease run_id sid now =
     \<lparr>dr_delivery_id = ''d'', dr_trigger_event_id = 1, dr_binding_id = ''u'', dr_state = st,
      dr_attempts = 0, dr_lease_expires_at = lease, dr_run_id = run_id, dr_session_id = sid,
      dr_last_error = None, dr_created_at = 6, dr_updated_at = now\<rparr>"

lemma example_row_fields [simp]:
  "dr_delivery_id (example_row st l r sid now) = ''d''" "dr_state (example_row st l r sid now) = st"
  "dr_lease_expires_at (example_row st l r sid now) = l"
  "(example_row st l r sid now)\<lparr>dr_state := st', dr_lease_expires_at := l', dr_updated_at := n\<rparr>
     = example_row st' l' r sid n"
  "(example_row st l r sid now)\<lparr>dr_state := st', dr_run_id := r', dr_session_id := sid', dr_updated_at := n\<rparr>
     = example_row st' l r' sid' n"
  "(example_row st l r sid now)\<lparr>dr_state := st', dr_updated_at := n\<rparr> = example_row st' l r sid n"
  by (simp_all add: example_row_def)

definition example_db :: sched_db where
  "example_db =
     \<lparr>db_events = [\<lparr>er_id = 1, er_binding_id = ''u'', er_idempotency_key = ''u@ttttt'',
        er_scheduled_for = ''ttttt'', er_fired_at = ''tttttt'', er_is_catch_up = False,
        er_session_id = None, er_outcome = Some ''admitted''\<rparr>],
      db_next_id = 2, db_deliveries = [example_row ''ready'' None None None 6],
      db_cursors = [''u'' \<mapsto> Some 5]\<rparr>"

definition example_registry :: "binding_id \<Rightarrow> in_memory_registry" where
  "example_registry b = \<lparr>im_counts = [b \<mapsto> \<lparr>ct_active = 1, ct_queued = 0\<rparr>], im_poisoned = False\<rparr>"

lemma example_decision:
  "decide_admission in_memory_ops OvSkip (in_memory_new, gates_new) b = (Ok Admit, (example_registry b, gates_new))"
  by (simp add: decide_admission_def reg_bind_def reg_call_def in_memory_ops_def im_active_run_count_def
      im_note_admitted_def with_counts_def in_memory_new_def lookup_or_def checked_add_def example_registry_def)

lemmas example_accept_simps = accept_occurrence_def accept_attempt_def insert_trigger_event_in_txn_def
  occurrence_event_def occurrence_key_def store_decision_def insert_delivery_in_txn_def
  delivery_to_row_def ready_delivery_def advance_cursor_in_txn_def timestamp_from_datetime_def
  sched_db_new_def MAX_IDEMPOTENCY_KEY_LEN_def Let_def example_codec_def example_occurrence_def
  example_binding_def binding_new_def example_decision compensate_registry_charge_def

lemma example_accept_new:
  "example_accept no_fault sched_db_new =
     (Ok (AccNew 1 Admit OcAdmitted (Some (ready_delivery ''d'' 1 1 6))), example_db, example_registry 1, gates_new)"
  by (simp add: example_accept_simps example_db_def example_row_def no_fault_def numeral_eq_Suc)

lemma example_accept_commit_fails: "fst (example_accept commit_fault sched_db_new) = Err Sqlite"
  by (simp add: example_accept_simps commit_fault_def numeral_eq_Suc)

theorem accept_once_witness:
  "snd (snd (example_accept no_fault example_db)) = (in_memory_new, gates_new) \<and>
   db_deliveries (fst (snd (example_accept no_fault example_db))) = db_deliveries example_db"
proof -
  obtain x db3 s3 where second: "example_accept no_fault example_db = (x, db3, s3)"
    by (metis prod.collapse)
  show ?thesis
    using accept_once [of sched_db_new example_codec in_memory_ops "[]", OF _ example_accept_new, of example_db in_memory_ops "[]",
        OF _ _ refl refl second]
    by (simp add: second)
qed

theorem failed_accept_leaves_no_trace_witness:
  "fst (snd (example_accept commit_fault sched_db_new)) = sched_db_new \<and>
   im_active (fst (snd (snd (example_accept commit_fault sched_db_new)))) = im_active in_memory_new"
proof -
  obtain db' s' where out: "example_accept commit_fault sched_db_new = (Err Sqlite, db', s')"
    using example_accept_commit_fails by (metis prod.collapse)
  show ?thesis using failed_accept_leaves_no_trace [OF out] by (simp add: out)
qed

text \<open>The example delivery, leased, reserved, started and completed.\<close>

definition example_life :: "in_memory_registry store_op list" where
  "example_life =
     [SAccept no_fault ''d'' example_binding example_occurrence 6 (in_memory_new, gates_new),
      SLease no_fault ''d'' 20 7, SReserve no_fault ''d'' ''r'' 3 8, SRunning no_fault ''d'' 9,
      SComplete no_fault ''d'' 10]"

lemma example_life_rows:
  "db_deliveries (foldl (store_step example_codec in_memory_ops) sched_db_new example_life) =
     [example_row ''delivered'' (Some 20) (Some ''r'') (Some (uuid_str example_codec 3)) 10]"
  by (simp add: example_life_def example_accept_new delivery_op_defs delivery_txn_def sql_update_def
      Let_def no_fault_def [symmetric])
     (simp add: example_db_def no_fault_def)

theorem terminal_deliveries_are_final_witness:
  "List.find (\<lambda>d. dr_delivery_id d = ''d'') (db_deliveries
     (foldl (store_step example_codec in_memory_ops)
        (foldl (store_step example_codec in_memory_ops) sched_db_new example_life)
        [SCancel no_fault ''d'' 11, SFail no_fault ''d'' ''late'' 12])) =
   Some (example_row ''delivered'' (Some 20) (Some ''r'') (Some (uuid_str example_codec 3)) 10)"
  by (rule terminal_deliveries_are_final [OF refl])
     (simp_all add: example_life_rows terminal_states_def del: foldl_Cons)

theorem lease_exclusive_witness:
  "fst (lease_delivery no_fault example_db ''d'' 20 7) = Ok True \<and>
   fst (lease_delivery no_fault (foldl (store_step example_codec in_memory_ops)
      (snd (lease_delivery no_fault example_db ''d'' 20 7)) [SReclaim no_fault ''d'' 19]) ''d'' 40 19) \<noteq> Ok True"
proof -
  have ok: "fst (lease_delivery no_fault example_db ''d'' 20 7) = Ok True"
    by (simp add: lease_delivery_def delivery_txn_def sql_update_def no_fault_def example_db_def)
  then have l: "lease_delivery no_fault example_db ''d'' 20 7 =
      (Ok True, snd (lease_delivery no_fault example_db ''d'' 20 7))" by (metis prod.collapse)
  have db: "example_db = foldl (store_step example_codec in_memory_ops) sched_db_new
      [SAccept no_fault ''d'' example_binding example_occurrence 6 (in_memory_new, gates_new)]"
    by (simp add: example_accept_new)
  have "\<forall>op \<in> set [SReclaim no_fault ''d'' 19 :: in_memory_registry store_op]. \<not> reclaims ''d'' 20 op"
    by simp
  then show ?thesis
    by (intro conjI ok lease_exclusive [OF db l])
qed

theorem cursor_never_regresses_witness:
  "\<exists>m. db_cursors example_db ''u'' = Some (Some m) \<and> 5 \<le> m"
proof -
  have k: "uuid_str example_codec (so_binding_id example_occurrence) = ''u''"
    "timestamp_from_datetime (so_scheduled_for example_occurrence) = 5"
    by (simp_all add: example_codec_def example_occurrence_def timestamp_from_datetime_def)
  show ?thesis
    using cursor_never_regresses [OF example_accept_new, of "[]"] by (simp add: k)
qed

end
