(* ===== verification/Sched_Scheduler.thy ===== *)
theory Sched_Scheduler
  imports Sched_Cron Sched_Store "HOL-Library.AList"
begin

text \<open>
  \<^verbatim>\<open>roundhouse-sched/src/scheduler.rs\<close>: the in-memory scheduler.  A heap of due instants, the bindings
  they belong to, the last wall-clock reading, and the backlogs that were cut off by the per-call
  cap.  The bindings are an association list, whose order stands for the unspecified iteration order
  of the hash map; the heap is a list of which a minimal entry is popped.
\<close>

subsection \<open>State\<close>

definition MAX_CATCH_UP :: nat where
  "MAX_CATCH_UP = 100"

definition MAX_INTERVAL :: nat where
  "MAX_INTERVAL = 100 * 365 * 24 * 60 * 60 * NANOS_PER_SEC"

record heap_entry =
  he_fire_at :: int
  he_binding_id :: binding_id
  he_advances_schedule :: bool

definition he_key :: "heap_entry \<Rightarrow> int \<times> binding_id" where
  "he_key e = (he_fire_at e, he_binding_id e)"

record scheduler =
  sc_bindings :: "(binding_id \<times> binding) list"
  sc_heap :: "heap_entry list"
  sc_last_wall :: "int option"
  sc_catch_up_progress :: "binding_id \<rightharpoonup> int option"

definition scheduler_new :: scheduler where
  "scheduler_new = \<lparr>sc_bindings = [], sc_heap = [], sc_last_wall = None, sc_catch_up_progress = Map.empty\<rparr>"

subsection \<open>Occurrences of a binding\<close>

definition occurrences_after :: "'s cron_env \<Rightarrow> binding \<Rightarrow> int \<Rightarrow> (int list, cron_error) result" where
  "occurrences_after env b after =
     (case bd_spec b of
        TsCron expr tz _ jitter gap amb \<Rightarrow>
          res_bind (next_fire_after env expr tz after gap amb jitter) (\<lambda>first.
            if amb = AmbBoth \<and> is_ambiguous_local env tz (ce_to_local env tz first)
            then res_bind (fire_all_ambiguous env expr tz after) (\<lambda>both.
                   if length both = 2 then Ok both else Ok [first])
            else Ok [first])
      | TsInterval every _ _ \<Rightarrow>
          if every = 0 then Err ZeroInterval
          else if every > MAX_INTERVAL then Err (IntervalTooLarge every)
          else let nxt = after + int every
               in if ce_in_range env nxt then Ok [nxt] else Err (IntervalTooLarge every)
      | _ \<Rightarrow> Ok [])"

text \<open>The last instant of the list is the one whose entry advances the schedule.\<close>

definition push_occurrences :: "heap_entry list \<Rightarrow> binding \<Rightarrow> int list \<Rightarrow> heap_entry list \<times> binding" where
  "push_occurrences heap b instants =
     (heap @ map (\<lambda>(i, t). \<lparr>he_fire_at = t, he_binding_id = bd_id b,
                            he_advances_schedule = (i = length instants - 1)\<rparr>) (enumerate 0 instants),
      b\<lparr>bd_next_fire_at := (if instants = [] then None else Some (Min (set instants)))\<rparr>)"

definition add_binding :: "'s cron_env \<Rightarrow> scheduler \<Rightarrow> binding \<Rightarrow> int \<Rightarrow> (unit, cron_error) result \<times> scheduler" where
  "add_binding env sc b now =
     (let sc = (if sc_last_wall sc = None then sc\<lparr>sc_last_wall := Some now\<rparr> else sc);
          after = (case bd_last_fired_for b of Some t \<Rightarrow> t | None \<Rightarrow> now)
      in case occurrences_after env b after of
           Inl e \<Rightarrow> (Err e, sc)
         | Inr instants \<Rightarrow>
             (let (heap, b) = push_occurrences (sc_heap sc) b instants
              in (Ok (), sc\<lparr>sc_heap := heap, sc_bindings := AList.update (bd_id b) b (sc_bindings sc)\<rparr>)))"

fun recompute_bindings ::
  "'s cron_env \<Rightarrow> int \<Rightarrow> (binding_id \<times> binding) list \<Rightarrow> heap_entry list \<Rightarrow> heap_entry list \<times> (binding_id \<times> binding) list" where
  "recompute_bindings env after [] heap = (heap, [])"
| "recompute_bindings env after ((k, b) # bs) heap =
     (let (heap, b) = (case occurrences_after env b after of
                         Inl _ \<Rightarrow> (heap, b) | Inr instants \<Rightarrow> push_occurrences heap b instants);
          (heap, bs) = recompute_bindings env after bs heap
      in (heap, (k, b) # bs))"

definition recompute_all :: "'s cron_env \<Rightarrow> scheduler \<Rightarrow> int \<Rightarrow> scheduler" where
  "recompute_all env sc after =
     (let (heap, bs) = recompute_bindings env after (sc_bindings sc) []
      in sc\<lparr>sc_heap := heap, sc_bindings := bs, sc_catch_up_progress := Map.empty\<rparr>)"

subsection \<open>Draining\<close>

text \<open>The inner \<^verbatim>\<open>for\<close> loop: \<open>True\<close> when it left the \<^verbatim>\<open>'gather\<close> loop.\<close>

fun gather_batch :: "int \<Rightarrow> int list \<Rightarrow> int list \<Rightarrow> int \<Rightarrow> bool \<times> int list \<times> int \<times> bool" where
  "gather_batch now [] missed cursor = (False, missed, cursor, False)"
| "gather_batch now (nxt # rest) missed cursor =
     (if nxt > now then (True, missed, cursor, True)
      else let missed = missed @ [nxt]
           in if length missed \<ge> MAX_CATCH_UP then (True, missed, nxt, False)
              else gather_batch now rest missed nxt)"

text \<open>\<open>None\<close> is the loop that does not end.\<close>

partial_function (option) gather ::
  "'s cron_env \<Rightarrow> binding \<Rightarrow> int \<Rightarrow> int list \<Rightarrow> int \<Rightarrow> (int list \<times> int \<times> bool) option" where
  "gather env b now missed cursor =
     (if length missed \<ge> MAX_CATCH_UP then Some (missed, cursor, False)
      else case occurrences_after env b cursor of
             Inl _ \<Rightarrow> Some (missed, cursor, True)
           | Inr instants \<Rightarrow>
               (case gather_batch now instants missed cursor of
                  (stop, missed, cursor, exhausted) \<Rightarrow>
                    if stop then Some (missed, cursor, exhausted)
                    else gather env b now missed cursor))"

declare gather.simps [code]

definition fire :: "binding_id \<Rightarrow> bool \<Rightarrow> int \<Rightarrow> scheduled_occurrence" where
  "fire b catch_up t = \<lparr>so_binding_id = b, so_scheduled_for = t, so_is_catch_up = catch_up\<rparr>"

definition max_opt :: "int option \<Rightarrow> int option \<Rightarrow> int option" where
  "max_opt a b = (case (a, b) of (Some x, Some y) \<Rightarrow> Some (max x y) | (None, b) \<Rightarrow> b | (a, None) \<Rightarrow> a)"

definition list_max :: "int list \<Rightarrow> int option" where
  "list_max xs = (if xs = [] then None else Some (Max (set xs)))"

text \<open>What the binding's policy lets fire, and the backlog carried over.\<close>

definition apply_catch_up ::
  "binding \<Rightarrow> binding_id \<Rightarrow> int list \<Rightarrow> bool \<Rightarrow> (binding_id \<rightharpoonup> int option)
     \<Rightarrow> scheduled_occurrence list \<times> (binding_id \<rightharpoonup> int option)" where
  "apply_catch_up b bid missed exhausted progress =
     (if length missed > 1 \<or> progress bid \<noteq> None
      then if catch_up_policy b = None \<or> catch_up_policy b = Some CatchUpAll
           then (map (fire bid True) missed, progress)
           else let batch_latest = list_max (compute_catch_up b missed);
                    carried = (case progress bid of None \<Rightarrow> None | Some x \<Rightarrow> x);
                    combined = max_opt carried batch_latest
                in if exhausted
                   then ((case combined of None \<Rightarrow> [] | Some t \<Rightarrow> [fire bid True t]), progress(bid := None))
                   else ([], progress(bid \<mapsto> combined))
      else (map (fire bid False) missed, progress))"

definition min_entry :: "heap_entry list \<Rightarrow> heap_entry option" where
  "min_entry heap = (case sort_key he_key heap of [] \<Rightarrow> None | e # _ \<Rightarrow> Some e)"

text \<open>One binding's turn: gather, look ahead, apply the policy, reschedule.\<close>

definition drain_binding ::
  "'s cron_env \<Rightarrow> int \<Rightarrow> heap_entry \<Rightarrow> binding \<Rightarrow> scheduler \<Rightarrow> (scheduled_occurrence list \<times> scheduler) option" where
  "drain_binding env now e b sc =
     (case gather env b now [he_fire_at e] (he_fire_at e) of
        None \<Rightarrow> None
      | Some (missed, cursor, exhausted) \<Rightarrow>
          (let next_after = occurrences_after env b cursor;
               exhausted = (exhausted \<or> (case next_after of Inl _ \<Rightarrow> True
                                         | Inr instants \<Rightarrow> list_all (\<lambda>t. t > now) instants));
               (events, progress) = apply_catch_up b (he_binding_id e) missed exhausted (sc_catch_up_progress sc);
               b = b\<lparr>bd_last_fired_for := Some (last missed)\<rparr>;
               (heap, b) = (case next_after of Inl _ \<Rightarrow> (sc_heap sc, b)
                            | Inr instants \<Rightarrow> push_occurrences (sc_heap sc) b instants)
           in Some (events, sc\<lparr>sc_heap := heap, sc_catch_up_progress := progress,
                               sc_bindings := AList.update (he_binding_id e) b (sc_bindings sc)\<rparr>)))"

text \<open>
  The \<^verbatim>\<open>while\<close> loop of \<^verbatim>\<open>drain_due\<close>, with the bindings handled in this call, the deferred entries
  and the events so far.
\<close>

function drain_loop ::
  "'s cron_env \<Rightarrow> int \<Rightarrow> binding_id list \<Rightarrow> heap_entry list \<Rightarrow> scheduled_occurrence list \<Rightarrow> scheduler
     \<Rightarrow> (scheduled_occurrence list \<times> heap_entry list \<times> scheduler) option" where
  "drain_loop env now processed deferred events sc =
     (case min_entry (sc_heap sc) of
        None \<Rightarrow> Some (events, deferred, sc)
      | Some e \<Rightarrow>
          if he_fire_at e > now then Some (events, deferred, sc)
          else
            let sc = sc\<lparr>sc_heap := remove1 e (sc_heap sc)\<rparr>; bid = he_binding_id e
            in if \<not> he_advances_schedule e
               then drain_loop env now processed deferred (events @ [fire bid False (he_fire_at e)])
                      (sc\<lparr>sc_bindings := AList.map_entry bid (\<lambda>b. b\<lparr>bd_last_fired_for := Some (he_fire_at e)\<rparr>)
                            (sc_bindings sc)\<rparr>)
               else if bid \<in> set processed
               then drain_loop env now processed (deferred @ [e]) events sc
               else (case map_of (sc_bindings sc) bid of
                       None \<Rightarrow> drain_loop env now (bid # processed) deferred events sc
                     | Some b \<Rightarrow>
                         (case drain_binding env now e b sc of
                            None \<Rightarrow> None
                          | Some (evs, sc) \<Rightarrow> drain_loop env now (bid # processed) deferred (events @ evs) sc)))"
  by pat_completeness auto

text \<open>Each turn either handles a binding for the first time in this call or shrinks the heap.\<close>

definition unprocessed :: "binding_id list \<Rightarrow> binding_id list \<Rightarrow> nat" where
  "unprocessed processed ks = length (filter (\<lambda>k. k \<notin> set processed) ks)"

lemma min_entry_mem: "min_entry heap = Some e \<Longrightarrow> e \<in> set heap"
proof -
  assume "min_entry heap = Some e"
  then obtain es where "sort_key he_key heap = e # es"
    by (auto simp: min_entry_def split: list.splits)
  then have "e \<in> set (sort_key he_key heap)" by (simp only: list.set_intros)
  then show ?thesis by simp
qed

lemma min_entry_shrinks:
  assumes "min_entry heap = Some e"
  shows "length (remove1 e heap) < length heap"
  using min_entry_mem [OF assms] length_pos_if_in_set [OF min_entry_mem [OF assms]]
  by (simp add: length_remove1)

lemma unprocessed_less:
  assumes "bid \<notin> set processed" "bid \<in> set ks"
  shows "unprocessed (bid # processed) ks < unprocessed processed ks"
proof -
  have "filter (\<lambda>k. k \<notin> set (bid # processed)) ks = filter (\<lambda>k. k \<noteq> bid) (filter (\<lambda>k. k \<notin> set processed) ks)"
    by (induction ks) auto
  moreover have "bid \<in> set (filter (\<lambda>k. k \<notin> set processed) ks)"
    using assms by simp
  ultimately show ?thesis
    unfolding unprocessed_def by (metis (mono_tags) length_filter_less)
qed

lemma unprocessed_cons_le: "unprocessed (bid # processed) ks \<le> unprocessed processed ks"
  unfolding unprocessed_def by (induction ks) auto

lemma map_entry_keys [simp]: "map fst (AList.map_entry k f xs) = map fst xs"
  by (induction xs) auto

lemma update_known_keys: "k \<in> fst ` set xs \<Longrightarrow> map fst (AList.update k v xs) = map fst xs"
  by (simp add: update_keys)

lemma drain_binding_keys:
  assumes "drain_binding env now e b sc = Some (evs, sc')"
    and "he_binding_id e \<in> fst ` set (sc_bindings sc)"
  shows "map fst (sc_bindings sc') = map fst (sc_bindings sc)"
proof -
  obtain b' where "sc_bindings sc' = AList.update (he_binding_id e) b' (sc_bindings sc)"
    using assms(1) by (auto simp: drain_binding_def Let_def split: option.splits prod.splits)
  then show ?thesis using update_known_keys [OF assms(2)] by simp
qed

termination drain_loop
proof (relation "measures [\<lambda>(env, now, processed, deferred, events, sc). unprocessed processed (map fst (sc_bindings sc)),
     \<lambda>(env, now, processed, deferred, events, sc). length (sc_heap sc)]", goal_cases)
  case 1
  show ?case by simp
next
  case (2 env now processed deferred events sc e sc1 bid)
  then show ?case by (simp add: min_entry_shrinks)
next
  case (3 env now processed deferred events sc e sc1 bid)
  then show ?case by (simp add: min_entry_shrinks)
next
  case (4 env now processed deferred events sc e sc1 bid)
  then show ?case
    using unprocessed_cons_le [of bid processed "map fst (sc_bindings sc)"] min_entry_shrinks [OF 4(1)]
    by auto
next
  case (5 env now processed deferred events sc e sc1 bid b p evs sc2)
  then have k: "bid \<in> fst ` set (sc_bindings sc)"
    by (metis (no_types, lifting) fst_conv image_eqI map_of_SomeD scheduler.select_convs(1)
        scheduler.surjective scheduler.update_convs(2))
  have "map fst (sc_bindings sc2) = map fst (sc_bindings sc)"
    using drain_binding_keys [of env now e b sc1 evs sc2] 5 k by simp
  with 5 k show ?case using unprocessed_less [of bid processed "map fst (sc_bindings sc)"] by simp
qed

definition drain_due :: "'s cron_env \<Rightarrow> scheduler \<Rightarrow> int \<Rightarrow> (scheduled_occurrence list \<times> scheduler) option" where
  "drain_due env sc now =
     (case drain_loop env now [] [] [] sc of
        None \<Rightarrow> None
      | Some (events, deferred, sc) \<Rightarrow> Some (events, sc\<lparr>sc_heap := sc_heap sc @ deferred\<rparr>))"

definition reconcile :: "'s cron_env \<Rightarrow> scheduler \<Rightarrow> int \<Rightarrow> (scheduled_occurrence list \<times> scheduler) option" where
  "reconcile env sc now =
     (let backward_step = (case sc_last_wall sc of None \<Rightarrow> False | Some last_wall \<Rightarrow> now < last_wall)
      in case (if backward_step then Some ([], recompute_all env sc now) else drain_due env sc now) of
           None \<Rightarrow> None
         | Some (events, sc) \<Rightarrow> Some (events, sc\<lparr>sc_last_wall := Some now\<rparr>))"

definition tick :: "'s cron_env \<Rightarrow> scheduler \<Rightarrow> int \<Rightarrow> (scheduled_occurrence list \<times> scheduler) option" where
  "tick env sc now = reconcile env sc now"

definition catch_up_after_wake :: "'s cron_env \<Rightarrow> scheduler \<Rightarrow> int \<Rightarrow> (scheduled_occurrence list \<times> scheduler) option" where
  "catch_up_after_wake env sc now = reconcile env sc now"

subsection \<open>Histories\<close>

datatype sched_op = AddBinding binding int | Tick int | Wake int

fun sched_step :: "'s cron_env \<Rightarrow> scheduler \<Rightarrow> sched_op \<Rightarrow> (scheduled_occurrence list \<times> scheduler) option" where
  "sched_step env sc (AddBinding b now) = Some ([], snd (add_binding env sc b now))"
| "sched_step env sc (Tick now) = tick env sc now"
| "sched_step env sc (Wake now) = catch_up_after_wake env sc now"

fun sched_run :: "'s cron_env \<Rightarrow> scheduler \<Rightarrow> sched_op list \<Rightarrow> scheduler option" where
  "sched_run env sc [] = Some sc"
| "sched_run env sc (op # ops) =
     (case sched_step env sc op of None \<Rightarrow> None | Some (_, sc) \<Rightarrow> sched_run env sc ops)"

fun reading :: "sched_op \<Rightarrow> int" where
  "reading (AddBinding _ now) = now"
| "reading (Tick now) = now"
| "reading (Wake now) = now"

subsection \<open>Nothing fires early\<close>

lemma gather_batch_props:
  "gather_batch now instants missed cursor = (stop, missed', cursor', exhausted) \<Longrightarrow>
   length missed < MAX_CATCH_UP \<Longrightarrow>
     (\<exists>more. missed' = missed @ more \<and> (\<forall>t \<in> set more. t \<le> now)) \<and>
     length missed' \<le> MAX_CATCH_UP \<and>
     (\<not> stop \<longrightarrow> missed' = missed @ instants \<and> length missed' < MAX_CATCH_UP)"
proof (induction now instants missed cursor rule: gather_batch.induct)
  case (2 now nxt rest missed cursor)
  show ?case
  proof (cases "nxt > now \<or> length (missed @ [nxt]) \<ge> MAX_CATCH_UP")
    case True
    with 2 show ?thesis by (auto simp: Let_def split: if_splits)
  next
    case False
    then have "gather_batch now rest (missed @ [nxt]) nxt = (stop, missed', cursor', exhausted)"
      using "2.prems"(1) by (simp add: Let_def)
    with 2 False show ?thesis by fastforce
  qed
qed simp

lemma gather_appends:
  assumes "gather env b now missed cursor = Some y" "length missed \<le> MAX_CATCH_UP"
  shows "(\<exists>more. fst y = missed @ more \<and> (\<forall>t \<in> set more. t \<le> now)) \<and> length (fst y) \<le> MAX_CATCH_UP"
  using assms
proof (induction env b now missed cursor y rule: gather.raw_induct [rotated, consumes 1, case_names 1])
  case (1 gather env b now missed cursor y)
  consider (full) "length missed \<ge> MAX_CATCH_UP" | (err) e where "length missed < MAX_CATCH_UP" "occurrences_after env b cursor = Inl e"
    | (batch) instants where "length missed < MAX_CATCH_UP" "occurrences_after env b cursor = Inr instants"
    by (cases "occurrences_after env b cursor"; cases "MAX_CATCH_UP \<le> length missed") (auto simp: not_le)
  then show ?case
  proof cases
    case batch
    obtain stop m c ex where g: "gather_batch now instants missed cursor = (stop, m, c, ex)"
      by (metis prod.exhaust)
    note p = gather_batch_props [OF g batch(1)]
    show ?thesis
    proof (cases stop)
      case True
      then have "fst y = m" using 1(2) batch g by auto
      with p show ?thesis by simp
    next
      case False
      then have "gather env b now m c = Some y" using 1(2) batch g by simp
      moreover have "length m \<le> MAX_CATCH_UP" using p by simp
      ultimately have "(\<exists>more. fst y = m @ more \<and> (\<forall>t \<in> set more. t \<le> now)) \<and> length (fst y) \<le> MAX_CATCH_UP"
        by (rule 1(1))
      with p show ?thesis by fastforce
    qed
  qed (use 1 in \<open>auto split: if_splits\<close>)
qed

lemma gather_props:
  assumes "gather env b now missed cursor = Some (missed', cursor', exhausted)" "length missed \<le> MAX_CATCH_UP"
  shows "\<exists>more. missed' = missed @ more \<and> (\<forall>t \<in> set more. t \<le> now) \<and> length missed' \<le> MAX_CATCH_UP"
  using gather_appends [OF assms] by auto

definition carried_le :: "int \<Rightarrow> (binding_id \<rightharpoonup> int option) \<Rightarrow> bool" where
  "carried_le now progress \<longleftrightarrow> (\<forall>b t. progress b = Some (Some t) \<longrightarrow> t \<le> now)"

lemma max_opt_le: "max_opt x y = Some t \<Longrightarrow> (\<forall>a. x = Some a \<longrightarrow> a \<le> n) \<Longrightarrow> (\<forall>a. y = Some a \<longrightarrow> a \<le> n) \<Longrightarrow> t \<le> (n :: int)"
  by (cases x; cases y) (auto simp: max_opt_def)

lemma compute_catch_up_le:
  assumes "\<forall>t \<in> set missed. t \<le> now"
  shows "\<forall>t \<in> set (compute_catch_up b missed). t \<le> now"
proof -
  have "Max (set missed) \<le> now" if "missed \<noteq> []" using assms that by simp
  then show ?thesis
    using assms by (auto simp: compute_catch_up_def split: option.splits catch_up.splits)
qed

lemma list_max_le: "\<forall>t \<in> set xs. t \<le> n \<Longrightarrow> list_max xs = Some m \<Longrightarrow> m \<le> n"
  by (auto simp: list_max_def split: if_splits)

lemma apply_catch_up_le:
  assumes "apply_catch_up b bid missed exhausted progress = (evs, progress')"
    and m: "\<forall>t \<in> set missed. t \<le> now" and c: "carried_le now progress"
  shows "(\<forall>e \<in> set evs. so_scheduled_for e \<le> now) \<and> carried_le now progress'"
proof -
  define combined where "combined = max_opt (case progress bid of None \<Rightarrow> None | Some x \<Rightarrow> x)
      (list_max (compute_catch_up b missed))"
  have "t \<le> now" if "combined = Some t" for t
    using that [unfolded combined_def]
  proof (rule max_opt_le)
    show "\<forall>a. (case progress bid of None \<Rightarrow> None | Some x \<Rightarrow> x) = Some a \<longrightarrow> a \<le> now"
      using c by (auto simp: carried_le_def split: option.splits)
    show "\<forall>a. list_max (compute_catch_up b missed) = Some a \<longrightarrow> a \<le> now"
      using list_max_le [OF compute_catch_up_le [OF m]] by blast
  qed
  then show ?thesis
    using assms by (auto simp: apply_catch_up_def Let_def combined_def [symmetric] fire_def carried_le_def
        split: if_splits option.splits)
qed

lemma drain_binding_le:
  assumes "drain_binding env now e b sc = Some (evs, sc')" "he_fire_at e \<le> now"
    and "carried_le now (sc_catch_up_progress sc)"
  shows "(\<forall>ev \<in> set evs. so_scheduled_for ev \<le> now) \<and> carried_le now (sc_catch_up_progress sc')"
proof -
  obtain missed cursor ex ex' where g: "gather env b now [he_fire_at e] (he_fire_at e) = Some (missed, cursor, ex)"
    and a: "apply_catch_up b (he_binding_id e) missed ex' (sc_catch_up_progress sc) = (evs, sc_catch_up_progress sc')"
    using assms(1) by (auto simp: drain_binding_def Let_def split: option.splits prod.splits)
  have "\<forall>t \<in> set missed. t \<le> now"
    using gather_props [OF g] assms(2) by (auto simp: MAX_CATCH_UP_def)
  from apply_catch_up_le [OF a this assms(3)] show ?thesis .
qed

text \<open>The loop as a step relation on what has been handled, deferred, fired, and the scheduler.\<close>

type_synonym drain_state = "binding_id list \<times> heap_entry list \<times> scheduled_occurrence list \<times> scheduler"

inductive drain_step :: "'s cron_env \<Rightarrow> int \<Rightarrow> drain_state \<Rightarrow> drain_state \<Rightarrow> bool" for env now where
  bare: "e \<in> set (sc_heap sc) \<Longrightarrow> he_fire_at e \<le> now \<Longrightarrow> \<not> he_advances_schedule e \<Longrightarrow>
    sc' = sc\<lparr>sc_heap := remove1 e (sc_heap sc),
             sc_bindings := AList.map_entry (he_binding_id e) (\<lambda>b. b\<lparr>bd_last_fired_for := Some (he_fire_at e)\<rparr>)
               (sc_bindings sc)\<rparr> \<Longrightarrow>
    drain_step env now (processed, deferred, events, sc)
      (processed, deferred, events @ [fire (he_binding_id e) False (he_fire_at e)], sc')"
| again: "e \<in> set (sc_heap sc) \<Longrightarrow> he_fire_at e \<le> now \<Longrightarrow> he_binding_id e \<in> set processed \<Longrightarrow>
    drain_step env now (processed, deferred, events, sc)
      (processed, deferred @ [e], events, sc\<lparr>sc_heap := remove1 e (sc_heap sc)\<rparr>)"
| orphan: "e \<in> set (sc_heap sc) \<Longrightarrow> he_binding_id e \<notin> set processed \<Longrightarrow>
    map_of (sc_bindings sc) (he_binding_id e) = None \<Longrightarrow>
    drain_step env now (processed, deferred, events, sc)
      (he_binding_id e # processed, deferred, events, sc\<lparr>sc_heap := remove1 e (sc_heap sc)\<rparr>)"
| turn: "e \<in> set (sc_heap sc) \<Longrightarrow> he_fire_at e \<le> now \<Longrightarrow> he_advances_schedule e \<Longrightarrow>
    he_binding_id e \<notin> set processed \<Longrightarrow> map_of (sc_bindings sc) (he_binding_id e) = Some b \<Longrightarrow>
    drain_binding env now e b (sc\<lparr>sc_heap := remove1 e (sc_heap sc)\<rparr>) = Some (evs, sc') \<Longrightarrow>
    drain_step env now (processed, deferred, events, sc) (he_binding_id e # processed, deferred, events @ evs, sc')"

lemma drain_loop_steps:
  "drain_loop env now processed deferred events sc = Some (events', deferred', sc') \<Longrightarrow>
   \<exists>processed'. (drain_step env now)\<^sup>*\<^sup>* (processed, deferred, events, sc) (processed', deferred', events', sc')"
proof (induction env now processed deferred events sc rule: drain_loop.induct)
  case (1 env now processed deferred events sc)
  show ?case
  proof (cases "case min_entry (sc_heap sc) of None \<Rightarrow> True | Some e \<Rightarrow> he_fire_at e > now")
    case True
    then have "(events', deferred', sc') = (events, deferred, sc)"
      using "1.prems" by (subst (asm) drain_loop.simps) (auto split: option.splits)
    then show ?thesis by auto
  next
    case False
    then obtain e where e: "min_entry (sc_heap sc) = Some e" and due: "\<not> he_fire_at e > now"
      by (auto split: option.splits)
    have le: "he_fire_at e \<le> now" using due by simp
    define sc1 where "sc1 = sc\<lparr>sc_heap := remove1 e (sc_heap sc)\<rparr>"
    note step = drain_step.intros [OF min_entry_mem [OF e], where env = env and now = now]
    note IH = "1.IH" [OF e due sc1_def refl]
    note run = "1.prems" [unfolded drain_loop.simps [of env now processed deferred events sc] Let_def]
    show ?thesis
    proof (cases "he_advances_schedule e")
      case False
      have "\<exists>p. (drain_step env now)\<^sup>*\<^sup>* (processed, deferred, events @ [fire (he_binding_id e) False (he_fire_at e)],
          sc1\<lparr>sc_bindings := AList.map_entry (he_binding_id e) (\<lambda>b. b\<lparr>bd_last_fired_for := Some (he_fire_at e)\<rparr>)
                (sc_bindings sc1)\<rparr>) (p, deferred', events', sc')"
        using IH(1) [OF False] run False e due by (simp add: sc1_def)
      with step(1) [OF le False refl] show ?thesis
        by (simp add: sc1_def) (meson converse_rtranclp_into_rtranclp)
    next
      case adv: True
      then have n: "\<not> \<not> he_advances_schedule e" by simp
      consider (again) "he_binding_id e \<in> set processed"
        | (orphan) "he_binding_id e \<notin> set processed" "map_of (sc_bindings sc1) (he_binding_id e) = None"
        | (turn) b where "he_binding_id e \<notin> set processed" "map_of (sc_bindings sc1) (he_binding_id e) = Some b"
        by fastforce
      then show ?thesis
      proof cases
        case again
        then show ?thesis
          using IH(2) [OF n again] run adv e due step(2) [OF le again]
          by (simp add: sc1_def) (meson converse_rtranclp_into_rtranclp)
      next
        case orphan
        then show ?thesis
          using IH(3) [OF n orphan] run adv e due step(3) [OF orphan(1)]
          by (simp add: sc1_def) (meson converse_rtranclp_into_rtranclp)
      next
        case turn
        obtain evs sc2 where d: "drain_binding env now e b sc1 = Some (evs, sc2)"
          using run adv e due turn by (auto simp: sc1_def split: option.splits)
        then show ?thesis
          using IH(4) [OF n turn d refl] run adv e due turn step(4) [OF le adv turn(1)]
          by (simp add: sc1_def) (meson converse_rtranclp_into_rtranclp)
      qed
    qed
  qed
qed

lemma drain_steps_le:
  assumes "(drain_step env now)\<^sup>*\<^sup>* st st'"
    and "\<forall>ev \<in> set (fst (snd (snd st))). so_scheduled_for ev \<le> now"
    and "carried_le now (sc_catch_up_progress (snd (snd (snd st))))"
  shows "(\<forall>ev \<in> set (fst (snd (snd st'))). so_scheduled_for ev \<le> now) \<and>
         carried_le now (sc_catch_up_progress (snd (snd (snd st'))))"
  using assms
proof (induction rule: rtranclp_induct)
  case (step st' st'')
  then have IH: "\<forall>ev \<in> set (fst (snd (snd st'))). so_scheduled_for ev \<le> now"
    "carried_le now (sc_catch_up_progress (snd (snd (snd st'))))" by simp_all
  from step(2) show ?case
  proof cases
    case (turn e sc processed b evs sc' deferred events)
    then show ?thesis using IH drain_binding_le [OF turn(8) turn(4)] by auto
  qed (use IH in \<open>auto simp: fire_def\<close>)
qed simp

lemma drain_due_le:
  assumes "drain_due env sc now = Some (events, sc')" "carried_le now (sc_catch_up_progress sc)"
  shows "(\<forall>ev \<in> set events. so_scheduled_for ev \<le> now) \<and> carried_le now (sc_catch_up_progress sc')"
proof -
  obtain deferred sc1 where "drain_loop env now [] [] [] sc = Some (events, deferred, sc1)"
    and sc': "sc' = sc1\<lparr>sc_heap := sc_heap sc1 @ deferred\<rparr>"
    using assms(1) by (auto simp: drain_due_def split: option.splits)
  from drain_loop_steps [OF this(1)] obtain p
    where "(drain_step env now)\<^sup>*\<^sup>* ([], [], [], sc) (p, deferred, events, sc1)" by blast
  from drain_steps_le [OF this] assms(2) sc' show ?thesis by simp
qed

text \<open>The backlog a capped call carries over is never ahead of the last reading of the clock.\<close>

definition carry_inv :: "scheduler \<Rightarrow> bool" where
  "carry_inv sc \<longleftrightarrow> (case sc_last_wall sc of None \<Rightarrow> sc_catch_up_progress sc = Map.empty
                     | Some w \<Rightarrow> carried_le w (sc_catch_up_progress sc))"

lemma carried_le_mono: "carried_le m p \<Longrightarrow> m \<le> n \<Longrightarrow> carried_le n p"
  unfolding carried_le_def by (meson order_trans)

lemma carried_le_empty [simp]: "carried_le n Map.empty"
  by (simp add: carried_le_def)

lemma reconcile_le:
  assumes "reconcile env sc now = Some (events, sc')" "carry_inv sc"
  shows "(\<forall>ev \<in> set events. so_scheduled_for ev \<le> now) \<and> carry_inv sc' \<and> sc_last_wall sc' = Some now \<and>
         (\<forall>w. sc_last_wall sc = Some w \<longrightarrow> now < w \<longrightarrow> events = [])"
proof (cases "\<exists>w. sc_last_wall sc = Some w \<and> now < w")
  case True
  then show ?thesis using assms
    by (auto simp: reconcile_def recompute_all_def carry_inv_def split: prod.splits)
next
  case False
  then have c: "carried_le now (sc_catch_up_progress sc)"
    using assms(2) carried_le_mono by (fastforce simp: carry_inv_def split: option.splits)
  obtain sc1 where "drain_due env sc now = Some (events, sc1)" and "sc' = sc1\<lparr>sc_last_wall := Some now\<rparr>"
    using assms(1) False by (auto simp: reconcile_def split: option.splits if_splits)
  with drain_due_le [OF this(1) c] False show ?thesis by (auto simp: carry_inv_def)
qed

lemma add_binding_frame:
  "snd (add_binding env sc b now) = sc\<lparr>sc_last_wall := (case sc_last_wall sc of None \<Rightarrow> Some now | w \<Rightarrow> w)\<rparr> \<or>
   (\<exists>instants. occurrences_after env b (case bd_last_fired_for b of Some t \<Rightarrow> t | None \<Rightarrow> now) = Ok instants \<and>
      snd (add_binding env sc b now) =
        sc\<lparr>sc_last_wall := (case sc_last_wall sc of None \<Rightarrow> Some now | w \<Rightarrow> w),
           sc_heap := fst (push_occurrences (sc_heap sc) b instants),
           sc_bindings := AList.update (bd_id b) (snd (push_occurrences (sc_heap sc) b instants)) (sc_bindings sc)\<rparr>)"
  by (cases "sc_last_wall sc"; cases "occurrences_after env b (case bd_last_fired_for b of Some t \<Rightarrow> t | None \<Rightarrow> now)")
    (auto simp: add_binding_def Let_def push_occurrences_def)

lemma sched_step_carry_inv:
  assumes "sched_step env sc op = Some (events, sc')" "carry_inv sc"
  shows "carry_inv sc'"
proof (cases op)
  case (AddBinding b now)
  then show ?thesis using assms add_binding_frame [of env sc b now]
    by (auto simp: carry_inv_def split: option.splits)
qed (use assms reconcile_le [of env sc _ events sc'] in \<open>auto simp: tick_def catch_up_after_wake_def\<close>)

lemma sched_run_invariant:
  assumes "sched_run env sc ops = Some sc'" "P sc"
    and "\<And>sc op events sc'. op \<in> set ops \<Longrightarrow> sched_step env sc op = Some (events, sc') \<Longrightarrow> P sc \<Longrightarrow> P sc'"
  shows "P sc'"
  using assms
proof (induction ops arbitrary: sc)
  case (Cons op ops)
  then obtain events sc1 where "sched_step env sc op = Some (events, sc1)" "sched_run env sc1 ops = Some sc'"
    by (auto split: option.splits)
  with Cons show ?case by (metis list.set_intros(1) list.set_intros(2))
qed simp

lemma carry_inv_new: "carry_inv scheduler_new"
  by (simp add: carry_inv_def scheduler_new_def)

subsection \<open>The scheduler never hangs, and catch-up is capped\<close>

definition time_based :: "trigger_spec \<Rightarrow> bool" where
  "time_based spec = (case spec of TsCron _ _ _ _ _ _ \<Rightarrow> True | TsInterval _ _ _ \<Rightarrow> True | _ \<Rightarrow> False)"

lemma occurrences_nonempty:
  "occurrences_after env b after = Ok instants \<Longrightarrow> instants \<noteq> [] \<longleftrightarrow> time_based (bd_spec b)"
  by (auto simp: occurrences_after_def time_based_def Let_def split: trigger_spec.splits if_splits)

text \<open>
  Every heap entry belongs to a known binding that has a schedule, and a latest instant is carried
  only for bindings whose policy is \<^verbatim>\<open>Latest\<close>.
\<close>

definition binding_at :: "scheduler \<Rightarrow> binding_id \<Rightarrow> trigger_spec option" where
  "binding_at sc k = map_option bd_spec (map_of (sc_bindings sc) k)"

definition entry_ok :: "scheduler \<Rightarrow> heap_entry \<Rightarrow> bool" where
  "entry_ok sc e \<longleftrightarrow> (\<exists>spec. binding_at sc (he_binding_id e) = Some spec \<and> time_based spec)"

definition keys_ok :: "scheduler \<Rightarrow> bool" where
  "keys_ok sc \<longleftrightarrow> distinct (map fst (sc_bindings sc)) \<and> (\<forall>k b. map_of (sc_bindings sc) k = Some b \<longrightarrow> bd_id b = k)"

definition latest_spec :: "trigger_spec \<Rightarrow> bool" where
  "latest_spec spec = (case spec of TsCron _ _ CatchUpLatest _ _ _ \<Rightarrow> True | _ \<Rightarrow> False)"

definition carry_ok :: "scheduler \<Rightarrow> bool" where
  "carry_ok sc \<longleftrightarrow> (\<forall>k t. sc_catch_up_progress sc k = Some (Some t) \<longrightarrow>
                     (\<exists>spec. binding_at sc k = Some spec \<and> latest_spec spec))"

definition sched_wf :: "scheduler \<Rightarrow> bool" where
  "sched_wf sc \<longleftrightarrow> keys_ok sc \<and> (\<forall>e \<in> set (sc_heap sc). entry_ok sc e) \<and> carry_ok sc"

definition same_specs :: "scheduler \<Rightarrow> scheduler \<Rightarrow> bool" where
  "same_specs sc sc' \<longleftrightarrow> (\<forall>k. binding_at sc' k = binding_at sc k)"

lemma binding_at_frame [simp]:
  "binding_at (sc\<lparr>sc_heap := h\<rparr>) k = binding_at sc k"
  "binding_at (sc\<lparr>sc_last_wall := w\<rparr>) k = binding_at sc k"
  "binding_at (sc\<lparr>sc_catch_up_progress := p\<rparr>) k = binding_at sc k"
  by (simp_all add: binding_at_def)

lemma push_occurrences_heap:
  "e \<in> set (fst (push_occurrences heap b instants)) \<Longrightarrow>
     e \<in> set heap \<or> (he_binding_id e = bd_id b \<and> instants \<noteq> [])"
  by (auto simp: push_occurrences_def in_set_enumerate_eq)

lemma push_occurrences_binding [simp]:
  "bd_id (snd (push_occurrences heap b instants)) = bd_id b"
  "bd_spec (snd (push_occurrences heap b instants)) = bd_spec b"
  by (simp_all add: push_occurrences_def)

lemma apply_catch_up_carry:
  assumes "apply_catch_up b bid missed exhausted progress = (evs, progress')" "progress' k = Some (Some t)"
    and "\<And>t. progress bid = Some (Some t) \<Longrightarrow> latest_spec (bd_spec b)"
  shows "progress k = Some (Some t) \<or> (k = bid \<and> latest_spec (bd_spec b))"
proof (cases "progress' = progress \<or> progress' = progress(bid := None)")
  case True
  then show ?thesis using assms(2) by (auto split: if_splits)
next
  case False
  define carried where "carried = (case progress bid of None \<Rightarrow> None | Some x \<Rightarrow> x)"
  have p: "progress' = progress(bid \<mapsto> max_opt carried (list_max (compute_catch_up b missed)))"
    and pol: "catch_up_policy b \<noteq> None" "catch_up_policy b \<noteq> Some CatchUpAll"
    using assms(1) False by (auto simp: apply_catch_up_def Let_def carried_def split: if_splits)
  have "latest_spec (bd_spec b)" if "max_opt carried (list_max (compute_catch_up b missed)) = Some t"
  proof (cases "carried")
    case None
    with that pol show ?thesis
      by (auto simp: max_opt_def list_max_def compute_catch_up_def catch_up_policy_def latest_spec_def
          split: trigger_spec.splits catch_up.splits)
  next
    case (Some x)
    then show ?thesis using assms(3) by (auto simp: carried_def split: option.splits)
  qed
  then show ?thesis using assms(2) p by (auto split: if_splits)
qed

lemma drain_binding_shape:
  assumes "drain_binding env now e b sc = Some (evs, sc')"
  obtains missed cursor ex ex' b1 where
    "gather env b now [he_fire_at e] (he_fire_at e) = Some (missed, cursor, ex)"
    "apply_catch_up b (he_binding_id e) missed ex' (sc_catch_up_progress sc) = (evs, sc_catch_up_progress sc')"
    "b1 = b\<lparr>bd_last_fired_for := Some (last missed)\<rparr>"
    "case occurrences_after env b cursor of
       Inl _ \<Rightarrow> sc_heap sc' = sc_heap sc \<and> sc_bindings sc' = AList.update (he_binding_id e) b1 (sc_bindings sc)
     | Inr instants \<Rightarrow> sc_heap sc' = fst (push_occurrences (sc_heap sc) b1 instants) \<and>
         sc_bindings sc' = AList.update (he_binding_id e) (snd (push_occurrences (sc_heap sc) b1 instants)) (sc_bindings sc)"
proof -
  obtain missed cursor ex where g: "gather env b now [he_fire_at e] (he_fire_at e) = Some (missed, cursor, ex)"
    using assms by (auto simp: drain_binding_def split: option.splits)
  define ex' where "ex' = (ex \<or> (case occurrences_after env b cursor of Inl _ \<Rightarrow> True
                                 | Inr instants \<Rightarrow> list_all (\<lambda>t. t > now) instants))"
  define b1 where "b1 = b\<lparr>bd_last_fired_for := Some (last missed)\<rparr>"
  obtain evs1 p where a: "apply_catch_up b (he_binding_id e) missed ex' (sc_catch_up_progress sc) = (evs1, p)"
    by fastforce
  obtain heap b2 where h: "(case occurrences_after env b cursor of Inl _ \<Rightarrow> (sc_heap sc, b1)
                            | Inr instants \<Rightarrow> push_occurrences (sc_heap sc) b1 instants) = (heap, b2)"
    by fastforce
  have "evs = evs1 \<and> sc' = sc\<lparr>sc_heap := heap, sc_catch_up_progress := p,
                               sc_bindings := AList.update (he_binding_id e) b2 (sc_bindings sc)\<rparr>"
    using assms by (simp add: drain_binding_def g Let_def ex'_def [symmetric] a h [unfolded b1_def])
  with a h show thesis
    by (intro that [OF g _ b1_def, of ex']) (auto split: sum.splits)
qed

lemma drain_binding_wf:
  assumes d: "drain_binding env now e b sc = Some (evs, sc')"
    and b: "map_of (sc_bindings sc) (he_binding_id e) = Some b" and wf: "sched_wf sc"
  shows "sched_wf sc' \<and> same_specs sc sc'"
  using d
proof (rule drain_binding_shape)
  fix missed cursor ex ex' b1
  assume a: "apply_catch_up b (he_binding_id e) missed ex' (sc_catch_up_progress sc) = (evs, sc_catch_up_progress sc')"
    and b1: "b1 = b\<lparr>bd_last_fired_for := Some (last missed)\<rparr>"
    and n: "case occurrences_after env b cursor of
       Inl _ \<Rightarrow> sc_heap sc' = sc_heap sc \<and> sc_bindings sc' = AList.update (he_binding_id e) b1 (sc_bindings sc)
     | Inr instants \<Rightarrow> sc_heap sc' = fst (push_occurrences (sc_heap sc) b1 instants) \<and>
         sc_bindings sc' = AList.update (he_binding_id e) (snd (push_occurrences (sc_heap sc) b1 instants)) (sc_bindings sc)"
  have id: "bd_id b = he_binding_id e" using wf b by (simp add: sched_wf_def keys_ok_def)
  have same: "same_specs sc sc'" and keys: "keys_ok sc'"
    using n b wf id b1
    by (auto simp: same_specs_def binding_at_def update_conv' sched_wf_def keys_ok_def distinct_update split: sum.splits)
  have at: "binding_at sc' k = binding_at sc k" for k using same by (simp add: same_specs_def)
  have "entry_ok sc' x" if x: "x \<in> set (sc_heap sc')" for x
  proof (cases "x \<in> set (sc_heap sc)")
    case True
    then show ?thesis using wf at by (simp add: sched_wf_def entry_ok_def)
  next
    case False
    with n x obtain instants where o: "occurrences_after env b cursor = Ok instants"
      and "x \<in> set (fst (push_occurrences (sc_heap sc) b1 instants))" by (auto split: sum.splits)
    with push_occurrences_heap [OF this(2)] False b1 have "he_binding_id x = bd_id b" "instants \<noteq> []" by auto
    then show ?thesis
      using occurrences_nonempty [OF o(1)] id b at by (simp add: entry_ok_def binding_at_def)
  qed
  moreover have "carry_ok sc'"
    unfolding carry_ok_def
  proof (intro allI impI)
    fix k t
    assume k: "sc_catch_up_progress sc' k = Some (Some t)"
    have "latest_spec (bd_spec b)" if "sc_catch_up_progress sc (he_binding_id e) = Some (Some u)" for u
      using that wf b by (fastforce simp: sched_wf_def carry_ok_def binding_at_def)
    then have "sc_catch_up_progress sc k = Some (Some t) \<or> (k = he_binding_id e \<and> latest_spec (bd_spec b))"
      by (rule apply_catch_up_carry [OF a k])
    then show "\<exists>spec. binding_at sc' k = Some spec \<and> latest_spec spec"
      using wf b at by (auto simp: sched_wf_def carry_ok_def binding_at_def)
  qed
  ultimately show ?thesis using keys same by (simp add: sched_wf_def)
qed

text \<open>A binding with a schedule is gathered in at most as many rounds as the cap.\<close>

lemma gather_batch_progress:
  "gather_batch now instants missed cursor = (stop, missed', cursor', exhausted) \<Longrightarrow>
   \<not> stop \<Longrightarrow> missed' = missed @ instants"
proof (induction now instants missed cursor rule: gather_batch.induct)
  case (2 now nxt rest missed cursor)
  then show ?case by (auto simp: Let_def split: if_splits)
qed simp

lemma gather_total:
  assumes "time_based (bd_spec b)"
  shows "\<exists>r. gather env b now missed cursor = Some r"
proof (induction "MAX_CATCH_UP - length missed" arbitrary: missed cursor rule: less_induct)
  case less
  show ?case
  proof (cases "length missed \<ge> MAX_CATCH_UP \<or> (\<exists>e. occurrences_after env b cursor = Inl e)")
    case True
    then show ?thesis by (subst gather.simps) auto
  next
    case False
    then obtain instants where o: "occurrences_after env b cursor = Ok instants"
      by (cases "occurrences_after env b cursor") auto
    obtain stop m c ex where g: "gather_batch now instants missed cursor = (stop, m, c, ex)"
      by (metis prod.exhaust)
    have "\<exists>r. gather env b now m c = Some r" if "\<not> stop"
      using occurrences_nonempty [OF o] assms gather_batch_progress [OF g that] False
      by (intro less) (cases instants; auto simp: not_le)
    then show ?thesis using False o g by (subst gather.simps) auto
  qed
qed

lemma drain_binding_total:
  "time_based (bd_spec b) \<Longrightarrow> \<exists>r. drain_binding env now e b sc = Some r"
  using gather_total [of b env now "[he_fire_at e]" "he_fire_at e"]
  by (auto simp: drain_binding_def Let_def split: prod.splits)

lemma map_entry_specs:
  "map_option bd_spec (map_of (AList.map_entry k (\<lambda>b. b\<lparr>bd_last_fired_for := x\<rparr>) bs) j) =
   map_option bd_spec (map_of bs j)"
  by (induction bs) auto

lemma map_entry_ids:
  "map_of (AList.map_entry k (\<lambda>b. b\<lparr>bd_last_fired_for := x\<rparr>) bs) j = Some b \<Longrightarrow>
     \<exists>b0. map_of bs j = Some b0 \<and> bd_id b = bd_id b0"
  by (induction bs) (auto split: if_splits)

lemma same_specs_heap [simp]: "same_specs sc (sc\<lparr>sc_heap := h\<rparr>)" "same_specs sc (sc\<lparr>sc_heap := h, sc_bindings :=
    AList.map_entry k (\<lambda>b. b\<lparr>bd_last_fired_for := x\<rparr>) (sc_bindings sc)\<rparr>)"
  by (simp_all add: same_specs_def binding_at_def map_entry_specs)

lemma wf_frame:
  assumes "sched_wf sc" "same_specs sc sc'" "keys_ok sc'" "set (sc_heap sc') \<subseteq> set (sc_heap sc)"
    and "sc_catch_up_progress sc' = sc_catch_up_progress sc"
  shows "sched_wf sc'"
  using assms by (auto simp: sched_wf_def same_specs_def entry_ok_def carry_ok_def)

lemma wf_remove:
  assumes "sched_wf sc"
  shows "sched_wf (sc\<lparr>sc_heap := remove1 e (sc_heap sc)\<rparr>)"
  using set_remove1_subset [of e "sc_heap sc"] assms
  by (intro wf_frame [OF assms]) (auto simp: sched_wf_def keys_ok_def)

lemma wf_bare:
  assumes "sched_wf sc"
  shows "sched_wf (sc\<lparr>sc_heap := remove1 e (sc_heap sc),
             sc_bindings := AList.map_entry k (\<lambda>b. b\<lparr>bd_last_fired_for := x\<rparr>) (sc_bindings sc)\<rparr>)"
  using set_remove1_subset [of e "sc_heap sc"] assms
  by (intro wf_frame [OF assms]) (auto simp: sched_wf_def keys_ok_def simp del: map_of_eq_Some_iff dest: map_entry_ids)

lemma same_specs_refl [simp]: "same_specs sc sc"
  by (simp add: same_specs_def)

lemma same_specs_trans: "same_specs a b \<Longrightarrow> same_specs b c \<Longrightarrow> same_specs a c"
  by (simp add: same_specs_def)

lemma drain_turn:
  assumes "drain_binding env now e b (sc\<lparr>sc_heap := remove1 e (sc_heap sc)\<rparr>) = Some (evs, sc')"
    and "map_of (sc_bindings sc) (he_binding_id e) = Some b" "sched_wf sc"
  shows "sched_wf sc' \<and> same_specs sc sc'"
  using drain_binding_wf [OF assms(1) _ wf_remove [OF assms(3)]] assms(2)
    same_specs_trans [OF same_specs_heap(1) [of sc "remove1 e (sc_heap sc)"], of sc'] by simp

lemma drain_step_wf:
  assumes "drain_step env now st st'" "sched_wf (snd (snd (snd st)))"
  shows "sched_wf (snd (snd (snd st'))) \<and> same_specs (snd (snd (snd st))) (snd (snd (snd st')))"
  using assms
proof cases
  case (turn e sc processed b evs sc' deferred events)
  then show ?thesis using drain_turn [OF turn(8) turn(7)] assms(2) by simp
qed (use assms(2) in \<open>auto simp: wf_remove wf_bare\<close>)

lemma drain_loop_total:
  "sched_wf sc \<Longrightarrow> \<exists>r. drain_loop env now processed deferred events sc = Some r"
proof (induction env now processed deferred events sc rule: drain_loop.induct)
  case (1 env now processed deferred events sc)
  show ?case
  proof (cases "case min_entry (sc_heap sc) of None \<Rightarrow> True | Some e \<Rightarrow> he_fire_at e > now")
    case True
    then show ?thesis by (subst drain_loop.simps) (auto split: option.splits)
  next
    case False
    then obtain e where e: "min_entry (sc_heap sc) = Some e" and due: "\<not> he_fire_at e > now"
      by (auto split: option.splits)
    define sc1 where "sc1 = sc\<lparr>sc_heap := remove1 e (sc_heap sc)\<rparr>"
    have wf1: "sched_wf sc1" unfolding sc1_def using "1.prems" by (rule wf_remove)
    note IH = "1.IH" [OF e due sc1_def refl]
    obtain b where b: "map_of (sc_bindings sc1) (he_binding_id e) = Some b" and t: "time_based (bd_spec b)"
      using "1.prems" min_entry_mem [OF e] by (auto simp: sched_wf_def entry_ok_def binding_at_def sc1_def)
    obtain evs sc2 where d: "drain_binding env now e b sc1 = Some (evs, sc2)"
      using drain_binding_total [OF t, of env now e sc1] by auto
    have wf2: "sched_wf sc2" using drain_binding_wf [OF d b wf1] by simp
    have n: "\<not> \<not> he_advances_schedule e" if "he_advances_schedule e" using that by simp
    have unfold: "drain_loop env now processed deferred events sc =
       (if \<not> he_advances_schedule e
        then drain_loop env now processed deferred (events @ [fire (he_binding_id e) False (he_fire_at e)])
               (sc1\<lparr>sc_bindings := AList.map_entry (he_binding_id e) (\<lambda>b. b\<lparr>bd_last_fired_for := Some (he_fire_at e)\<rparr>)
                            (sc_bindings sc1)\<rparr>)
        else if he_binding_id e \<in> set processed then drain_loop env now processed (deferred @ [e]) events sc1
        else drain_loop env now (he_binding_id e # processed) deferred (events @ evs) sc2)"
      by (subst drain_loop.simps) (simp add: e due Let_def sc1_def [symmetric] b d)
    have wf3: "sched_wf (sc1\<lparr>sc_bindings := AList.map_entry (he_binding_id e)
        (\<lambda>b. b\<lparr>bd_last_fired_for := Some (he_fire_at e)\<rparr>) (sc_bindings sc1)\<rparr>)"
      using wf_bare [OF "1.prems"] by (simp add: sc1_def)
    show ?thesis
      unfolding unfold using IH(1) [OF _ wf3] IH(2) [OF n _ wf1] IH(4) [OF n _ b d refl wf2] by auto
  qed
qed

text \<open>How many catch-up occurrences of one binding a call may fire.\<close>

definition catch_up_cap :: "trigger_spec \<Rightarrow> nat" where
  "catch_up_cap spec = (case spec of TsCron _ _ c _ _ _ \<Rightarrow>
      (case c of CatchUpNone \<Rightarrow> 0 | CatchUpLatest \<Rightarrow> 1 | CatchUpAll \<Rightarrow> MAX_CATCH_UP) | _ \<Rightarrow> MAX_CATCH_UP)"

definition catch_ups :: "binding_id \<Rightarrow> scheduled_occurrence list \<Rightarrow> scheduled_occurrence list" where
  "catch_ups k events = filter (\<lambda>ev. so_binding_id ev = k \<and> so_is_catch_up ev) events"

lemma catch_ups_append [simp]: "catch_ups k (xs @ ys) = catch_ups k xs @ catch_ups k ys"
  by (simp add: catch_ups_def)

lemma catch_ups_nil [simp]: "catch_ups k [] = []"
  by (simp add: catch_ups_def)

lemma catch_ups_fire [simp]: "catch_ups k [fire j False t] = []"
  by (simp add: catch_ups_def fire_def)

lemma apply_catch_up_cap:
  assumes "apply_catch_up b bid missed exhausted progress = (evs, progress')" "length missed \<le> MAX_CATCH_UP"
    and "\<And>t. progress bid = Some (Some t) \<Longrightarrow> latest_spec (bd_spec b)"
  shows "length (catch_ups k evs) \<le> (if k = bid then catch_up_cap (bd_spec b) else 0)"
proof -
  define carried where "carried = (case progress bid of None \<Rightarrow> None | Some x \<Rightarrow> x)"
  define combined where "combined = max_opt carried (list_max (compute_catch_up b missed))"
  consider (all) "catch_up_cap (bd_spec b) = MAX_CATCH_UP" "evs = map (fire bid True) missed"
    | (bare) "evs = map (fire bid False) missed" | (none) "evs = []"
    | (latest) t where "combined = Some t" "evs = [fire bid True t]" "catch_up_policy b \<notin> {None, Some CatchUpAll}"
    using assms(1)
    by (auto simp: apply_catch_up_def Let_def combined_def [symmetric] carried_def [symmetric] catch_up_policy_def
        catch_up_cap_def split: if_splits option.splits trigger_spec.splits)
  then show ?thesis
  proof cases
    case all
    then show ?thesis using assms(2)
      by (auto simp: catch_ups_def fire_def intro: order_trans [OF length_filter_le])
  next
    case latest
    have "catch_up_cap (bd_spec b) = 1"
    proof (cases carried)
      case None
      with latest show ?thesis
        by (auto simp: combined_def max_opt_def list_max_def compute_catch_up_def catch_up_policy_def catch_up_cap_def
            split: trigger_spec.splits catch_up.splits)
    next
      case (Some x)
      then have "latest_spec (bd_spec b)" using assms(3) by (auto simp: carried_def split: option.splits)
      then show ?thesis by (auto simp: latest_spec_def catch_up_cap_def split: trigger_spec.splits catch_up.splits)
    qed
    with latest show ?thesis by (auto simp: catch_ups_def fire_def)
  qed (auto simp: catch_ups_def fire_def filter_empty_conv)
qed

lemma drain_binding_cap:
  assumes "drain_binding env now e b sc = Some (evs, sc')"
    and "map_of (sc_bindings sc) (he_binding_id e) = Some b" "sched_wf sc"
  shows "length (catch_ups k evs) \<le> (if k = he_binding_id e then catch_up_cap (bd_spec b) else 0)"
  using assms(1)
proof (rule drain_binding_shape)
  fix missed cursor ex ex' b1
  assume g: "gather env b now [he_fire_at e] (he_fire_at e) = Some (missed, cursor, ex)"
    and a: "apply_catch_up b (he_binding_id e) missed ex' (sc_catch_up_progress sc) = (evs, sc_catch_up_progress sc')"
  have "length missed \<le> MAX_CATCH_UP" using gather_props [OF g] by (auto simp: MAX_CATCH_UP_def)
  moreover have "latest_spec (bd_spec b)" if "sc_catch_up_progress sc (he_binding_id e) = Some (Some t)" for t
    using that assms(2,3) by (fastforce simp: sched_wf_def carry_ok_def binding_at_def)
  ultimately show ?thesis by (rule apply_catch_up_cap [OF a])
qed

text \<open>What holds all through one call.\<close>

definition drain_inv :: "scheduler \<Rightarrow> drain_state \<Rightarrow> bool" where
  "drain_inv sc0 st = (case st of (processed, deferred, events, sc) \<Rightarrow>
     sched_wf sc \<and> same_specs sc0 sc \<and> (\<forall>e \<in> set deferred. entry_ok sc0 e) \<and>
     (\<forall>k. length (catch_ups k events) \<le>
        (if k \<in> set processed then case binding_at sc0 k of None \<Rightarrow> 0 | Some spec \<Rightarrow> catch_up_cap spec else 0)))"

lemma drain_step_inv:
  assumes "drain_step env now st st'" "drain_inv sc0 st"
  shows "drain_inv sc0 st'"
  using assms(1)
proof cases
  case (turn e sc processed b evs sc' deferred events)
  then have inv: "sched_wf sc" "same_specs sc0 sc" "\<forall>e \<in> set deferred. entry_ok sc0 e"
    and cnt: "length (catch_ups k events) \<le>
        (if k \<in> set processed then case binding_at sc0 k of None \<Rightarrow> 0 | Some spec \<Rightarrow> catch_up_cap spec else 0)" for k
    using assms(2) by (auto simp: drain_inv_def)
  have b: "binding_at sc0 (he_binding_id e) = Some (bd_spec b)"
    using inv(2) [unfolded same_specs_def, rule_format, of "he_binding_id e", symmetric] turn(7)
    by (simp add: binding_at_def)
  have c: "length (catch_ups k evs) \<le> (if k = he_binding_id e then catch_up_cap (bd_spec b) else 0)" for k
    using drain_binding_cap [OF turn(8)] turn(7) wf_remove [OF inv(1)] by simp
  have "length (catch_ups k (events @ evs)) \<le>
        (if k \<in> set (he_binding_id e # processed) then case binding_at sc0 k of None \<Rightarrow> 0 | Some spec \<Rightarrow> catch_up_cap spec else 0)" for k
    using cnt [of k] c [of k] b turn(6) by (cases "k = he_binding_id e") simp_all
  then show ?thesis
    using turn drain_turn [OF turn(8) turn(7) inv(1)] inv same_specs_trans [OF inv(2)] by (simp add: drain_inv_def)
next
  case (bare e sc sc' processed deferred events)
  then show ?thesis using assms(2) same_specs_trans [OF _ same_specs_heap(2)]
    by (auto simp: drain_inv_def wf_bare)
next
  case (again e sc processed deferred events)
  then show ?thesis using assms(2) same_specs_trans [OF _ same_specs_heap(1)]
    by (auto simp: drain_inv_def wf_remove) (auto simp: sched_wf_def entry_ok_def same_specs_def)
next
  case (orphan e sc processed deferred events)
  then have False
    using assms(2) by (auto simp: drain_inv_def sched_wf_def entry_ok_def binding_at_def)
  then show ?thesis ..
qed

lemma drain_due_inv:
  assumes "drain_due env sc now = Some (events, sc')" "sched_wf sc"
  shows "sched_wf sc' \<and> same_specs sc sc' \<and>
         (\<forall>k spec. binding_at sc k = Some spec \<longrightarrow> length (catch_ups k events) \<le> catch_up_cap spec)"
proof -
  obtain deferred sc1 where "drain_loop env now [] [] [] sc = Some (events, deferred, sc1)"
    and sc': "sc' = sc1\<lparr>sc_heap := sc_heap sc1 @ deferred\<rparr>"
    using assms(1) by (auto simp: drain_due_def split: option.splits)
  from drain_loop_steps [OF this(1)] obtain p
    where "(drain_step env now)\<^sup>*\<^sup>* ([], [], [], sc) (p, deferred, events, sc1)" by blast
  then have "drain_inv sc (p, deferred, events, sc1)"
  proof (induction rule: rtranclp_induct)
    case base
    then show ?case using assms(2) by (simp add: drain_inv_def)
  qed (use drain_step_inv in blast)
  then have inv: "sched_wf sc1" "same_specs sc sc1" "\<forall>e \<in> set deferred. entry_ok sc e"
    "\<forall>k. length (catch_ups k events) \<le>
        (if k \<in> set p then case binding_at sc k of None \<Rightarrow> 0 | Some spec \<Rightarrow> catch_up_cap spec else 0)"
    by (simp_all add: drain_inv_def)
  have "sched_wf sc' \<and> same_specs sc sc'"
    using inv(1-3) unfolding sc'
    by (auto simp: sched_wf_def keys_ok_def carry_ok_def entry_ok_def same_specs_def)
  moreover have "length (catch_ups k events) \<le> catch_up_cap spec" if "binding_at sc k = Some spec" for k spec
    using inv(4) [rule_format, of k] that by (auto split: if_splits)
  ultimately show ?thesis by blast
qed

lemma recompute_bindings_props:
  "recompute_bindings env after bs heap = (heap', bs') \<Longrightarrow>
     map (\<lambda>(k, b). (k, bd_id b, bd_spec b)) bs' = map (\<lambda>(k, b). (k, bd_id b, bd_spec b)) bs \<and>
     (\<forall>e \<in> set heap'. e \<in> set heap \<or> (\<exists>(k, b) \<in> set bs. he_binding_id e = bd_id b \<and> time_based (bd_spec b)))"
proof (induction env after bs heap arbitrary: heap' bs' rule: recompute_bindings.induct)
  case (2 env after k b bs heap)
  obtain heap1 b1 where h: "(case occurrences_after env b after of
       Inl _ \<Rightarrow> (heap, b) | Inr instants \<Rightarrow> push_occurrences heap b instants) = (heap1, b1)"
    by fastforce
  obtain heap2 bs2 where r: "recompute_bindings env after bs heap1 = (heap2, bs2)" by fastforce
  have res: "heap' = heap2" "bs' = (k, b1) # bs2" using 2(2) h r by simp_all
  have b1: "bd_id b1 = bd_id b" "bd_spec b1 = bd_spec b"
    using h by (auto simp: push_occurrences_def split: sum.splits)
  have "e \<in> set heap \<or> he_binding_id e = bd_id b \<and> time_based (bd_spec b)" if "e \<in> set heap1" for e
  proof (cases "occurrences_after env b after")
    case (Inr instants)
    then have "e \<in> set (fst (push_occurrences heap b instants))" using h that by simp
    from push_occurrences_heap [OF this] occurrences_nonempty [OF Inr] show ?thesis by auto
  qed (use h that in simp)
  with 2(1) [OF h [symmetric] refl r] b1 res show ?case by fastforce
qed simp

lemma map_of_specs:
  "map (\<lambda>(k, b). (k, bd_id b, bd_spec b)) bs' = map (\<lambda>(k, b). (k, bd_id b, bd_spec b)) bs \<Longrightarrow>
     map fst bs' = map fst bs \<and>
     map_option (\<lambda>b. (bd_id b, bd_spec b)) (map_of bs' k) = map_option (\<lambda>b. (bd_id b, bd_spec b)) (map_of bs k)"
proof (induction bs' arbitrary: bs)
  case (Cons x bs')
  then show ?case by (cases bs) (auto split: prod.splits)
qed simp

lemma recompute_all_wf:
  assumes "sched_wf sc"
  shows "sched_wf (recompute_all env sc after) \<and> same_specs sc (recompute_all env sc after)"
proof -
  obtain heap bs where r: "recompute_bindings env after (sc_bindings sc) [] = (heap, bs)" by fastforce
  note p = recompute_bindings_props [OF r]
  have m: "map fst bs = map fst (sc_bindings sc)"
    "map_option (\<lambda>b. (bd_id b, bd_spec b)) (map_of bs k) = map_option (\<lambda>b. (bd_id b, bd_spec b)) (map_of (sc_bindings sc) k)" for k
    using map_of_specs [of bs "sc_bindings sc" k] p by simp_all
  let ?sc = "recompute_all env sc after"
  have at: "binding_at ?sc k = binding_at sc k" for k
    using arg_cong [OF m(2) [of k], of "map_option snd"]
    by (simp add: binding_at_def recompute_all_def r option.map_comp comp_def)
  have keys: "keys_ok ?sc"
    unfolding keys_ok_def
  proof (intro conjI allI impI)
    show "distinct (map fst (sc_bindings ?sc))" using assms m(1) by (simp add: recompute_all_def r sched_wf_def keys_ok_def)
    fix k b
    assume "map_of (sc_bindings ?sc) k = Some b"
    then show "bd_id b = k" using assms m(2) [of k]
      by (cases "map_of (sc_bindings sc) k")
        (auto simp: recompute_all_def r sched_wf_def keys_ok_def simp del: map_of_eq_Some_iff)
  qed
  have "entry_ok ?sc e" if "e \<in> set (sc_heap ?sc)" for e
  proof -
    from that p obtain k b where "(k, b) \<in> set (sc_bindings sc)" "he_binding_id e = bd_id b" "time_based (bd_spec b)"
      by (auto simp: recompute_all_def r)
    with assms have "binding_at sc (he_binding_id e) = Some (bd_spec b)"
      by (auto simp: binding_at_def sched_wf_def keys_ok_def)
    with \<open>time_based (bd_spec b)\<close> show ?thesis by (simp add: entry_ok_def at)
  qed
  moreover have "carry_ok ?sc" by (simp add: carry_ok_def recompute_all_def r)
  ultimately show ?thesis using keys at by (simp add: sched_wf_def same_specs_def)
qed

lemma reconcile_wf:
  assumes "sched_wf sc"
  shows "\<exists>events sc'. reconcile env sc now = Some (events, sc') \<and> sched_wf sc' \<and> same_specs sc sc' \<and>
     (\<forall>k spec. binding_at sc k = Some spec \<longrightarrow> length (catch_ups k events) \<le> catch_up_cap spec)"
proof -
  have frame: "sched_wf (x\<lparr>sc_last_wall := Some now\<rparr>) \<and> same_specs sc (x\<lparr>sc_last_wall := Some now\<rparr>)"
    if "sched_wf x \<and> same_specs sc x" for x
    using that by (auto simp: sched_wf_def keys_ok_def entry_ok_def carry_ok_def same_specs_def)
  show ?thesis
  proof (cases "case sc_last_wall sc of None \<Rightarrow> False | Some last_wall \<Rightarrow> now < last_wall")
    case True
    then show ?thesis using frame [OF recompute_all_wf [OF assms]] by (simp add: reconcile_def)
  next
    case False
    obtain events sc1 where d: "drain_due env sc now = Some (events, sc1)"
      using drain_loop_total [OF assms, of env now "[]" "[]" "[]"] by (auto simp: drain_due_def)
    then show ?thesis using False drain_due_inv [OF d assms] frame [of sc1] by (simp add: reconcile_def)
  qed
qed

lemma add_binding_wf:
  assumes "sched_wf sc" "binding_at sc (bd_id b) = None"
  shows "sched_wf (snd (add_binding env sc b now)) \<and>
    (\<forall>k. k \<noteq> bd_id b \<longrightarrow> binding_at (snd (add_binding env sc b now)) k = binding_at sc k)"
proof (rule disjE [OF add_binding_frame [of env sc b now]], goal_cases)
  case 1
  then show ?case using assms(1) by (auto simp: sched_wf_def keys_ok_def entry_ok_def carry_ok_def)
next
  case 2
  let ?after = "case bd_last_fired_for b of Some t \<Rightarrow> t | None \<Rightarrow> now"
  from 2 obtain instants where o: "occurrences_after env b ?after = Ok instants"
    and sc': "snd (add_binding env sc b now) =
        sc\<lparr>sc_last_wall := (case sc_last_wall sc of None \<Rightarrow> Some now | w \<Rightarrow> w),
           sc_heap := fst (push_occurrences (sc_heap sc) b instants),
           sc_bindings := AList.update (bd_id b) (snd (push_occurrences (sc_heap sc) b instants)) (sc_bindings sc)\<rparr>"
    by blast
  let ?sc = "snd (add_binding env sc b now)"
  have at: "binding_at ?sc k = (if k = bd_id b then Some (bd_spec b) else binding_at sc k)" for k
    unfolding sc' by (simp add: binding_at_def update_conv')
  have "keys_ok ?sc"
    using assms(1) unfolding sc' by (auto simp: sched_wf_def keys_ok_def update_conv' distinct_update
        simp del: map_of_eq_Some_iff split: if_splits)
  moreover have "entry_ok ?sc e" if "e \<in> set (sc_heap ?sc)" for e
  proof -
    from that have "e \<in> set (fst (push_occurrences (sc_heap sc) b instants))" unfolding sc' by simp
    from push_occurrences_heap [OF this] occurrences_nonempty [OF o] assms show ?thesis
      by (auto simp: entry_ok_def at sched_wf_def)
  qed
  moreover have "carry_ok ?sc"
    using assms unfolding carry_ok_def at by (auto simp: sched_wf_def carry_ok_def sc')
  ultimately show ?case using at by (auto simp: sched_wf_def)
qed

lemma sched_wf_new: "sched_wf scheduler_new"
  by (simp add: sched_wf_def scheduler_new_def keys_ok_def carry_ok_def)

fun added_ids :: "sched_op list \<Rightarrow> binding_id list" where
  "added_ids [] = []"
| "added_ids (AddBinding b _ # ops) = bd_id b # added_ids ops"
| "added_ids (_ # ops) = added_ids ops"

lemma sched_run_wf:
  assumes "sched_wf sc" "distinct (added_ids ops)" "\<forall>k \<in> set (added_ids ops). binding_at sc k = None"
  shows "\<exists>sc'. sched_run env sc ops = Some sc' \<and> sched_wf sc'"
  using assms
proof (induction ops arbitrary: sc)
  case (Cons op ops)
  show ?case
  proof (cases op)
    case (AddBinding b now)
    with Cons.prems have new: "binding_at sc (bd_id b) = None" by simp
    note wf = add_binding_wf [OF Cons.prems(1) new, of env now]
    have "binding_at (snd (add_binding env sc b now)) k = None" if "k \<in> set (added_ids ops)" for k
      using wf Cons.prems AddBinding that by (cases "k = bd_id b") auto
    with wf have "sched_wf (snd (add_binding env sc b now))"
      "\<forall>k \<in> set (added_ids ops). binding_at (snd (add_binding env sc b now)) k = None" by auto
    from Cons.IH [OF this(1) _ this(2)] AddBinding Cons.prems(2) show ?thesis by simp
  next
    case (Tick now)
    from reconcile_wf [OF Cons.prems(1)] obtain events sc1
      where r: "reconcile env sc now = Some (events, sc1)" "sched_wf sc1" "same_specs sc sc1" by blast
    with Tick Cons.prems Cons.IH [OF r(2)] show ?thesis by (simp add: tick_def same_specs_def)
  next
    case (Wake now)
    from reconcile_wf [OF Cons.prems(1)] obtain events sc1
      where r: "reconcile env sc now = Some (events, sc1)" "sched_wf sc1" "same_specs sc sc1" by blast
    with Wake Cons.prems Cons.IH [OF r(2)] show ?thesis by (simp add: catch_up_after_wake_def same_specs_def)
  qed
qed simp

subsection \<open>The backlog of an interval\<close>

definition interval_ok :: "'s cron_env \<Rightarrow> nat \<Rightarrow> int \<Rightarrow> bool" where
  "interval_ok env every now \<longleftrightarrow> 0 < every \<and> every \<le> MAX_INTERVAL \<and> (\<forall>t \<le> now + int every. ce_in_range env t)"

lemma gather_interval:
  assumes "bd_spec b = TsInterval every align anchor" "interval_ok env every now"
    and "cursor + int n * int every \<le> now"
    and "length missed + n = MAX_CATCH_UP \<or>
         length missed + n < MAX_CATCH_UP \<and> cursor + int (Suc n) * int every > now"
  shows "gather env b now missed cursor =
    Some (missed @ map (\<lambda>i. cursor + int (Suc i) * int every) [0..<n], cursor + int n * int every,
          length missed + n < MAX_CATCH_UP)"
  using assms(3,4)
proof (induction n arbitrary: missed cursor)
  case 0
  have "occurrences_after env b cursor = Ok [cursor + int every]"
    using assms(1,2) 0 by (simp add: occurrences_after_def interval_ok_def)
  with 0 show ?case by (subst gather.simps) auto
next
  case (Suc n)
  have "0 \<le> int n * int every" by simp
  then have le: "cursor + int every \<le> now" using Suc.prems(1) unfolding of_nat_Suc distrib_right by linarith
  have o: "occurrences_after env b cursor = Ok [cursor + int every]"
    using assms(1,2) le by (simp add: occurrences_after_def interval_ok_def)
  have shift: "cursor + int (Suc i) * int every = cursor + int every + int i * int every" for i
    by (simp add: algebra_simps)
  have upt: "map (\<lambda>i. cursor + int (Suc i) * int every) [0..<Suc n] =
      (cursor + int every) # map (\<lambda>i. cursor + int every + int (Suc i) * int every) [0..<n]"
    unfolding shift by (simp add: upt_conv_Cons map_Suc_upt [symmetric] del: upt_Suc)
  show ?case
  proof (cases "length missed + 1 \<ge> MAX_CATCH_UP")
    case True
    then have "n = 0" "length missed + 1 = MAX_CATCH_UP" using Suc.prems(2) by auto
    then show ?thesis using o le by (subst gather.simps) (auto simp: Let_def)
  next
    case False
    then have "gather env b now missed cursor = gather env b now (missed @ [cursor + int every]) (cursor + int every)"
      using o le by (subst gather.simps) (auto simp: Let_def)
    also have "\<dots> = Some ((missed @ [cursor + int every]) @ map (\<lambda>i. cursor + int every + int (Suc i) * int every) [0..<n],
        cursor + int every + int n * int every, length (missed @ [cursor + int every]) + n < MAX_CATCH_UP)"
      using Suc.prems by (intro Suc.IH) (auto simp: algebra_simps)
    finally show ?thesis unfolding upt by (simp add: algebra_simps)
  qed
qed

lemma drain_binding_interval:
  assumes b: "bd_spec b = TsInterval every align anchor" and ok: "interval_ok env every now"
    and n: "n = min (MAX_CATCH_UP - 1) (nat ((now - t) div int every))" and t: "t \<le> now"
    and sc: "sc_heap sc = []" "sc_catch_up_progress sc = Map.empty" "sc_bindings sc = [(k, b)]" "bd_id b = k"
  shows "\<exists>sc'. drain_binding env now \<lparr>he_fire_at = t, he_binding_id = k, he_advances_schedule = True\<rparr> b sc =
       Some (map (fire k (0 < n)) (map (\<lambda>i. t + int i * int every) [0..<Suc n]), sc') \<and>
     sc_heap sc' = [\<lparr>he_fire_at = t + int (Suc n) * int every, he_binding_id = k, he_advances_schedule = True\<rparr>]"
proof -
  let ?q = "(now - t) div int every"
  have e: "0 < int every" using ok by (simp add: interval_ok_def)
  have q: "t + ?q * int every \<le> now" "now < t + (?q + 1) * int every" "0 \<le> ?q"
    using t div_mult_mod_eq [of "now - t" "int every"] pos_mod_bound [OF e, of "now - t"]
      pos_mod_sign [OF e, of "now - t"]
    unfolding distrib_right by (linarith, linarith, simp add: pos_imp_zdiv_nonneg_iff [OF e])
  have "int n \<le> ?q" using n q(3) by simp
  then have "int n * int every \<le> ?q * int every" using e by (simp add: mult_right_mono)
  with q(1) have le: "t + int n * int every \<le> now" by simp
  have last: "n = MAX_CATCH_UP - 1 \<or> n < MAX_CATCH_UP - 1 \<and> t + int (Suc n) * int every > now"
    using n q by (auto simp: min_def algebra_simps)
  have m: "MAX_CATCH_UP = 100" by (simp add: MAX_CATCH_UP_def)
  have g: "gather env b now [t] t = Some ([t] @ map (\<lambda>i. t + int (Suc i) * int every) [0..<n], t + int n * int every,
      length [t] + n < MAX_CATCH_UP)"
    by (rule gather_interval [OF b ok le]) (use last m in auto)
  have upt: "[t] @ map (\<lambda>i. t + int (Suc i) * int every) [0..<n] = map (\<lambda>i. t + int i * int every) [0..<Suc n]"
    by (simp add: upt_conv_Cons map_Suc_upt [symmetric] del: upt_Suc)
  have o: "occurrences_after env b (t + int n * int every) = Ok [t + int (Suc n) * int every]"
    using b ok le by (simp add: occurrences_after_def interval_ok_def Let_def algebra_simps)
  have pol: "catch_up_policy b = None" using b by (simp add: catch_up_policy_def)
  show ?thesis
    by (simp add: drain_binding_def g [unfolded upt] o apply_catch_up_def pol sc push_occurrences_def Let_def
        del: upt_Suc)
qed

lemma min_entry_single [simp]: "min_entry [e] = Some e" "min_entry [] = None"
  by (simp_all add: min_entry_def)

lemma drain_loop_rest:
  assumes "sc_heap sc = [h]" "he_advances_schedule h"
  shows "\<exists>deferred sc'. drain_loop env now [he_binding_id h] [] events sc = Some (events, deferred, sc') \<and>
     sc_heap sc' @ deferred = [h]"
proof (cases "he_fire_at h > now")
  case True
  then show ?thesis using assms by (subst drain_loop.simps) simp
next
  case False
  then have "drain_loop env now [he_binding_id h] [] events sc =
      drain_loop env now [he_binding_id h] [h] events (sc\<lparr>sc_heap := []\<rparr>)"
    using assms by (subst drain_loop.simps) (simp add: Let_def)
  also have "\<dots> = Some (events, [h], sc\<lparr>sc_heap := []\<rparr>)" by (subst drain_loop.simps) simp
  finally show ?thesis by simp
qed

lemma interval_backlog:
  assumes b: "bd_spec b = TsInterval every align anchor" "bd_last_fired_for b = None"
    and ok: "interval_ok env every now" and t: "t0 \<le> now"
    and n: "n = min MAX_CATCH_UP (nat ((now - t0) div int every))"
  shows "\<exists>sc'. tick env (snd (add_binding env scheduler_new b t0)) now =
      Some (map (\<lambda>i. fire (bd_id b) (1 < n) (t0 + int (Suc i) * int every)) [0..<n], sc') \<and>
    sc_heap sc' = [\<lparr>he_fire_at = t0 + int (Suc n) * int every, he_binding_id = bd_id b, he_advances_schedule = True\<rparr>]"
proof -
  let ?k = "bd_id b" and ?e = "int every"
  have e: "0 < ?e" using ok by (simp add: interval_ok_def)
  define b1 where "b1 = b\<lparr>bd_next_fire_at := Some (t0 + ?e)\<rparr>"
  define sc where "sc = snd (add_binding env scheduler_new b t0)"
  have "occurrences_after env b t0 = Ok [t0 + ?e]"
    using b ok t by (simp add: occurrences_after_def interval_ok_def)
  then have sc: "sc = \<lparr>sc_bindings = [(?k, b1)],
      sc_heap = [\<lparr>he_fire_at = t0 + ?e, he_binding_id = ?k, he_advances_schedule = True\<rparr>],
      sc_last_wall = Some t0, sc_catch_up_progress = Map.empty\<rparr>"
    using b by (simp add: sc_def add_binding_def scheduler_new_def push_occurrences_def b1_def)
  have tick: "tick env sc now = (case drain_due env sc now of None \<Rightarrow> None
      | Some (events, sc) \<Rightarrow> Some (events, sc\<lparr>sc_last_wall := Some now\<rparr>))"
    using t by (simp add: tick_def reconcile_def sc)
  show ?thesis
  proof (cases "t0 + ?e > now")
    case True
    then have "(now - t0) div ?e = 0" using t e by (intro div_pos_pos_trivial) auto
    then have "n = 0" using n by simp
    moreover have "drain_loop env now [] [] [] sc = Some ([], [], sc)"
      using True by (subst drain_loop.simps) (simp add: sc)
    ultimately show ?thesis
      unfolding sc_def [symmetric] tick by (simp add: drain_due_def) (simp add: sc)
  next
    case False
    define m where "m = min (MAX_CATCH_UP - 1) (nat ((now - (t0 + ?e)) div ?e))"
    have "(now - t0) div ?e = (now - (t0 + ?e)) div ?e + 1"
      using e div_add_self2 [of ?e "now - (t0 + ?e)"] by simp
    moreover have "0 \<le> (now - (t0 + ?e)) div ?e" using False e by (simp add: pos_imp_zdiv_nonneg_iff)
    ultimately have nm: "n = Suc m" unfolding n m_def by (simp add: nat_add_distrib MAX_CATCH_UP_def min_def)
    let ?h = "\<lparr>he_fire_at = t0 + int (Suc n) * ?e, he_binding_id = ?k, he_advances_schedule = True\<rparr>"
    let ?evs = "map (fire ?k (0 < m)) (map (\<lambda>i. t0 + ?e + int i * ?e) [0..<Suc m])"
    obtain sc1 where d: "drain_binding env now \<lparr>he_fire_at = t0 + ?e, he_binding_id = ?k, he_advances_schedule = True\<rparr> b1
        (sc\<lparr>sc_heap := []\<rparr>) = Some (?evs, sc1)" and h: "sc_heap sc1 = [?h]"
      using drain_binding_interval [of b1 every align anchor env now m "t0 + ?e" "sc\<lparr>sc_heap := []\<rparr>" ?k] b ok False
      by (auto simp: b1_def m_def sc nm algebra_simps simp del: upt_Suc)
    have evs: "?evs = map (\<lambda>i. fire ?k (1 < n) (t0 + int (Suc i) * ?e)) [0..<n]"
      by (simp add: nm algebra_simps del: upt_Suc)
    have "drain_loop env now [] [] [] sc = drain_loop env now [?k] [] ?evs sc1"
      using False d by (subst drain_loop.simps) (simp add: sc Let_def del: upt_Suc)
    moreover obtain deferred sc2 where "drain_loop env now [?k] [] ?evs sc1 = Some (?evs, deferred, sc2)"
      "sc_heap sc2 @ deferred = [?h]"
      using drain_loop_rest [OF h, of env now ?evs] by auto
    ultimately show ?thesis
      unfolding sc_def [symmetric] tick evs by (simp add: drain_due_def)
  qed
qed


text \<open>A binding that fires every minute, added at zero and looked at after two and a half minutes.\<close>

definition every_minute :: binding where
  "every_minute = binding_new 7 1 (TsInterval (60 * 1000000000) False None)"

lemma every_minute_tick:
  "\<exists>sc'. tick next_minute (snd (add_binding next_minute scheduler_new every_minute 0)) (150 * 1000000000) =
     Some ([fire 7 True (60 * 1000000000), fire 7 True (120 * 1000000000)], sc')"
proof -
  have *: "(2 :: nat) = min MAX_CATCH_UP (nat ((150 * 1000000000 - 0) div int (60 * 1000000000)))"
    by (simp add: MAX_CATCH_UP_def)
  have "bd_id every_minute = 7" by (simp add: every_minute_def binding_new_def)
  then show ?thesis
    using interval_backlog [OF _ _ _ _ *, of every_minute False None next_minute]
    by (auto simp: every_minute_def binding_new_def interval_ok_def MAX_INTERVAL_def NANOS_PER_SEC_def
        next_minute_def upt_rec)
qed

lemma every_minute_run:
  "sched_run next_minute scheduler_new [AddBinding every_minute 0] =
     Some (snd (add_binding next_minute scheduler_new every_minute 0))"
  by simp

subsection \<open>Properties\<close>

text \<open>
  \<^bold>\<open>C34.\<close> After any history of added bindings, ticks and wake-ups, a tick at \<open>now\<close> (or a wake-up) fires
  only occurrences that are due at \<open>now\<close>: nothing fires early, the backlog carried over from earlier
  capped calls included.  If the clock has stepped back since the last reading, nothing fires at all.
\<close>

theorem nothing_fires_early:
  assumes "sched_run env scheduler_new ops = Some sc"
    and "tick env sc now = Some (events, sc') \<or> catch_up_after_wake env sc now = Some (events, sc')"
  shows "(\<forall>ev \<in> set events. so_scheduled_for ev \<le> now) \<and>
         (\<forall>w. sc_last_wall sc = Some w \<longrightarrow> now < w \<longrightarrow> events = [])"
proof -
  have "carry_inv sc"
    using sched_run_invariant [of env scheduler_new ops sc carry_inv, OF assms(1) carry_inv_new]
      sched_step_carry_inv by blast
  with reconcile_le [of env sc now events sc'] assms(2) show ?thesis
    by (auto simp: tick_def catch_up_after_wake_def)
qed

theorem nothing_fires_early_witness:
  "\<exists>sc events sc'. tick next_minute sc (150 * 1000000000) = Some (events, sc') \<and> events \<noteq> [] \<and>
     (\<forall>ev \<in> set events. so_scheduled_for ev \<le> 150 * 1000000000)"
  using every_minute_tick nothing_fires_early [OF every_minute_run, of "150 * 1000000000"] by blast

text \<open>
  \<^bold>\<open>C35.\<close> A history in which no binding id is added twice never hangs: every tick and wake-up returns,
  whatever the cron library and the clock do, although the gathering loop has no bound of its own.
\<close>

theorem scheduler_never_hangs:
  assumes "distinct (added_ids ops)"
  shows "\<exists>sc. sched_run env scheduler_new ops = Some sc"
  using sched_run_wf [OF sched_wf_new assms] by (auto simp: binding_at_def scheduler_new_def)

theorem scheduler_never_hangs_witness:
  "\<exists>sc. sched_run next_minute scheduler_new [AddBinding every_minute 0, Tick (150 * 1000000000)] = Some sc"
  by (rule scheduler_never_hangs) simp

text \<open>
  \<^bold>\<open>C36.\<close> In such a history one tick fires at most as many catch-up occurrences of a binding as its
  policy allows: none under \<^verbatim>\<open>CatchUp::None\<close>, one under \<^verbatim>\<open>CatchUp::Latest\<close>, and never more than 100.
\<close>

theorem catch_up_is_capped:
  assumes "distinct (added_ids ops)" "sched_run env scheduler_new ops = Some sc"
    and "map_of (sc_bindings sc) k = Some b" "tick env sc now = Some (events, sc')"
  shows "length (catch_ups k events) \<le> catch_up_cap (bd_spec b)"
proof -
  have "sched_wf sc"
    using sched_run_wf [OF sched_wf_new assms(1), of env] assms(2) by (auto simp: binding_at_def scheduler_new_def)
  from reconcile_wf [OF this, of env now] assms(3,4) show ?thesis
    by (auto simp: tick_def binding_at_def simp del: map_of_eq_Some_iff)
qed

theorem catch_up_is_capped_witness:
  "\<exists>sc events sc'. tick next_minute sc (150 * 1000000000) = Some (events, sc') \<and> events \<noteq> [] \<and>
     length (catch_ups 7 events) \<le> 100"
proof -
  have b: "map_of (sc_bindings (snd (add_binding next_minute scheduler_new every_minute 0))) 7 =
      Some (every_minute\<lparr>bd_next_fire_at := Some (60 * 1000000000)\<rparr>)"
    by (simp add: add_binding_def scheduler_new_def every_minute_def binding_new_def occurrences_after_def
        MAX_INTERVAL_def NANOS_PER_SEC_def next_minute_def push_occurrences_def)
  have cap: "catch_up_cap (bd_spec (every_minute\<lparr>bd_next_fire_at := Some (60 * 1000000000)\<rparr>)) = 100"
    by (simp add: catch_up_cap_def every_minute_def binding_new_def MAX_CATCH_UP_def)
  obtain sc' where t: "tick next_minute (snd (add_binding next_minute scheduler_new every_minute 0)) (150 * 1000000000) =
     Some ([fire 7 True (60 * 1000000000), fire 7 True (120 * 1000000000)], sc')"
    using every_minute_tick by blast
  have "distinct (added_ids [AddBinding every_minute 0])" by simp
  from catch_up_is_capped [OF this every_minute_run b t] t show ?thesis unfolding cap by blast
qed

text \<open>
  An interval binding added at \<open>t0\<close> and first looked at at \<open>now\<close> fires exactly the instants
  \<open>t0 + every\<close>, \<open>t0 + 2 * every\<close>, \dots that are due, in order, each once, but at most 100 of them; they
  count as catch-up exactly when there is more than one.  What is left in the heap is the next
  instant of the same grid, so a capped backlog goes on where it stopped.
\<close>

theorem interval_backlog_exact:
  assumes "bd_spec b = TsInterval every align anchor" "bd_last_fired_for b = None"
    and "interval_ok env every now" "t0 \<le> now"
    and "n = min MAX_CATCH_UP (nat ((now - t0) div int every))"
  shows "\<exists>sc'. tick env (snd (add_binding env scheduler_new b t0)) now =
      Some (map (\<lambda>i. fire (bd_id b) (1 < n) (t0 + int (Suc i) * int every)) [0..<n], sc') \<and>
    sc_heap sc' = [\<lparr>he_fire_at = t0 + int (Suc n) * int every, he_binding_id = bd_id b, he_advances_schedule = True\<rparr>]"
  using assms by (rule interval_backlog)

theorem interval_backlog_exact_witness:
  "\<exists>sc'. tick next_minute (snd (add_binding next_minute scheduler_new every_minute 0)) (61 * 1000000000) =
     Some ([fire 7 False (60 * 1000000000)], sc')"
proof -
  have *: "(1 :: nat) = min MAX_CATCH_UP (nat ((61 * 1000000000 - 0) div int (60 * 1000000000)))"
    by (simp add: MAX_CATCH_UP_def)
  have "bd_id every_minute = 7" by (simp add: every_minute_def binding_new_def)
  then show ?thesis
    using interval_backlog_exact [OF _ _ _ _ *, of every_minute False None next_minute]
    by (auto simp: every_minute_def binding_new_def interval_ok_def MAX_INTERVAL_def NANOS_PER_SEC_def
        next_minute_def upt_rec)
qed

text \<open>
  The premise on the ids matters.  Adding an id a second time with a trigger that has no schedule
  leaves the old due instant in the heap, and the gathering loop then asks for ever for the next
  occurrence of a binding that has none.
\<close>

lemma gather_diverges:
  assumes "gather env b now missed cursor = Some y" "length missed < MAX_CATCH_UP" "\<not> time_based (bd_spec b)"
  shows False
  using assms
proof (induction env b now missed cursor y rule: gather.raw_induct [rotated, consumes 1, case_names 1])
  case (1 gather env b now missed cursor y)
  have "occurrences_after env b cursor = Ok []"
    using 1(4) by (auto simp: occurrences_after_def time_based_def split: trigger_spec.splits)
  then have "gather env b now missed cursor = Some y" using 1(2,3) by simp
  from 1(1) [OF this 1(3,4)] show ?case .
qed

theorem readding_an_id_can_hang:
  "sched_run next_minute scheduler_new
     [AddBinding every_minute 0, AddBinding (every_minute\<lparr>bd_spec := TsManual\<rparr>) 0, Tick (60 * 1000000000)] = None"
proof -
  let ?b = "every_minute\<lparr>bd_spec := TsManual, bd_next_fire_at := None\<rparr>"
  let ?e = "\<lparr>he_fire_at = 60 * 1000000000, he_binding_id = 7, he_advances_schedule = True\<rparr>"
  let ?sc = "\<lparr>sc_bindings = [(7, ?b)], sc_heap = [?e], sc_last_wall = Some 0, sc_catch_up_progress = Map.empty\<rparr>"
  have "gather next_minute ?b (60 * 1000000000) [60 * 1000000000] (60 * 1000000000) = None"
    using gather_diverges [of next_minute ?b "60 * 1000000000" "[60 * 1000000000]" "60 * 1000000000"]
    by (cases "gather next_minute ?b (60 * 1000000000) [60 * 1000000000] (60 * 1000000000)")
      (simp_all add: MAX_CATCH_UP_def time_based_def)
  then have "drain_loop next_minute (60 * 1000000000) [] [] [] ?sc = None"
    by (subst drain_loop.simps) (simp add: drain_binding_def Let_def)
  then have "tick next_minute ?sc (60 * 1000000000) = None"
    by (simp add: tick_def reconcile_def drain_due_def)
  moreover have "snd (add_binding next_minute (snd (add_binding next_minute scheduler_new every_minute 0))
      (every_minute\<lparr>bd_spec := TsManual\<rparr>) 0) = ?sc"
    by (simp add: add_binding_def scheduler_new_def every_minute_def binding_new_def occurrences_after_def
        MAX_INTERVAL_def NANOS_PER_SEC_def next_minute_def push_occurrences_def)
  ultimately show ?thesis by simp
qed

end
