(* ===== verification/Flow_Expr.thy ===== *)
theory Flow_Expr
  imports Core_Task Rust_Str "HOL-Library.Sublist"
begin

text \<open>
  \<^verbatim>\<open>roundhouse-flow/src/expr.rs\<close>: the expression language of workflow files, evaluated while it is
  parsed, with the bookkeeping of which results derive from secrets.  A Rust string is the list of
  its UTF-8 bytes; a parser position is the length of what is left of the source.  \<open>expr_env\<close> holds what
  the code calls outside the repository.
\<close>

subsection \<open>Errors and surroundings\<close>

datatype json_error_category = JcSyntax | JcEof | JcData | JcIo

datatype expr_error =
    UnexpectedToken nat string
  | UnknownFunction string
  | Unterminated
  | ExpressionTooDeep nat
  | ExprJson json_error_category
  | NotADelimitedExpression string
  | NonNumericIndex nat string
  | EnvVarNotAllowed string

text \<open>
  \<open>xe_round\<close> rounds to the nearest \<^verbatim>\<open>f64\<close>, \<open>xe_json\<close> is \<^verbatim>\<open>serde_json::from_str\<close>, \<open>xe_display\<close> the
  compact printer of JSON values, \<open>xe_var\<close> the process environment.
\<close>

record expr_env =
  xe_round :: "rat \<Rightarrow> rat"
  xe_json :: "string \<Rightarrow> (json, json_error_category) result"
  xe_display :: "json \<Rightarrow> string"
  xe_var :: "string \<Rightarrow> string option"

definition MAX_EXPR_DEPTH :: nat where
  "MAX_EXPR_DEPTH = 64"

definition REDACTION_PLACEHOLDER :: string where
  "REDACTION_PLACEHOLDER = ''***''"

subsection \<open>Echoed fields\<close>

definition MAX_ECHOED_FIELD_LEN :: nat where
  "MAX_ECHOED_FIELD_LEN = 64"

fun boundary_below :: "string \<Rightarrow> nat \<Rightarrow> nat" where
  "boundary_below s 0 = 0"
| "boundary_below s (Suc n) = (if is_char_boundary s (Suc n) then Suc n else boundary_below s n)"

definition truncate_echoed_field :: "string \<Rightarrow> string" where
  "truncate_echoed_field text =
     (if length text \<le> MAX_ECHOED_FIELD_LEN then text
      else take (boundary_below text MAX_ECHOED_FIELD_LEN) text @ ''... ('' @ decimal (length text) @ '' bytes total)'')"

subsection \<open>The context\<close>

datatype root_provenance = RpWhole | RpPaths "string list list"

record expr_context =
  ec_vars :: "string \<rightharpoonup> json"
  ec_provenance :: "string \<rightharpoonup> root_provenance"
  ec_env :: "string set"

definition expr_context_new :: expr_context where
  "expr_context_new = \<lparr>ec_vars = Map.empty, ec_provenance = Map.empty, ec_env = {}\<rparr>"

definition allow_env :: "expr_context \<Rightarrow> string list \<Rightarrow> expr_context" where
  "allow_env ctx names = ctx\<lparr>ec_env := ec_env ctx \<union> set names\<rparr>"

definition credential_shaped_names :: "expr_context \<Rightarrow> string set" where
  "credential_shaped_names ctx =
     Set.filter (\<lambda>name. \<exists>suffix \<in> set [''_KEY'', ''_TOKEN'', ''_SECRET'', ''_PASSWORD'', ''_CREDENTIAL''].
        rev (take (length suffix) (rev (to_ascii_uppercase name))) = suffix) (ec_env ctx)"

definition set_public :: "expr_context \<Rightarrow> string \<Rightarrow> json \<Rightarrow> expr_context" where
  "set_public ctx name value = ctx\<lparr>ec_vars := (ec_vars ctx)(name \<mapsto> value)\<rparr>"

definition set_secret :: "expr_context \<Rightarrow> string \<Rightarrow> json \<Rightarrow> expr_context" where
  "set_secret ctx name value =
     ctx\<lparr>ec_vars := (ec_vars ctx)(name \<mapsto> value), ec_provenance := (ec_provenance ctx)(name \<mapsto> RpWhole)\<rparr>"

text \<open>The existing paths are appended after the new ones, each once.\<close>

definition set_with_secret_paths :: "expr_context \<Rightarrow> string \<Rightarrow> json \<Rightarrow> string list list \<Rightarrow> expr_context" where
  "set_with_secret_paths ctx name value secret_paths =
     (let ctx = ctx\<lparr>ec_vars := (ec_vars ctx)(name \<mapsto> value)\<rparr>; paths = filter (\<lambda>p. p \<noteq> []) secret_paths
      in case ec_provenance ctx name of
           Some RpWhole \<Rightarrow> ctx
         | Some (RpPaths existing) \<Rightarrow>
             ctx\<lparr>ec_provenance := (ec_provenance ctx)(name \<mapsto>
               RpPaths (foldl (\<lambda>paths old. if old \<in> set paths then paths else paths @ [old]) paths existing))\<rparr>
         | None \<Rightarrow>
             if paths \<noteq> [] then ctx\<lparr>ec_provenance := (ec_provenance ctx)(name \<mapsto> RpPaths paths)\<rparr> else ctx)"

record root_snapshot =
  rs_value :: "json option"
  rs_provenance :: "root_provenance option"

definition snapshot_root :: "expr_context \<Rightarrow> string \<Rightarrow> root_snapshot" where
  "snapshot_root ctx name = \<lparr>rs_value = ec_vars ctx name, rs_provenance = ec_provenance ctx name\<rparr>"

definition restore_root :: "expr_context \<Rightarrow> string \<Rightarrow> root_snapshot \<Rightarrow> expr_context" where
  "restore_root ctx name snapshot =
     ctx\<lparr>ec_vars := (ec_vars ctx)(name := rs_value snapshot),
         ec_provenance := (ec_provenance ctx)(name := rs_provenance snapshot)\<rparr>"

datatype path_verdict = PvClean | PvSecret | PvUndetermined

text \<open>The loop over the declared paths, with the flag of a path that goes on below.\<close>

fun classify_paths :: "string list \<Rightarrow> bool \<Rightarrow> string list list \<Rightarrow> path_verdict" where
  "classify_paths walked undetermined [] = (if undetermined then PvUndetermined else PvClean)"
| "classify_paths walked undetermined (declared # rest) =
     (if length declared \<le> length walked
      then if declared = take (length declared) walked then PvSecret
           else classify_paths walked undetermined rest
      else if take (length walked) declared = walked then classify_paths walked True rest
      else classify_paths walked undetermined rest)"

definition classify_path :: "expr_context \<Rightarrow> string \<Rightarrow> string list \<Rightarrow> path_verdict" where
  "classify_path ctx rt walked =
     (case ec_provenance ctx rt of
        Some RpWhole \<Rightarrow> PvSecret
      | Some (RpPaths paths) \<Rightarrow> classify_paths walked False paths
      | None \<Rightarrow> PvClean)"

subsection \<open>Values\<close>

text \<open>\<^verbatim>\<open>Value::as_f64\<close>; a JSON number is always finite.\<close>

fun num_f64 :: "expr_env \<Rightarrow> json_num \<Rightarrow> rat" where
  "num_f64 E (PosInt n) = xe_round E (of_nat n)"
| "num_f64 E (NegInt i) = xe_round E (of_int i)"
| "num_f64 E (Float f) = f"

fun as_f64 :: "expr_env \<Rightarrow> json \<Rightarrow> rat option" where
  "as_f64 E (JNumber n) = Some (num_f64 E n)"
| "as_f64 E _ = None"

fun value_eq :: "expr_env \<Rightarrow> json \<Rightarrow> json \<Rightarrow> bool" where
  "value_eq E (JNumber a) (JNumber b) = (num_f64 E a = num_f64 E b)"
| "value_eq E a b = json_eq a b"

fun truthy :: "expr_env \<Rightarrow> json \<Rightarrow> bool" where
  "truthy E (JBool b) = b"
| "truthy E JNull = False"
| "truthy E (JNumber n) = (num_f64 E n \<noteq> 0)"
| "truthy E (JString s) = (s \<noteq> [])"
| "truthy E (JArray a) = (a \<noteq> [])"
| "truthy E (JObject kv) = (kv \<noteq> [])"

text \<open>A comparison with something that is no number compares with \<^verbatim>\<open>NaN\<close> and is false.\<close>

definition compare_f64 :: "(rat \<Rightarrow> rat \<Rightarrow> bool) \<Rightarrow> expr_env \<Rightarrow> json \<Rightarrow> json \<Rightarrow> bool" where
  "compare_f64 rel E a b = (case (as_f64 E a, as_f64 E b) of (Some x, Some y) \<Rightarrow> rel x y | _ \<Rightarrow> False)"

definition COMPARISON_OPS :: "(string \<times> (expr_env \<Rightarrow> json \<Rightarrow> json \<Rightarrow> bool)) list" where
  "COMPARISON_OPS =
     [(''>='', compare_f64 (\<ge>)), (''<='', compare_f64 (\<le>)), (''=='', value_eq),
      (''!='', \<lambda>E a b. \<not> value_eq E a b), (''>'', compare_f64 (>)), (''<'', compare_f64 (<))]"

fun index_field :: "json \<Rightarrow> string \<Rightarrow> json" where
  "index_field (JObject kv) field = (case map_of kv field of Some inner \<Rightarrow> inner | None \<Rightarrow> JNull)"
| "index_field _ field = JNull"

definition as_index :: "expr_env \<Rightarrow> json \<Rightarrow> nat option" where
  "as_index E v =
     (case as_f64 E v of
        None \<Rightarrow> None
      | Some f \<Rightarrow> if 0 \<le> f \<and> of_int \<lfloor>f\<rfloor> = f then Some (min (nat \<lfloor>f\<rfloor>) (2 ^ 64 - 1)) else None)"

fun index_array :: "json \<Rightarrow> nat \<Rightarrow> json" where
  "index_array (JArray a) i = (if i < length a then a ! i else JNull)"
| "index_array _ i = JNull"

definition value_to_string :: "expr_env \<Rightarrow> json \<Rightarrow> string" where
  "value_to_string E v = (case v of JString s \<Rightarrow> s | _ \<Rightarrow> xe_display E v)"

subsection \<open>Functions\<close>

fun contains_sub :: "string \<Rightarrow> string \<Rightarrow> bool" where
  "contains_sub [] needle = (needle = [])"
| "contains_sub (c # hay) needle = (take (length needle) (c # hay) = needle \<or> contains_sub hay needle)"

fun as_str :: "json \<Rightarrow> string option" where
  "as_str (JString s) = Some s"
| "as_str _ = None"

fun as_array :: "json \<Rightarrow> json list option" where
  "as_array (JArray a) = Some a"
| "as_array _ = None"

definition arg :: "json list \<Rightarrow> nat \<Rightarrow> json option" where
  "arg args i = (if i < length args then Some (args ! i) else None)"

definition unwrap_or :: "'a \<Rightarrow> 'a option \<Rightarrow> 'a" where
  "unwrap_or d x = (case x of None \<Rightarrow> d | Some a \<Rightarrow> a)"

definition fn_len :: "json list \<Rightarrow> json" where
  "fn_len args =
     JNumber (PosInt (case arg args 0 of
        Some (JArray a) \<Rightarrow> length a | Some (JString s) \<Rightarrow> length s | Some (JObject kv) \<Rightarrow> length kv | _ \<Rightarrow> 0))"

definition fn_slice :: "expr_env \<Rightarrow> json list \<Rightarrow> json" where
  "fn_slice E args =
     (let arr = Option.bind (arg args 0) as_array;
          arr_len = (case arr of None \<Rightarrow> 0 | Some a \<Rightarrow> length a);
          start = unwrap_or 0 (Option.bind (arg args 1) (as_index E));
          stop = min (unwrap_or arr_len (Option.bind (arg args 2) (as_index E))) arr_len
      in JArray (case arr of None \<Rightarrow> [] | Some a \<Rightarrow> drop (min start stop) (take stop a)))"

definition fn_default :: "json list \<Rightarrow> json" where
  "fn_default args =
     (case arg args 0 of
        Some v \<Rightarrow> if v = JNull then unwrap_or JNull (arg args 1) else v
      | None \<Rightarrow> unwrap_or JNull (arg args 1))"

definition fn_flatten :: "json list \<Rightarrow> json" where
  "fn_flatten args =
     JArray (case arg args 0 of
        Some (JArray outer) \<Rightarrow> concat (map (\<lambda>inner. case inner of JArray a \<Rightarrow> a | _ \<Rightarrow> [inner]) outer)
      | _ \<Rightarrow> [])"

definition call_function ::
  "expr_env \<Rightarrow> string \<Rightarrow> json list \<Rightarrow> expr_context \<Rightarrow> string \<Rightarrow> (json, expr_error) result" where
  "call_function E name args ctx call_source =
     (if name = ''len'' then Ok (fn_len args)
      else if name = ''slice'' then Ok (fn_slice E args)
      else if name = ''default'' then Ok (fn_default args)
      else if name = ''contains'' then
        Ok (JBool (contains_sub (unwrap_or [] (Option.bind (arg args 0) as_str))
                                (unwrap_or [] (Option.bind (arg args 1) as_str))))
      else if name = ''flatten'' then Ok (fn_flatten args)
      else if name = ''json'' then
        (case xe_json E (unwrap_or ''null'' (Option.bind (arg args 0) as_str)) of
           Inl e \<Rightarrow> Err (ExprJson e) | Inr v \<Rightarrow> Ok v)
      else if name = ''env'' then
        (let key = unwrap_or [] (Option.bind (arg args 0) as_str)
         in if key \<notin> ec_env ctx then Err (EnvVarNotAllowed (truncate_echoed_field call_source))
            else Ok (case xe_var E key of Some v \<Rightarrow> JString v | None \<Rightarrow> JNull))
      else Err (UnknownFunction name))"

subsection \<open>The parser\<close>

datatype value_provenance = VpClean | VpSecret | VpAbovePath string "string list"

definition is_secret_derived :: "value_provenance \<Rightarrow> bool" where
  "is_secret_derived p \<longleftrightarrow> p \<noteq> VpClean"

definition provenance_from_flag :: "bool \<Rightarrow> value_provenance" where
  "provenance_from_flag secret = (if secret then VpSecret else VpClean)"

fun narrow :: "expr_context \<Rightarrow> value_provenance \<Rightarrow> string \<Rightarrow> value_provenance" where
  "narrow ctx VpClean field = VpClean"
| "narrow ctx VpSecret field = VpSecret"
| "narrow ctx (VpAbovePath rt walked) field =
     (case classify_path ctx rt (walked @ [field]) of
        PvSecret \<Rightarrow> VpSecret
      | PvClean \<Rightarrow> VpClean
      | PvUndetermined \<Rightarrow> VpAbovePath rt (walked @ [field]))"

text \<open>
  A parsing step takes what is left of the source and yields a result with the new rest, or an
  error; \<open>None\<close> is a loop that runs out of its bound, which never happens (\<open>parse_ternary_total\<close> below).
\<close>

type_synonym 'a parsed = "('a \<times> string, expr_error) result option"

definition pfail :: "expr_error \<Rightarrow> 'a parsed" where
  "pfail e = Some (Err e)"

definition pok :: "'a \<Rightarrow> string \<Rightarrow> 'a parsed" where
  "pok v r = Some (Ok (v, r))"

definition pbind :: "'a parsed \<Rightarrow> ('a \<Rightarrow> string \<Rightarrow> 'b parsed) \<Rightarrow> 'b parsed" where
  "pbind m f = (case m of None \<Rightarrow> None | Some (Inl e) \<Rightarrow> Some (Inl e) | Some (Inr (v, r)) \<Rightarrow> f v r)"

definition skip_ws :: "string \<Rightarrow> string" where
  "skip_ws r = dropWhile is_ascii_whitespace r"

definition peek :: "string \<Rightarrow> char option" where
  "peek r = (case r of [] \<Rightarrow> None | c # _ \<Rightarrow> Some c)"

definition parse_ident :: "string \<Rightarrow> string \<times> string" where
  "parse_ident r = (takeWhile is_ident_byte r, dropWhile is_ident_byte r)"

text \<open>The opening quote is the first byte.\<close>

definition parse_string_literal :: "string \<Rightarrow> json parsed" where
  "parse_string_literal r =
     (let quote = hd r; body = takeWhile (\<lambda>c. c \<noteq> quote) (tl r); r = dropWhile (\<lambda>c. c \<noteq> quote) (tl r)
      in if peek r \<noteq> Some quote then pfail Unterminated else pok (JString body) (tl r))"

definition digits_value :: "string \<Rightarrow> nat" where
  "digits_value ds = foldl (\<lambda>a c. 10 * a + (byte c - 48)) 0 ds"

text \<open>
  \<^verbatim>\<open>str::parse::<f64>\<close> on digits and dots, of which at most one may be there; what rounds past the
  largest finite number is infinite, which \<^verbatim>\<open>json!\<close> turns into null.
\<close>

definition parse_f64 :: "expr_env \<Rightarrow> string \<Rightarrow> json option" where
  "parse_f64 E s =
     (let whole = takeWhile (\<lambda>c. c \<noteq> CHR ''.'') s; frac = drop (Suc (length whole)) s;
          v = of_nat (digits_value whole) + of_nat (digits_value frac) / 10 ^ length frac
      in if CHR ''.'' \<in> set frac then None
         else if v \<ge> (2 - 1 / 2 ^ 53) * 2 ^ 1023 then Some JNull
         else Some (JNumber (Float (xe_round E v))))"

definition parse_number :: "expr_env \<Rightarrow> nat \<Rightarrow> string \<Rightarrow> json parsed" where
  "parse_number E len r =
     (let numeric = (\<lambda>c. is_ascii_digit c \<or> c = CHR ''.''); s = takeWhile numeric r; rest = dropWhile numeric r
      in if CHR ''.'' \<notin> set s \<and> digits_value s < 2 ^ 64 then pok (JNumber (PosInt (digits_value s))) rest
         else case parse_f64 E s of
                None \<Rightarrow> pfail (UnexpectedToken (len - length r) s)
              | Some v \<Rightarrow> pok v rest)"

type_synonym ternary = "string \<Rightarrow> (json \<times> bool) parsed"

text \<open>
  The recursive descent goes through \<^verbatim>\<open>parse_ternary\<close>, so the other methods take it as an argument,
  \<open>tern\<close>; \<open>len\<close> is the length of the source.
\<close>

fun args_loop :: "ternary \<Rightarrow> nat \<Rightarrow> char \<Rightarrow> nat \<Rightarrow> json list \<Rightarrow> bool \<Rightarrow> string \<Rightarrow> (json list \<times> bool) parsed" where
  "args_loop tern len close 0 args any_secret r = None"
| "args_loop tern len close (Suc n) args any_secret r =
     pbind (tern (skip_ws r)) (\<lambda>(arg, arg_secret) r.
       let args = args @ [arg]; any_secret = (any_secret \<or> arg_secret); r = skip_ws r
       in if peek r = Some (CHR '','') then args_loop tern len close n args any_secret (tl r)
          else if peek r = Some close then pok (args, any_secret) (tl r)
          else pfail (UnexpectedToken (len - length r) (''expected '' @ [CHR 0x27, CHR '','', CHR 0x27] @ '' or close'')))"

definition parse_args_until :: "ternary \<Rightarrow> nat \<Rightarrow> char \<Rightarrow> string \<Rightarrow> (json list \<times> bool) parsed" where
  "parse_args_until tern len close r =
     (let r = skip_ws r
      in if peek r = Some close then pok ([], False) (tl r)
         else args_loop tern len close (Suc (length r)) [] False r)"

definition parse_array_literal :: "ternary \<Rightarrow> nat \<Rightarrow> string \<Rightarrow> (json \<times> bool) parsed" where
  "parse_array_literal tern len r =
     pbind (parse_args_until tern len (CHR '']'') (tl r)) (\<lambda>(items, any_secret) r. pok (JArray items, any_secret) r)"

definition parse_call :: "expr_env \<Rightarrow> expr_context \<Rightarrow> ternary \<Rightarrow> nat \<Rightarrow> string \<Rightarrow> string \<Rightarrow> (json \<times> value_provenance) parsed" where
  "parse_call E ctx tern len ident r =
     pbind (parse_args_until tern len (CHR '')'') r) (\<lambda>(args, any_arg_secret) r'.
       let call_source = trim (take (length r - length r' - 1) r)
       in case call_function E ident args ctx call_source of
            Inl e \<Rightarrow> pfail e
          | Inr v \<Rightarrow> pok (v, provenance_from_flag any_arg_secret) r')"

definition parse_var :: "expr_context \<Rightarrow> string \<Rightarrow> json \<times> value_provenance" where
  "parse_var ctx ident =
     (unwrap_or JNull (ec_vars ctx ident),
      case ec_provenance ctx ident of
        Some RpWhole \<Rightarrow> VpSecret | Some (RpPaths _) \<Rightarrow> VpAbovePath ident [] | None \<Rightarrow> VpClean)"

definition parse_primary :: "expr_env \<Rightarrow> expr_context \<Rightarrow> ternary \<Rightarrow> nat \<Rightarrow> string \<Rightarrow> (json \<times> value_provenance) parsed" where
  "parse_primary E ctx tern len r =
     (let r = skip_ws r; unexpected = pfail (UnexpectedToken (len - length r) ''unexpected character'')
      in case peek r of
           None \<Rightarrow> unexpected
         | Some c \<Rightarrow>
             if c = CHR 0x27 \<or> c = CHR 0x22 then
               pbind (parse_string_literal r) (\<lambda>v r. pok (v, VpClean) r)
             else if is_ascii_digit c then pbind (parse_number E len r) (\<lambda>v r. pok (v, VpClean) r)
             else if c = CHR ''['' then
               pbind (parse_array_literal tern len r) (\<lambda>(v, secret) r. pok (v, provenance_from_flag secret) r)
             else if is_ascii_alphabetic c \<or> c = CHR ''_'' then
               (let (ident, r) = parse_ident r; r = skip_ws r
                in if peek r = Some (CHR ''('') then parse_call E ctx tern len ident (tl r)
                   else pok (parse_var ctx ident) r)
             else unexpected)"

text \<open>The subscripts and fields after a primary.\<close>

fun chain_loop ::
  "expr_env \<Rightarrow> expr_context \<Rightarrow> ternary \<Rightarrow> nat \<Rightarrow> nat \<Rightarrow> json \<Rightarrow> value_provenance \<Rightarrow> string \<Rightarrow> (json \<times> bool) parsed" where
  "chain_loop E ctx tern len 0 v prov r = None"
| "chain_loop E ctx tern len (Suc n) v prov r =
     (if peek r = Some (CHR ''.'') then
        (let (ident, r) = parse_ident (tl r)
         in chain_loop E ctx tern len n (index_field v ident) (narrow ctx prov ident) r)
      else if peek r = Some (CHR ''['') then
        (let r1 = skip_ws (tl r)
         in pbind (tern r1) (\<lambda>(idx_val, idx_secret) r2.
              let r3 = skip_ws r2
              in if peek r3 \<noteq> Some (CHR '']'')
                 then pfail (UnexpectedToken (len - length r3) (''expected '' @ [CHR 0x27, CHR '']'', CHR 0x27]))
                 else case as_index E idx_val of
                        None \<Rightarrow> pfail (NonNumericIndex (len - length r1)
                                  (truncate_echoed_field (trim (take (length r1 - length r2) r1))))
                      | Some index \<Rightarrow>
                          chain_loop E ctx tern len n (index_array v index)
                            (if idx_secret \<or> is_secret_derived prov then VpSecret else VpClean) (tl r3)))
      else pok (v, is_secret_derived prov) r)"

definition parse_primary_chain :: "expr_env \<Rightarrow> expr_context \<Rightarrow> ternary \<Rightarrow> nat \<Rightarrow> string \<Rightarrow> (json \<times> bool) parsed" where
  "parse_primary_chain E ctx tern len r =
     pbind (parse_primary E ctx tern len (skip_ws r)) (\<lambda>(v, prov) r.
       chain_loop E ctx tern len (Suc (length r)) v prov r)"

definition starts_with :: "string \<Rightarrow> string \<Rightarrow> bool" where
  "starts_with tok r \<longleftrightarrow> take (length tok) r = tok"

definition parse_comparison :: "expr_env \<Rightarrow> expr_context \<Rightarrow> ternary \<Rightarrow> nat \<Rightarrow> string \<Rightarrow> (json \<times> bool) parsed" where
  "parse_comparison E ctx tern len r =
     pbind (parse_primary_chain E ctx tern len r) (\<lambda>(lhs, lhs_secret) r.
       let r = skip_ws r
       in case List.find (\<lambda>(tok, op). starts_with tok r) COMPARISON_OPS of
            None \<Rightarrow> pok (lhs, lhs_secret) r
          | Some (tok, op) \<Rightarrow>
              pbind (parse_primary_chain E ctx tern len (skip_ws (drop (length tok) r))) (\<lambda>(rhs, rhs_secret) r.
                pok (JBool (op E lhs rhs), lhs_secret \<or> rhs_secret) r))"

definition parse_ternary_inner :: "expr_env \<Rightarrow> expr_context \<Rightarrow> ternary \<Rightarrow> nat \<Rightarrow> string \<Rightarrow> (json \<times> bool) parsed" where
  "parse_ternary_inner E ctx tern len r =
     pbind (parse_comparison E ctx tern len r) (\<lambda>(cond, cond_secret) r.
       let r = skip_ws r
       in if peek r = Some (CHR ''?'') then
            pbind (tern (skip_ws (tl r))) (\<lambda>(then_v, then_secret) r.
              let r = skip_ws r
              in if peek r \<noteq> Some (CHR '':'')
                 then pfail (UnexpectedToken (len - length r) (''expected '' @ [CHR 0x27, CHR '':'', CHR 0x27]))
                 else pbind (tern (skip_ws (tl r))) (\<lambda>(else_v, else_secret) r.
                        pok (if truthy E cond then (then_v, cond_secret \<or> then_secret)
                             else (else_v, cond_secret \<or> else_secret)) r))
          else pok (cond, cond_secret) r)"

text \<open>The first argument is how much deeper the nesting may go: \<^verbatim>\<open>MAX_EXPR_DEPTH - depth\<close>.\<close>

fun parse_ternary :: "expr_env \<Rightarrow> expr_context \<Rightarrow> nat \<Rightarrow> nat \<Rightarrow> string \<Rightarrow> (json \<times> bool) parsed" where
  "parse_ternary E ctx len 0 r = pfail (ExpressionTooDeep MAX_EXPR_DEPTH)"
| "parse_ternary E ctx len (Suc k) r = parse_ternary_inner E ctx (parse_ternary E ctx len k) len r"

definition eval_inner :: "expr_env \<Rightarrow> string \<Rightarrow> expr_context \<Rightarrow> (json \<times> bool, expr_error) result" where
  "eval_inner E s ctx =
     (case the (parse_ternary E ctx (length s) MAX_EXPR_DEPTH (skip_ws s)) of
        Inl e \<Rightarrow> Err e
      | Inr (v, r) \<Rightarrow>
          (let r = skip_ws r
           in if r \<noteq> [] then Err (UnexpectedToken (length s - length r) r) else Ok v))"

subsection \<open>Evaluation and interpolation\<close>

record evaluated =
  ev_value :: json
  ev_secret_derived :: bool

definition derive :: "evaluated \<Rightarrow> json \<Rightarrow> evaluated" where
  "derive e value = \<lparr>ev_value = value, ev_secret_derived = ev_secret_derived e\<rparr>"

text \<open>The value that \<^verbatim>\<open>Debug\<close> shows.\<close>

definition evaluated_debug :: "evaluated \<Rightarrow> json" where
  "evaluated_debug e = (if ev_secret_derived e then JString REDACTION_PLACEHOLDER else ev_value e)"

definition eval :: "expr_env \<Rightarrow> string \<Rightarrow> expr_context \<Rightarrow> (evaluated, expr_error) result" where
  "eval E s ctx = res_bind (eval_inner E s ctx) (\<lambda>(v, secret). Ok \<lparr>ev_value = v, ev_secret_derived = secret\<rparr>)"

record 'a interpolated =
  it_unredacted :: 'a
  it_redacted :: 'a
  it_secret_derived :: bool

text \<open>\<^verbatim>\<open>set_from\<close>, for the two carriers of provenance.\<close>

definition set_from :: "expr_context \<Rightarrow> string \<Rightarrow> json \<Rightarrow> bool \<Rightarrow> expr_context" where
  "set_from ctx name value secret = (if secret then set_secret ctx name value else set_public ctx name value)"

definition set_from_evaluated :: "expr_context \<Rightarrow> string \<Rightarrow> evaluated \<Rightarrow> expr_context" where
  "set_from_evaluated ctx name p = set_from ctx name (ev_value p) (ev_secret_derived p)"

definition set_from_interpolated :: "expr_context \<Rightarrow> string \<Rightarrow> json interpolated \<Rightarrow> expr_context" where
  "set_from_interpolated ctx name p = set_from ctx name (it_unredacted p) (it_secret_derived p)"

definition is_string_close_follower :: "char \<Rightarrow> bool" where
  "is_string_close_follower c \<longleftrightarrow> c \<in> set ''.[)],?:=!<>''"

definition looks_like_a_real_string_close :: "string \<Rightarrow> bool" where
  "looks_like_a_real_string_close after =
     (case skip_ws after of
        [] \<Rightarrow> True
      | c # rest \<Rightarrow> if c = CHR ''}'' then peek rest = Some (CHR ''}'') else is_string_close_follower c)"

text \<open>The index of the closing delimiter, scanning from index \<open>i\<close>.\<close>

fun closing_delimiter_from :: "nat \<Rightarrow> char option \<Rightarrow> string \<Rightarrow> nat option" where
  "closing_delimiter_from i open_quote [] = None"
| "closing_delimiter_from i (Some q) (b # rest) =
     closing_delimiter_from (Suc i)
       (if b = q \<and> looks_like_a_real_string_close rest then None else Some q) rest"
| "closing_delimiter_from i None (b # rest) =
     (if b = CHR 0x27 \<or> b = CHR 0x22 then closing_delimiter_from (Suc i) (Some b) rest
      else if b = CHR ''}'' \<and> peek rest = Some (CHR ''}'') then Some i
      else closing_delimiter_from (Suc i) None rest)"

definition find_closing_delimiter :: "string \<Rightarrow> nat option" where
  "find_closing_delimiter s = closing_delimiter_from 0 None s"

text \<open>\<^verbatim>\<open>rest.find("${{")\<close> as the text before and after the delimiter.\<close>

fun split_open :: "string \<Rightarrow> (string \<times> string) option" where
  "split_open [] = None"
| "split_open (c # s) =
     (if take 3 (c # s) = ''${{'' then Some ([], drop 3 (c # s))
      else map_option (\<lambda>(before, after). (c # before, after)) (split_open s))"

lemma split_open_shorter: "split_open s = Some (before, after) \<Longrightarrow> length before + length after < length s"
  by (induction s arbitrary: before) (auto split: if_splits)

function interpolate_loop ::
  "expr_env \<Rightarrow> expr_context \<Rightarrow> string \<Rightarrow> string \<Rightarrow> bool \<Rightarrow> string \<Rightarrow> (string interpolated, expr_error) result" where
  "interpolate_loop E ctx unredacted redacted secret_derived rest =
     (case split_open rest of
        None \<Rightarrow> Ok \<lparr>it_unredacted = unredacted @ rest, it_redacted = redacted @ rest, it_secret_derived = secret_derived\<rparr>
      | Some (before, after) \<Rightarrow>
          (case find_closing_delimiter after of
             None \<Rightarrow> Err Unterminated
           | Some end_ \<Rightarrow>
               (case eval_inner E (trim (take end_ after)) ctx of
                  Inl e \<Rightarrow> Err e
                | Inr (value, block_is_secret) \<Rightarrow>
                    (let text = value_to_string E value
                     in interpolate_loop E ctx (unredacted @ before @ text)
                          (redacted @ before @ (if block_is_secret then REDACTION_PLACEHOLDER else text))
                          (secret_derived \<or> block_is_secret) (drop (end_ + 2) after)))))"
  by pat_completeness auto
termination
  by (relation "measure (\<lambda>(E, ctx, u, rd, sd, rest). length rest)") (auto dest: split_open_shorter)

declare interpolate_loop.simps [simp del]

definition interpolate_inner :: "expr_env \<Rightarrow> string \<Rightarrow> expr_context \<Rightarrow> (string interpolated, expr_error) result" where
  "interpolate_inner E template ctx = interpolate_loop E ctx [] [] False template"

definition interpolate :: "expr_env \<Rightarrow> string \<Rightarrow> expr_context \<Rightarrow> (string interpolated, expr_error) result" where
  "interpolate E template ctx = interpolate_inner E template ctx"

definition eval_delimited_expression :: "expr_env \<Rightarrow> string \<Rightarrow> expr_context \<Rightarrow> (evaluated, expr_error) result" where
  "eval_delimited_expression E field ctx =
     (let text = trim field
      in if take 3 text \<noteq> ''${{'' then Err (NotADelimitedExpression (truncate_echoed_field text))
         else let after_open = drop 3 text
              in case find_closing_delimiter after_open of
                   None \<Rightarrow> Err Unterminated
                 | Some end_ \<Rightarrow>
                     if trim (drop (end_ + 2) after_open) \<noteq> []
                     then Err (NotADelimitedExpression (truncate_echoed_field text))
                     else eval E (trim (take end_ after_open)) ctx)"

text \<open>
  Objects keep the order of their keys; inserting a key a second time would replace its value, but
  the keys of a parsed object are distinct.
\<close>

fun interpolate_json_inner :: "expr_env \<Rightarrow> expr_context \<Rightarrow> json \<Rightarrow> (json \<times> json \<times> bool, expr_error) result"
  and interpolate_items :: "expr_env \<Rightarrow> expr_context \<Rightarrow> json list \<Rightarrow> json list \<Rightarrow> json list \<Rightarrow> bool
        \<Rightarrow> (json \<times> json \<times> bool, expr_error) result"
  and interpolate_fields :: "expr_env \<Rightarrow> expr_context \<Rightarrow> (string \<times> json) list \<Rightarrow> (string \<times> json) list \<Rightarrow> (string \<times> json) list \<Rightarrow> bool
        \<Rightarrow> (json \<times> json \<times> bool, expr_error) result" where
  "interpolate_json_inner E ctx (JString s) =
     res_bind (interpolate_inner E s ctx) (\<lambda>i. Ok (JString (it_unredacted i), JString (it_redacted i), it_secret_derived i))"
| "interpolate_json_inner E ctx (JArray items) = interpolate_items E ctx items [] [] False"
| "interpolate_json_inner E ctx (JObject kv) = interpolate_fields E ctx kv [] [] False"
| "interpolate_json_inner E ctx JNull = Ok (JNull, JNull, False)"
| "interpolate_json_inner E ctx (JBool b) = Ok (JBool b, JBool b, False)"
| "interpolate_json_inner E ctx (JNumber n) = Ok (JNumber n, JNumber n, False)"
| "interpolate_items E ctx [] us rs secret = Ok (JArray us, JArray rs, secret)"
| "interpolate_items E ctx (v # vs) us rs secret =
     res_bind (interpolate_json_inner E ctx v) (\<lambda>(u, r, s).
       interpolate_items E ctx vs (us @ [u]) (rs @ [r]) (secret \<or> s))"
| "interpolate_fields E ctx [] us rs secret = Ok (JObject us, JObject rs, secret)"
| "interpolate_fields E ctx ((k, v) # kv) us rs secret =
     res_bind (interpolate_json_inner E ctx v) (\<lambda>(u, r, s).
       interpolate_fields E ctx kv (us @ [(k, u)]) (rs @ [(k, r)]) (secret \<or> s))"

definition interpolate_json :: "expr_env \<Rightarrow> json \<Rightarrow> expr_context \<Rightarrow> (json interpolated, expr_error) result" where
  "interpolate_json E value ctx =
     res_bind (interpolate_json_inner E ctx value) (\<lambda>(u, r, s).
       Ok \<lparr>it_unredacted = u, it_redacted = r, it_secret_derived = s\<rparr>)"

subsection \<open>The parser always answers\<close>

text \<open>A step that answers, and consumes nothing it gives back.\<close>

definition answers :: "nat \<Rightarrow> 'a parsed \<Rightarrow> bool" where
  "answers n m \<longleftrightarrow> (\<exists>res. m = Some res \<and> (\<forall>v r. res = Ok (v, r) \<longrightarrow> length r \<le> n))"

lemma answers_pfail [simp]: "answers n (pfail e)"
  by (simp add: answers_def pfail_def)

lemma answers_pok [simp]: "answers n (pok v r) \<longleftrightarrow> length r \<le> n"
  by (simp add: answers_def pok_def)

lemma answers_pbind:
  assumes "answers n m" "\<And>v r. length r \<le> n \<Longrightarrow> answers n' (f v r)"
  shows "answers n' (pbind m f)"
  using assms by (cases m) (auto simp: answers_def pbind_def split: sum.splits)

lemma answers_pbind2:
  assumes "answers n m" "\<And>v w r. length r \<le> n \<Longrightarrow> answers n' (f (v, w) r)"
  shows "answers n' (pbind m f)"
  using assms by (auto intro!: answers_pbind)

lemma answers_mono: "answers n m \<Longrightarrow> n \<le> n' \<Longrightarrow> answers n' m"
  by (auto simp: answers_def)

lemma length_skip_ws: "length (skip_ws r) \<le> length r"
  by (simp add: skip_ws_def length_dropWhile_le)

lemma length_tl_peek: "peek r = Some c \<Longrightarrow> length (tl r) < length r"
  by (cases r) (auto simp: peek_def)

locale answering_ternary =
  fixes tern :: ternary
  assumes tern: "answers (length r) (tern r)"
begin

lemma tern_skip: "answers (length r) (tern (skip_ws r))"
  using answers_mono [OF tern length_skip_ws] .

lemma args_loop_answers:
  "length r < n \<Longrightarrow> answers (length r) (args_loop tern len close n args any_secret r)"
proof (induction n arbitrary: args any_secret r)
  case (Suc n)
  show ?case
    unfolding args_loop.simps
  proof (rule answers_pbind2 [OF tern_skip], goal_cases)
    case (1 v s r')
    have le: "length (skip_ws r') \<le> length r" using length_skip_ws [of r'] 1 by simp
    have "answers (length r) (args_loop tern len close n (args @ [v]) (any_secret \<or> s) (tl (skip_ws r')))"
      if "peek (skip_ws r') = Some (CHR '','')"
      using length_tl_peek [OF that] le Suc by (intro answers_mono [OF Suc.IH]) auto
    with le show ?case by (auto simp: Let_def)
  qed
qed simp

lemma parse_args_until_answers: "answers (length r) (parse_args_until tern len close r)"
  using length_skip_ws [of r] answers_mono [OF args_loop_answers, of "skip_ws r" "Suc (length (skip_ws r))" "length r"]
  by (auto simp: parse_args_until_def Let_def simp del: args_loop.simps)

lemma parse_call_answers: "answers (length r) (parse_call E ctx tern len ident r)"
  unfolding parse_call_def
  by (rule answers_pbind [OF parse_args_until_answers]) (auto simp: Let_def split: sum.splits)

lemma parse_array_literal_answers: "answers (length r) (parse_array_literal tern len r)"
  unfolding parse_array_literal_def
  by (rule answers_pbind [OF answers_mono [OF parse_args_until_answers]]) auto

lemma parse_primary_answers: "answers (length r) (parse_primary E ctx tern len r)"
proof -
  let ?r = "skip_ws r" and ?n = "length r"
  have le: "length ?r \<le> ?n" by (rule length_skip_ws)
  have str: "answers ?n (pbind (parse_string_literal ?r) (\<lambda>v r. pok (v, VpClean) r))"
    using le length_dropWhile_le [of "\<lambda>c. c \<noteq> hd ?r" "tl ?r"]
    by (intro answers_pbind [of ?n]) (auto simp: parse_string_literal_def Let_def)
  have num: "answers ?n (pbind (parse_number E len ?r) (\<lambda>v r. pok (v, VpClean) r))"
    using le length_dropWhile_le [of "\<lambda>c. is_ascii_digit c \<or> c = CHR ''.''" ?r]
    by (intro answers_pbind [of ?n]) (auto simp: parse_number_def Let_def split: option.splits)
  have arr: "answers ?n (pbind (parse_array_literal tern len ?r) (\<lambda>(v, secret) r. pok (v, provenance_from_flag secret) r))"
    by (rule answers_pbind [OF answers_mono [OF parse_array_literal_answers le]]) auto
  have id: "length (skip_ws (dropWhile is_ident_byte ?r)) \<le> ?n"
    using le length_skip_ws [of "dropWhile is_ident_byte ?r"] length_dropWhile_le [of is_ident_byte ?r] by linarith
  have call: "answers ?n (parse_call E ctx tern len ident (tl (skip_ws (dropWhile is_ident_byte ?r))))" for ident
    using id by (intro answers_mono [OF parse_call_answers]) simp
  show ?thesis
    unfolding parse_primary_def Let_def parse_ident_def
    using str num arr id call by (simp split: option.splits)
qed

lemma chain_loop_answers:
  "length r < n \<Longrightarrow> answers (length r) (chain_loop E ctx tern len n v prov r)"
proof (induction n arbitrary: v prov r)
  case (Suc n)
  have dot: "answers (length r) (chain_loop E ctx tern len n v' p (dropWhile is_ident_byte (tl r)))"
    if "peek r = Some (CHR ''.'')" for v' p
    using length_tl_peek [OF that] length_dropWhile_le [of is_ident_byte "tl r"] Suc.prems
    by (intro answers_mono [OF Suc.IH]) linarith+
  have sub: "answers (length r) (chain_loop E ctx tern len n v' p (tl (skip_ws r2)))"
    if "peek r = Some (CHR ''['')" "length r2 \<le> length (skip_ws (tl r))" for v' p r2
    using length_tl_peek [OF that(1)] that(2) length_skip_ws [of "tl r"] length_skip_ws [of r2] Suc.prems
    by (intro answers_mono [OF Suc.IH]) (simp_all add: le_diff_conv)
  show ?case
    unfolding chain_loop.simps Let_def parse_ident_def
    by (auto intro!: dot answers_pbind [OF tern] sub split: option.splits)
qed simp

lemma parse_primary_chain_answers: "answers (length r) (parse_primary_chain E ctx tern len r)"
  unfolding parse_primary_chain_def
proof (rule answers_pbind2 [OF answers_mono [OF parse_primary_answers length_skip_ws]], goal_cases)
  case (1 v p r')
  then show ?case by (auto intro: answers_mono [OF chain_loop_answers] simp del: chain_loop.simps)
qed

lemma parse_comparison_answers: "answers (length r) (parse_comparison E ctx tern len r)"
  unfolding parse_comparison_def
proof (rule answers_pbind2 [OF parse_primary_chain_answers], goal_cases)
  case (1 v s r')
  have "answers (length r) (parse_primary_chain E ctx tern len (skip_ws (drop k (skip_ws r'))))" for k
    using 1 length_skip_ws [of r'] length_skip_ws [of "drop k (skip_ws r')"]
    by (intro answers_mono [OF parse_primary_chain_answers]) simp
  then show ?case
    using 1 length_skip_ws [of r'] by (auto simp: Let_def intro!: answers_pbind2 split: option.splits)
qed

lemma parse_ternary_inner_answers: "answers (length r) (parse_ternary_inner E ctx tern len r)"
  unfolding parse_ternary_inner_def
proof (rule answers_pbind2 [OF parse_comparison_answers], goal_cases)
  case (1 v s r')
  have branch: "answers (length r) (tern (skip_ws (tl (skip_ws x))))" if "length x \<le> length r" for x
    using that length_skip_ws [of x] length_skip_ws [of "tl (skip_ws x)"]
    by (intro answers_mono [OF tern]) simp
  show ?case
    using 1 length_skip_ws [of r'] by (auto simp: Let_def intro!: answers_pbind2 [OF branch])
qed

end

lemma parse_ternary_answers: "answers (length r) (parse_ternary E ctx len k r)"
proof (induction k arbitrary: r)
  case (Suc k)
  then have "answering_ternary (parse_ternary E ctx len k)" by unfold_locales
  then show ?case by (simp add: answering_ternary.parse_ternary_inner_answers)
qed simp

text \<open>The contract holds of the code's own recursion, at every depth.\<close>

interpretation tern: answering_ternary "parse_ternary E ctx len k" for E ctx len k
  by unfold_locales (rule parse_ternary_answers)

lemma eval_inner_Ok:
  "eval_inner E s ctx = Ok v \<longleftrightarrow>
     (\<exists>r. parse_ternary E ctx (length s) MAX_EXPR_DEPTH (skip_ws s) = Some (Ok (v, r)) \<and> skip_ws r = [])"
  using parse_ternary_answers [of "skip_ws s" E ctx "length s" MAX_EXPR_DEPTH]
  by (cases v) (auto simp: eval_inner_def answers_def Let_def split: sum.splits if_splits)

subsection \<open>Secrets do not flow into clean results\<close>

definition walk :: "expr_context \<Rightarrow> string \<Rightarrow> string list \<Rightarrow> json" where
  "walk ctx rt walked = foldl index_field (unwrap_or JNull (ec_vars ctx rt)) walked"

text \<open>Two contexts that declare the same secrets and differ in secret values only.\<close>

definition low_equivalent :: "expr_context \<Rightarrow> expr_context \<Rightarrow> bool" where
  "low_equivalent ctx1 ctx2 \<longleftrightarrow>
     ec_provenance ctx1 = ec_provenance ctx2 \<and> ec_env ctx1 = ec_env ctx2 \<and>
     (\<forall>rt walked. classify_path ctx1 rt walked = PvClean \<longrightarrow> walk ctx1 rt walked = walk ctx2 rt walked)"

text \<open>Two runs of a step that, if both succeed, stop at the same place with related results.\<close>

definition runs_agree :: "('a \<Rightarrow> 'a \<Rightarrow> bool) \<Rightarrow> 'a parsed \<Rightarrow> 'a parsed \<Rightarrow> bool" where
  "runs_agree R m1 m2 \<longleftrightarrow>
     (\<forall>v1 r1 v2 r2. m1 = Some (Ok (v1, r1)) \<longrightarrow> m2 = Some (Ok (v2, r2)) \<longrightarrow> r1 = r2 \<and> R v1 v2)"

lemma runs_agree_pok [simp]: "runs_agree R (pok v1 r1) (pok v2 r2) \<longleftrightarrow> r1 = r2 \<and> R v1 v2"
  by (simp add: runs_agree_def pok_def)

lemma runs_agree_pfail [simp]: "runs_agree R (pfail e) m" "runs_agree R m (pfail e)"
  by (simp_all add: runs_agree_def pfail_def)

lemma runs_agree_pbind:
  assumes "runs_agree R m1 m2" "\<And>v1 v2 r. R v1 v2 \<Longrightarrow> runs_agree R' (f1 v1 r) (f2 v2 r)"
  shows "runs_agree R' (pbind m1 f1) (pbind m2 f2)"
proof -
  have "r1 = r2 \<and> R' w1 w2" if "pbind m1 f1 = Some (Ok (w1, r1))" "pbind m2 f2 = Some (Ok (w2, r2))" for w1 r1 w2 r2
  proof -
    from that obtain v1 s1 v2 s2 where "m1 = Some (Ok (v1, s1))" "f1 v1 s1 = Some (Ok (w1, r1))"
      "m2 = Some (Ok (v2, s2))" "f2 v2 s2 = Some (Ok (w2, r2))"
      by (auto simp: pbind_def split: option.splits sum.splits)
    with assms(1) assms(2) [of v1 v2 s1] show ?thesis by (auto simp: runs_agree_def)
  qed
  then show ?thesis by (auto simp: runs_agree_def)
qed

lemma runs_agree_refl: "(\<And>v. R v v) \<Longrightarrow> runs_agree R m m"
  by (simp add: runs_agree_def)

definition flagged :: "'a \<times> bool \<Rightarrow> 'a \<times> bool \<Rightarrow> bool" where
  "flagged x y \<longleftrightarrow> snd x = snd y \<and> (\<not> snd x \<longrightarrow> fst x = fst y)"

lemma flagged_simp [simp]: "flagged (v1, s1) (v2, s2) \<longleftrightarrow> s1 = s2 \<and> (\<not> s1 \<longrightarrow> v1 = v2)"
  by (simp add: flagged_def)

lemma runs_agree_flagged:
  assumes "runs_agree flagged m1 m2" "\<And>v1 v2 s r. (\<not> s \<Longrightarrow> v1 = v2) \<Longrightarrow> runs_agree R' (f1 (v1, s) r) (f2 (v2, s) r)"
  shows "runs_agree R' (pbind m1 f1) (pbind m2 f2)"
  using assms by (auto intro!: runs_agree_pbind [OF assms(1)] simp: flagged_def)

locale two_runs =
  fixes E :: expr_env and ctx1 ctx2 :: expr_context and tern1 tern2 :: ternary
  assumes low: "low_equivalent ctx1 ctx2" and tern: "runs_agree flagged (tern1 r) (tern2 r)"
begin

lemma same_classification: "classify_path ctx2 rt walked = classify_path ctx1 rt walked"
  using low by (simp add: low_equivalent_def classify_path_def)

text \<open>A value above a secret path is the one found by walking there.\<close>

definition traced :: "json \<times> value_provenance \<Rightarrow> json \<times> value_provenance \<Rightarrow> bool" where
  "traced x y \<longleftrightarrow> snd x = snd y \<and>
     (case snd x of
        VpClean \<Rightarrow> fst x = fst y
      | VpSecret \<Rightarrow> True
      | VpAbovePath rt walked \<Rightarrow> fst x = walk ctx1 rt walked \<and> fst y = walk ctx2 rt walked)"

lemma traced_var: "traced (parse_var ctx1 ident) (parse_var ctx2 ident)"
proof (cases "ec_provenance ctx1 ident")
  case None
  with low have "walk ctx1 ident [] = walk ctx2 ident []"
    by (auto simp: low_equivalent_def classify_path_def)
  with None low show ?thesis by (auto simp: traced_def parse_var_def walk_def low_equivalent_def)
next
  case (Some p)
  with low show ?thesis
    by (cases p) (auto simp: traced_def parse_var_def walk_def low_equivalent_def)
qed

lemma walk_snoc: "walk ctx rt (walked @ [field]) = index_field (walk ctx rt walked) field"
  by (simp add: walk_def)

lemma traced_field:
  assumes "traced (v1, p) (v2, p)"
  shows "traced (index_field v1 field, narrow ctx1 p field) (index_field v2 field, narrow ctx2 p field)"
proof (cases p)
  case (VpAbovePath rt walked)
  let ?w = "walked @ [field]"
  have v: "index_field v1 field = walk ctx1 rt ?w" "index_field v2 field = walk ctx2 rt ?w"
    using assms VpAbovePath by (simp_all add: traced_def walk_snoc)
  show ?thesis
  proof (cases "classify_path ctx1 rt ?w")
    case PvClean
    with low have "walk ctx1 rt ?w = walk ctx2 rt ?w" by (simp add: low_equivalent_def)
    with v PvClean show ?thesis by (simp add: traced_def VpAbovePath same_classification)
  qed (use v in \<open>simp_all add: traced_def VpAbovePath same_classification\<close>)
qed (use assms in \<open>simp_all add: traced_def\<close>)

lemma traced_flag: "(\<not> s \<Longrightarrow> v1 = v2) \<Longrightarrow> traced (v1, provenance_from_flag s) (v2, provenance_from_flag s)"
  by (simp add: traced_def provenance_from_flag_def)

lemma args_loop_agree:
  "(\<not> s \<Longrightarrow> args1 = args2) \<Longrightarrow>
     runs_agree flagged (args_loop tern1 len close n args1 s r) (args_loop tern2 len close n args2 s r)"
proof (induction n arbitrary: args1 args2 s r)
  case (Suc n)
  show ?case
    unfolding args_loop.simps
  proof (rule runs_agree_flagged [OF tern], goal_cases)
    case (1 v1 v2 t r')
    then have "runs_agree flagged (args_loop tern1 len close n (args1 @ [v1]) (s \<or> t) (tl (skip_ws r')))
        (args_loop tern2 len close n (args2 @ [v2]) (s \<or> t) (tl (skip_ws r')))"
      using Suc.prems by (intro Suc.IH) auto
    then show ?case using 1 Suc.prems by (auto simp: Let_def)
  qed
qed (simp add: runs_agree_def)

lemma parse_args_until_agree:
  "runs_agree flagged (parse_args_until tern1 len close r) (parse_args_until tern2 len close r)"
  by (auto simp: parse_args_until_def Let_def simp del: args_loop.simps intro: args_loop_agree)

lemma same_calls: "call_function E ident args ctx2 src = call_function E ident args ctx1 src"
  using low by (simp add: call_function_def low_equivalent_def)

lemma parse_call_agree:
  "runs_agree traced (parse_call E ctx1 tern1 len ident r) (parse_call E ctx2 tern2 len ident r)"
  unfolding parse_call_def
proof (rule runs_agree_flagged [OF parse_args_until_agree], goal_cases)
  case (1 args1 args2 s r')
  let ?src = "trim (take (length r - length r' - 1) r)"
  show ?case
    using 1 by (cases "call_function E ident args1 ctx1 ?src"; cases "call_function E ident args2 ctx1 ?src")
      (auto simp: Let_def same_calls intro!: traced_flag)
qed

lemma parse_array_literal_agree:
  "runs_agree flagged (parse_array_literal tern1 len r) (parse_array_literal tern2 len r)"
  unfolding parse_array_literal_def by (rule runs_agree_flagged [OF parse_args_until_agree]) auto

lemma parse_primary_agree:
  "runs_agree traced (parse_primary E ctx1 tern1 len r) (parse_primary E ctx2 tern2 len r)"
proof -
  let ?r = "skip_ws r"
  have lit: "runs_agree traced (pbind m (\<lambda>v r. pok (v, VpClean) r)) (pbind m (\<lambda>v r. pok (v, VpClean) r))" for m
    by (rule runs_agree_pbind [OF runs_agree_refl [of "(=)"]]) (auto simp: traced_def)
  have arr: "runs_agree traced (pbind (parse_array_literal tern1 len ?r) (\<lambda>(v, secret) r. pok (v, provenance_from_flag secret) r))
      (pbind (parse_array_literal tern2 len ?r) (\<lambda>(v, secret) r. pok (v, provenance_from_flag secret) r))"
    by (rule runs_agree_flagged [OF parse_array_literal_agree]) (auto intro: traced_flag)
  show ?thesis
    unfolding parse_primary_def Let_def parse_ident_def
    using lit arr parse_call_agree traced_var by (simp split: option.splits)
qed

lemma chain_loop_agree:
  "traced (v1, p) (v2, p) \<Longrightarrow>
     runs_agree flagged (chain_loop E ctx1 tern1 len n v1 p r) (chain_loop E ctx2 tern2 len n v2 p r)"
proof (induction n arbitrary: v1 v2 p r)
  case (Suc n)
  have dot: "runs_agree flagged (chain_loop E ctx1 tern1 len n (index_field v1 f) (narrow ctx1 p f) r')
      (chain_loop E ctx2 tern2 len n (index_field v2 f) (narrow ctx2 p f) r')" for f r'
  proof -
    have t: "traced (index_field v1 f, narrow ctx1 p f) (index_field v2 f, narrow ctx2 p f)"
      by (rule traced_field [OF Suc.prems])
    then have "narrow ctx2 p f = narrow ctx1 p f" by (simp add: traced_def)
    with Suc.IH t show ?thesis by metis
  qed
  have sub1: "runs_agree flagged (chain_loop E ctx1 tern1 len n (index_array v1 i1) VpSecret r')
      (chain_loop E ctx2 tern2 len n (index_array v2 i2) VpSecret r')" for i1 i2 r'
    by (rule Suc.IH) (simp add: traced_def)
  have sub2: "runs_agree flagged (chain_loop E ctx1 tern1 len n (index_array v1 i) VpClean r')
      (chain_loop E ctx2 tern2 len n (index_array v2 i) VpClean r')" if "\<not> is_secret_derived p" for i r'
    using Suc.prems that by (intro Suc.IH) (simp add: traced_def is_secret_derived_def)
  have stop: "flagged (v1, is_secret_derived p) (v2, is_secret_derived p)"
    using Suc.prems by (auto simp: traced_def is_secret_derived_def)
  show ?case
  proof (cases "peek r = Some (CHR ''['')")
    case True
    show ?thesis
      unfolding chain_loop.simps Let_def using True
      by (simp add: dot, intro runs_agree_flagged [OF tern]) (auto split: option.splits intro!: sub1 sub2)
  next
    case False
    then show ?thesis
      unfolding chain_loop.simps Let_def parse_ident_def using dot stop by simp
  qed
qed (simp add: runs_agree_def)

lemma parse_primary_chain_agree:
  "runs_agree flagged (parse_primary_chain E ctx1 tern1 len r) (parse_primary_chain E ctx2 tern2 len r)"
  unfolding parse_primary_chain_def
proof (rule runs_agree_pbind [OF parse_primary_agree], clarify)
  fix v1 p1 v2 p2 and r' :: string
  assume t: "traced (v1, p1) (v2, p2)"
  then have "p2 = p1" by (simp add: traced_def)
  with chain_loop_agree t show "runs_agree flagged (chain_loop E ctx1 tern1 len (Suc (length r')) v1 p1 r')
      (chain_loop E ctx2 tern2 len (Suc (length r')) v2 p2 r')" by blast
qed

lemma parse_comparison_agree:
  "runs_agree flagged (parse_comparison E ctx1 tern1 len r) (parse_comparison E ctx2 tern2 len r)"
  unfolding parse_comparison_def
proof (rule runs_agree_flagged [OF parse_primary_chain_agree], goal_cases)
  case (1 v1 v2 s r')
  then show ?case
    by (auto simp: Let_def intro!: runs_agree_flagged [OF parse_primary_chain_agree] split: option.splits)
qed

text \<open>
  Both branches of a conditional are evaluated; which one counts depends on the condition, and a
  secret condition marks the result.
\<close>

lemma parse_ternary_inner_agree:
  "runs_agree flagged (parse_ternary_inner E ctx1 tern1 len r) (parse_ternary_inner E ctx2 tern2 len r)"
  unfolding parse_ternary_inner_def
proof (rule runs_agree_flagged [OF parse_comparison_agree], goal_cases)
  case (1 v1 v2 s r')
  have inner: "runs_agree flagged
      (pbind (tern1 x) (\<lambda>(w, t) r. pok (if truthy E v1 then (a1, s \<or> sa) else (w, s \<or> t)) r))
      (pbind (tern2 x) (\<lambda>(w, t) r. pok (if truthy E v2 then (a2, s \<or> sa) else (w, s \<or> t)) r))"
    if "\<not> sa \<Longrightarrow> a1 = a2" for a1 a2 sa x
    by (rule runs_agree_flagged [OF tern]) (use 1 that in \<open>cases s; auto\<close>)
  have "runs_agree flagged
      (pbind (tern1 y) (\<lambda>(a1, sa) r. let r = skip_ws r in if peek r \<noteq> Some (CHR '':'') then pfail (UnexpectedToken (len - length r) (''expected '' @ [CHR 0x27, CHR '':'', CHR 0x27]))
         else pbind (tern1 (skip_ws (tl r))) (\<lambda>(w, t) r. pok (if truthy E v1 then (a1, s \<or> sa) else (w, s \<or> t)) r)))
      (pbind (tern2 y) (\<lambda>(a2, sa) r. let r = skip_ws r in if peek r \<noteq> Some (CHR '':'') then pfail (UnexpectedToken (len - length r) (''expected '' @ [CHR 0x27, CHR '':'', CHR 0x27]))
         else pbind (tern2 (skip_ws (tl r))) (\<lambda>(w, t) r. pok (if truthy E v2 then (a2, s \<or> sa) else (w, s \<or> t)) r)))"
    for y
    by (rule runs_agree_flagged [OF tern]) (auto simp: Let_def intro: inner)
  with 1 show ?case by (simp add: Let_def)
qed

end

lemma parse_ternary_agree:
  assumes "low_equivalent ctx1 ctx2"
  shows "runs_agree flagged (parse_ternary E ctx1 len k r) (parse_ternary E ctx2 len k r)"
proof (induction k arbitrary: r)
  case (Suc k)
  then have "two_runs ctx1 ctx2 (parse_ternary E ctx1 len k) (parse_ternary E ctx2 len k)"
    by unfold_locales (rule assms)
  then show ?case by (simp add: two_runs.parse_ternary_inner_agree)
qed simp

text \<open>Two runs of the code on contexts that agree but for their secrets meet the contract.\<close>

interpretation own: two_runs E ctx ctx "parse_ternary E ctx len k" "parse_ternary E ctx len k" for E ctx len k
  by unfold_locales (simp_all add: low_equivalent_def parse_ternary_agree)

lemma eval_inner_agree:
  assumes "low_equivalent ctx1 ctx2" "eval_inner E s ctx1 = Ok x1" "eval_inner E s ctx2 = Ok x2"
  shows "flagged x1 x2"
  using parse_ternary_agree [OF assms(1), of E "length s" MAX_EXPR_DEPTH "skip_ws s"] assms(2,3)
  unfolding eval_inner_Ok runs_agree_def by blast

lemma interpolate_loop_agree:
  assumes low: "low_equivalent ctx1 ctx2"
  shows "interpolate_loop E ctx1 u1 rd sd rest = Ok i1 \<Longrightarrow> interpolate_loop E ctx2 u2 rd sd rest = Ok i2 \<Longrightarrow>
     (\<not> sd \<longrightarrow> u1 = rd \<and> u2 = rd) \<Longrightarrow>
     it_redacted i1 = it_redacted i2 \<and> it_secret_derived i1 = it_secret_derived i2 \<and>
     (\<not> it_secret_derived i1 \<longrightarrow> it_unredacted i1 = it_redacted i1 \<and> it_unredacted i2 = it_redacted i1)"
proof (induction "length rest" arbitrary: u1 u2 rd sd rest rule: less_induct)
  case less
  show ?case
  proof (cases "split_open rest")
    case None
    then show ?thesis using less.prems by (auto simp: interpolate_loop.simps)
  next
    case (Some ba)
    then obtain before after where o: "split_open rest = Some (before, after)" by (cases ba) auto
    obtain e v1 s1 v2 s2 where e: "find_closing_delimiter after = Some e"
      and v: "eval_inner E (trim (take e after)) ctx1 = Ok (v1, s1)" "eval_inner E (trim (take e after)) ctx2 = Ok (v2, s2)"
      using less.prems(1,2) o by (subst (asm) (1 2) interpolate_loop.simps) (auto split: option.splits sum.splits)
    have f: "s2 = s1" "\<not> s1 \<Longrightarrow> v2 = v1" using eval_inner_agree [OF low v] by auto
    let ?rest = "drop (e + 2) after"
    let ?rd = "rd @ before @ (if s1 then REDACTION_PLACEHOLDER else value_to_string E v1)"
    have r: "interpolate_loop E ctx1 (u1 @ before @ value_to_string E v1) ?rd (sd \<or> s1) ?rest = Ok i1"
      "interpolate_loop E ctx2 (u2 @ before @ value_to_string E v2) ?rd (sd \<or> s1) ?rest = Ok i2"
      using less.prems(1,2) o e v f by (subst (asm) (1 2) interpolate_loop.simps, auto simp: Let_def split: if_splits)+
    have "length ?rest < length rest" using split_open_shorter [OF o] by simp
    from less.hyps [OF this r] less.prems(3) f show ?thesis by auto
  qed
qed

definition redaction_agrees :: "json \<times> json \<times> bool \<Rightarrow> json \<times> json \<times> bool \<Rightarrow> bool" where
  "redaction_agrees x y \<longleftrightarrow>
     (case (x, y) of ((u1, r1, s1), (u2, r2, s2)) \<Rightarrow> r1 = r2 \<and> s1 = s2 \<and> (\<not> s1 \<longrightarrow> u1 = r1 \<and> u2 = r1))"

lemma redaction_agreesI:
  "r1 = r2 \<and> s1 = s2 \<and> (\<not> s1 \<longrightarrow> u1 = r1 \<and> u2 = r1) \<Longrightarrow> redaction_agrees (u1, r1, s1) (u2, r2, s2)"
  by (simp add: redaction_agrees_def)

lemma interpolate_json_agree:
  shows "low_equivalent ctx1 ctx2 \<Longrightarrow>
      interpolate_json_inner E ctx1 v = Ok x1 \<Longrightarrow> interpolate_json_inner E ctx2 v = Ok x2 \<Longrightarrow> redaction_agrees x1 x2"
    and "low_equivalent ctx1 ctx2 \<Longrightarrow>
      interpolate_items E ctx1 vs us1 rs s = Ok x1 \<Longrightarrow> interpolate_items E ctx2 vs us2 rs s = Ok x2 \<Longrightarrow>
      (\<not> s \<longrightarrow> us1 = rs \<and> us2 = rs) \<Longrightarrow> redaction_agrees x1 x2"
    and "low_equivalent ctx1 ctx2 \<Longrightarrow>
      interpolate_fields E ctx1 kv fs1 gs s = Ok x1 \<Longrightarrow> interpolate_fields E ctx2 kv fs2 gs s = Ok x2 \<Longrightarrow>
      (\<not> s \<longrightarrow> fs1 = gs \<and> fs2 = gs) \<Longrightarrow> redaction_agrees x1 x2"
proof (induction E ctx1 v and E ctx1 vs us1 rs s and E ctx1 kv fs1 gs s
    arbitrary: x1 x2 and x1 x2 us2 and x1 x2 fs2
    rule: interpolate_json_inner_interpolate_items_interpolate_fields.induct)
  case (1 E ctx s)
  from 1(2,3) obtain i1 i2 where i: "interpolate_loop E ctx [] [] False s = Ok i1"
    "interpolate_loop E ctx2 [] [] False s = Ok i2"
    and x: "x1 = (JString (it_unredacted i1), JString (it_redacted i1), it_secret_derived i1)"
      "x2 = (JString (it_unredacted i2), JString (it_redacted i2), it_secret_derived i2)"
    by (auto simp: interpolate_inner_def)
  show ?case unfolding x using interpolate_loop_agree [OF 1(1) i] by (intro redaction_agreesI) auto
next
  case (8 E ctx v vs us rs s)
  from 8(4) obtain u1 r1 s1 where 1: "interpolate_json_inner E ctx v = Ok (u1, r1, s1)"
    "interpolate_items E ctx vs (us @ [u1]) (rs @ [r1]) (s \<or> s1) = Ok x1" by auto
  from 8(5) obtain u2 r2 s2 where 2: "interpolate_json_inner E ctx2 v = Ok (u2, r2, s2)"
    "interpolate_items E ctx2 vs (us2 @ [u2]) (rs @ [r2]) (s \<or> s2) = Ok x2" by auto
  have a: "r2 = r1" "s2 = s1" "\<not> s1 \<longrightarrow> u1 = r1 \<and> u2 = r1"
    using 8(1) [OF 8(3) 1(1) 2(1)] by (auto simp: redaction_agrees_def)
  show ?case
    by (rule 8(2) [OF 8(3) 1(2) 2(2) [unfolded a]]) (use a 8(6) in auto)
next
  case (10 E ctx k v kv us rs s)
  from 10(4) obtain u1 r1 s1 where 1: "interpolate_json_inner E ctx v = Ok (u1, r1, s1)"
    "interpolate_fields E ctx kv (us @ [(k, u1)]) (rs @ [(k, r1)]) (s \<or> s1) = Ok x1" by auto
  from 10(5) obtain u2 r2 s2 where 2: "interpolate_json_inner E ctx2 v = Ok (u2, r2, s2)"
    "interpolate_fields E ctx2 kv (fs2 @ [(k, u2)]) (rs @ [(k, r2)]) (s \<or> s2) = Ok x2" by auto
  have a: "r2 = r1" "s2 = s1" "\<not> s1 \<longrightarrow> u1 = r1 \<and> u2 = r1"
    using 10(1) [OF 10(3) 1(1) 2(1)] by (auto simp: redaction_agrees_def)
  show ?case
    by (rule 10(2) [OF 10(3) 1(2) 2(2) [unfolded a]]) (use a 10(6) in auto)
qed (auto simp: redaction_agrees_def)

lemma interpolate_agree:
  assumes "low_equivalent ctx1 ctx2" "interpolate E t ctx1 = Ok i1" "interpolate E t ctx2 = Ok i2"
  shows "it_redacted i1 = it_redacted i2 \<and> it_secret_derived i1 = it_secret_derived i2 \<and>
      (\<not> it_secret_derived i1 \<longrightarrow> it_unredacted i1 = it_redacted i1 \<and> it_unredacted i2 = it_redacted i1)"
  using interpolate_loop_agree [OF assms(1)] assms(2,3) unfolding interpolate_def interpolate_inner_def by blast

lemma interpolate_json_top_agree:
  assumes "low_equivalent ctx1 ctx2" "interpolate_json E v ctx1 = Ok j1" "interpolate_json E v ctx2 = Ok j2"
  shows "it_redacted j1 = it_redacted j2 \<and> it_secret_derived j1 = it_secret_derived j2 \<and>
      (\<not> it_secret_derived j1 \<longrightarrow> it_unredacted j1 = it_redacted j1 \<and> it_unredacted j2 = it_redacted j1)"
proof -
  obtain u1 r1 s1 u2 r2 s2 where "interpolate_json_inner E ctx1 v = Ok (u1, r1, s1)"
    "interpolate_json_inner E ctx2 v = Ok (u2, r2, s2)"
    "j1 = \<lparr>it_unredacted = u1, it_redacted = r1, it_secret_derived = s1\<rparr>"
    "j2 = \<lparr>it_unredacted = u2, it_redacted = r2, it_secret_derived = s2\<rparr>"
    using assms(2,3) by (auto simp: interpolate_json_def)
  with interpolate_json_agree(1) [OF assms(1) this(1,2)] show ?thesis by (simp add: redaction_agrees_def)
qed

subsection \<open>Errors quote the source only\<close>

definition FIXED_MESSAGES :: "string list" where
  "FIXED_MESSAGES =
     [''unexpected character'', ''expected '' @ [CHR 0x27, CHR '']'', CHR 0x27], ''expected '' @ [CHR 0x27, CHR '':'', CHR 0x27],
      ''expected '' @ [CHR 0x27, CHR '','', CHR 0x27] @ '' or close'']"

text \<open>Every text in an error is a piece of the expression, possibly shortened, or a fixed message.\<close>

fun quotes_source :: "string \<Rightarrow> expr_error \<Rightarrow> bool" where
  "quotes_source s (UnexpectedToken p t) = (sublist t s \<or> t \<in> set FIXED_MESSAGES)"
| "quotes_source s (UnknownFunction t) = sublist t s"
| "quotes_source s (NonNumericIndex p t) = (\<exists>u. sublist u s \<and> t = truncate_echoed_field u)"
| "quotes_source s (EnvVarNotAllowed t) = (\<exists>u. sublist u s \<and> t = truncate_echoed_field u)"
| "quotes_source s (NotADelimitedExpression t) = False"
| "quotes_source s _ = True"

definition quoting :: "string \<Rightarrow> 'a parsed \<Rightarrow> bool" where
  "quoting s m \<longleftrightarrow> (\<forall>e. m = Some (Err e) \<longrightarrow> quotes_source s e) \<and> (\<forall>v r. m = Some (Ok (v, r)) \<longrightarrow> suffix r s)"

lemma quoting_pfail [simp]: "quoting s (pfail e) \<longleftrightarrow> quotes_source s e"
  by (auto simp: quoting_def pfail_def)

lemma quoting_pok [simp]: "quoting s (pok v r) \<longleftrightarrow> suffix r s"
  by (auto simp: quoting_def pok_def)

lemma quoting_pbind:
  assumes "quoting s m" "\<And>v r. suffix r s \<Longrightarrow> quoting s (f v r)"
  shows "quoting s (pbind m f)"
  using assms by (auto simp: quoting_def pbind_def split: option.splits sum.splits)

lemma quoting_pbind2:
  assumes "quoting s m" "\<And>v w r. suffix r s \<Longrightarrow> quoting s (f (v, w) r)"
  shows "quoting s (pbind m f)"
  using assms by (auto intro!: quoting_pbind)

lemma suffix_skip_ws: "suffix r s \<Longrightarrow> suffix (skip_ws r) s"
  unfolding skip_ws_def by (meson suffix_dropWhile suffix_order.trans)

lemma suffix_tl': "suffix r s \<Longrightarrow> suffix (tl r) s"
  by (meson suffix_tl suffix_order.trans)

lemma suffix_dropWhile': "suffix r s \<Longrightarrow> suffix (dropWhile P r) s"
  by (meson suffix_dropWhile suffix_order.trans)

lemma suffix_drop': "suffix r s \<Longrightarrow> suffix (drop k r) s"
  by (meson suffix_drop suffix_order.trans)

lemmas suffixes = suffix_skip_ws suffix_tl' suffix_dropWhile' suffix_drop'

lemma sublist_take_suffix: "suffix r s \<Longrightarrow> sublist (take k r) s"
  by (meson prefix_imp_sublist sublist_order.order.trans suffix_imp_sublist take_is_prefix)

lemma sublist_takeWhile_suffix: "suffix r s \<Longrightarrow> sublist (takeWhile P r) s"
  by (metis sublist_take_suffix takeWhile_eq_take)

lemma trim_with_suffix: "suffix (trim_with ws s) s"
proof (induction ws s rule: trim_with.induct)
  case (1 ws s)
  show ?case
  proof (cases "strip_one ws s")
    case (Some s')
    then have "\<exists>k. s' = drop k s"
      unfolding strip_one_def by (induction ws) (auto split: if_splits)
    then have "suffix s' s" by (auto simp: suffix_drop)
    with 1 [OF Some] Some show ?thesis by (metis (no_types, lifting) option.simps(5) suffix_order.trans trim_with.simps)
  qed (subst trim_with.simps, simp)
qed

lemma trim_sublist: "sublist (trim s) s"
proof -
  let ?a = "trim_with utf8_whitespace s"
  have "suffix (trim_with (map rev utf8_whitespace) (rev ?a)) (rev ?a)" by (rule trim_with_suffix)
  then have "prefix (trim s) ?a" unfolding trim_def by (metis rev_rev_ident suffix_to_prefix)
  then show ?thesis
    by (meson prefix_imp_sublist sublist_order.order.trans suffix_imp_sublist trim_with_suffix)
qed

lemma sublist_trim_take: "suffix r s \<Longrightarrow> sublist (trim (take k r)) s"
  by (meson sublist_order.order.trans sublist_take_suffix trim_sublist)

lemma call_function_quotes:
  assumes "call_function E ident args ctx src = Err e" "sublist ident s" "sublist src s"
  shows "quotes_source s e"
  using assms by (auto simp: call_function_def Let_def split: if_splits sum.splits)

locale quoting_ternary =
  fixes s :: string and tern :: ternary
  assumes tern: "suffix r s \<Longrightarrow> quoting s (tern r)"
begin

lemma args_loop_quoting: "suffix r s \<Longrightarrow> quoting s (args_loop tern len close n args any_secret r)"
proof (induction n arbitrary: args any_secret r)
  case (Suc n)
  show ?case
    unfolding args_loop.simps
  proof (rule quoting_pbind2 [OF tern], goal_cases)
    case 1
    show ?case using Suc.prems by (rule suffixes)
  next
    case (2 v w r')
    then have "suffix (tl (skip_ws r')) s" by (intro suffixes)
    with Suc.IH [OF this] show ?case by (auto simp: Let_def FIXED_MESSAGES_def)
  qed
qed (simp add: quoting_def)

lemma parse_args_until_quoting: "suffix r s \<Longrightarrow> quoting s (parse_args_until tern len close r)"
  by (auto simp: parse_args_until_def Let_def simp del: args_loop.simps intro!: args_loop_quoting suffixes)

lemma parse_call_quoting:
  assumes "suffix r s" "sublist ident s"
  shows "quoting s (parse_call E ctx tern len ident r)"
  unfolding parse_call_def
proof (rule quoting_pbind2 [OF parse_args_until_quoting [OF assms(1)]], goal_cases)
  case (1 args t r')
  then show ?case
    using call_function_quotes [OF _ assms(2) sublist_trim_take [OF assms(1)]]
    by (auto simp: Let_def split: sum.splits)
qed

lemma parse_primary_quoting:
  assumes "suffix r s"
  shows "quoting s (parse_primary E ctx tern len r)"
proof -
  let ?r = "skip_ws r"
  have r: "suffix ?r s" using assms by (rule suffixes)
  have str: "quoting s (pbind (parse_string_literal ?r) (\<lambda>v r. pok (v, VpClean) r))"
    by (rule quoting_pbind) (auto simp: parse_string_literal_def Let_def intro!: suffixes r)
  have num: "quoting s (pbind (parse_number E len ?r) (\<lambda>v r. pok (v, VpClean) r))"
    by (rule quoting_pbind)
      (auto simp: parse_number_def Let_def intro!: suffixes r sublist_takeWhile_suffix split: option.splits)
  have arr: "quoting s (pbind (parse_array_literal tern len ?r) (\<lambda>(v, secret) r. pok (v, provenance_from_flag secret) r))"
    unfolding parse_array_literal_def
    by (intro quoting_pbind2 parse_args_until_quoting) (auto intro!: suffixes r)
  have call: "quoting s (parse_call E ctx tern len (takeWhile is_ident_byte ?r) (tl (skip_ws (dropWhile is_ident_byte ?r))))"
    by (intro parse_call_quoting sublist_takeWhile_suffix suffixes r)
  have var: "suffix (skip_ws (dropWhile is_ident_byte ?r)) s" by (intro suffixes r)
  show ?thesis
    unfolding parse_primary_def Let_def parse_ident_def
    using str num arr call var by (simp add: FIXED_MESSAGES_def split: option.splits)
qed

lemma chain_loop_quoting: "suffix r s \<Longrightarrow> quoting s (chain_loop E ctx tern len n v prov r)"
proof (induction n arbitrary: v prov r)
  case (Suc n)
  have quote: "\<exists>u. sublist u s \<and> truncate_echoed_field (trim (take k x)) = truncate_echoed_field u" if "suffix x s" for k x
    using sublist_trim_take [OF that] by blast
  show ?case
    unfolding chain_loop.simps Let_def parse_ident_def
    by (auto intro!: Suc.IH quoting_pbind2 [OF tern] suffixes Suc.prems quote
        simp: FIXED_MESSAGES_def split: option.splits)
qed (simp add: quoting_def)

lemma parse_primary_chain_quoting: "suffix r s \<Longrightarrow> quoting s (parse_primary_chain E ctx tern len r)"
  unfolding parse_primary_chain_def
  by (rule quoting_pbind2 [OF parse_primary_quoting])
    (auto intro: suffixes chain_loop_quoting simp del: chain_loop.simps)

lemma parse_comparison_quoting: "suffix r s \<Longrightarrow> quoting s (parse_comparison E ctx tern len r)"
  unfolding parse_comparison_def
  by (rule quoting_pbind2 [OF parse_primary_chain_quoting])
    (auto simp: Let_def intro!: quoting_pbind2 [OF parse_primary_chain_quoting] suffixes split: option.splits)

lemma parse_ternary_inner_quoting: "suffix r s \<Longrightarrow> quoting s (parse_ternary_inner E ctx tern len r)"
  unfolding parse_ternary_inner_def
  by (rule quoting_pbind2 [OF parse_comparison_quoting])
    (auto simp: Let_def FIXED_MESSAGES_def intro!: quoting_pbind2 [OF tern] suffixes)

end

lemma parse_ternary_quoting: "suffix r s \<Longrightarrow> quoting s (parse_ternary E ctx len k r)"
proof (induction k arbitrary: r)
  case (Suc k)
  then have "quoting_ternary s (parse_ternary E ctx len k)" by unfold_locales
  then show ?case using Suc.prems by (simp add: quoting_ternary.parse_ternary_inner_quoting)
qed simp

interpretation quote: quoting_ternary s "parse_ternary E ctx len k" for s E ctx len k
  by unfold_locales (rule parse_ternary_quoting)

lemma eval_inner_quotes:
  assumes "eval_inner E s ctx = Err e"
  shows "quotes_source s e"
proof -
  have "quoting s (parse_ternary E ctx (length s) MAX_EXPR_DEPTH (skip_ws s))"
    by (rule parse_ternary_quoting) (simp add: suffix_skip_ws)
  moreover obtain res where "parse_ternary E ctx (length s) MAX_EXPR_DEPTH (skip_ws s) = Some res"
    using parse_ternary_answers [of "skip_ws s" E ctx "length s" MAX_EXPR_DEPTH] by (auto simp: answers_def)
  ultimately show ?thesis
    using assms by (auto simp: eval_inner_def quoting_def Let_def suffix_imp_sublist suffix_skip_ws
        split: sum.splits if_splits)
qed

subsection \<open>Marks are never lost\<close>

lemma prefix_take_iff: "prefix d w \<longleftrightarrow> length d \<le> length w \<and> d = take (length d) w"
  by (metis append_eq_conv_conj prefix_def prefix_length_le take_is_prefix)

lemma classify_paths_secret:
  "classify_paths walked u paths = PvSecret \<longleftrightarrow> (\<exists>d \<in> set paths. prefix d walked)"
  by (induction paths arbitrary: u) (auto simp: prefix_take_iff)

datatype ctx_op =
    SetPublic string json
  | SetSecret string json
  | SetPaths string json "string list list"
  | SetFrom string json bool
  | AllowEnv "string list"

fun ctx_step :: "expr_context \<Rightarrow> ctx_op \<Rightarrow> expr_context" where
  "ctx_step ctx (SetPublic name v) = set_public ctx name v"
| "ctx_step ctx (SetSecret name v) = set_secret ctx name v"
| "ctx_step ctx (SetPaths name v paths) = set_with_secret_paths ctx name v paths"
| "ctx_step ctx (SetFrom name v secret) = set_from ctx name v secret"
| "ctx_step ctx (AllowEnv names) = allow_env ctx names"

lemma merge_paths_set:
  "set (foldl (\<lambda>paths old. if old \<in> set paths then paths else paths @ [old]) paths existing) = set paths \<union> set existing"
  by (induction existing arbitrary: paths) auto

lemma set_paths_provenance:
  "ec_provenance (set_with_secret_paths ctx name v paths) rt =
     (if rt \<noteq> name then ec_provenance ctx rt
      else case ec_provenance ctx name of
             Some RpWhole \<Rightarrow> Some RpWhole
           | Some (RpPaths existing) \<Rightarrow> Some (RpPaths (foldl (\<lambda>paths old. if old \<in> set paths then paths else paths @ [old])
               (filter (\<lambda>p. p \<noteq> []) paths) existing))
           | None \<Rightarrow> if filter (\<lambda>p. p \<noteq> []) paths = [] then None else Some (RpPaths (filter (\<lambda>p. p \<noteq> []) paths)))"
  by (auto simp: set_with_secret_paths_def Let_def split: option.splits root_provenance.splits)

lemma classify_secret_iff:
  "classify_path ctx rt walked = PvSecret \<longleftrightarrow>
     ec_provenance ctx rt = Some RpWhole \<or>
     (\<exists>paths. ec_provenance ctx rt = Some (RpPaths paths) \<and> (\<exists>d \<in> set paths. prefix d walked))"
  by (auto simp: classify_path_def classify_paths_secret split: option.splits root_provenance.splits)

lemma ctx_step_sticky:
  assumes "classify_path ctx rt walked = PvSecret"
  shows "classify_path (ctx_step ctx op) rt walked = PvSecret"
proof (cases op)
  case (SetPaths name v paths)
  then show ?thesis
    using assms unfolding classify_secret_iff
    by (auto simp: set_paths_provenance merge_paths_set)
qed (use assms in \<open>auto simp: classify_secret_iff set_public_def set_secret_def set_from_def allow_env_def\<close>)

lemma ctx_steps_sticky:
  "classify_path ctx rt walked = PvSecret \<Longrightarrow> classify_path (foldl ctx_step ctx ops) rt walked = PvSecret"
  by (induction ops arbitrary: ctx) (auto simp: ctx_step_sticky)

lemma declared_paths_secret:
  assumes "p \<in> set paths" "p \<noteq> []" "prefix p walked"
  shows "classify_path (set_with_secret_paths ctx name v paths) name walked = PvSecret"
proof -
  have "p \<in> set (filter (\<lambda>p. p \<noteq> []) paths)" using assms by simp
  moreover from this have "filter (\<lambda>p. p \<noteq> []) paths \<noteq> []" by (metis empty_iff empty_set)
  ultimately show ?thesis
    unfolding classify_secret_iff using assms(3)
    by (auto simp: set_paths_provenance merge_paths_set split: option.splits root_provenance.splits)
qed

fun touches :: "ctx_op \<Rightarrow> string option" where
  "touches (SetPublic name _) = Some name"
| "touches (SetSecret name _) = Some name"
| "touches (SetPaths name _ _) = Some name"
| "touches (SetFrom name _ _) = Some name"
| "touches (AllowEnv _) = None"

lemma ctx_step_touches:
  assumes "touches op = Some name"
  shows "ec_env (ctx_step ctx op) = ec_env ctx" "rt \<noteq> name \<Longrightarrow> ec_vars (ctx_step ctx op) rt = ec_vars ctx rt"
    "rt \<noteq> name \<Longrightarrow> ec_provenance (ctx_step ctx op) rt = ec_provenance ctx rt"
  using assms
  by (cases op; auto simp: set_public_def set_secret_def set_from_def set_paths_provenance set_with_secret_paths_def
      Let_def split: option.splits root_provenance.splits)+

lemma ctx_steps_touch:
  assumes "\<forall>op \<in> set ops. touches op = Some name"
  shows "ec_env (foldl ctx_step ctx ops) = ec_env ctx \<and>
    (\<forall>rt. rt \<noteq> name \<longrightarrow> ec_vars (foldl ctx_step ctx ops) rt = ec_vars ctx rt \<and>
                          ec_provenance (foldl ctx_step ctx ops) rt = ec_provenance ctx rt)"
  using assms by (induction ops arbitrary: ctx) (auto simp: ctx_step_touches)

subsection \<open>Properties\<close>

text \<open>
  \<^bold>\<open>C14.\<close> Secrets do not flow into clean results.  Evaluate an expression in two contexts that
  declare the same secrets and differ only in the values behind them (a whole variable, or the
  parts of it at or below a declared path).  If both evaluations succeed, they agree on whether the
  result derives from a secret, and if it does not, they yield the same value: no secret can be
  read off a result that is not marked, through fields, subscripts, comparisons, conditionals,
  arrays or any of the functions.
\<close>

theorem eval_noninterference:
  assumes "low_equivalent ctx1 ctx2" "eval E s ctx1 = Ok e1" "eval E s ctx2 = Ok e2"
  shows "ev_secret_derived e1 = ev_secret_derived e2 \<and> (\<not> ev_secret_derived e1 \<longrightarrow> ev_value e1 = ev_value e2)"
  using assms eval_inner_agree [OF assms(1)] by (fastforce simp: eval_def flagged_def)

text \<open>A context with a public number and a secret token.\<close>

definition example_expr_env :: expr_env where
  "example_expr_env = \<lparr>xe_round = id, xe_json = (\<lambda>_. Err JcSyntax), xe_display = (\<lambda>_. ''?''), xe_var = (\<lambda>_. None)\<rparr>"

definition token_context :: "string \<Rightarrow> expr_context" where
  "token_context t = set_secret (set_public expr_context_new ''n'' (JNumber (PosInt 3))) ''token'' (JString t)"

lemma token_contexts_equivalent: "low_equivalent (token_context t) (token_context u)"
  by (auto simp: low_equivalent_def token_context_def set_secret_def set_public_def expr_context_new_def
      classify_path_def walk_def unwrap_or_def)

lemma parse_ternary_numeral:
  "parse_ternary E ctx len (numeral k) r = parse_ternary_inner E ctx (parse_ternary E ctx len (pred_numeral k)) len r"
  by (simp add: numeral_eq_Suc)

lemma args_loop_numeral:
  "args_loop tern len close (numeral k) args any_secret r = args_loop tern len close (Suc (pred_numeral k)) args any_secret r"
  "chain_loop E ctx tern len (numeral k) v prov r = chain_loop E ctx tern len (Suc (pred_numeral k)) v prov r"
  by (simp_all add: numeral_eq_Suc)

lemmas run_parser =
  eval_def eval_inner_def MAX_EXPR_DEPTH_def parse_ternary_numeral args_loop_numeral parse_ternary_inner_def
  parse_comparison_def parse_primary_chain_def parse_primary_def parse_var_def parse_ident_def parse_number_def
  parse_call_def parse_args_until_def parse_array_literal_def parse_string_literal_def
  pbind_def pok_def pfail_def skip_ws_def peek_def COMPARISON_OPS_def starts_with_def compare_f64_def
  is_secret_derived_def is_ident_byte_def is_ascii_whitespace_def is_ascii_digit_def is_ascii_alphabetic_def
  byte_def digits_value_def unwrap_or_def Let_def

lemma token_eval:
  "eval example_expr_env ''n > 2 ? n : token'' (token_context t) =
     Ok \<lparr>ev_value = JNumber (PosInt 3), ev_secret_derived = False\<rparr>"
  by (simp add: run_parser token_context_def set_secret_def set_public_def expr_context_new_def example_expr_env_def)

theorem eval_noninterference_witness:
  "\<exists>e1 e2. eval example_expr_env ''n > 2 ? n : token'' (token_context ''abc'') = Ok e1 \<and>
     eval example_expr_env ''n > 2 ? n : token'' (token_context ''xyz'') = Ok e2 \<and>
     \<not> ev_secret_derived e1 \<and> ev_value e1 = ev_value e2"
  using eval_noninterference [OF token_contexts_equivalent token_eval token_eval] token_eval by simp

text \<open>
  \<^bold>\<open>C22.\<close> What is logged shows no secret.  Under the same conditions the redacted form of an
  interpolated template is the same text in both contexts, and so is the redacted form of an
  interpolated JSON value; where nothing is marked, the redacted and the real form coincide.
\<close>

theorem redacted_forms_hide_secrets:
  assumes "low_equivalent ctx1 ctx2"
  shows "(\<forall>i1 i2. interpolate E t ctx1 = Ok i1 \<and> interpolate E t ctx2 = Ok i2 \<longrightarrow>
      it_redacted i1 = it_redacted i2 \<and> it_secret_derived i1 = it_secret_derived i2 \<and>
      (\<not> it_secret_derived i1 \<longrightarrow> it_unredacted i1 = it_redacted i1 \<and> it_unredacted i2 = it_redacted i1)) \<and>
    (\<forall>j1 j2. interpolate_json E v ctx1 = Ok j1 \<and> interpolate_json E v ctx2 = Ok j2 \<longrightarrow>
      it_redacted j1 = it_redacted j2 \<and> it_secret_derived j1 = it_secret_derived j2 \<and>
      (\<not> it_secret_derived j1 \<longrightarrow> it_unredacted j1 = it_redacted j1 \<and> it_unredacted j2 = it_redacted j1))"
  by (rule conjI; intro allI impI; elim conjE)
    (rule interpolate_agree [OF assms], assumption+, rule interpolate_json_top_agree [OF assms], assumption+)

lemma trim_with_rev: "strip_one ws s = None \<Longrightarrow> trim_with ws s = s" "strip_one ws s = Some s' \<Longrightarrow> trim_with ws s = trim_with ws s'"
  by (subst trim_with.simps, simp)+

lemma trim_block: "trim '' token '' = ''token''"
proof -
  have "strip_one utf8_whitespace '' token '' = Some ''token ''" "strip_one utf8_whitespace ''token '' = None"
    "strip_one (map rev utf8_whitespace) '' nekot'' = Some ''nekot''"
    "strip_one (map rev utf8_whitespace) ''nekot'' = None"
    by (simp_all add: strip_one_def utf8_whitespace_def)
  note t = this(1,3) [THEN trim_with_rev(2)] this(2,4) [THEN trim_with_rev(1)]
  show ?thesis by (simp add: trim_def t)
qed

lemma token_interpolate:
  "interpolate example_expr_env ''t=${{ token }}!'' (token_context t) =
     Ok \<lparr>it_unredacted = ''t='' @ t @ ''!'', it_redacted = ''t=***!'', it_secret_derived = True\<rparr>"
proof -
  have e: "eval_inner example_expr_env ''token'' (token_context t) = Ok (JString t, True)"
    by (simp add: run_parser token_context_def set_secret_def set_public_def expr_context_new_def example_expr_env_def)
  show ?thesis
    unfolding interpolate_def interpolate_inner_def
    by (subst interpolate_loop.simps)
      (simp add: find_closing_delimiter_def peek_def trim_block e value_to_string_def REDACTION_PLACEHOLDER_def
        Let_def interpolate_loop.simps [of _ _ _ _ _ "''!''"])
qed

theorem redacted_forms_hide_secrets_witness:
  "\<exists>i1 i2. interpolate example_expr_env ''t=${{ token }}!'' (token_context ''abc'') = Ok i1 \<and>
     interpolate example_expr_env ''t=${{ token }}!'' (token_context ''xyz'') = Ok i2 \<and>
     it_unredacted i1 \<noteq> it_unredacted i2 \<and> it_redacted i1 = it_redacted i2"
  using redacted_forms_hide_secrets [OF token_contexts_equivalent [of "''abc''" "''xyz''"],
      of example_expr_env "''t=${{ token }}!''"] token_interpolate by auto

text \<open>
  Errors quote the expression, never a value: every text in the error of a failed
  evaluation is a piece of the source expression, possibly shortened, or one of four fixed messages.
\<close>

theorem errors_quote_only_source:
  assumes "eval E s ctx = Err e"
  shows "quotes_source s e"
proof -
  have "eval_inner E s ctx = Err e"
    using assms by (cases "eval_inner E s ctx") (auto simp: eval_def split: prod.splits)
  then show ?thesis by (rule eval_inner_quotes)
qed

theorem errors_quote_only_source_witness:
  "eval example_expr_env ''nope(1)'' expr_context_new = Err (UnknownFunction ''nope'') \<and> sublist ''nope'' ''nope(1)''"
proof -
  have "eval example_expr_env ''nope(1)'' expr_context_new = Err (UnknownFunction ''nope'')"
    by (simp add: run_parser call_function_def)
  with errors_quote_only_source [OF this] show ?thesis by simp
qed

text \<open>
  \<^bold>\<open>C37.\<close> The parser answers on every text: no loop over arguments or subscripts runs out of its
  bound, at any nesting depth, and what is left over is no longer than what it was given.
\<close>

theorem parser_always_answers:
  "\<exists>res. parse_ternary E ctx len k r = Some res \<and> (\<forall>v r'. res = Ok (v, r') \<longrightarrow> length r' \<le> length r)"
  using parse_ternary_answers [of r E ctx len k] by (simp add: answers_def)

theorem parser_always_answers_witness:
  "\<exists>res. parse_ternary example_expr_env expr_context_new 2 64 ''a['' = Some res"
  using parser_always_answers [of example_expr_env expr_context_new 2 64 "''a[''"] by blast

text \<open>
  A mark is never lost by writing.  Once a variable, or a path below it, is secret, it stays
  secret through any sequence of writes, public ones included; and a write that declares a path
  secret makes everything at and below the path secret at once.
\<close>

theorem marks_are_sticky:
  "(classify_path ctx rt walked = PvSecret \<longrightarrow> classify_path (foldl ctx_step ctx ops) rt walked = PvSecret) \<and>
   classify_path (foldl ctx_step (set_secret ctx rt v) ops) rt walked = PvSecret \<and>
   (p \<in> set paths \<and> p \<noteq> [] \<and> prefix p walked \<longrightarrow>
      classify_path (foldl ctx_step (set_with_secret_paths ctx rt v paths) ops) rt walked = PvSecret)"
proof -
  have "classify_path (set_secret ctx rt v) rt walked = PvSecret"
    by (simp add: classify_secret_iff set_secret_def)
  then show ?thesis using ctx_steps_sticky declared_paths_secret by blast
qed

theorem marks_are_sticky_witness:
  "classify_path (foldl ctx_step (set_with_secret_paths expr_context_new ''x'' JNull [[''a'', ''b'']]) [SetPublic ''x'' JNull])
     ''x'' [''a'', ''b'', ''c''] = PvSecret"
  using marks_are_sticky [of expr_context_new "''x''" "[''a'', ''b'', ''c'']" "[SetPublic ''x'' JNull]" JNull
      "[''a'', ''b'']" "[[''a'', ''b'']]"] by simp

text \<open>
  Binding a loop variable and restoring it afterwards leaves no trace: after any writes to
  one variable, restoring the snapshot taken before them gives back the context, value and mark.
\<close>

theorem restore_undoes_writes:
  assumes "\<forall>op \<in> set ops. touches op = Some name"
  shows "restore_root (foldl ctx_step ctx ops) name (snapshot_root ctx name) = ctx"
proof -
  let ?ctx = "foldl ctx_step ctx ops"
  have "(ec_vars ?ctx)(name := ec_vars ctx name) = ec_vars ctx"
    "(ec_provenance ?ctx)(name := ec_provenance ctx name) = ec_provenance ctx"
    using ctx_steps_touch [OF assms, of ctx] by (auto simp: fun_eq_iff)
  with ctx_steps_touch [OF assms, of ctx] show ?thesis
    by (simp add: restore_root_def snapshot_root_def)
qed

theorem restore_undoes_writes_witness:
  "restore_root (foldl ctx_step (token_context ''abc'') [SetSecret ''item'' JNull, SetPublic ''item'' (JBool True)]) ''item''
     (snapshot_root (token_context ''abc'') ''item'') = token_context ''abc''"
  by (rule restore_undoes_writes) simp

end
