(* ===== verification/Flow_Limits.thy ===== *)
theory Flow_Limits
  imports Flow_Expr Bus_Types Bus_Rate_Limit
begin

text \<open>
  The limits a workflow run lives under: \<^verbatim>\<open>roundhouse-flow/src/retry.rs\<close> (durations, retry policies,
  backoff), \<^verbatim>\<open>caps.rs\<close> and \<^verbatim>\<open>compose.rs\<close> (call depth, fan-out, the budget a child run draws from
  its parent), \<^verbatim>\<open>approval_policy.rs\<close> and \<^verbatim>\<open>hitl.rs\<close> with the types of \<^verbatim>\<open>parse/types.rs\<close> they use
  (what happens to a permission question when nobody is there).  A \<^verbatim>\<open>Duration\<close> is a number of
  nanoseconds.
\<close>

subsection \<open>Durations and retries\<close>

datatype failure_class = Retryable | Terminal

definition classify_http_status :: "nat \<Rightarrow> failure_class" where
  "classify_http_status status = (if status = 429 \<or> 500 \<le> status \<and> status \<le> 599 then Retryable else Terminal)"

definition classify_schema_or_permission_error :: failure_class where
  "classify_schema_or_permission_error = Terminal"

type_synonym duration = nat

definition from_secs :: "nat \<Rightarrow> duration" where
  "from_secs n = n * 10 ^ 9"

definition DURATION_MAX :: duration where
  "DURATION_MAX = 2 ^ 64 * 10 ^ 9 - 1"

record retry_policy =
  rp_max_attempts :: nat
  rp_base :: duration
  rp_max :: duration
  rp_total_budget :: duration

datatype retry_policy_error =
    InvalidDuration string string
  | DurationOverflow string string
  | TooManyAttempts nat nat
  | ZeroDuration string string

definition MAX_ATTEMPTS :: nat where
  "MAX_ATTEMPTS = 20"

datatype duration_parse_error = DpInvalid | DpOverflow

definition unit_multiplier :: "char \<Rightarrow> nat option" where
  "unit_multiplier c =
     (if c = CHR ''h'' then Some 3600 else if c = CHR ''m'' then Some 60
      else if c = CHR ''s'' then Some 1 else if c = CHR ''d'' then Some 86400 else None)"

definition parse_duration_str :: "string \<Rightarrow> (duration, duration_parse_error) result" where
  "parse_duration_str s =
     (if s = [] then Err DpInvalid
      else let digits = butlast s; n = digits_value digits
           in if digits = [] \<or> \<not> list_all is_ascii_digit digits then Err DpInvalid
              else if n \<ge> 2 ^ 64 then Err DpInvalid
              else case unit_multiplier (last s) of
                     None \<Rightarrow> Err DpInvalid
                   | Some m \<Rightarrow> if n * m \<ge> 2 ^ 64 then Err DpOverflow else Ok (from_secs (n * m)))"

definition resolve_duration :: "string \<Rightarrow> string option \<Rightarrow> duration \<Rightarrow> (duration, retry_policy_error) result" where
  "resolve_duration field raw dflt =
     (case raw of
        None \<Rightarrow> Ok dflt
      | Some s \<Rightarrow>
          (case parse_duration_str s of
             Inl DpInvalid \<Rightarrow> Err (InvalidDuration field s)
           | Inl DpOverflow \<Rightarrow> Err (DurationOverflow field s)
           | Inr d \<Rightarrow> if d = 0 then Err (ZeroDuration field s) else Ok d))"

definition DEFAULT_TOTAL_BUDGET :: duration where
  "DEFAULT_TOTAL_BUDGET = from_secs 3600"

record retry_def =
  rd_attempts :: nat
  rd_backoff :: "string option"
  rd_base :: "string option"
  rd_max :: "string option"
  rd_on :: "string list"

definition retry_policy_from_def :: "retry_def \<Rightarrow> (retry_policy, retry_policy_error) result" where
  "retry_policy_from_def d =
     (if rd_attempts d > MAX_ATTEMPTS then Err (TooManyAttempts (rd_attempts d) MAX_ATTEMPTS)
      else res_bind (resolve_duration ''base'' (rd_base d) (from_secs 1)) (\<lambda>base.
           res_bind (resolve_duration ''max'' (rd_max d) (from_secs 300)) (\<lambda>mx.
             Ok \<lparr>rp_max_attempts = max (rd_attempts d) 1, rp_base = base, rp_max = mx,
                 rp_total_budget = DEFAULT_TOTAL_BUDGET\<rparr>)))"

text \<open>
  \<^verbatim>\<open>Duration::try_from_secs_f64\<close> on a value that is not negative: nearest nanosecond, ties to even,
  \<open>None\<close> past the largest duration.
\<close>

definition round_half_even :: "rat \<Rightarrow> nat" where
  "round_half_even x =
     (let n = nat \<lfloor>x\<rfloor>; r = x - of_nat n
      in if r < 1 / 2 then n else if r > 1 / 2 then n + 1 else if even n then n else n + 1)"

definition try_from_secs_f64 :: "rat \<Rightarrow> duration option" where
  "try_from_secs_f64 x = (let n = round_half_even (x * 10 ^ 9) in if n > DURATION_MAX then None else Some n)"

text \<open>A jitter of \<open>None\<close> is \<^verbatim>\<open>NaN\<close>, which \<^verbatim>\<open>max(0.0)\<close> turns into zero.\<close>

definition next_retry_delay :: "rounding \<Rightarrow> retry_policy \<Rightarrow> nat \<Rightarrow> duration \<Rightarrow> rat option \<Rightarrow> duration option" where
  "next_retry_delay rnd p attempt elapsed_total jitter_unit =
     (if attempt \<ge> rp_max_attempts p then None
      else let exponent = min (attempt - 1) 64;
               exp_secs = rnd (as_secs_f64 rnd (rp_base p) * 2 ^ exponent);
               capped_secs = min exp_secs (as_secs_f64 rnd (rp_max p));
               jittered_secs = (case jitter_unit of None \<Rightarrow> 0
                                | Some j \<Rightarrow> max (rnd (capped_secs * min (max j 0) 1)) 0);
               delay = (case try_from_secs_f64 jittered_secs of None \<Rightarrow> rp_max p | Some d \<Rightarrow> d)
           in if min (elapsed_total + delay) DURATION_MAX > rp_total_budget p then None else Some delay)"

subsection \<open>Caps and budgets\<close>

record resource_caps =
  run_wall_timeout :: duration
  run_active_timeout :: duration
  step_timeout :: duration
  max_tokens :: nat
  max_cost_usd :: rat
  max_tasks :: nat
  max_tool_calls :: nat
  max_subagents :: nat
  max_bytes_written :: nat
  max_escalations :: nat

definition resource_caps_default :: resource_caps where
  "resource_caps_default =
     \<lparr>run_wall_timeout = from_secs (24 * 3600), run_active_timeout = from_secs (4 * 3600),
      step_timeout = from_secs 1800, max_tokens = 2000000, max_cost_usd = 10, max_tasks = 5000,
      max_tool_calls = 2000, max_subagents = 20, max_bytes_written = 100000000, max_escalations = 50\<rparr>"

text \<open>A cost is a finite number here; the sign is what is left to check.\<close>

definition is_usable_cost_usd :: "rat \<Rightarrow> bool" where
  "is_usable_cost_usd amount \<longleftrightarrow> amount \<ge> 0"

definition MAX_CALL_DEPTH :: nat where
  "MAX_CALL_DEPTH = unat MAX_DEPTH"

datatype call_depth_error = CallTooDeep nat nat nat

text \<open>The saturation of \<^verbatim>\<open>u32\<close> is written out.\<close>

definition sat_add :: "nat \<Rightarrow> nat \<Rightarrow> nat \<Rightarrow> nat" where
  "sat_add w a b = min (a + b) (2 ^ w - 1)"

definition child_call_depth :: "nat \<Rightarrow> (nat, call_depth_error) result" where
  "child_call_depth parent_depth =
     (let attempted = sat_add 32 parent_depth 1
      in if attempted > MAX_CALL_DEPTH then Err (CallTooDeep parent_depth attempted MAX_CALL_DEPTH)
         else Ok attempted)"

definition MAX_DIRECT_CHILD_CALLS :: nat where
  "MAX_DIRECT_CHILD_CALLS = unat MAX_FAN_OUT"

datatype call_fan_out_error = CallTooWide nat nat nat

definition admit_child_call :: "nat \<Rightarrow> (nat, call_fan_out_error) result" where
  "admit_child_call existing =
     (let attempted = sat_add 32 existing 1
      in if attempted > MAX_DIRECT_CHILD_CALLS then Err (CallTooWide existing attempted MAX_DIRECT_CHILD_CALLS)
         else Ok attempted)"

definition draw_f64 :: "rat \<Rightarrow> rat \<Rightarrow> rat" where
  "draw_f64 requested remaining = (if requested \<le> 0 then 0 else if remaining \<le> 0 then 0 else min requested remaining)"

definition refund_f64 :: "rounding \<Rightarrow> rat \<Rightarrow> rat \<Rightarrow> rat" where
  "refund_f64 rnd grant spent = (if spent < 0 then 0 else max (rnd (grant - spent)) 0)"

definition clamp_duration :: "duration \<Rightarrow> duration \<Rightarrow> duration" where
  "clamp_duration requested remaining = min requested remaining"

text \<open>The grant, and what the parent has left.\<close>

definition draw_child_budget :: "rounding \<Rightarrow> resource_caps \<Rightarrow> resource_caps \<Rightarrow> resource_caps \<times> resource_caps" where
  "draw_child_budget rnd parent requested =
     (let grant = \<lparr>run_wall_timeout = clamp_duration (run_wall_timeout requested) (run_wall_timeout parent),
                   run_active_timeout = clamp_duration (run_active_timeout requested) (run_active_timeout parent),
                   step_timeout = clamp_duration (step_timeout requested) (step_timeout parent),
                   max_tokens = min (max_tokens requested) (max_tokens parent),
                   max_cost_usd = draw_f64 (max_cost_usd requested) (max_cost_usd parent),
                   max_tasks = min (max_tasks requested) (max_tasks parent),
                   max_tool_calls = min (max_tool_calls requested) (max_tool_calls parent),
                   max_subagents = min (max_subagents requested) (max_subagents parent),
                   max_bytes_written = min (max_bytes_written requested) (max_bytes_written parent),
                   max_escalations = min (max_escalations requested) (max_escalations parent)\<rparr>
      in (grant,
          parent\<lparr>max_cost_usd := max (rnd (max_cost_usd parent - max_cost_usd grant)) 0,
                 max_tokens := max_tokens parent - max_tokens grant,
                 max_tasks := max_tasks parent - max_tasks grant,
                 max_tool_calls := max_tool_calls parent - max_tool_calls grant,
                 max_subagents := max_subagents parent - max_subagents grant,
                 max_bytes_written := max_bytes_written parent - max_bytes_written grant,
                 max_escalations := max_escalations parent - max_escalations grant\<rparr>))"

definition refund_child_budget :: "rounding \<Rightarrow> resource_caps \<Rightarrow> resource_caps \<Rightarrow> resource_caps \<Rightarrow> resource_caps" where
  "refund_child_budget rnd parent grant spent =
     parent\<lparr>max_cost_usd := max (rnd (max_cost_usd parent + refund_f64 rnd (max_cost_usd grant) (max_cost_usd spent))) 0,
            max_tokens := sat_add 64 (max_tokens parent) (max_tokens grant - max_tokens spent),
            max_tasks := sat_add 32 (max_tasks parent) (max_tasks grant - max_tasks spent),
            max_tool_calls := sat_add 32 (max_tool_calls parent) (max_tool_calls grant - max_tool_calls spent),
            max_subagents := sat_add 32 (max_subagents parent) (max_subagents grant - max_subagents spent),
            max_bytes_written := sat_add 64 (max_bytes_written parent) (max_bytes_written grant - max_bytes_written spent),
            max_escalations := sat_add 32 (max_escalations parent) (max_escalations grant - max_escalations spent)\<rparr>"

subsection \<open>Approvals when nobody is there\<close>

record preapproved_bundle =
  pb_name :: string
  pb_version :: nat
  pb_approved_rule_ids :: "string list"

datatype bundle_error = BundleNameEmpty string | BundleRuleEmpty string string | BundleRuleUntrimmed string string

fun check_rule_ids :: "string \<Rightarrow> string list \<Rightarrow> (unit, bundle_error) result" where
  "check_rule_ids name [] = Ok ()"
| "check_rule_ids name (i # ids) =
     (if trim i = [] then Err (BundleRuleEmpty name i)
      else if trim i \<noteq> i then Err (BundleRuleUntrimmed name i)
      else check_rule_ids name ids)"

definition bundle_try_from :: "preapproved_bundle \<Rightarrow> (preapproved_bundle, bundle_error) result" where
  "bundle_try_from wire =
     (if trim (pb_name wire) = [] then Err (BundleNameEmpty (pb_name wire))
      else res_bind (check_rule_ids (pb_name wire) (pb_approved_rule_ids wire)) (\<lambda>_. Ok wire))"

datatype on_approval_timeout = OatDeny | OatFail

datatype approval_policy =
    ApInteractive | ApDenyAll | ApPreapproved preapproved_bundle | ApNotify string duration on_approval_timeout

datatype approval_outcome = AoBlocked | AoApproved | AoPendingNotify | AoDenied | AoFailed

definition default_for_unattended :: approval_policy where
  "default_for_unattended = ApDenyAll"

fun evaluate_unattended_approval :: "approval_policy \<Rightarrow> string \<Rightarrow> approval_outcome" where
  "evaluate_unattended_approval ApInteractive rule_id = AoBlocked"
| "evaluate_unattended_approval ApDenyAll rule_id = AoBlocked"
| "evaluate_unattended_approval (ApPreapproved bundle) rule_id =
     (if trim rule_id \<noteq> [] \<and> rule_id \<in> set (pb_approved_rule_ids bundle) then AoApproved else AoBlocked)"
| "evaluate_unattended_approval (ApNotify _ _ _) rule_id = AoPendingNotify"

fun resolve_notify_timeout :: "on_approval_timeout \<Rightarrow> approval_outcome" where
  "resolve_notify_timeout OatDeny = AoDenied"
| "resolve_notify_timeout OatFail = AoFailed"

datatype on_timeout = OtDeny | OtFail | OtApprove | OtDefault string

definition strip_prefix :: "string \<Rightarrow> string \<Rightarrow> string option" where
  "strip_prefix p s = (if take (length p) s = p then Some (drop (length p) s) else None)"

definition on_timeout_from :: "string \<Rightarrow> (on_timeout, string) result" where
  "on_timeout_from value =
     (let t = trim value
      in if t = ''deny'' then Ok OtDeny else if t = ''fail'' then Ok OtFail else if t = ''approve'' then Ok OtApprove
         else case strip_prefix ''default('' t of
                None \<Rightarrow> Err value
              | Some rest \<Rightarrow>
                  if rest \<noteq> [] \<and> last rest = CHR '')'' then Ok (OtDefault (butlast rest)) else Err value)"

fun on_timeout_to :: "on_timeout \<Rightarrow> string" where
  "on_timeout_to OtDeny = ''deny''"
| "on_timeout_to OtFail = ''fail''"
| "on_timeout_to OtApprove = ''approve''"
| "on_timeout_to (OtDefault inner) = ''default('' @ inner @ '')''"

datatype run_policy_narrowing = NarrowerThanJobDefault | NotNarrower

fun resolve_on_timeout :: "on_timeout \<Rightarrow> run_policy_narrowing \<Rightarrow> on_timeout" where
  "resolve_on_timeout OtApprove NotNarrower = OtDeny"
| "resolve_on_timeout written _ = written"

datatype human_wait_source = HwGate | HwPermissionEscalate | HwElicitation | HwCrashRecovery

datatype crash_resolution = CrRerun | CrSkip | CrFail

fun crash_resolution_wire :: "crash_resolution \<Rightarrow> string" where
  "crash_resolution_wire CrRerun = ''rerun''"
| "crash_resolution_wire CrSkip = ''skip''"
| "crash_resolution_wire CrFail = ''fail''"

record awaiting_human =
  ah_task_id :: task_id
  ah_source :: human_wait_source
  ah_form_schema :: json
  ah_timeout_after :: "duration option"
  ah_on_timeout :: on_timeout
  ah_item_index :: "nat option"

definition permission_approval_fields :: "(string \<times> json) list" where
  "permission_approval_fields = [(''approve'', JObject [(''type'', JString ''boolean'')])]"

definition crash_recovery_fields :: "(string \<times> json) list" where
  "crash_recovery_fields =
     [(''resolution'', JObject [(''type'', JString ''string''),
        (''enum'', JArray (map (\<lambda>r. JString (crash_resolution_wire r)) [CrRerun, CrSkip, CrFail]))])]"

definition form_schema :: "string \<Rightarrow> (string \<times> json) list \<Rightarrow> json" where
  "form_schema title flds =
     JObject [(''type'', JString ''object''), (''title'', JString title), (''properties'', JObject flds)]"

datatype hitl_error =
    InvalidGateTimeout string duration_parse_error
  | InvalidEscalateDeadline string duration_parse_error
  | ParkRequiresDeadlineAndOnTimeout
  | FormIsNotAnObject string
  | ZeroDeadline string string
  | EmptyGateTitle

fun json_type_name :: "json \<Rightarrow> string" where
  "json_type_name JNull = ''null''"
| "json_type_name (JBool _) = ''boolean''"
| "json_type_name (JNumber _) = ''number''"
| "json_type_name (JString _) = ''string''"
| "json_type_name (JArray _) = ''array''"
| "json_type_name (JObject _) = ''object''"

definition from_gate :: "task_id \<Rightarrow> string \<Rightarrow> json \<Rightarrow> string \<Rightarrow> on_timeout \<Rightarrow> (awaiting_human, hitl_error) result" where
  "from_gate task title form timeout on_timeout =
     (if trim title = [] then Err EmptyGateTitle
      else case parse_duration_str timeout of
             Inl e \<Rightarrow> Err (InvalidGateTimeout timeout e)
           | Inr d \<Rightarrow>
               if d = 0 then Err (ZeroDeadline ''gate.timeout'' timeout)
               else (case form of
                       JObject flds \<Rightarrow>
                         Ok \<lparr>ah_task_id = task, ah_source = HwGate,
                             ah_form_schema = form_schema title (if flds = [] then permission_approval_fields else flds),
                             ah_timeout_after = Some d, ah_on_timeout = on_timeout, ah_item_index = None\<rparr>
                     | _ \<Rightarrow> Err (FormIsNotAnObject (json_type_name form))))"

definition about_map_item :: "awaiting_human \<Rightarrow> nat \<Rightarrow> awaiting_human" where
  "about_map_item a item_index = a\<lparr>ah_item_index := Some item_index\<rparr>"

definition from_escalate :: "task_id \<Rightarrow> string \<Rightarrow> duration \<Rightarrow> on_timeout \<Rightarrow> awaiting_human" where
  "from_escalate task title timeout_after on_timeout =
     \<lparr>ah_task_id = task, ah_source = HwPermissionEscalate,
      ah_form_schema = form_schema title permission_approval_fields,
      ah_timeout_after = Some timeout_after, ah_on_timeout = on_timeout, ah_item_index = None\<rparr>"

text \<open>The printed form of a zero duration in the error is \<^verbatim>\<open>0ns\<close>.\<close>

definition from_crash_recovery :: "task_id \<Rightarrow> string \<Rightarrow> duration \<Rightarrow> on_timeout \<Rightarrow> (awaiting_human, hitl_error) result" where
  "from_crash_recovery task title timeout_after on_timeout =
     (if timeout_after = 0 then Err (ZeroDeadline ''crash_recovery.timeout'' ''0ns'')
      else Ok \<lparr>ah_task_id = task, ah_source = HwCrashRecovery,
               ah_form_schema = form_schema title crash_recovery_fields,
               ah_timeout_after = Some timeout_after, ah_on_timeout = on_timeout, ah_item_index = None\<rparr>)"

datatype unattended_escalate = UePark | UeDenyAndContinue | UeFail

record unattended_def =
  ud_escalate :: unattended_escalate
  ud_deadline :: "string option"
  ud_on_timeout :: "on_timeout option"

datatype escalate = EscPark duration on_timeout | EscDenyAndContinue | EscFail

datatype escalation = EsDecided policy_decision | EsPark awaiting_human | EsFail

definition escalate_apply :: "escalate \<Rightarrow> policy_decision \<Rightarrow> task_id \<Rightarrow> string \<Rightarrow> escalation" where
  "escalate_apply esc decision task title =
     (case decision of
        PAsk \<Rightarrow>
          (case esc of
             EscPark deadline on_timeout \<Rightarrow> EsPark (from_escalate task title deadline on_timeout)
           | EscDenyAndContinue \<Rightarrow> EsDecided PDeny
           | EscFail \<Rightarrow> EsFail)
      | _ \<Rightarrow> EsDecided decision)"

definition escalate_try_from :: "unattended_def \<Rightarrow> (escalate, hitl_error) result" where
  "escalate_try_from d =
     (case ud_escalate d of
        UePark \<Rightarrow>
          (case (ud_deadline d, ud_on_timeout d) of
             (Some deadline, Some on_timeout) \<Rightarrow>
               (case parse_duration_str deadline of
                  Inl e \<Rightarrow> Err (InvalidEscalateDeadline deadline e)
                | Inr parsed \<Rightarrow>
                    if parsed = 0 then Err (ZeroDeadline ''permissions.unattended.deadline'' deadline)
                    else Ok (EscPark parsed on_timeout))
           | _ \<Rightarrow> Err ParkRequiresDeadlineAndOnTimeout)
      | UeDenyAndContinue \<Rightarrow> Ok EscDenyAndContinue
      | UeFail \<Rightarrow> Ok EscFail)"

subsection \<open>Retries are bounded\<close>

lemma round_half_even_le:
  assumes "x \<le> of_nat m"
  shows "round_half_even x \<le> m"
proof (cases "x < 0")
  case True
  then have n: "nat \<lfloor>x\<rfloor> = 0" by simp
  have "x - of_nat 0 < 1 / 2" using True by simp
  then show ?thesis by (simp add: round_half_even_def n Let_def)
next
  case False
  let ?n = "nat \<lfloor>x\<rfloor>"
  have f: "of_nat ?n = (of_int \<lfloor>x\<rfloor> :: rat)" using False by simp
  have "?n \<le> m" using assms False by (metis floor_mono floor_of_nat nat_int nat_mono)
  moreover have "x = of_nat ?n" if "?n = m" using assms that f of_int_floor_le [of x] by (metis order_antisym)
  ultimately consider "?n < m" | "x = of_nat ?n" "?n = m" by linarith
  then show ?thesis
  proof cases
    case 2
    then have "x - of_nat ?n < 1 / 2" by simp
    with 2(2) show ?thesis by (simp add: round_half_even_def Let_def)
  qed (auto simp: round_half_even_def Let_def)
qed

lemma whole_seconds_exact:
  assumes "f64_rounding rnd" "n \<le> 2 ^ 53"
  shows "as_secs_f64 rnd (from_secs n) = of_nat n"
  using assms f64_rounding_nat [OF assms(1), of n] f64_rounding_0 [OF assms(1)]
  by (simp add: as_secs_f64_def from_secs_def)

lemma parse_duration_whole: "parse_duration_str s = Ok d \<Longrightarrow> \<exists>n. d = from_secs n"
  by (auto simp: parse_duration_str_def Let_def split: if_splits option.splits)

lemma resolve_duration_whole: "resolve_duration field raw (from_secs k) = Ok d \<Longrightarrow> \<exists>n. d = from_secs n"
  by (auto simp: resolve_duration_def parse_duration_whole split: option.splits sum.splits duration_parse_error.splits if_splits)

lemma retry_policy_fields:
  assumes "retry_policy_from_def d = Ok p"
  shows "rp_max_attempts p \<le> MAX_ATTEMPTS \<and> 1 \<le> rp_max_attempts p \<and> (\<exists>n. rp_max p = from_secs n) \<and>
         rp_total_budget p = DEFAULT_TOTAL_BUDGET"
  using assms
  by (auto simp: retry_policy_from_def_def MAX_ATTEMPTS_def dest: resolve_duration_whole split: if_splits)

lemma jittered_delay_le:
  assumes "f64_rounding rnd" "n \<le> 2 ^ 53" "0 \<le> x" "x \<le> of_nat n" "0 \<le> j" "j \<le> 1"
  shows "round_half_even (max (rnd (x * j)) 0 * 10 ^ 9) \<le> from_secs n"
proof -
  have "x * j \<le> x * 1" using assms by (intro mult_left_mono) auto
  with assms(4) have "x * j \<le> of_nat n" by linarith
  then have "rnd (x * j) \<le> rnd (of_nat n)" by (rule f64_rounding_mono [OF assms(1)])
  then have "max (rnd (x * j)) 0 \<le> of_nat n" using f64_rounding_nat [OF assms(1,2)] by simp
  then have "max (rnd (x * j)) 0 * 10 ^ 9 \<le> of_nat n * 10 ^ 9" by (intro mult_right_mono) auto
  then have "max (rnd (x * j)) 0 * 10 ^ 9 \<le> (of_nat (from_secs n) :: rat)" by (simp add: from_secs_def)
  then show ?thesis by (rule round_half_even_le)
qed

lemma retry_delay_le:
  assumes rnd: "f64_rounding rnd" and n: "rp_max p = from_secs n" "n \<le> 2 ^ 53"
    and d: "next_retry_delay rnd p attempt elapsed jitter = Some delay"
  shows "delay \<le> rp_max p"
proof -
  define x where "x = min (rnd (as_secs_f64 rnd (rp_base p) * 2 ^ min (attempt - 1) 64)) (as_secs_f64 rnd (rp_max p))"
  define js where "js = (case jitter of None \<Rightarrow> 0 | Some j \<Rightarrow> max (rnd (x * min (max j 0) 1)) 0)"
  have "0 \<le> rnd (as_secs_f64 rnd (rp_base p) * 2 ^ min (attempt - 1) 64)"
    by (intro f64_rounding_nonneg [OF rnd] mult_nonneg_nonneg as_secs_f64_nonneg [OF rnd]) simp
  then have x: "0 \<le> x" "x \<le> of_nat n" using whole_seconds_exact [OF rnd n(2)] n(1) by (simp_all add: x_def)
  have js: "round_half_even (js * 10 ^ 9) \<le> from_secs n"
  proof (cases jitter)
    case None
    then show ?thesis using round_half_even_le [of 0 "from_secs n"] by (simp add: js_def)
  next
    case (Some j)
    then show ?thesis using jittered_delay_le [OF rnd n(2) x, of "min (max j 0) 1"] by (simp add: js_def)
  qed
  have "delay = (case try_from_secs_f64 js of None \<Rightarrow> rp_max p | Some d \<Rightarrow> d)"
    using d unfolding js_def x_def by (simp add: next_retry_delay_def Let_def del: One_nat_def split: if_splits)
  then show ?thesis using js n(1) by (auto simp: try_from_secs_f64_def Let_def)
qed

text \<open>
  Retries are bounded.  Under a retry policy that the parser accepts (and whose longest delay
  is below \<open>2 ^ 53\<close> seconds, so that it is exact as a float), a further attempt is granted only before
  the twentieth, its delay is never longer than the policy's maximum whatever the jitter is, and the
  time already spent together with the delay stays within an hour.
\<close>

theorem retry_is_bounded:
  assumes "f64_rounding rnd" "retry_policy_from_def d = Ok p" "rp_max p \<le> from_secs (2 ^ 53)"
    and "next_retry_delay rnd p attempt elapsed jitter = Some delay"
  shows "attempt < rp_max_attempts p \<and> rp_max_attempts p \<le> 20 \<and> delay \<le> rp_max p \<and>
         elapsed + delay \<le> from_secs 3600"
proof -
  obtain n where n: "rp_max p = from_secs n" using retry_policy_fields [OF assms(2)] by blast
  then have "n \<le> 2 ^ 53" using assms(3) by (simp add: from_secs_def)
  from retry_delay_le [OF assms(1) n this assms(4)] have "delay \<le> rp_max p" .
  moreover have "attempt < rp_max_attempts p" "elapsed + delay \<le> from_secs 3600"
    using assms(4) retry_policy_fields [OF assms(2)]
    by (auto simp: next_retry_delay_def Let_def DEFAULT_TOTAL_BUDGET_def from_secs_def DURATION_MAX_def min_def split: if_splits)
  ultimately show ?thesis using retry_policy_fields [OF assms(2)] by (simp add: MAX_ATTEMPTS_def)
qed

theorem retry_is_bounded_witness:
  "\<exists>p. retry_policy_from_def \<lparr>rd_attempts = 3, rd_backoff = None, rd_base = Some ''10s'', rd_max = Some ''5m'', rd_on = []\<rparr> = Ok p \<and>
     next_retry_delay (\<lambda>x. x) p 2 0 (Some 1) = Some (from_secs 20) \<and> from_secs 20 \<le> rp_max p"
proof -
  let ?p = "\<lparr>rp_max_attempts = 3, rp_base = from_secs 10, rp_max = from_secs 300, rp_total_budget = from_secs 3600\<rparr>"
  have p: "retry_policy_from_def \<lparr>rd_attempts = 3, rd_backoff = None, rd_base = Some ''10s'', rd_max = Some ''5m'', rd_on = []\<rparr> = Ok ?p"
    by (simp add: retry_policy_from_def_def MAX_ATTEMPTS_def resolve_duration_def parse_duration_str_def
        is_ascii_digit_def byte_def digits_value_def unit_multiplier_def from_secs_def DEFAULT_TOTAL_BUDGET_def)
  have d: "next_retry_delay (\<lambda>x. x) ?p 2 0 (Some 1) = Some (from_secs 20)"
    by (simp add: next_retry_delay_def as_secs_f64_def from_secs_def try_from_secs_f64_def round_half_even_def
        DURATION_MAX_def Let_def)
  have "rp_max ?p \<le> from_secs (2 ^ 53)" by (simp add: from_secs_def)
  from retry_is_bounded [OF f64_rounding_id p this d] p d show ?thesis by blast
qed

subsection \<open>Budgets are conserved\<close>

datatype cap_dim = DTokens | DTasks | DToolCalls | DSubagents | DBytes | DEscalations

fun cap_of :: "cap_dim \<Rightarrow> resource_caps \<Rightarrow> nat" where
  "cap_of DTokens c = max_tokens c"
| "cap_of DTasks c = max_tasks c"
| "cap_of DToolCalls c = max_tool_calls c"
| "cap_of DSubagents c = max_subagents c"
| "cap_of DBytes c = max_bytes_written c"
| "cap_of DEscalations c = max_escalations c"

fun width :: "cap_dim \<Rightarrow> nat" where
  "width DTokens = 64"
| "width DBytes = 64"
| "width _ = 32"

lemma cap_of_grant: "cap_of d (fst (draw_child_budget rnd parent requested)) = min (cap_of d requested) (cap_of d parent)"
  by (cases d) (simp_all add: draw_child_budget_def Let_def)

lemma cap_of_left:
  "cap_of d (snd (draw_child_budget rnd parent requested)) = cap_of d parent - min (cap_of d requested) (cap_of d parent)"
  by (cases d) (simp_all add: draw_child_budget_def Let_def)

lemma cap_of_draw:
  "draw_child_budget rnd parent requested = (grant, parent') \<Longrightarrow> cap_of d parent' + cap_of d grant = cap_of d parent"
  using cap_of_grant [of d rnd parent requested] cap_of_left [of d rnd parent requested] by simp

lemma cap_of_refund:
  "cap_of d (refund_child_budget rnd parent grant spent) = sat_add (width d) (cap_of d parent) (cap_of d grant - cap_of d spent)"
  by (cases d) (auto simp: refund_child_budget_def)

text \<open>
  A parent's ledger: what is left, the grants that are out, and what has been charged for good.  A
  grant can be given back once, as the code's \<^verbatim>\<open>ChildBudget\<close> is moved into the refund.
\<close>

datatype budget_op = Draw resource_caps | Refund nat resource_caps

fun budget_step :: "rounding \<Rightarrow> resource_caps \<times> resource_caps list \<times> (cap_dim \<Rightarrow> nat) \<Rightarrow> budget_op
    \<Rightarrow> resource_caps \<times> resource_caps list \<times> (cap_dim \<Rightarrow> nat)" where
  "budget_step rnd (left, out, charged) (Draw requested) =
     (let (grant, left) = draw_child_budget rnd left requested in (left, out @ [grant], charged))"
| "budget_step rnd (left, out, charged) (Refund i spent) =
     (if i < length out
      then (refund_child_budget rnd left (out ! i) spent, take i out @ drop (Suc i) out,
            \<lambda>d. charged d + min (cap_of d spent) (cap_of d (out ! i)))
      else (left, out, charged))"

definition conserved :: "resource_caps \<Rightarrow> resource_caps \<times> resource_caps list \<times> (cap_dim \<Rightarrow> nat) \<Rightarrow> bool" where
  "conserved initial st = (case st of (left, out, charged) \<Rightarrow>
     \<forall>d. cap_of d left + sum_list (map (cap_of d) out) + charged d = cap_of d initial)"

lemma sum_list_remove_nth:
  fixes f :: "'a \<Rightarrow> nat"
  shows "i < length xs \<Longrightarrow> sum_list (map f (take i xs @ drop (Suc i) xs)) + f (xs ! i) = sum_list (map f xs)"
proof -
  assume "i < length xs"
  then have "xs = take i xs @ xs ! i # drop (Suc i) xs" by (rule id_take_nth_drop)
  then have "sum_list (map f xs) = sum_list (map f (take i xs @ xs ! i # drop (Suc i) xs))" by metis
  then show ?thesis by simp
qed

lemma budget_step_conserved:
  assumes "conserved initial st" "\<And>d. cap_of d initial < 2 ^ width d"
  shows "conserved initial (budget_step rnd st op)"
proof -
  obtain left out charged where st: "st = (left, out, charged)" by (cases st)
  have inv: "cap_of d left + sum_list (map (cap_of d) out) + charged d = cap_of d initial" for d
    using assms(1) by (simp add: conserved_def st)
  show ?thesis
  proof (cases op)
    case (Draw requested)
    obtain grant left' where g: "draw_child_budget rnd left requested = (grant, left')" by fastforce
    have "cap_of d left' + (sum_list (map (cap_of d) out) + cap_of d grant) + charged d = cap_of d initial" for d
      using inv [of d] cap_of_draw [OF g, of d] by simp
    then show ?thesis by (simp add: st Draw g conserved_def)
  next
    case (Refund i spent)
    show ?thesis
    proof (cases "i < length out")
      case True
      have "cap_of d (refund_child_budget rnd left (out ! i) spent) + sum_list (map (cap_of d) (take i out @ drop (Suc i) out)) +
          (charged d + min (cap_of d spent) (cap_of d (out ! i))) = cap_of d initial" for d
        using inv [of d] sum_list_remove_nth [OF True, of "cap_of d"] assms(2) [of d]
        by (auto simp: cap_of_refund sat_add_def min_def)
      then show ?thesis using True by (simp add: st Refund conserved_def)
    next
      case False
      then show ?thesis using assms(1) by (simp add: st Refund)
    qed
  qed
qed

text \<open>
  Budgets are conserved.  Let a run with given caps grant budgets to child runs and take them
  back with whatever the children report as spent, in any order.  For every counted resource
  (tokens, tasks, tool calls, sub-agents, bytes, escalations) what is left, what is out in grants
  and what has been charged always add up to the caps the run began with: children cannot spend more
  than their parent had, refunds create nothing, and no saturating addition ever saturates.
\<close>

theorem budgets_are_conserved:
  assumes "\<And>d. cap_of d initial < 2 ^ width d"
    and "foldl (budget_step rnd) (initial, [], \<lambda>_. 0) ops = (left, out, charged)"
  shows "cap_of d left + sum_list (map (cap_of d) out) + charged d = cap_of d initial"
proof -
  have "conserved initial (foldl (budget_step rnd) st ops)" if "conserved initial st" for st
    using that
  proof (induction ops arbitrary: st)
    case (Cons op ops)
    show ?case using Cons.IH [OF budget_step_conserved [OF Cons.prems assms(1)]] by simp
  qed simp
  from this [of "(initial, [], \<lambda>_. 0)"] assms(2) show ?thesis by (simp add: conserved_def)
qed

theorem budgets_are_conserved_witness:
  "\<exists>left out charged. foldl (budget_step (\<lambda>x. x)) (resource_caps_default, [], \<lambda>_. 0)
       [Draw (resource_caps_default\<lparr>max_tokens := 500\<rparr>), Refund 0 (resource_caps_default\<lparr>max_tokens := 200\<rparr>)] = (left, out, charged) \<and>
     cap_of DTokens left + sum_list (map (cap_of DTokens) out) + charged DTokens = 2000000"
proof -
  let ?ops = "[Draw (resource_caps_default\<lparr>max_tokens := 500\<rparr>), Refund 0 (resource_caps_default\<lparr>max_tokens := 200\<rparr>)]"
  obtain left out charged where r: "foldl (budget_step (\<lambda>x. x)) (resource_caps_default, [], \<lambda>_. 0) ?ops = (left, out, charged)"
    by (metis prod_cases3)
  have "cap_of d resource_caps_default < 2 ^ width d" for d
    by (cases d) (simp_all add: resource_caps_default_def)
  from budgets_are_conserved [OF this r, of DTokens]
  have "cap_of DTokens left + sum_list (map (cap_of DTokens) out) + charged DTokens = 2000000"
    by (simp add: resource_caps_default_def)
  with r show ?thesis by blast
qed

subsection \<open>When nobody answers\<close>

lemma trim_keeps:
  assumes "strip_one utf8_whitespace s = None" "strip_one (map rev utf8_whitespace) (rev s) = None"
  shows "trim s = s"
  using trim_with_rev(1) [OF assms(1)] trim_with_rev(1) [OF assms(2)] by (simp add: trim_def)

lemma trim_keeps_on_timeout: "trim (on_timeout_to x) = on_timeout_to x"
  by (rule trim_keeps; cases x) (simp_all add: strip_one_def utf8_whitespace_def)

text \<open>
  What a workflow does when a human does not answer survives being written out and read back,
  whatever text a \<^verbatim>\<open>default(\<dots>)\<close> holds.
\<close>

theorem on_timeout_roundtrip: "on_timeout_from (on_timeout_to x) = Ok x"
proof (cases x)
  case (OtDefault inner)
  then show ?thesis using trim_keeps_on_timeout [of x] by (simp add: on_timeout_from_def strip_prefix_def Let_def)
qed (use trim_keeps_on_timeout [of x] in \<open>simp_all add: on_timeout_from_def Let_def\<close>)

text \<open>
  Nobody's silence is consent.  Escalating an open question never turns it into a permission,
  and leaves settled decisions alone; a question that parks always has a deadline that is not zero;
  an unattended approval is given only for a rule that a pre-approved bundle lists; and when a wait
  times out, \<^verbatim>\<open>approve\<close> is honoured only under a policy narrower than the job's default.
\<close>

theorem silence_is_not_consent:
  "(escalate_apply esc decision task title = EsDecided PAllow \<longleftrightarrow> decision = PAllow) \<and>
   (escalate_apply esc decision task title = EsPark wait \<longrightarrow> escalate_try_from ud = Ok esc \<longrightarrow>
      (\<exists>n > 0. ah_timeout_after wait = Some n) \<and> decision = PAsk) \<and>
   (evaluate_unattended_approval ap rule_id = AoApproved \<longleftrightarrow>
      (\<exists>b. ap = ApPreapproved b \<and> rule_id \<in> set (pb_approved_rule_ids b) \<and> trim rule_id \<noteq> [])) \<and>
   (resolve_on_timeout written nw = OtApprove \<longleftrightarrow> written = OtApprove \<and> nw = NarrowerThanJobDefault)"
proof (intro conjI impI)
  show "escalate_apply esc decision task title = EsDecided PAllow \<longleftrightarrow> decision = PAllow"
    by (auto simp: escalate_apply_def split: policy_decision.splits escalate.splits)
next
  assume "escalate_apply esc decision task title = EsPark wait" "escalate_try_from ud = Ok esc"
  then show "\<exists>n > 0. ah_timeout_after wait = Some n" "decision = PAsk"
    by (auto simp: escalate_apply_def escalate_try_from_def from_escalate_def
        split: policy_decision.splits escalate.splits unattended_escalate.splits option.splits sum.splits if_splits)
next
  show "evaluate_unattended_approval ap rule_id = AoApproved \<longleftrightarrow>
      (\<exists>b. ap = ApPreapproved b \<and> rule_id \<in> set (pb_approved_rule_ids b) \<and> trim rule_id \<noteq> [])"
    by (cases ap) auto
  show "resolve_on_timeout written nw = OtApprove \<longleftrightarrow> written = OtApprove \<and> nw = NarrowerThanJobDefault"
    by (cases written; cases nw) auto
qed

theorem silence_is_not_consent_witness:
  "escalate_try_from \<lparr>ud_escalate = UePark, ud_deadline = Some ''4h'', ud_on_timeout = Some OtDeny\<rparr> = Ok (EscPark (from_secs 14400) OtDeny) \<and>
   (\<exists>wait. escalate_apply (EscPark (from_secs 14400) OtDeny) PAsk 7 ''push'' = EsPark wait \<and> (\<exists>n > 0. ah_timeout_after wait = Some n))"
proof -
  have t: "escalate_try_from \<lparr>ud_escalate = UePark, ud_deadline = Some ''4h'', ud_on_timeout = Some OtDeny\<rparr> = Ok (EscPark (from_secs 14400) OtDeny)"
    by (simp add: escalate_try_from_def parse_duration_str_def is_ascii_digit_def byte_def digits_value_def unit_multiplier_def from_secs_def)
  obtain wait where w: "escalate_apply (EscPark (from_secs 14400) OtDeny) PAsk 7 ''push'' = EsPark wait"
    by (simp add: escalate_apply_def)
  from silence_is_not_consent [THEN conjunct2, THEN conjunct1, rule_format, OF w t] w t show ?thesis by blast
qed

end
