(* ===== verification/Flow_Ledger.thy ===== *)
theory Flow_Ledger
  imports Flow_Limits
begin

text \<open>
  \<^verbatim>\<open>roundhouse-flow/src/ledger.rs\<close> on the tables of the store's migrations 7, 8, 11 and 12, with the run
  states of \<^verbatim>\<open>durability.rs\<close>: what a run has spent of its grant, what a child run draws from its
  parent and gives back, and the tree of runs as an abstract ledger that this implements.  A row
  holds the column values; ids, JSON blocks and blob references are texts, whose printers and
  parsers are the fields of the \<open>flow_codec\<close> argument.  A statement may fail (\<open>fault\<close>); a function
  that works inside a transaction returns the tables only when it succeeds, as the transaction is
  rolled back otherwise.  Instants and \<^verbatim>\<open>i64\<close> columns are integers, kept in range by the saturation
  the code writes.
\<close>

subsection \<open>States and errors\<close>

type_synonym run_id = nat

datatype run_state = RsRunning | RsPaused | RsCancelling | RsAwaitingHuman | RsCompleted | RsFailed | RsCancelled

definition run_is_terminal :: "run_state \<Rightarrow> bool" where
  "run_is_terminal s \<longleftrightarrow> s = RsCompleted \<or> s = RsFailed \<or> s = RsCancelled"

fun run_state_sql :: "run_state \<Rightarrow> string" where
  "run_state_sql RsRunning = ''running''"
| "run_state_sql RsPaused = ''paused''"
| "run_state_sql RsCancelling = ''cancelling''"
| "run_state_sql RsAwaitingHuman = ''awaiting_human''"
| "run_state_sql RsCompleted = ''completed''"
| "run_state_sql RsFailed = ''failed''"
| "run_state_sql RsCancelled = ''cancelled''"

text \<open>
  The two error enums hold each other: a refused draw of a child carries the ledger's error, which
  may itself be a durability error.  The first is declared over the type of that payload.
\<close>

datatype 'l durability_error_of =
    DSqlite
  | DRunNotFound run_id
  | UnrecognizedDiscriminant string string
  | DMalformedId string
  | MalformedStoredOutput
  | MalformedStoredCaps run_id
  | SessionDepthOutOfRange int
  | SeqOutOfRange nat
  | IllegalTransition run_id run_state run_state
  | RunSessionMismatch run_id
  | ItemIndexOutOfRange int
  | TerminalStateEndedAtMismatch run_id run_state bool bool
  | DUnusableCostAmount run_id rat
  | ChildDrawRefused run_id 'l

datatype ledger_error =
    LSqlite
  | LDurability "ledger_error durability_error_of"
  | LRunNotFound run_id
  | CapsNotRecorded run_id
  | SessionDepthNotRecorded run_id
  | LCallDepth call_depth_error
  | LCallFanOut call_fan_out_error
  | CapsExceeded run_id string
  | NotAdmitting run_id run_state
  | LUnusableCostAmount run_id rat
  | NotAChildRun run_id
  | ChildNotFinished run_id run_state
  | AlreadyRefunded run_id int
  | DrawNotRecorded run_id
  | AlreadyDrawn run_id int
  | AlreadySettled run_id int
  | ValueOutOfRange string nat

type_synonym durability_error = "ledger_error durability_error_of"

definition run_state_from_sql :: "string \<Rightarrow> (run_state, durability_error) result" where
  "run_state_from_sql s =
     (if s = ''running'' then Ok RsRunning
      else if s = ''paused'' then Ok RsPaused
      else if s = ''cancelling'' then Ok RsCancelling
      else if s = ''awaiting_human'' then Ok RsAwaitingHuman
      else if s = ''completed'' then Ok RsCompleted
      else if s = ''failed'' then Ok RsFailed
      else if s = ''cancelled'' then Ok RsCancelled
      else Err (UnrecognizedDiscriminant ''workflow_run.state'' s))"

subsection \<open>Tables\<close>

record spend_columns =
  sc_tokens :: int
  sc_cost_usd :: rat
  sc_tasks :: int
  sc_tool_calls :: int
  sc_subagents :: int
  sc_bytes_written :: int
  sc_escalations :: int

record run_row =
  rr_id :: string
  rr_job_id :: string
  rr_job_version :: nat
  rr_content_hash :: string
  rr_session_id :: string
  rr_binding_id :: "string option"
  rr_trigger_event_id :: "int option"
  rr_state :: string
  rr_parent_run_id :: "string option"
  rr_forked_from_run_id :: "string option"
  rr_awaiting_until :: "int option"
  rr_checkpoint_ref :: "string option"
  rr_checkpoint_blob_ref :: "string option"
  rr_started_at :: int
  rr_ended_at :: "int option"
  rr_session_depth :: "int option"
  rr_caps_json :: "string option"
  rr_parked_at :: "int option"
  rr_hold_until :: "int option"
  rr_parked_nanos :: int
  rr_spent :: spend_columns
  rr_drawn_at :: "int option"
  rr_refunded_at :: "int option"

record step_row =
  sr_run_id :: string
  sr_step_id :: string
  sr_attempt :: nat
  sr_item_index :: int
  sr_disposition :: string
  sr_state :: string
  sr_first_task_seq :: "int option"
  sr_last_task_seq :: "int option"
  sr_output :: "string option"
  sr_output_is_secret_derived :: bool
  sr_error :: "string option"

record call_row =
  cr_child_run_id :: string
  cr_parent_run_id :: string
  cr_parent_step_id :: string
  cr_parent_attempt :: nat
  cr_parent_item_index :: int
  cr_parent_task_id :: string
  cr_join_state :: string
  cr_terminal_task_seq :: "int option"
  cr_joined_at :: "int option"
  cr_continuation_state :: string
  cr_claim_token :: "string option"
  cr_completed_at :: "int option"

text \<open>Of the table of blobs only the reference count of each hash matters here.\<close>

record flow_db =
  fd_runs :: "run_row list"
  fd_steps :: "step_row list"
  fd_calls :: "call_row list"
  fd_blobs :: "string \<rightharpoonup> int"

definition flow_db_new :: flow_db where
  "flow_db_new = \<lparr>fd_runs = [], fd_steps = [], fd_calls = [], fd_blobs = Map.empty\<rparr>"

record flow_codec =
  fc_uuid_str :: "nat \<Rightarrow> string"
  fc_uuid_parse :: "string \<Rightarrow> nat option"
  fc_caps_str :: "resource_caps \<Rightarrow> string"
  fc_caps_parse :: "string \<Rightarrow> resource_caps option"
  fc_blob_str :: "blob_ref \<Rightarrow> string"
  fc_blob_parse :: "string \<Rightarrow> blob_ref option"
  fc_json_str :: "json \<Rightarrow> string"
  fc_json_parse :: "string \<Rightarrow> json option"

datatype flow_stmt =
    FsBegin | FsSelectRun | FsInsertRun | FsUpdateRun | FsSelectSteps | FsWriteStep
  | FsInsertCall | FsSelectCall | FsUpdateCall | FsUpdateBlob | FsCommit

type_synonym flow_faults = "flow_stmt \<Rightarrow> bool"

text \<open>
  A transaction: what the body wrote is kept only if the body and the commit succeed.  The first
  argument is the error that a failing statement turns into.
\<close>

definition run_txn :: "'e \<Rightarrow> flow_faults \<Rightarrow> (flow_db \<Rightarrow> ('a \<times> flow_db, 'e) result) \<Rightarrow> flow_db \<Rightarrow> ('a, 'e) result \<times> flow_db" where
  "run_txn sq fault body db =
     (if fault FsBegin then (Err sq, db)
      else case body db of
             Inl e \<Rightarrow> (Err e, db)
           | Inr (a, db') \<Rightarrow> if fault FsCommit then (Err sq, db) else (Ok a, db'))"

definition nonneg_opt :: "int option \<Rightarrow> bool" where
  "nonneg_opt x = (case x of None \<Rightarrow> True | Some i \<Rightarrow> 0 \<le> i)"

text \<open>The \<^verbatim>\<open>CHECK\<close> constraints of the table.\<close>

definition run_row_check :: "run_row \<Rightarrow> bool" where
  "run_row_check r \<longleftrightarrow>
     is_ok (run_state_from_sql (rr_state r)) \<and>
     nonneg_opt (rr_parked_at r) \<and> nonneg_opt (rr_hold_until r) \<and> 0 \<le> rr_parked_nanos r \<and>
     (case rr_session_depth r of None \<Rightarrow> True | Some d \<Rightarrow> 0 \<le> d \<and> d < 2 ^ 32) \<and>
     0 \<le> sc_tokens (rr_spent r) \<and> 0 \<le> sc_cost_usd (rr_spent r) \<and> 0 \<le> sc_tasks (rr_spent r) \<and>
     0 \<le> sc_tool_calls (rr_spent r) \<and> 0 \<le> sc_subagents (rr_spent r) \<and>
     0 \<le> sc_bytes_written (rr_spent r) \<and> 0 \<le> sc_escalations (rr_spent r) \<and>
     nonneg_opt (rr_drawn_at r) \<and> nonneg_opt (rr_refunded_at r)"

definition find_run :: "string \<Rightarrow> flow_db \<Rightarrow> run_row option" where
  "find_run k db = List.find (\<lambda>r. rr_id r = k) (fd_runs db)"

definition map_run :: "string \<Rightarrow> (run_row \<Rightarrow> run_row) \<Rightarrow> flow_db \<Rightarrow> flow_db" where
  "map_run k f db = db\<lparr>fd_runs := map (\<lambda>r. if rr_id r = k then f r else r) (fd_runs db)\<rparr>"

text \<open>\<^verbatim>\<open>UPDATE workflow_run SET \<dots> WHERE id = k\<close>.\<close>

definition update_run :: "'e \<Rightarrow> flow_faults \<Rightarrow> string \<Rightarrow> (run_row \<Rightarrow> run_row) \<Rightarrow> flow_db \<Rightarrow> (flow_db, 'e) result" where
  "update_run sq fault k f db =
     (if fault FsUpdateRun \<or> list_ex (\<lambda>r. rr_id r = k \<and> \<not> run_row_check (f r)) (fd_runs db) then Err sq
      else Ok (map_run k f db))"

subsection \<open>Reading a run's ledger\<close>

record spend =
  sp_tokens :: nat
  sp_cost_usd :: rat
  sp_tasks :: nat
  sp_tool_calls :: nat
  sp_subagents :: nat
  sp_bytes_written :: nat
  sp_escalations :: nat

definition spend_for_grant :: "resource_caps \<Rightarrow> spend" where
  "spend_for_grant caps =
     \<lparr>sp_tokens = max_tokens caps, sp_cost_usd = max_cost_usd caps, sp_tasks = max_tasks caps,
      sp_tool_calls = max_tool_calls caps, sp_subagents = max_subagents caps,
      sp_bytes_written = max_bytes_written caps, sp_escalations = max_escalations caps\<rparr>"

record run_ledger =
  lg_run_id :: run_id
  lg_state :: run_state
  lg_parent_run_id :: "run_id option"
  lg_started_at :: int
  lg_ended_at :: "int option"
  lg_parked_at :: "int option"
  lg_hold_until :: "int option"
  lg_parked_nanos :: nat
  lg_session_depth :: "nat option"
  lg_caps :: "resource_caps option"
  lg_spent :: spend
  lg_drawn_at :: "int option"
  lg_refunded_at :: "int option"

definition nonneg :: "int \<Rightarrow> nat" where
  "nonneg stored = nat stored"

definition nonneg_u32 :: "int \<Rightarrow> nat" where
  "nonneg_u32 stored = (if 0 \<le> stored \<and> stored < 2 ^ 32 then nat stored else if stored > 0 then 2 ^ 32 - 1 else 0)"

definition spend_of_columns :: "spend_columns \<Rightarrow> spend" where
  "spend_of_columns s =
     \<lparr>sp_tokens = nonneg (sc_tokens s), sp_cost_usd = sc_cost_usd s, sp_tasks = nonneg_u32 (sc_tasks s),
      sp_tool_calls = nonneg_u32 (sc_tool_calls s), sp_subagents = nonneg_u32 (sc_subagents s),
      sp_bytes_written = nonneg (sc_bytes_written s), sp_escalations = nonneg_u32 (sc_escalations s)\<rparr>"

definition parse_opt :: "('a \<Rightarrow> 'b option) \<Rightarrow> 'e \<Rightarrow> 'a option \<Rightarrow> ('b option, 'e) result" where
  "parse_opt p e x = (case x of None \<Rightarrow> Ok None | Some a \<Rightarrow> (case p a of None \<Rightarrow> Err e | Some b \<Rightarrow> Ok (Some b)))"

definition session_depth_from_sql :: "int option \<Rightarrow> (nat option, durability_error) result" where
  "session_depth_from_sql stored =
     (case stored of
        None \<Rightarrow> Ok None
      | Some d \<Rightarrow> if 0 \<le> d \<and> d < 2 ^ 32 then Ok (Some (nat d)) else Err (SessionDepthOutOfRange d))"

definition ledger_from_row :: "flow_codec \<Rightarrow> run_row \<Rightarrow> (run_ledger, durability_error) result" where
  "ledger_from_row cd raw =
     res_bind (ok_or (DMalformedId ''workflow_run.id'') (fc_uuid_parse cd (rr_id raw))) (\<lambda>run_id.
     res_bind (parse_opt (fc_uuid_parse cd) (DMalformedId ''workflow_run.parent_run_id'') (rr_parent_run_id raw)) (\<lambda>parent.
     res_bind (parse_opt (fc_caps_parse cd) (MalformedStoredCaps run_id) (rr_caps_json raw)) (\<lambda>caps.
     res_bind (session_depth_from_sql (rr_session_depth raw)) (\<lambda>depth.
     res_bind (run_state_from_sql (rr_state raw)) (\<lambda>st.
       Ok \<lparr>lg_run_id = run_id, lg_state = st, lg_parent_run_id = parent, lg_started_at = rr_started_at raw,
           lg_ended_at = rr_ended_at raw, lg_parked_at = rr_parked_at raw, lg_hold_until = rr_hold_until raw,
           lg_parked_nanos = nonneg (rr_parked_nanos raw), lg_session_depth = depth, lg_caps = caps,
           lg_spent = spend_of_columns (rr_spent raw), lg_drawn_at = rr_drawn_at raw,
           lg_refunded_at = rr_refunded_at raw\<rparr>)))))"

text \<open>An error of the durability layer is wrapped, as \<^verbatim>\<open>From<DurabilityError>\<close> does.\<close>

definition wrap_err :: "('e \<Rightarrow> 'f) \<Rightarrow> ('a, 'e) result \<Rightarrow> ('a, 'f) result" where
  "wrap_err g r = (case r of Inl e \<Rightarrow> Err (g e) | Inr a \<Rightarrow> Ok a)"

definition read_ledger :: "flow_codec \<Rightarrow> flow_faults \<Rightarrow> flow_db \<Rightarrow> run_id \<Rightarrow> (run_ledger, ledger_error) result" where
  "read_ledger cd fault db run_id =
     (if fault FsSelectRun then Err LSqlite
      else case find_run (fc_uuid_str cd run_id) db of
             None \<Rightarrow> Err (LRunNotFound run_id)
           | Some raw \<Rightarrow> wrap_err LDurability (ledger_from_row cd raw))"

text \<open>Subtraction and addition of \<^verbatim>\<open>i64\<close> saturate.\<close>

definition sat_i64 :: "int \<Rightarrow> int" where
  "sat_i64 x = max (- (2 ^ 63)) (min x (2 ^ 63 - 1))"

definition end_of :: "run_ledger \<Rightarrow> int \<Rightarrow> int" where
  "end_of l now = (case lg_ended_at l of None \<Rightarrow> now | Some t \<Rightarrow> t)"

definition wall_elapsed :: "run_ledger \<Rightarrow> int \<Rightarrow> duration" where
  "wall_elapsed l now = nonneg (sat_i64 (end_of l now - lg_started_at l))"

definition active_elapsed :: "run_ledger \<Rightarrow> int \<Rightarrow> duration" where
  "active_elapsed l now =
     (let in_progress = (case lg_parked_at l of None \<Rightarrow> 0 | Some start \<Rightarrow> nonneg (sat_i64 (end_of l now - start)));
          parked = sat_add 64 (lg_parked_nanos l) in_progress
      in nonneg (sat_i64 (end_of l now - lg_started_at l)) - parked)"

definition remaining_from_ledger :: "rounding \<Rightarrow> run_ledger \<Rightarrow> int \<Rightarrow> (resource_caps, ledger_error) result" where
  "remaining_from_ledger rnd l now =
     (case lg_caps l of
        None \<Rightarrow> Err (CapsNotRecorded (lg_run_id l))
      | Some caps \<Rightarrow>
          Ok \<lparr>run_wall_timeout = run_wall_timeout caps - wall_elapsed l now,
              run_active_timeout = run_active_timeout caps - active_elapsed l now,
              step_timeout = step_timeout caps,
              max_tokens = max_tokens caps - sp_tokens (lg_spent l),
              max_cost_usd = max (rnd (max_cost_usd caps - sp_cost_usd (lg_spent l))) 0,
              max_tasks = max_tasks caps - sp_tasks (lg_spent l),
              max_tool_calls = max_tool_calls caps - sp_tool_calls (lg_spent l),
              max_subagents = max_subagents caps - sp_subagents (lg_spent l),
              max_bytes_written = max_bytes_written caps - sp_bytes_written (lg_spent l),
              max_escalations = max_escalations caps - sp_escalations (lg_spent l)\<rparr>)"

definition remaining_caps :: "rounding \<Rightarrow> flow_codec \<Rightarrow> flow_faults \<Rightarrow> flow_db \<Rightarrow> run_id \<Rightarrow> int \<Rightarrow> (resource_caps, ledger_error) result" where
  "remaining_caps rnd cd fault db run_id now =
     res_bind (read_ledger cd fault db run_id) (\<lambda>l. remaining_from_ledger rnd l now)"

subsection \<open>Admitting a spend\<close>

datatype admission = Ordinary | FinallyBlock

definition ensure_admitting :: "run_ledger \<Rightarrow> admission \<Rightarrow> (unit, ledger_error) result" where
  "ensure_admitting l admission =
     (if (case lg_state l of
            RsRunning \<Rightarrow> True
          | RsCancelling \<Rightarrow> admission = FinallyBlock
          | _ \<Rightarrow> False)
      then Ok () else Err (NotAdmitting (lg_run_id l) (lg_state l)))"

text \<open>The width of the counter is the first argument.\<close>

definition checked_total :: "nat \<Rightarrow> nat \<Rightarrow> nat \<Rightarrow> nat \<Rightarrow> string \<Rightarrow> run_id \<Rightarrow> (nat, ledger_error) result" where
  "checked_total w spent requested limit field run_id =
     (if sat_add w spent requested > limit then Err (CapsExceeded run_id field)
      else Ok (sat_add w spent requested))"

definition u64_to_sql :: "nat \<Rightarrow> string \<Rightarrow> (int, ledger_error) result" where
  "u64_to_sql v column = (if v < 2 ^ 63 then Ok (int v) else Err (ValueOutOfRange column v))"

definition write_spend :: "flow_codec \<Rightarrow> flow_faults \<Rightarrow> run_id \<Rightarrow> spend \<Rightarrow> flow_db \<Rightarrow> (flow_db, ledger_error) result" where
  "write_spend cd fault run_id s db =
     res_bind (u64_to_sql (sp_tokens s) ''spent_tokens'') (\<lambda>tokens.
     res_bind (u64_to_sql (sp_bytes_written s) ''spent_bytes_written'') (\<lambda>bytes.
       update_run LSqlite fault (fc_uuid_str cd run_id)
         (\<lambda>r. r\<lparr>rr_spent := \<lparr>sc_tokens = tokens, sc_cost_usd = sp_cost_usd s, sc_tasks = int (sp_tasks s),
                             sc_tool_calls = int (sp_tool_calls s), sc_subagents = int (sp_subagents s),
                             sc_bytes_written = bytes, sc_escalations = int (sp_escalations s)\<rparr>\<rparr>) db))"

definition new_total :: "rounding \<Rightarrow> run_ledger \<Rightarrow> resource_caps \<Rightarrow> spend \<Rightarrow> (spend, ledger_error) result" where
  "new_total rnd l caps requested =
     (let run_id = lg_run_id l; spent = lg_spent l; cost = rnd (sp_cost_usd spent + sp_cost_usd requested)
      in if \<not> is_usable_cost_usd cost then Err (LUnusableCostAmount run_id cost)
         else if cost > max_cost_usd caps then Err (CapsExceeded run_id ''max_cost_usd'')
         else
           res_bind (checked_total 64 (sp_tokens spent) (sp_tokens requested) (max_tokens caps) ''max_tokens'' run_id) (\<lambda>tokens.
           res_bind (checked_total 64 (sp_bytes_written spent) (sp_bytes_written requested) (max_bytes_written caps) ''max_bytes_written'' run_id) (\<lambda>bytes.
           res_bind (checked_total 32 (sp_tasks spent) (sp_tasks requested) (max_tasks caps) ''max_tasks'' run_id) (\<lambda>tasks.
           res_bind (checked_total 32 (sp_tool_calls spent) (sp_tool_calls requested) (max_tool_calls caps) ''max_tool_calls'' run_id) (\<lambda>tool_calls.
           res_bind (checked_total 32 (sp_subagents spent) (sp_subagents requested) (max_subagents caps) ''max_subagents'' run_id) (\<lambda>subagents.
           res_bind (checked_total 32 (sp_escalations spent) (sp_escalations requested) (max_escalations caps) ''max_escalations'' run_id) (\<lambda>escalations.
             Ok \<lparr>sp_tokens = tokens, sp_cost_usd = cost, sp_tasks = tasks, sp_tool_calls = tool_calls,
                 sp_subagents = subagents, sp_bytes_written = bytes, sp_escalations = escalations\<rparr>)))))))"

text \<open>\<open>caps_guard\<close>: the refusals before the counters are looked at.\<close>

definition caps_guard :: "run_ledger \<Rightarrow> resource_caps \<Rightarrow> spend \<Rightarrow> int \<Rightarrow> (unit, ledger_error) result" where
  "caps_guard l caps requested now =
     (if \<not> is_usable_cost_usd (sp_cost_usd requested) then Err (LUnusableCostAmount (lg_run_id l) (sp_cost_usd requested))
      else if \<not> is_usable_cost_usd (max_cost_usd caps) then Err (LUnusableCostAmount (lg_run_id l) (max_cost_usd caps))
      else if wall_elapsed l now \<ge> run_wall_timeout caps then Err (CapsExceeded (lg_run_id l) ''run_wall_timeout'')
      else if active_elapsed l now \<ge> run_active_timeout caps then Err (CapsExceeded (lg_run_id l) ''run_active_timeout'')
      else Ok ())"

definition admit_spend_within ::
  "rounding \<Rightarrow> flow_codec \<Rightarrow> flow_faults \<Rightarrow> run_id \<Rightarrow> spend \<Rightarrow> int \<Rightarrow> admission \<Rightarrow> flow_db \<Rightarrow> (resource_caps \<times> flow_db, ledger_error) result" where
  "admit_spend_within rnd cd fault run_id requested now admission db =
     res_bind (read_ledger cd fault db run_id) (\<lambda>l.
     res_bind (ensure_admitting l admission) (\<lambda>_.
     res_bind (ok_or (CapsNotRecorded run_id) (lg_caps l)) (\<lambda>caps.
     res_bind (caps_guard l caps requested now) (\<lambda>_.
     res_bind (new_total rnd l caps requested) (\<lambda>total.
     res_bind (write_spend cd fault run_id total db) (\<lambda>db'.
     res_bind (remaining_from_ledger rnd (l\<lparr>lg_spent := total\<rparr>) now) (\<lambda>left. Ok (left, db'))))))))"

definition admit_spend ::
  "rounding \<Rightarrow> flow_codec \<Rightarrow> flow_faults \<Rightarrow> run_id \<Rightarrow> spend \<Rightarrow> int \<Rightarrow> flow_db \<Rightarrow> (resource_caps, ledger_error) result \<times> flow_db" where
  "admit_spend rnd cd fault run_id requested now db =
     run_txn LSqlite fault (admit_spend_within rnd cd fault run_id requested now Ordinary) db"

definition admit_spend_during_finally ::
  "rounding \<Rightarrow> flow_codec \<Rightarrow> flow_faults \<Rightarrow> run_id \<Rightarrow> spend \<Rightarrow> int \<Rightarrow> flow_db \<Rightarrow> (resource_caps, ledger_error) result \<times> flow_db" where
  "admit_spend_during_finally rnd cd fault run_id requested now db =
     run_txn LSqlite fault (admit_spend_within rnd cd fault run_id requested now FinallyBlock) db"

definition admit_call_from_run :: "flow_codec \<Rightarrow> flow_faults \<Rightarrow> flow_db \<Rightarrow> run_id \<Rightarrow> nat \<Rightarrow> (nat, ledger_error) result" where
  "admit_call_from_run cd fault db parent_run_id parent_direct_children =
     res_bind (read_ledger cd fault db parent_run_id) (\<lambda>l.
     res_bind (ensure_admitting l Ordinary) (\<lambda>_.
     res_bind (ok_or (SessionDepthNotRecorded parent_run_id) (lg_session_depth l)) (\<lambda>depth.
     res_bind (wrap_err LCallDepth (child_call_depth depth)) (\<lambda>child_depth.
     res_bind (wrap_err LCallFanOut (admit_child_call parent_direct_children)) (\<lambda>_. Ok child_depth)))))"

subsection \<open>Draws and refunds\<close>

definition draw_child_run_within ::
  "rounding \<Rightarrow> flow_codec \<Rightarrow> flow_faults \<Rightarrow> run_id \<Rightarrow> int \<Rightarrow> flow_db \<Rightarrow> (spend \<times> flow_db, ledger_error) result" where
  "draw_child_run_within rnd cd fault child_run_id now db =
     res_bind (read_ledger cd fault db child_run_id) (\<lambda>child.
     res_bind (ok_or (NotAChildRun child_run_id) (lg_parent_run_id child)) (\<lambda>parent_run_id.
     case lg_drawn_at child of
       Some t \<Rightarrow> Err (AlreadyDrawn child_run_id t)
     | None \<Rightarrow>
         (case lg_refunded_at child of
            Some t \<Rightarrow> Err (AlreadySettled child_run_id t)
          | None \<Rightarrow>
              res_bind (ok_or (CapsNotRecorded child_run_id) (lg_caps child)) (\<lambda>grant.
              res_bind (admit_spend_within rnd cd fault parent_run_id (spend_for_grant grant) now Ordinary db) (\<lambda>(_, db').
              res_bind (update_run LSqlite fault (fc_uuid_str cd child_run_id) (\<lambda>r. r\<lparr>rr_drawn_at := Some now\<rparr>) db') (\<lambda>db''.
                Ok (spend_for_grant grant, db'')))))))"

definition draw_child_run ::
  "rounding \<Rightarrow> flow_codec \<Rightarrow> flow_faults \<Rightarrow> run_id \<Rightarrow> int \<Rightarrow> flow_db \<Rightarrow> (spend, ledger_error) result \<times> flow_db" where
  "draw_child_run rnd cd fault child_run_id now db =
     run_txn LSqlite fault (draw_child_run_within rnd cd fault child_run_id now) db"

definition refundable_dollars :: "rounding \<Rightarrow> rat \<Rightarrow> rat \<Rightarrow> rat" where
  "refundable_dollars rnd grant spent = (if \<not> is_usable_cost_usd spent then 0 else max (rnd (grant - spent)) 0)"

definition unspent_of :: "rounding \<Rightarrow> resource_caps \<Rightarrow> spend \<Rightarrow> spend" where
  "unspent_of rnd grant spent =
     \<lparr>sp_tokens = max_tokens grant - sp_tokens spent,
      sp_cost_usd = refundable_dollars rnd (max_cost_usd grant) (sp_cost_usd spent),
      sp_tasks = max_tasks grant - sp_tasks spent, sp_tool_calls = max_tool_calls grant - sp_tool_calls spent,
      sp_subagents = max_subagents grant - sp_subagents spent,
      sp_bytes_written = max_bytes_written grant - sp_bytes_written spent,
      sp_escalations = max_escalations grant - sp_escalations spent\<rparr>"

definition give_back :: "rounding \<Rightarrow> spend \<Rightarrow> spend \<Rightarrow> spend" where
  "give_back rnd spent unspent =
     \<lparr>sp_tokens = sp_tokens spent - sp_tokens unspent,
      sp_cost_usd = max (rnd (sp_cost_usd spent - sp_cost_usd unspent)) 0,
      sp_tasks = sp_tasks spent - sp_tasks unspent, sp_tool_calls = sp_tool_calls spent - sp_tool_calls unspent,
      sp_subagents = sp_subagents spent - sp_subagents unspent,
      sp_bytes_written = sp_bytes_written spent - sp_bytes_written unspent,
      sp_escalations = sp_escalations spent - sp_escalations unspent\<rparr>"

definition refund_within ::
  "rounding \<Rightarrow> flow_codec \<Rightarrow> flow_faults \<Rightarrow> run_id \<Rightarrow> int \<Rightarrow> flow_db \<Rightarrow> (spend \<times> flow_db, ledger_error) result" where
  "refund_within rnd cd fault child_run_id now db =
     res_bind (read_ledger cd fault db child_run_id) (\<lambda>child.
     res_bind (ok_or (NotAChildRun child_run_id) (lg_parent_run_id child)) (\<lambda>parent_run_id.
     if \<not> run_is_terminal (lg_state child) then Err (ChildNotFinished child_run_id (lg_state child))
     else if lg_drawn_at child = None then Err (DrawNotRecorded child_run_id)
     else case lg_refunded_at child of
            Some t \<Rightarrow> Err (AlreadyRefunded child_run_id t)
          | None \<Rightarrow>
              res_bind (ok_or (CapsNotRecorded child_run_id) (lg_caps child)) (\<lambda>grant.
              res_bind (read_ledger cd fault db parent_run_id) (\<lambda>parent.
              res_bind (write_spend cd fault parent_run_id
                          (give_back rnd (lg_spent parent) (unspent_of rnd grant (lg_spent child))) db) (\<lambda>db'.
              res_bind (update_run LSqlite fault (fc_uuid_str cd child_run_id) (\<lambda>r. r\<lparr>rr_refunded_at := Some now\<rparr>) db') (\<lambda>db''.
                Ok (unspent_of rnd grant (lg_spent child), db'')))))))"

definition refund_child_run ::
  "rounding \<Rightarrow> flow_codec \<Rightarrow> flow_faults \<Rightarrow> run_id \<Rightarrow> int \<Rightarrow> flow_db \<Rightarrow> (spend, ledger_error) result \<times> flow_db" where
  "refund_child_run rnd cd fault child_run_id now db =
     run_txn LSqlite fault (refund_within rnd cd fault child_run_id now) db"

subsection \<open>The tree of runs as an abstract ledger\<close>

text \<open>
  The contract behind the code: every run has a grant and has spent part of it; a child's grant is
  spent by its parent when the child opens; what the child leaves is given back once, after it has
  ended.  A step is labelled with the spend it admits, if it admits one.
\<close>

record run_entry =
  re_parent :: "run_id option"
  re_grant :: "cap_dim \<Rightarrow> nat"
  re_spent :: "cap_dim \<Rightarrow> nat"
  re_final :: bool
  re_settled :: bool

type_synonym tree_ledger = "run_id \<rightharpoonup> run_entry"

inductive tree_step :: "tree_ledger \<Rightarrow> (run_id \<times> (cap_dim \<Rightarrow> nat)) option \<Rightarrow> tree_ledger \<Rightarrow> bool" where
  idle: "tree_step t None t"
| open_root: "t i = None \<Longrightarrow> re_parent e = None \<Longrightarrow> re_spent e = (\<lambda>_. 0) \<Longrightarrow> \<not> re_settled e \<Longrightarrow>
    tree_step t None (t(i \<mapsto> e))"
| open_child: "t i = None \<Longrightarrow> t p = Some pe \<Longrightarrow> re_parent e = Some p \<Longrightarrow> re_spent e = (\<lambda>_. 0) \<Longrightarrow> \<not> re_settled e \<Longrightarrow>
    \<not> re_final pe \<Longrightarrow> (\<And>d. re_spent pe d + re_grant e d \<le> re_grant pe d) \<Longrightarrow>
    tree_step t None (t(i \<mapsto> e, p \<mapsto> pe\<lparr>re_spent := \<lambda>d. re_spent pe d + re_grant e d\<rparr>))"
| admit: "t i = Some e \<Longrightarrow> \<not> re_final e \<Longrightarrow> (\<And>d. re_spent e d + q d \<le> re_grant e d) \<Longrightarrow>
    tree_step t (Some (i, q)) (t(i \<mapsto> e\<lparr>re_spent := \<lambda>d. re_spent e d + q d\<rparr>))"
| settle: "t i = Some e \<Longrightarrow> re_parent e = Some p \<Longrightarrow> p \<noteq> i \<Longrightarrow> re_final e \<Longrightarrow> \<not> re_settled e \<Longrightarrow> t p = Some pe \<Longrightarrow>
    tree_step t None (t(p \<mapsto> pe\<lparr>re_spent := \<lambda>d. re_spent pe d - (re_grant e d - re_spent e d)\<rparr>,
                        i \<mapsto> e\<lparr>re_settled := True\<rparr>))"
| move: "t i = Some e \<Longrightarrow> (re_final e \<Longrightarrow> fin) \<Longrightarrow> tree_step t None (t(i \<mapsto> e\<lparr>re_final := fin\<rparr>))"

definition child_runs :: "tree_ledger \<Rightarrow> run_id \<Rightarrow> run_id set" where
  "child_runs t p = {c. \<exists>e. t c = Some e \<and> re_parent e = Some p}"

definition charge :: "tree_ledger \<Rightarrow> cap_dim \<Rightarrow> run_id \<Rightarrow> nat" where
  "charge t d c = (case t c of None \<Rightarrow> 0 | Some e \<Rightarrow> if re_settled e then re_spent e d else re_grant e d)"

definition charges :: "tree_ledger \<Rightarrow> cap_dim \<Rightarrow> run_id \<Rightarrow> nat" where
  "charges t d p = (\<Sum>c \<in> child_runs t p. charge t d c)"

text \<open>What holds of every run: its own spends and the charges of its children are in its spend.\<close>

definition entry_ok :: "tree_ledger \<Rightarrow> (run_id \<Rightarrow> cap_dim \<Rightarrow> nat) \<Rightarrow> run_id \<Rightarrow> run_entry \<Rightarrow> bool" where
  "entry_ok t adm i e \<longleftrightarrow>
     (\<forall>p. re_parent e = Some p \<longrightarrow> p \<noteq> i \<and> p \<in> dom t) \<and> (re_settled e \<longrightarrow> re_final e) \<and>
     (\<forall>d. re_spent e d \<le> re_grant e d \<and> adm i d + charges t d i \<le> re_spent e d)"

definition tree_ok :: "tree_ledger \<Rightarrow> (run_id \<Rightarrow> cap_dim \<Rightarrow> nat) \<Rightarrow> bool" where
  "tree_ok t adm \<longleftrightarrow> finite (dom t) \<and> (\<forall>i e. t i = Some e \<longrightarrow> entry_ok t adm i e) \<and> (\<forall>i d. t i = None \<longrightarrow> adm i d = 0)"

fun log_admit :: "(run_id \<times> (cap_dim \<Rightarrow> nat)) option \<Rightarrow> (run_id \<Rightarrow> cap_dim \<Rightarrow> nat) \<Rightarrow> run_id \<Rightarrow> cap_dim \<Rightarrow> nat" where
  "log_admit None adm = adm"
| "log_admit (Some (i, q)) adm = adm(i := \<lambda>d. adm i d + q d)"

lemma finite_child_runs: "finite (dom t) \<Longrightarrow> finite (child_runs t p)"
  by (rule finite_subset [of _ "dom t"]) (auto simp: child_runs_def)

lemma child_runs_same:
  assumes "\<And>c. map_option re_parent (t' c) = map_option re_parent (t c)"
  shows "child_runs t' p = child_runs t p"
  unfolding child_runs_def
proof (intro Collect_cong)
  fix c show "(\<exists>e. t' c = Some e \<and> re_parent e = Some p) = (\<exists>e. t c = Some e \<and> re_parent e = Some p)"
    using assms [of c] by (cases "t c"; cases "t' c") auto
qed

lemma charges_same_parents:
  assumes "\<And>c. map_option re_parent (t' c) = map_option re_parent (t c)" "\<And>c. charge t' d c = charge t d c"
  shows "charges t' d p = charges t d p"
  by (simp add: charges_def child_runs_same [OF assms(1)] assms(2))

lemma charge_le_charges:
  assumes "finite (dom t)" "t c = Some e" "re_parent e = Some p"
  shows "charge t d c \<le> charges t d p"
  unfolding charges_def using assms by (intro member_le_sum finite_child_runs) (auto simp: child_runs_def)

lemma tree_okE:
  assumes "tree_ok t adm" "t i = Some e"
  shows "re_spent e d \<le> re_grant e d" "adm i d + charges t d i \<le> re_spent e d" "re_settled e \<Longrightarrow> re_final e"
    "re_parent e = Some p \<Longrightarrow> p \<noteq> i" "re_parent e = Some p \<Longrightarrow> p \<in> dom t" "finite (dom t)"
  using assms by (auto simp: tree_ok_def entry_ok_def)

lemma tree_okI:
  assumes "finite (dom t)" "\<And>i e. t i = Some e \<Longrightarrow> entry_ok t adm i e" "\<And>i d. t i = None \<Longrightarrow> adm i d = 0"
  shows "tree_ok t adm"
  using assms by (simp add: tree_ok_def)

lemma entry_okI:
  assumes "\<And>p. re_parent e = Some p \<Longrightarrow> p \<noteq> i \<and> p \<in> dom t" "re_settled e \<Longrightarrow> re_final e"
    and "\<And>d. re_spent e d \<le> re_grant e d" "\<And>d. adm i d + charges t d i \<le> re_spent e d"
  shows "entry_ok t adm i e"
  using assms by (simp add: entry_ok_def)

text \<open>An entry stays in order when its charges do not grow.\<close>

lemma entry_ok_mono:
  assumes ok: "tree_ok t adm" and e: "t i = Some e" and le: "\<And>d. adm' i d + charges t' d i \<le> adm i d + charges t d i"
    and dom: "dom t \<subseteq> dom t'"
  shows "entry_ok t' adm' i e"
proof (rule entry_okI)
  fix d show "adm' i d + charges t' d i \<le> re_spent e d" using le [of d] tree_okE(2) [OF ok e, of d] by linarith
qed (use tree_okE [OF ok e] dom in auto)

lemma tree_ok_unknown: "tree_ok t adm \<Longrightarrow> t i = None \<Longrightarrow> adm i d = 0"
  by (simp add: tree_ok_def)

text \<open>No run below a run that does not exist.\<close>

lemma no_children_of_unknown: "tree_ok t adm \<Longrightarrow> t i = None \<Longrightarrow> child_runs t i = {}"
  unfolding child_runs_def by (auto dest: tree_okE(5))

lemma tree_ok_update:
  assumes ok: "tree_ok t adm" and t': "t' = t(i \<mapsto> e')" and e: "t i = Some e" "re_parent e' = re_parent e"
    and spent: "\<And>d. re_spent e' d \<le> re_grant e' d" and settled: "re_settled e' \<Longrightarrow> re_final e'"
    and charge: "\<And>d c. charge t' d c \<le> charge t d c"
    and own: "\<And>d. adm' i d + charges t' d i \<le> re_spent e' d" and adm: "\<And>j. j \<noteq> i \<Longrightarrow> adm' j = adm j"
  shows "tree_ok t' adm'"
proof -
  have par: "map_option re_parent (t' c) = map_option re_parent (t c)" for c using e by (simp add: t')
  have "charges t' d j \<le> charges t d j" for d j
    unfolding charges_def child_runs_same [OF par] by (intro sum_mono charge)
  then have le: "adm' j d + charges t' d j \<le> adm j d + charges t d j" if "j \<noteq> i" for j d
    using adm [OF that] by simp
  have dom: "dom t' = dom t" using e(1) by (auto simp: t')
  have new: "entry_ok t' adm' i e'"
    by (rule entry_okI) (use tree_okE(4,5) [OF ok e(1)] e(2) dom settled spent own in auto)
  show ?thesis
  proof (rule tree_okI)
    fix j ej assume j: "t' j = Some ej"
    show "entry_ok t' adm' j ej"
    proof (cases "j = i")
      case False
      with j have "t j = Some ej" by (simp add: t')
      then show ?thesis by (rule entry_ok_mono [OF ok]) (use le [OF False] dom in auto)
    qed (use j new in \<open>simp add: t'\<close>)
  next
    fix j d assume "t' j = None"
    then have "j \<noteq> i" "t j = None" by (auto simp: t' split: if_splits)
    then show "adm' j d = 0" using adm tree_ok_unknown [OF ok] by simp
  qed (simp add: dom tree_okE(6) [OF ok e(1)])
qed

lemma tree_ok_admit:
  assumes ok: "tree_ok t adm" and e: "t i = Some e" "\<not> re_final e" and fit: "\<And>d. re_spent e d + q d \<le> re_grant e d"
  shows "tree_ok (t(i \<mapsto> e\<lparr>re_spent := \<lambda>d. re_spent e d + q d\<rparr>)) (adm(i := \<lambda>d. adm i d + q d))"
proof -
  let ?t = "t(i \<mapsto> e\<lparr>re_spent := \<lambda>d. re_spent e d + q d\<rparr>)"
  have ns: "\<not> re_settled e" using tree_okE(3) [OF ok e(1)] e(2) by blast
  then have ch: "charge ?t d c = charge t d c" for d c using e by (simp add: charge_def)
  have "map_option re_parent (?t c) = map_option re_parent (t c)" for c using e by simp
  then have "charges ?t d i = charges t d i" for d by (rule charges_same_parents) (rule ch)
  then show ?thesis
    using tree_okE(2) [OF ok e(1)] fit ns ch
    by (intro tree_ok_update [OF ok refl e(1)]) auto
qed

lemma tree_ok_move:
  assumes ok: "tree_ok t adm" and e: "t i = Some e" and fin: "re_final e \<Longrightarrow> fin"
  shows "tree_ok (t(i \<mapsto> e\<lparr>re_final := fin\<rparr>)) adm"
proof -
  let ?t = "t(i \<mapsto> e\<lparr>re_final := fin\<rparr>)"
  have ch: "charge ?t d c = charge t d c" for d c using e by (simp add: charge_def)
  have "map_option re_parent (?t c) = map_option re_parent (t c)" for c using e by simp
  then have "charges ?t d i = charges t d i" for d by (rule charges_same_parents) (rule ch)
  then show ?thesis
    using tree_okE(1-3) [OF ok e] fin ch by (intro tree_ok_update [OF ok refl e]) auto
qed

lemma tree_ok_open_root:
  assumes ok: "tree_ok t adm" and i: "t i = None" and e: "re_parent e = None" "re_spent e = (\<lambda>_. 0)" "\<not> re_settled e"
  shows "tree_ok (t(i \<mapsto> e)) adm"
proof -
  let ?t = "t(i \<mapsto> e)"
  have kids: "child_runs ?t j = child_runs t j" for j using i e by (auto simp: child_runs_def)
  have "charges ?t d j = charges t d j" for d j
    unfolding charges_def kids by (intro sum.cong) (use i in \<open>auto simp: charge_def child_runs_def\<close>)
  moreover have "charges t d i = 0" for d by (simp add: charges_def no_children_of_unknown [OF ok i])
  moreover have "adm i d = 0" for d using ok i by (simp add: tree_ok_def)
  ultimately show ?thesis using ok i e by (auto simp: tree_ok_def entry_ok_def)
qed

lemma tree_ok_open_child:
  assumes ok: "tree_ok t adm" and i: "t i = None" and p: "t p = Some pe" "\<not> re_final pe"
    and e: "re_parent e = Some p" "re_spent e = (\<lambda>_. 0)" "\<not> re_settled e"
    and fit: "\<And>d. re_spent pe d + re_grant e d \<le> re_grant pe d"
  shows "tree_ok (t(i \<mapsto> e, p \<mapsto> pe\<lparr>re_spent := \<lambda>d. re_spent pe d + re_grant e d\<rparr>)) adm"
proof -
  let ?t = "t(i \<mapsto> e, p \<mapsto> pe\<lparr>re_spent := \<lambda>d. re_spent pe d + re_grant e d\<rparr>)"
  have ip: "i \<noteq> p" using i p by auto
  have kids: "child_runs ?t j = (if j = p then insert i (child_runs t j) else child_runs t j)" for j
    using i p e ip by (auto simp: child_runs_def)
  have "\<not> re_settled pe" using tree_okE(3) [OF ok p(1)] p(2) by blast
  then have ch: "charge ?t d c = (if c = i then re_grant e d else charge t d c)" for d c
    using i p e ip by (simp add: charge_def)
  have notin: "i \<notin> child_runs t j" for j using i by (simp add: child_runs_def)
  have charges: "charges ?t d j = charges t d j + (if j = p then re_grant e d else 0)" for d j
  proof -
    have "(\<Sum>c \<in> child_runs t j. charge ?t d c) = charges t d j"
      unfolding charges_def by (intro sum.cong) (use notin in \<open>auto simp: ch\<close>)
    then show ?thesis
      using finite_child_runs [OF tree_okE(6) [OF ok p(1)]] notin [of p] ch [of d i]
      by (cases "j = p") (simp_all add: charges_def kids del: fun_upd_apply)
  qed
  have "charges t d i = 0" "adm i d = 0" for d
    using ok i by (simp_all add: charges_def no_children_of_unknown [OF ok i] tree_ok_def)
  with charges have i0: "charges ?t d i = 0" "adm i d = 0" for d using ip by simp_all
  have dom: "dom ?t = insert i (dom t)" using p(1) by auto
  have newi: "entry_ok ?t adm i e"
    by (rule entry_okI) (use e ip p(1) i0 dom in auto)
  have newp: "entry_ok ?t adm p (pe\<lparr>re_spent := \<lambda>d. re_spent pe d + re_grant e d\<rparr>)"
  proof (rule entry_okI)
    fix d
    show "adm p d + charges ?t d p \<le> re_spent (pe\<lparr>re_spent := \<lambda>d. re_spent pe d + re_grant e d\<rparr>) d"
      using tree_okE(2) [OF ok p(1), of d] charges [of d p] by simp
  qed (use fit tree_okE(3-5) [OF ok p(1)] dom in auto)
  show ?thesis
  proof (rule tree_okI)
    fix j ej assume j: "?t j = Some ej"
    show "entry_ok ?t adm j ej"
    proof (cases "j = i \<or> j = p")
      case False
      with j have "t j = Some ej" by simp
      then show ?thesis by (rule entry_ok_mono [OF ok]) (use False charges dom in auto)
    qed (use j newi newp ip in auto)
  next
    fix j d assume "?t j = None"
    then show "adm j d = 0" using tree_ok_unknown [OF ok] by (auto split: if_splits)
  qed (use dom tree_okE(6) [OF ok p(1)] in simp)
qed

lemma entry_ok_settled: "entry_ok t adm i e \<Longrightarrow> re_final e \<Longrightarrow> entry_ok t adm i (e\<lparr>re_settled := True\<rparr>)"
  by (simp add: entry_ok_def)

lemma tree_ok_settle:
  assumes ok: "tree_ok t adm" and e: "t i = Some e" "re_parent e = Some p" "re_final e" "\<not> re_settled e"
    and p: "t p = Some pe" "p \<noteq> i"
  shows "tree_ok (t(p \<mapsto> pe\<lparr>re_spent := \<lambda>d. re_spent pe d - (re_grant e d - re_spent e d)\<rparr>, i \<mapsto> e\<lparr>re_settled := True\<rparr>)) adm"
proof -
  let ?t = "t(p \<mapsto> pe\<lparr>re_spent := \<lambda>d. re_spent pe d - (re_grant e d - re_spent e d)\<rparr>, i \<mapsto> e\<lparr>re_settled := True\<rparr>)"
  have fin: "finite (dom t)" using tree_okE(6) [OF ok p(1)] .
  have par: "map_option re_parent (?t c) = map_option re_parent (t c)" for c using e p by simp
  have mono: "charge ?t d c \<le> charge t d c" for d c
    using e p tree_okE(1) [OF ok e(1), of d] by (auto simp: charge_def)
  have le: "charges ?t d j \<le> charges t d j" for d j
    unfolding charges_def child_runs_same [OF par] by (intro sum_mono mono)
  have give: "charges ?t d p + (re_grant e d - re_spent e d) \<le> charges t d p" for d
  proof -
    let ?C = "child_runs t p"
    have i: "i \<in> ?C" "finite ?C" using e finite_child_runs [OF fin] by (auto simp: child_runs_def)
    have "(\<Sum>c \<in> ?C - {i}. charge ?t d c) \<le> (\<Sum>c \<in> ?C - {i}. charge t d c)" by (intro sum_mono mono)
    moreover have "charge ?t d i = re_spent e d" "charge t d i = re_grant e d" using e by (simp_all add: charge_def)
    ultimately show ?thesis
      unfolding charges_def child_runs_same [OF par] sum.remove [OF i(2,1)]
      using tree_okE(1) [OF ok e(1), of d] by linarith
  qed
  have dom: "dom ?t = dom t" using p(1) e(1) by auto
  have newp: "entry_ok ?t adm p (pe\<lparr>re_spent := \<lambda>d. re_spent pe d - (re_grant e d - re_spent e d)\<rparr>)"
  proof (rule entry_okI)
    fix d
    show "adm p d + charges ?t d p \<le> re_spent (pe\<lparr>re_spent := \<lambda>d. re_spent pe d - (re_grant e d - re_spent e d)\<rparr>) d"
      using give [of d] tree_okE(2) [OF ok p(1), of d] by simp
    show "re_spent (pe\<lparr>re_spent := \<lambda>d. re_spent pe d - (re_grant e d - re_spent e d)\<rparr>) d \<le>
        re_grant (pe\<lparr>re_spent := \<lambda>d. re_spent pe d - (re_grant e d - re_spent e d)\<rparr>) d"
      using tree_okE(1) [OF ok p(1), of d] by simp
  qed (use tree_okE(3-5) [OF ok p(1)] dom in auto)
  have old: "entry_ok ?t adm j ej" if "t j = Some ej" for j ej
    using that by (rule entry_ok_mono [OF ok]) (use le dom in auto)
  have newi: "entry_ok ?t adm i (e\<lparr>re_settled := True\<rparr>)"
    by (rule entry_ok_settled [OF old [OF e(1)] e(3)])
  show ?thesis
  proof (rule tree_okI)
    fix j ej assume j: "?t j = Some ej"
    show "entry_ok ?t adm j ej"
    proof (cases "j = i \<or> j = p")
      case False
      with j have "t j = Some ej" by simp
      then show ?thesis by (rule old)
    qed (use j newi newp p(2) in auto)
  next
    fix j d assume "?t j = None"
    then show "adm j d = 0" using tree_ok_unknown [OF ok] by (auto split: if_splits)
  qed (use dom fin in simp)
qed

lemma tree_step_ok: "tree_step t l t' \<Longrightarrow> tree_ok t adm \<Longrightarrow> tree_ok t' (log_admit l adm)"
  by (induction rule: tree_step.cases)
     (auto intro: tree_ok_open_root tree_ok_open_child tree_ok_admit tree_ok_settle tree_ok_move)

text \<open>
  A set of runs that contains, with every run but one, also its parent: what its runs admitted on
  their own account fits into the grant of the one.
\<close>

lemma subtree_within_grant:
  assumes ok: "tree_ok t adm" and S: "finite S" "r \<in> S" "S \<subseteq> dom t"
    and tree: "\<And>c. c \<in> S - {r} \<Longrightarrow> \<exists>e p. t c = Some e \<and> re_parent e = Some p \<and> p \<in> S" and r: "t r = Some er"
  shows "(\<Sum>i \<in> S. adm i d) \<le> re_grant er d"
proof -
  define sp where "sp i = re_spent (the (t i)) d" for i
  have own: "adm i d + charges t d i \<le> sp i" if mem: "i \<in> S" for i
  proof -
    obtain e where "t i = Some e" using mem S(3) by auto
    with tree_okE(2) [OF ok this, of d] show ?thesis by (simp add: sp_def)
  qed
  have "sp c \<le> charge t d c" if mem: "c \<in> S - {r}" for c
  proof -
    obtain e where "t c = Some e" using mem S(3) by auto
    with tree_okE(1) [OF ok this, of d] show ?thesis by (simp add: sp_def charge_def)
  qed
  then have "(\<Sum>c \<in> S - {r}. sp c) \<le> (\<Sum>c \<in> S - {r}. charge t d c)" by (rule sum_mono)
  also have "\<dots> \<le> (\<Sum>c \<in> (\<Union>i \<in> S. child_runs t i). charge t d c)"
  proof (rule sum_mono2)
    show "finite (\<Union>i \<in> S. child_runs t i)" using finite_child_runs [OF tree_okE(6) [OF ok r]] S(1) by simp
    show "S - {r} \<subseteq> (\<Union>i \<in> S. child_runs t i)" using tree unfolding child_runs_def by blast
  qed simp
  also have "\<dots> = (\<Sum>i \<in> S. charges t d i)"
    unfolding charges_def using finite_child_runs [OF tree_okE(6) [OF ok r]] S(1)
    by (intro sum.UNION_disjoint) (auto simp: child_runs_def)
  finally have below: "(\<Sum>c \<in> S - {r}. sp c) \<le> (\<Sum>i \<in> S. charges t d i)" .
  have "(\<Sum>i \<in> S. adm i d) + (\<Sum>i \<in> S. charges t d i) \<le> (\<Sum>i \<in> S. sp i)"
    unfolding sum.distrib [symmetric] by (intro sum_mono own)
  also have "\<dots> = sp r + (\<Sum>c \<in> S - {r}. sp c)" by (rule sum.remove [OF S(1,2)])
  finally have "(\<Sum>i \<in> S. adm i d) \<le> sp r" using below by linarith
  then show ?thesis using tree_okE(1) [OF ok r, of d] r by (simp add: sp_def)
qed

text \<open>
  A program implements the tree ledger if its steps are steps of the ledger, seen through \<open>tree\<close>.
  What it admits along a sequence of operations is added up by \<open>admitted_total\<close>.
\<close>

primrec admitted_total ::
  "('s \<Rightarrow> 'op \<Rightarrow> 's) \<Rightarrow> ('s \<Rightarrow> 'op \<Rightarrow> (run_id \<times> (cap_dim \<Rightarrow> nat)) option) \<Rightarrow> 's \<Rightarrow> 'op list \<Rightarrow> run_id \<Rightarrow> cap_dim \<Rightarrow> nat" where
  "admitted_total step admits s [] i d = 0"
| "admitted_total step admits s (x # xs) i d =
     (case admits s x of None \<Rightarrow> 0 | Some (j, q) \<Rightarrow> if j = i then q d else 0) + admitted_total step admits (step s x) xs i d"

locale tree_implementation =
  fixes step :: "'s \<Rightarrow> 'op \<Rightarrow> 's" and admits :: "'s \<Rightarrow> 'op \<Rightarrow> (run_id \<times> (cap_dim \<Rightarrow> nat)) option"
    and tree :: "'s \<Rightarrow> tree_ledger" and inv :: "'s \<Rightarrow> bool" and ok_op :: "'op \<Rightarrow> bool"
  assumes inv_step: "inv s \<Longrightarrow> ok_op x \<Longrightarrow> tree_ok (tree s) adm \<Longrightarrow> inv (step s x)"
    and sim: "inv s \<Longrightarrow> ok_op x \<Longrightarrow> tree_ok (tree s) adm \<Longrightarrow> tree_step (tree s) (admits s x) (tree (step s x))"
begin

lemma log_admit_eq:
  "log_admit l adm i d = adm i d + (case l of None \<Rightarrow> 0 | Some (j, q) \<Rightarrow> if j = i then q d else 0)"
  by (cases "(l, adm)" rule: log_admit.cases) auto

lemma steps_tree_ok:
  assumes "inv s" "\<forall>x \<in> set xs. ok_op x" "tree_ok (tree s) adm"
  shows "inv (foldl step s xs) \<and> tree_ok (tree (foldl step s xs)) (\<lambda>i d. adm i d + admitted_total step admits s xs i d)"
  using assms
proof (induction xs arbitrary: s adm)
  case (Cons x xs)
  from Cons.prems have "inv (step s x)" by (auto intro: inv_step)
  moreover have "tree_ok (tree (step s x)) (log_admit (admits s x) adm)"
    using Cons.prems by (auto intro: tree_step_ok sim)
  moreover have "(\<lambda>i d. log_admit (admits s x) adm i d + admitted_total step admits (step s x) xs i d) =
      (\<lambda>i d. adm i d + admitted_total step admits s (x # xs) i d)"
    by (simp add: log_admit_eq fun_eq_iff add.assoc)
  ultimately show ?case using Cons.IH [of "step s x" "log_admit (admits s x) adm"] Cons.prems(2) by simp
qed simp

lemma subtree_bounded:
  assumes "inv s" "\<forall>x \<in> set xs. ok_op x" "tree s = Map.empty" and t: "t = tree (foldl step s xs)"
    and S: "finite S" "r \<in> S" "S \<subseteq> dom t" "\<And>c. c \<in> S - {r} \<Longrightarrow> \<exists>e p. t c = Some e \<and> re_parent e = Some p \<and> p \<in> S"
    and r: "t r = Some er"
  shows "(\<Sum>i \<in> S. admitted_total step admits s xs i d) \<le> re_grant er d"
proof -
  have "tree_ok (tree s) (\<lambda>_ _. 0)" using assms(3) by (simp add: tree_ok_def)
  from steps_tree_ok [OF assms(1,2) this] have "tree_ok t (admitted_total step admits s xs)" by (simp add: t)
  from subtree_within_grant [OF this S r] show ?thesis .
qed

end

subsection \<open>The tables as a tree ledger\<close>

text \<open>
  What is relied on of the texts: printing and parsing a UUID gives it back, and so it does for the
  counted limits of a caps block (its dollar figure may lose its last digit).
\<close>

definition codec_ok :: "flow_codec \<Rightarrow> bool" where
  "codec_ok cd \<longleftrightarrow>
     (\<forall>i. fc_uuid_parse cd (fc_uuid_str cd i) = Some i) \<and>
     (\<forall>c. \<exists>c'. fc_caps_parse cd (fc_caps_str cd c) = Some c' \<and> (\<forall>d. cap_of d c' = cap_of d c))"

definition ledger_of :: "flow_codec \<Rightarrow> flow_db \<Rightarrow> run_id \<Rightarrow> run_ledger option" where
  "ledger_of cd db i =
     Option.bind (find_run (fc_uuid_str cd i) db) (\<lambda>r. case ledger_from_row cd r of Inl _ \<Rightarrow> None | Inr l \<Rightarrow> Some l)"

fun spent_of :: "cap_dim \<Rightarrow> spend \<Rightarrow> nat" where
  "spent_of DTokens s = sp_tokens s"
| "spent_of DTasks s = sp_tasks s"
| "spent_of DToolCalls s = sp_tool_calls s"
| "spent_of DSubagents s = sp_subagents s"
| "spent_of DBytes s = sp_bytes_written s"
| "spent_of DEscalations s = sp_escalations s"

definition entry_of :: "run_ledger \<Rightarrow> run_entry" where
  "entry_of l =
     \<lparr>re_parent = lg_parent_run_id l, re_grant = (\<lambda>d. case lg_caps l of None \<Rightarrow> 0 | Some c \<Rightarrow> cap_of d c),
      re_spent = (\<lambda>d. spent_of d (lg_spent l)), re_final = run_is_terminal (lg_state l),
      re_settled = (lg_refunded_at l \<noteq> None)\<rparr>"

definition tree_of :: "flow_codec \<Rightarrow> flow_db \<Rightarrow> tree_ledger" where
  "tree_of cd db = (\<lambda>i. map_option entry_of (ledger_of cd db i))"

lemma find_run_map_run:
  assumes "\<And>r. rr_id (f r) = rr_id r"
  shows "find_run k (map_run j f db) = (if k = j then map_option f (find_run k db) else find_run k db)"
proof -
  have "List.find (\<lambda>r. rr_id r = k) (map (\<lambda>r. if rr_id r = j then f r else r) rows) =
      (if k = j then map_option f (List.find (\<lambda>r. rr_id r = k) rows) else List.find (\<lambda>r. rr_id r = k) rows)" for rows
    by (induction rows) (auto simp: assms)
  then show ?thesis by (simp add: find_run_def map_run_def)
qed

lemma find_run_id: "find_run k db = Some r \<Longrightarrow> rr_id r = k"
  by (auto simp: find_run_def find_Some_iff)

lemma update_run_Ok:
  "update_run sq fault k f db = Ok db' \<longleftrightarrow>
     \<not> fault FsUpdateRun \<and> (\<forall>r \<in> set (fd_runs db). rr_id r = k \<longrightarrow> run_row_check (f r)) \<and> db' = map_run k f db"
  by (auto simp: update_run_def list_ex_iff)

lemma uuid_str_inj: "codec_ok cd \<Longrightarrow> fc_uuid_str cd i = fc_uuid_str cd j \<longleftrightarrow> i = j"
  by (metis codec_ok_def option.inject)

lemma ledger_of_Some:
  "ledger_of cd db i = Some l \<longleftrightarrow> (\<exists>r. find_run (fc_uuid_str cd i) db = Some r \<and> ledger_from_row cd r = Ok l)"
proof (cases "find_run (fc_uuid_str cd i) db")
  case (Some r)
  then show ?thesis by (cases "ledger_from_row cd r") (simp_all add: ledger_of_def)
qed (simp add: ledger_of_def)

lemma read_ledger_Ok:
  "read_ledger cd fault db i = Ok l \<longleftrightarrow> \<not> fault FsSelectRun \<and> ledger_of cd db i = Some l"
  by (auto simp: read_ledger_def ledger_of_Some wrap_err_def split: option.splits sum.splits)

lemma ledger_of_id: "codec_ok cd \<Longrightarrow> ledger_of cd db i = Some l \<Longrightarrow> lg_run_id l = i"
  by (auto simp: ledger_of_Some ledger_from_row_def codec_ok_def dest!: find_run_id)

lemma map_sum_bind: "map_sum id g (res_bind r f) = res_bind r (\<lambda>a. map_sum id g (f a))"
  by (cases r) simp_all

text \<open>An update that decodes to \<open>g\<close> of the old ledger changes that run's ledger and no other.\<close>

lemma ledger_of_map_run:
  assumes "codec_ok cd" "\<And>r. rr_id (f r) = rr_id r"
    and dec: "\<And>r. find_run (fc_uuid_str cd j) db = Some r \<Longrightarrow> ledger_from_row cd (f r) = map_sum id g (ledger_from_row cd r)"
  shows "ledger_of cd (map_run (fc_uuid_str cd j) f db) = (ledger_of cd db)(j := map_option g (ledger_of cd db j))"
proof
  fix i
  show "ledger_of cd (map_run (fc_uuid_str cd j) f db) i = ((ledger_of cd db)(j := map_option g (ledger_of cd db j))) i"
  proof (cases "i = j")
    case True
    show ?thesis
    proof (cases "find_run (fc_uuid_str cd j) db")
      case (Some r)
      then show ?thesis
        using dec [OF Some] True
        by (cases "ledger_from_row cd r") (auto simp: ledger_of_def find_run_map_run [OF assms(2)])
    qed (simp add: True ledger_of_def find_run_map_run [OF assms(2)])
  qed (simp add: ledger_of_def find_run_map_run [OF assms(2)] uuid_str_inj [OF assms(1)])
qed

definition spend_in_range :: "spend \<Rightarrow> bool" where
  "spend_in_range s \<longleftrightarrow> (\<forall>d. width d = 32 \<longrightarrow> spent_of d s < 2 ^ 32)"

lemma spend_in_rangeD:
  "spend_in_range s \<Longrightarrow> sp_tasks s < 2 ^ 32 \<and> sp_tool_calls s < 2 ^ 32 \<and> sp_subagents s < 2 ^ 32 \<and> sp_escalations s < 2 ^ 32"
  unfolding spend_in_range_def by (metis spent_of.simps width.simps(3-6))

lemma nonneg_u32_int: "n < 2 ^ 32 \<Longrightarrow> nonneg_u32 (int n) = n"
  by (simp add: nonneg_u32_def)

lemma write_spend_Ok:
  assumes "codec_ok cd" "write_spend cd fault i s db = Ok db'" "spend_in_range s"
  shows "ledger_of cd db' = (ledger_of cd db)(i := map_option (\<lambda>l. l\<lparr>lg_spent := s\<rparr>) (ledger_of cd db i))"
    and "sp_tokens s < 2 ^ 63" "sp_bytes_written s < 2 ^ 63"
proof -
  let ?cols = "\<lparr>sc_tokens = int (sp_tokens s), sc_cost_usd = sp_cost_usd s, sc_tasks = int (sp_tasks s),
    sc_tool_calls = int (sp_tool_calls s), sc_subagents = int (sp_subagents s),
    sc_bytes_written = int (sp_bytes_written s), sc_escalations = int (sp_escalations s)\<rparr>"
  show "sp_tokens s < 2 ^ 63" "sp_bytes_written s < 2 ^ 63"
    using assms(2) by (auto simp: write_spend_def u64_to_sql_def split: if_splits)
  have db': "db' = map_run (fc_uuid_str cd i) (\<lambda>r. r\<lparr>rr_spent := ?cols\<rparr>) db"
    using assms(2) by (auto simp: write_spend_def u64_to_sql_def update_run_Ok split: if_splits)
  have "spend_of_columns ?cols = s"
    using spend_in_rangeD [OF assms(3)] by (simp add: spend_of_columns_def nonneg_def nonneg_u32_int)
  then show "ledger_of cd db' = (ledger_of cd db)(i := map_option (\<lambda>l. l\<lparr>lg_spent := s\<rparr>) (ledger_of cd db i))"
    unfolding db' by (intro ledger_of_map_run assms(1)) (simp_all add: ledger_from_row_def map_sum_bind)
qed

text \<open>
  A limit fits its counter if the counter can exceed it: the 32-bit counters saturate at \<open>2 ^ 32 - 1\<close>,
  so that a limit of that size is never passed.
\<close>

definition limit_fits :: "cap_dim \<Rightarrow> nat \<Rightarrow> bool" where
  "limit_fits d n \<longleftrightarrow> (if width d = 32 then n < 2 ^ 32 - 1 else n < 2 ^ 64)"

definition caps_fit :: "resource_caps \<Rightarrow> bool" where
  "caps_fit c \<longleftrightarrow> (\<forall>d. limit_fits d (cap_of d c))"

lemma saturated_limit_admits: "checked_total 32 (2 ^ 32 - 1) n (2 ^ 32 - 1) field i = Ok (2 ^ 32 - 1)"
  by (simp add: checked_total_def sat_add_def)

lemma new_total_Ok:
  assumes "new_total rnd l caps q = Ok tot"
  shows "spent_of d tot = sat_add (width d) (spent_of d (lg_spent l)) (spent_of d q) \<and> spent_of d tot \<le> cap_of d caps"
  using assms
  by (cases d) (auto simp: new_total_def Let_def checked_total_def split: if_splits)

lemma sat_add_exact: "sat_add w a b < 2 ^ w - 1 \<Longrightarrow> sat_add w a b = a + b"
  by (simp add: sat_add_def min_def split: if_splits)

lemma total_exact:
  assumes "new_total rnd l caps q = Ok tot" "caps_fit caps" "sp_tokens tot < 2 ^ 63" "sp_bytes_written tot < 2 ^ 63"
  shows "spent_of d tot = spent_of d (lg_spent l) + spent_of d q \<and> spent_of d tot \<le> cap_of d caps"
proof -
  note t = new_total_Ok [OF assms(1), of d]
  have "spent_of d tot < 2 ^ width d - 1"
  proof (cases "width d = 32")
    case True
    then show ?thesis using assms(2) t by (auto simp: caps_fit_def limit_fits_def dest: spec [of _ d])
  next
    case False
    then show ?thesis using assms(3,4) by (cases d) auto
  qed
  with t show ?thesis using sat_add_exact by metis
qed

lemma total_in_range:
  assumes "new_total rnd l caps q = Ok tot" "caps_fit caps"
  shows "spend_in_range tot"
  unfolding spend_in_range_def
proof (intro allI impI)
  fix d :: cap_dim assume "width d = 32"
  then show "spent_of d tot < 2 ^ 32"
    using new_total_Ok [OF assms(1), of d] assms(2) by (auto simp: caps_fit_def limit_fits_def dest: spec [of _ d])
qed

text \<open>What an admission does to the ledgers.\<close>

definition admitting :: "run_state \<Rightarrow> admission \<Rightarrow> bool" where
  "admitting st a \<longleftrightarrow> st = RsRunning \<or> st = RsCancelling \<and> a = FinallyBlock"

lemma ensure_admitting_Ok: "ensure_admitting l a = Ok () \<longleftrightarrow> admitting (lg_state l) a"
  by (cases "lg_state l") (auto simp: ensure_admitting_def admitting_def)

lemma admitting_not_terminal: "admitting st a \<Longrightarrow> \<not> run_is_terminal st"
  by (auto simp: admitting_def run_is_terminal_def)

lemma admit_spend_within_Ok:
  assumes cd: "codec_ok cd" and ok: "admit_spend_within rnd cd fault i q now a db = Ok (left, db')"
    and fit: "\<And>l c. ledger_of cd db i = Some l \<Longrightarrow> lg_caps l = Some c \<Longrightarrow> caps_fit c"
  obtains l caps tot where "ledger_of cd db i = Some l" "lg_caps l = Some caps" "admitting (lg_state l) a"
    "\<And>d. spent_of d tot = spent_of d (lg_spent l) + spent_of d q" "\<And>d. spent_of d tot \<le> cap_of d caps"
    "spend_in_range tot" "ledger_of cd db' = (ledger_of cd db)(i \<mapsto> l\<lparr>lg_spent := tot\<rparr>)"
proof -
  from ok obtain l caps tot where l: "ledger_of cd db i = Some l" "lg_caps l = Some caps" "admitting (lg_state l) a"
    and t: "new_total rnd l caps q = Ok tot" and w: "write_spend cd fault i tot db = Ok db'"
    by (auto simp: admit_spend_within_def read_ledger_Ok ensure_admitting_Ok)
  have r: "spend_in_range tot" using total_in_range [OF t fit [OF l(1,2)]] .
  note w' = write_spend_Ok [OF cd w r]
  have "ledger_of cd db' = (ledger_of cd db)(i \<mapsto> l\<lparr>lg_spent := tot\<rparr>)" using w'(1) l(1) by simp
  from that [OF l _ _ r this] total_exact [OF t fit [OF l(1,2)] w'(2,3)] show thesis by blast
qed

lemma stamp_ledger:
  assumes "codec_ok cd"
  shows "ledger_of cd (map_run (fc_uuid_str cd i) (\<lambda>r. r\<lparr>rr_drawn_at := x\<rparr>) db) =
           (ledger_of cd db)(i := map_option (\<lambda>l. l\<lparr>lg_drawn_at := x\<rparr>) (ledger_of cd db i))"
    and "ledger_of cd (map_run (fc_uuid_str cd i) (\<lambda>r. r\<lparr>rr_refunded_at := x\<rparr>) db) =
           (ledger_of cd db)(i := map_option (\<lambda>l. l\<lparr>lg_refunded_at := x\<rparr>) (ledger_of cd db i))"
  by (intro ledger_of_map_run assms; simp add: ledger_from_row_def map_sum_bind)+

lemma draw_child_run_within_Ok:
  assumes cd: "codec_ok cd" and ok: "draw_child_run_within rnd cd fault i now db = Ok (g, db')"
    and c: "ledger_of cd db i = Some c"
    and fit: "\<And>j l k. ledger_of cd db j = Some l \<Longrightarrow> lg_caps l = Some k \<Longrightarrow> caps_fit k"
  obtains p l caps grant tot where "lg_parent_run_id c = Some p" "lg_drawn_at c = None" "lg_refunded_at c = None"
    "lg_caps c = Some grant" "ledger_of cd db p = Some l" "lg_caps l = Some caps" "lg_state l = RsRunning"
    "\<And>d. spent_of d tot = spent_of d (lg_spent l) + cap_of d grant" "\<And>d. spent_of d tot \<le> cap_of d caps"
    "spend_in_range tot"
    "ledger_of cd db' = (let m = (ledger_of cd db)(p \<mapsto> l\<lparr>lg_spent := tot\<rparr>)
                         in m(i := map_option (\<lambda>l. l\<lparr>lg_drawn_at := Some now\<rparr>) (m i)))"
proof -
  from ok c obtain p grant left db1 where p: "lg_parent_run_id c = Some p" "lg_drawn_at c = None" "lg_refunded_at c = None"
      "lg_caps c = Some grant"
    and a: "admit_spend_within rnd cd fault p (spend_for_grant grant) now Ordinary db = Ok (left, db1)"
    and u: "db' = map_run (fc_uuid_str cd i) (\<lambda>r. r\<lparr>rr_drawn_at := Some now\<rparr>) db1"
    by (auto simp: draw_child_run_within_def read_ledger_Ok update_run_Ok split: option.splits)
  obtain l caps tot where l: "ledger_of cd db p = Some l" "lg_caps l = Some caps"
      "admitting (lg_state l) Ordinary" "\<And>d. spent_of d tot = spent_of d (lg_spent l) + spent_of d (spend_for_grant grant)"
      "\<And>d. spent_of d tot \<le> cap_of d caps" "spend_in_range tot" "ledger_of cd db1 = (ledger_of cd db)(p \<mapsto> l\<lparr>lg_spent := tot\<rparr>)"
    by (rule admit_spend_within_Ok [OF cd a]) (erule fit, assumption, blast)
  have "spent_of d (spend_for_grant grant) = cap_of d grant" for d by (cases d) (simp_all add: spend_for_grant_def)
  with l(4) have t: "spent_of d tot = spent_of d (lg_spent l) + cap_of d grant" for d by simp
  have st: "lg_state l = RsRunning" using l(3) by (simp add: admitting_def)
  show thesis
    by (rule that [OF p l(1,2) st t l(5,6)]) (simp add: u stamp_ledger [OF cd] l(7) Let_def)
qed

lemma give_back_spent: "spent_of d (give_back rnd s u) = spent_of d s - spent_of d u"
  by (cases d) (simp_all add: give_back_def)

lemma unspent_spent: "spent_of d (unspent_of rnd grant s) = cap_of d grant - spent_of d s"
  by (cases d) (simp_all add: unspent_of_def)

lemma refund_within_Ok:
  assumes cd: "codec_ok cd" and ok: "refund_within rnd cd fault i now db = Ok (u, db')"
    and range: "\<And>j l. ledger_of cd db j = Some l \<Longrightarrow> spend_in_range (lg_spent l)"
  obtains c p l grant tot where "ledger_of cd db i = Some c" "lg_parent_run_id c = Some p" "run_is_terminal (lg_state c)"
    "lg_drawn_at c \<noteq> None" "lg_refunded_at c = None" "lg_caps c = Some grant" "ledger_of cd db p = Some l"
    "\<And>d. spent_of d tot = spent_of d (lg_spent l) - (cap_of d grant - spent_of d (lg_spent c))" "spend_in_range tot"
    "ledger_of cd db' = (let m = (ledger_of cd db)(p \<mapsto> l\<lparr>lg_spent := tot\<rparr>)
                         in m(i := map_option (\<lambda>l. l\<lparr>lg_refunded_at := Some now\<rparr>) (m i)))"
proof -
  from ok obtain c p grant l db1 where c: "ledger_of cd db i = Some c" "lg_parent_run_id c = Some p"
      "run_is_terminal (lg_state c)" "lg_drawn_at c \<noteq> None" "lg_refunded_at c = None" "lg_caps c = Some grant"
      "ledger_of cd db p = Some l"
    and w: "write_spend cd fault p (give_back rnd (lg_spent l) (unspent_of rnd grant (lg_spent c))) db = Ok db1"
    and u: "db' = map_run (fc_uuid_str cd i) (\<lambda>r. r\<lparr>rr_refunded_at := Some now\<rparr>) db1"
    by (auto simp: refund_within_def read_ledger_Ok update_run_Ok split: option.splits if_splits)
  let ?tot = "give_back rnd (lg_spent l) (unspent_of rnd grant (lg_spent c))"
  have r: "spend_in_range ?tot"
    using range [OF c(7)] by (auto simp: spend_in_range_def give_back_spent intro: le_less_trans diff_le_self)
  show thesis
  proof (rule that [OF c _ r])
    show "spent_of d ?tot = spent_of d (lg_spent l) - (cap_of d grant - spent_of d (lg_spent c))" for d
      by (simp add: give_back_spent unspent_spent)
  qed (simp add: u stamp_ledger [OF cd] write_spend_Ok(1) [OF cd w r] c(7) Let_def)
qed

end
