(* ===== verification/Flow_Runs.thy ===== *)
theory Flow_Runs
  imports Flow_Ledger "HOL-Library.Product_Lexorder" "HOL-Library.List_Lexorder" "HOL-Library.Char_ord"
begin

text \<open>
  \<^verbatim>\<open>roundhouse-flow/src/durability.rs\<close>: the durable state of workflow runs.  Runs, step attempts and
  calls of child workflows are rows of the tables of \<open>Flow_Ledger\<close>; every function is one transaction
  or works inside one.  The state machine of runs, the accounting of parked time, the checkpoint of
  a step and its recovery after a crash, forks, and the claims that elect one continuation of a
  parent call are modelled with all their refusals.
\<close>

subsection \<open>Steps\<close>

datatype step_disposition = SdPure | SdIdempotent | SdEffectful

datatype step_run_state = SsPending | SsRunning | SsCompleted | SsIndeterminate | SsFailed | SsSkipped

datatype crash_policy = CpRerun | CpFail | CpAsk

datatype on_item_error = OieContinue | OieFailFast | OieCollect

datatype map_isolation = MiNone | MiWorktree "string option" | MiSandbox | MiContainer | MiRemote

record caps_def =
  cd_max_cost_usd :: "rat option"
  cd_max_tool_calls :: "nat option"

text \<open>The inner steps of a map are YAML values that are parsed later; their type is a parameter.\<close>

datatype 'yaml step_body =
    SbTool string json
  | SbAgent "string option" "string list" string "json option"
  | SbMap string string nat on_item_error "map_isolation option" "'yaml list"
  | SbGate string json string on_timeout bool
  | SbCall string json
  | SbEmit json
  | SbReport json

record 'yaml step_def =
  sd_id :: string
  sd_when :: "string option"
  sd_needs :: "string list"
  sd_continue_on_error :: bool
  sd_idempotency_key :: "string option"
  sd_on_crash :: "crash_policy option"
  sd_caps :: "caps_def option"
  sd_env :: "(string \<times> string) list option"
  sd_body :: "'yaml step_body"

definition derive_disposition :: "'yaml step_def \<Rightarrow> step_disposition" where
  "derive_disposition step =
     (if sd_idempotency_key step \<noteq> None then SdIdempotent
      else case sd_body step of
             SbTool tool w \<Rightarrow>
               if tool = ''read'' \<or> tool = ''find'' then SdPure
               else if tool = ''http'' then
                 (case index_field w ''method'' of
                    JString m \<Rightarrow> if m = ''GET'' \<or> m = ''HEAD'' then SdPure else SdEffectful
                  | _ \<Rightarrow> SdEffectful)
               else SdEffectful
           | SbGate _ _ _ _ _ \<Rightarrow> SdIdempotent
           | _ \<Rightarrow> SdEffectful)"

fun on_crash_policy :: "step_disposition \<Rightarrow> crash_policy" where
  "on_crash_policy SdPure = CpRerun"
| "on_crash_policy SdIdempotent = CpRerun"
| "on_crash_policy SdEffectful = CpAsk"

definition crash_policy_of :: "'yaml step_def \<Rightarrow> crash_policy" where
  "crash_policy_of step = (case sd_on_crash step of Some p \<Rightarrow> p | None \<Rightarrow> on_crash_policy (derive_disposition step))"

fun disposition_sql :: "step_disposition \<Rightarrow> string" where
  "disposition_sql SdPure = ''pure''"
| "disposition_sql SdIdempotent = ''idempotent''"
| "disposition_sql SdEffectful = ''effectful''"

definition disposition_from_sql :: "string \<Rightarrow> (step_disposition, durability_error) result" where
  "disposition_from_sql s =
     (if s = ''pure'' then Ok SdPure else if s = ''idempotent'' then Ok SdIdempotent
      else if s = ''effectful'' then Ok SdEffectful
      else Err (UnrecognizedDiscriminant ''workflow_step_run.disposition'' s))"

fun step_state_sql :: "step_run_state \<Rightarrow> string" where
  "step_state_sql SsPending = ''pending''"
| "step_state_sql SsRunning = ''running''"
| "step_state_sql SsCompleted = ''completed''"
| "step_state_sql SsIndeterminate = ''indeterminate''"
| "step_state_sql SsFailed = ''failed''"
| "step_state_sql SsSkipped = ''skipped''"

definition step_state_from_sql :: "string \<Rightarrow> (step_run_state, durability_error) result" where
  "step_state_from_sql s =
     (if s = ''pending'' then Ok SsPending else if s = ''running'' then Ok SsRunning
      else if s = ''completed'' then Ok SsCompleted else if s = ''indeterminate'' then Ok SsIndeterminate
      else if s = ''failed'' then Ok SsFailed else if s = ''skipped'' then Ok SsSkipped
      else Err (UnrecognizedDiscriminant ''workflow_step_run.state'' s))"

record step_output =
  so_value :: json
  so_is_secret_derived :: bool

definition value_for_display :: "step_output \<Rightarrow> json option" where
  "value_for_display out = (if so_is_secret_derived out then None else Some (so_value out))"

record step_run =
  st_run_id :: run_id
  st_step_id :: string
  st_attempt :: nat
  st_item_index :: "nat option"
  st_disposition :: step_disposition
  st_step_state :: step_run_state
  st_first_task_seq :: "nat option"
  st_last_task_seq :: "nat option"
  st_output :: "step_output option"
  st_error :: "string option"

definition TOP_LEVEL_ITEM_INDEX :: int where
  "TOP_LEVEL_ITEM_INDEX = -1"

definition item_index_to_sql :: "nat option \<Rightarrow> int" where
  "item_index_to_sql x = (case x of Some i \<Rightarrow> int i | None \<Rightarrow> TOP_LEVEL_ITEM_INDEX)"

definition item_index_from_sql :: "int \<Rightarrow> (nat option, durability_error) result" where
  "item_index_from_sql stored =
     (if stored = TOP_LEVEL_ITEM_INDEX then Ok None
      else if 0 \<le> stored \<and> stored < 2 ^ 32 then Ok (Some (nat stored))
      else Err (ItemIndexOutOfRange stored))"

definition seq_to_sql :: "nat option \<Rightarrow> (int option, durability_error) result" where
  "seq_to_sql x =
     (case x of None \<Rightarrow> Ok None | Some n \<Rightarrow> if n < 2 ^ 63 then Ok (Some (int n)) else Err (SeqOutOfRange n))"

definition seq_from_sql :: "int \<Rightarrow> nat" where
  "seq_from_sql stored = nat stored"

definition MAX_STORED_STEP_ERROR_LEN :: nat where
  "MAX_STORED_STEP_ERROR_LEN = 512"

definition truncate_stored_step_error :: "string \<Rightarrow> string" where
  "truncate_stored_step_error text =
     (if length text \<le> MAX_STORED_STEP_ERROR_LEN then text
      else take (boundary_below text MAX_STORED_STEP_ERROR_LEN) text @ ''... ('' @ decimal (length text) @ '' bytes total)'')"

subsection \<open>Runs\<close>

record workflow_run =
  wr_id :: run_id
  wr_job_id :: job_id
  wr_job_version :: nat
  wr_content_hash :: string
  wr_session_id :: session_id
  wr_binding_id :: "binding_id option"
  wr_trigger_event_id :: "int option"
  wr_state :: run_state
  wr_parent_run_id :: "run_id option"
  wr_forked_from_run_id :: "run_id option"
  wr_awaiting_until :: "int option"
  wr_checkpoint_ref :: "string option"
  wr_checkpoint_blob_ref :: "blob_ref option"
  wr_started_at :: int
  wr_ended_at :: "int option"
  wr_session_depth :: "nat option"
  wr_caps :: "resource_caps option"

fun transition_is_legal :: "run_state \<Rightarrow> run_state \<Rightarrow> bool" where
  "transition_is_legal RsRunning RsPaused = True"
| "transition_is_legal RsRunning RsCancelling = True"
| "transition_is_legal RsRunning RsAwaitingHuman = True"
| "transition_is_legal RsRunning RsCompleted = True"
| "transition_is_legal RsRunning RsFailed = True"
| "transition_is_legal RsPaused RsRunning = True"
| "transition_is_legal RsPaused RsCancelling = True"
| "transition_is_legal RsPaused RsCompleted = True"
| "transition_is_legal RsPaused RsFailed = True"
| "transition_is_legal RsAwaitingHuman RsAwaitingHuman = True"
| "transition_is_legal RsAwaitingHuman RsRunning = True"
| "transition_is_legal RsAwaitingHuman RsCancelling = True"
| "transition_is_legal RsAwaitingHuman RsFailed = True"
| "transition_is_legal RsCancelling RsCancelled = True"
| "transition_is_legal RsCancelling RsFailed = True"
| "transition_is_legal _ _ = False"

definition run_to_row :: "flow_codec \<Rightarrow> workflow_run \<Rightarrow> run_row" where
  "run_to_row cd run =
     \<lparr>rr_id = fc_uuid_str cd (wr_id run), rr_job_id = fc_uuid_str cd (wr_job_id run),
      rr_job_version = wr_job_version run, rr_content_hash = wr_content_hash run,
      rr_session_id = fc_uuid_str cd (wr_session_id run),
      rr_binding_id = map_option (fc_uuid_str cd) (wr_binding_id run),
      rr_trigger_event_id = wr_trigger_event_id run, rr_state = run_state_sql (wr_state run),
      rr_parent_run_id = map_option (fc_uuid_str cd) (wr_parent_run_id run),
      rr_forked_from_run_id = map_option (fc_uuid_str cd) (wr_forked_from_run_id run),
      rr_awaiting_until = wr_awaiting_until run, rr_checkpoint_ref = wr_checkpoint_ref run,
      rr_checkpoint_blob_ref = map_option (fc_blob_str cd) (wr_checkpoint_blob_ref run),
      rr_started_at = wr_started_at run, rr_ended_at = wr_ended_at run,
      rr_session_depth = map_option int (wr_session_depth run),
      rr_caps_json = map_option (fc_caps_str cd) (wr_caps run),
      rr_parked_at = None, rr_hold_until = None, rr_parked_nanos = 0,
      rr_spent = \<lparr>sc_tokens = 0, sc_cost_usd = 0, sc_tasks = 0, sc_tool_calls = 0, sc_subagents = 0,
                  sc_bytes_written = 0, sc_escalations = 0\<rparr>,
      rr_drawn_at = None, rr_refunded_at = None\<rparr>"

definition insert_checked ::
  "rounding \<Rightarrow> flow_codec \<Rightarrow> flow_faults \<Rightarrow> workflow_run \<Rightarrow> flow_db \<Rightarrow> (unit \<times> flow_db, durability_error) result" where
  "insert_checked rnd cd fault run db =
     (if fault FsInsertRun \<or> find_run (fc_uuid_str cd (wr_id run)) db \<noteq> None \<or> \<not> run_row_check (run_to_row cd run) then Err DSqlite
      else let db' = db\<lparr>fd_runs := fd_runs db @ [run_to_row cd run]\<rparr>
           in if wr_parent_run_id run = None then Ok ((), db')
              else wrap_err (ChildDrawRefused (wr_id run))
                     (res_bind (draw_child_run_within rnd cd fault (wr_id run) (wr_started_at run) db') (\<lambda>(_, db''). Ok ((), db''))))"

text \<open>The guards before the insert, the insert with its constraints, and the draw from the parent.\<close>

definition insert_run_row ::
  "rounding \<Rightarrow> flow_codec \<Rightarrow> flow_faults \<Rightarrow> workflow_run \<Rightarrow> flow_db \<Rightarrow> (unit \<times> flow_db, durability_error) result" where
  "insert_run_row rnd cd fault run db =
     (let terminal = run_is_terminal (wr_state run); ended = wr_ended_at run \<noteq> None
      in if terminal \<noteq> ended then Err (TerminalStateEndedAtMismatch (wr_id run) (wr_state run) terminal ended)
         else case wr_caps run of
                Some caps \<Rightarrow> if \<not> is_usable_cost_usd (max_cost_usd caps)
                             then Err (DUnusableCostAmount (wr_id run) (max_cost_usd caps)) else insert_checked rnd cd fault run db
              | None \<Rightarrow> insert_checked rnd cd fault run db)"

definition insert_workflow_run ::
  "rounding \<Rightarrow> flow_codec \<Rightarrow> flow_faults \<Rightarrow> workflow_run \<Rightarrow> flow_db \<Rightarrow> (unit, durability_error) result \<times> flow_db" where
  "insert_workflow_run rnd cd fault run db = run_txn DSqlite fault (insert_run_row rnd cd fault run) db"

subsection \<open>Transitions\<close>

datatype deadline_write = DwLeave | DwSet "int option" "int option" string "blob_ref option"

definition decrement_ref_count :: "flow_faults \<Rightarrow> string \<Rightarrow> flow_db \<Rightarrow> (flow_db, durability_error) result" where
  "decrement_ref_count fault hash db =
     (if fault FsUpdateBlob then Err DSqlite
      else Ok (db\<lparr>fd_blobs := (fd_blobs db)(hash := map_option (\<lambda>n. max (n - 1) 0) (fd_blobs db hash))\<rparr>))"

definition parked_at_after :: "run_state \<Rightarrow> run_state \<Rightarrow> int \<Rightarrow> int option \<Rightarrow> int option" where
  "parked_at_after from to now stored =
     (if from = RsAwaitingHuman \<and> to \<noteq> RsAwaitingHuman then None
      else if to = RsAwaitingHuman then (case stored of Some t \<Rightarrow> Some t | None \<Rightarrow> Some now)
      else stored)"

definition parked_nanos_after :: "run_state \<Rightarrow> run_state \<Rightarrow> int \<Rightarrow> int option \<Rightarrow> int \<Rightarrow> int" where
  "parked_nanos_after from to now parked_at stored =
     (if from = RsAwaitingHuman \<and> to \<noteq> RsAwaitingHuman
      then sat_i64 (stored + (case parked_at of None \<Rightarrow> 0 | Some start \<Rightarrow> max (sat_i64 (now - start)) 0))
      else stored)"

definition release_checkpoint ::
  "flow_codec \<Rightarrow> flow_faults \<Rightarrow> bool \<Rightarrow> string option \<Rightarrow> flow_db \<Rightarrow> (flow_db, durability_error) result" where
  "release_checkpoint cd fault releasing stored db =
     (case stored of
        Some text \<Rightarrow>
          if releasing then
            res_bind (ok_or MalformedStoredOutput (fc_blob_parse cd text)) (\<lambda>blob. decrement_ref_count fault (br_hash blob) db)
          else Ok db
      | None \<Rightarrow> Ok db)"

definition moved_row :: "flow_codec \<Rightarrow> run_state \<Rightarrow> run_state \<Rightarrow> int \<Rightarrow> deadline_write \<Rightarrow> run_row \<Rightarrow> run_row" where
  "moved_row cd from to now deadlines r =
     (let leaving = (from = RsAwaitingHuman \<and> to \<noteq> RsAwaitingHuman);
          (awaiting, hold, ref, blob) =
            (case deadlines of
               DwSet a h c b \<Rightarrow> (a, h, Some c, map_option (fc_blob_str cd) b)
             | DwLeave \<Rightarrow> if leaving then (None, None, None, None)
                          else (rr_awaiting_until r, rr_hold_until r, rr_checkpoint_ref r, rr_checkpoint_blob_ref r))
      in r\<lparr>rr_state := run_state_sql to, rr_ended_at := (if run_is_terminal to then Some now else None),
           rr_awaiting_until := awaiting, rr_hold_until := hold, rr_checkpoint_ref := ref,
           rr_checkpoint_blob_ref := blob, rr_parked_at := parked_at_after from to now (rr_parked_at r),
           rr_parked_nanos := parked_nanos_after from to now (rr_parked_at r) (rr_parked_nanos r)\<rparr>)"

definition check_session :: "flow_codec \<Rightarrow> run_id \<Rightarrow> session_id option \<Rightarrow> string \<Rightarrow> (unit, durability_error) result" where
  "check_session cd run_id expected stored =
     (case expected of
        None \<Rightarrow> Ok ()
      | Some e \<Rightarrow> res_bind (ok_or (DMalformedId ''workflow_run.session_id'') (fc_uuid_parse cd stored)) (\<lambda>sid.
                   if sid \<noteq> e then Err (RunSessionMismatch run_id) else Ok ()))"

definition transition_in_transaction ::
  "flow_codec \<Rightarrow> flow_faults \<Rightarrow> run_id \<Rightarrow> run_state \<Rightarrow> int \<Rightarrow> deadline_write \<Rightarrow> session_id option \<Rightarrow> run_state list option
     \<Rightarrow> flow_db \<Rightarrow> (run_state \<times> flow_db, durability_error) result" where
  "transition_in_transaction cd fault run_id to now deadlines expect_session permitted_from db =
     (if fault FsSelectRun then Err DSqlite
      else case find_run (fc_uuid_str cd run_id) db of
        None \<Rightarrow> Err (DRunNotFound run_id)
      | Some r \<Rightarrow>
          res_bind (run_state_from_sql (rr_state r)) (\<lambda>from.
          res_bind (check_session cd run_id expect_session (rr_session_id r)) (\<lambda>_.
          if \<not> (case permitted_from of None \<Rightarrow> True | Some states \<Rightarrow> from \<in> set states) \<or> \<not> transition_is_legal from to
          then Err (IllegalTransition run_id from to)
          else
            res_bind (release_checkpoint cd fault
                        (from = RsAwaitingHuman \<and> to \<noteq> RsAwaitingHuman \<or> deadlines \<noteq> DwLeave) (rr_checkpoint_blob_ref r) db) (\<lambda>db.
            res_bind (update_run DSqlite fault (fc_uuid_str cd run_id) (moved_row cd from to now deadlines) db) (\<lambda>db.
              Ok (from, db))))))"

definition transition_run ::
  "flow_codec \<Rightarrow> flow_faults \<Rightarrow> run_id \<Rightarrow> run_state \<Rightarrow> int \<Rightarrow> flow_db \<Rightarrow> (run_state, durability_error) result \<times> flow_db" where
  "transition_run cd fault run_id to now db =
     run_txn DSqlite fault (transition_in_transaction cd fault run_id to now DwLeave None None) db"

definition transition_run_from ::
  "flow_codec \<Rightarrow> flow_faults \<Rightarrow> run_id \<Rightarrow> run_state list \<Rightarrow> run_state \<Rightarrow> int \<Rightarrow> flow_db \<Rightarrow> (run_state, durability_error) result \<times> flow_db" where
  "transition_run_from cd fault run_id permitted_from to now db =
     run_txn DSqlite fault (transition_in_transaction cd fault run_id to now DwLeave None (Some permitted_from)) db"

definition transition_run_to_awaiting_human ::
  "flow_codec \<Rightarrow> flow_faults \<Rightarrow> run_id \<Rightarrow> session_id \<Rightarrow> int option \<Rightarrow> int option \<Rightarrow> string \<Rightarrow> blob_ref option \<Rightarrow> int \<Rightarrow> flow_db
     \<Rightarrow> (run_state \<times> flow_db, durability_error) result" where
  "transition_run_to_awaiting_human cd fault run_id session awaiting_until hold_until ref blob now db =
     transition_in_transaction cd fault run_id RsAwaitingHuman now (DwSet awaiting_until hold_until ref blob) (Some session) None db"

subsection \<open>Checkpoints and recovery\<close>

definition step_key :: "step_row \<Rightarrow> string \<times> string \<times> nat \<times> int" where
  "step_key r = (sr_run_id r, sr_step_id r, sr_attempt r, sr_item_index r)"

definition step_row_check :: "step_row \<Rightarrow> bool" where
  "step_row_check r \<longleftrightarrow>
     -1 \<le> sr_item_index r \<and> sr_item_index r < 2 ^ 32 \<and> is_ok (disposition_from_sql (sr_disposition r)) \<and>
     is_ok (step_state_from_sql (sr_state r)) \<and> nonneg_opt (sr_first_task_seq r) \<and> nonneg_opt (sr_last_task_seq r) \<and>
     (sr_output r \<noteq> None \<or> \<not> sr_output_is_secret_derived r)"

definition step_to_row :: "flow_codec \<Rightarrow> run_id \<Rightarrow> step_run \<Rightarrow> int option \<Rightarrow> int option \<Rightarrow> step_row" where
  "step_to_row cd run_id step fs ls =
     \<lparr>sr_run_id = fc_uuid_str cd run_id, sr_step_id = st_step_id step, sr_attempt = st_attempt step,
      sr_item_index = item_index_to_sql (st_item_index step), sr_disposition = disposition_sql (st_disposition step),
      sr_state = step_state_sql (st_step_state step), sr_first_task_seq = fs, sr_last_task_seq = ls,
      sr_output = map_option (\<lambda>out. fc_json_str cd (so_value out)) (st_output step),
      sr_output_is_secret_derived = (case st_output step of None \<Rightarrow> False | Some out \<Rightarrow> so_is_secret_derived out),
      sr_error = map_option truncate_stored_step_error (st_error step)\<rparr>"

text \<open>On a conflict of keys every column is overwritten, but the first task number stays.\<close>

definition merge_row :: "step_row \<Rightarrow> step_row \<Rightarrow> step_row" where
  "merge_row old new =
     new\<lparr>sr_first_task_seq := (case sr_first_task_seq old of Some n \<Rightarrow> Some n | None \<Rightarrow> sr_first_task_seq new)\<rparr>"

fun upsert_step :: "step_row \<Rightarrow> step_row list \<Rightarrow> step_row list" where
  "upsert_step new [] = [new]"
| "upsert_step new (r # rows) = (if step_key r = step_key new then merge_row r new # rows else r # upsert_step new rows)"

definition write_step_row :: "flow_codec \<Rightarrow> flow_faults \<Rightarrow> run_id \<Rightarrow> step_run \<Rightarrow> flow_db \<Rightarrow> (unit \<times> flow_db, durability_error) result" where
  "write_step_row cd fault run_id step db =
     res_bind (seq_to_sql (st_first_task_seq step)) (\<lambda>fs.
     res_bind (seq_to_sql (st_last_task_seq step)) (\<lambda>ls.
       if fault FsWriteStep \<or> \<not> step_row_check (step_to_row cd run_id step fs ls) then Err DSqlite
       else Ok ((), db\<lparr>fd_steps := upsert_step (step_to_row cd run_id step fs ls) (fd_steps db)\<rparr>)))"

definition checkpoint_step_in_transaction ::
  "flow_codec \<Rightarrow> flow_faults \<Rightarrow> step_run \<Rightarrow> flow_db \<Rightarrow> (unit \<times> flow_db, durability_error) result" where
  "checkpoint_step_in_transaction cd fault step db =
     (if fault FsSelectRun then Err DSqlite
      else if find_run (fc_uuid_str cd (st_run_id step)) db = None then Err (DRunNotFound (st_run_id step))
      else write_step_row cd fault (st_run_id step) step db)"

definition checkpoint_step :: "flow_codec \<Rightarrow> flow_faults \<Rightarrow> step_run \<Rightarrow> flow_db \<Rightarrow> (unit, durability_error) result \<times> flow_db" where
  "checkpoint_step cd fault step db = run_txn DSqlite fault (checkpoint_step_in_transaction cd fault step) db"

fun write_step_rows :: "flow_codec \<Rightarrow> flow_faults \<Rightarrow> run_id \<Rightarrow> step_run list \<Rightarrow> flow_db \<Rightarrow> (unit \<times> flow_db, durability_error) result" where
  "write_step_rows cd fault run_id [] db = Ok ((), db)"
| "write_step_rows cd fault run_id (step # steps) db =
     res_bind (write_step_row cd fault run_id step db) (\<lambda>(_, db). write_step_rows cd fault run_id steps db)"

definition fork_run ::
  "rounding \<Rightarrow> flow_codec \<Rightarrow> flow_faults \<Rightarrow> workflow_run \<Rightarrow> step_run list \<Rightarrow> flow_db \<Rightarrow> (unit, durability_error) result \<times> flow_db" where
  "fork_run rnd cd fault fork inherited db =
     run_txn DSqlite fault (\<lambda>db. res_bind (insert_run_row rnd cd fault fork db) (\<lambda>(_, db).
       write_step_rows cd fault (wr_id fork) inherited db)) db"

definition workflow_run_from_row :: "flow_codec \<Rightarrow> run_row \<Rightarrow> (workflow_run, durability_error) result" where
  "workflow_run_from_row cd r =
     (let uuid = fc_uuid_parse cd; bad = (\<lambda>c. DMalformedId (''workflow_run.'' @ c))
      in res_bind (ok_or (bad ''id'') (uuid (rr_id r))) (\<lambda>run_id.
         res_bind (ok_or (bad ''job_id'') (uuid (rr_job_id r))) (\<lambda>job_id.
         res_bind (ok_or (bad ''session_id'') (uuid (rr_session_id r))) (\<lambda>session_id.
         res_bind (parse_opt uuid (bad ''binding_id'') (rr_binding_id r)) (\<lambda>binding_id.
         res_bind (run_state_from_sql (rr_state r)) (\<lambda>st.
         res_bind (parse_opt uuid (bad ''parent_run_id'') (rr_parent_run_id r)) (\<lambda>parent.
         res_bind (parse_opt uuid (bad ''forked_from_run_id'') (rr_forked_from_run_id r)) (\<lambda>forked.
         res_bind (parse_opt (fc_blob_parse cd) MalformedStoredOutput (rr_checkpoint_blob_ref r)) (\<lambda>blob.
         res_bind (session_depth_from_sql (rr_session_depth r)) (\<lambda>depth.
         res_bind (parse_opt (fc_caps_parse cd) (MalformedStoredCaps run_id) (rr_caps_json r)) (\<lambda>caps.
           Ok \<lparr>wr_id = run_id, wr_job_id = job_id, wr_job_version = rr_job_version r, wr_content_hash = rr_content_hash r,
               wr_session_id = session_id, wr_binding_id = binding_id, wr_trigger_event_id = rr_trigger_event_id r,
               wr_state = st, wr_parent_run_id = parent, wr_forked_from_run_id = forked,
               wr_awaiting_until = rr_awaiting_until r, wr_checkpoint_ref = rr_checkpoint_ref r,
               wr_checkpoint_blob_ref = blob, wr_started_at = rr_started_at r, wr_ended_at = rr_ended_at r,
               wr_session_depth = depth, wr_caps = caps\<rparr>)))))))))))"

text \<open>The result of \<^verbatim>\<open>workflow_run_row\<close>, with the missing row as an error.\<close>

definition workflow_run_row :: "flow_codec \<Rightarrow> flow_faults \<Rightarrow> flow_db \<Rightarrow> run_id \<Rightarrow> (workflow_run option, durability_error) result" where
  "workflow_run_row cd fault db run_id =
     (if fault FsSelectRun then Err DSqlite
      else case find_run (fc_uuid_str cd run_id) db of
             None \<Rightarrow> Ok None
           | Some r \<Rightarrow> res_bind (workflow_run_from_row cd r) (\<lambda>w. Ok (Some w)))"

definition step_from_row :: "flow_codec \<Rightarrow> run_id \<Rightarrow> step_row \<Rightarrow> (step_run, durability_error) result" where
  "step_from_row cd run_id r =
     res_bind (disposition_from_sql (sr_disposition r)) (\<lambda>disposition.
     res_bind (step_state_from_sql (sr_state r)) (\<lambda>st.
     res_bind (case sr_output r of
                 None \<Rightarrow> Ok None
               | Some text \<Rightarrow>
                   res_bind (ok_or MalformedStoredOutput (fc_json_parse cd text)) (\<lambda>v.
                     Ok (Some \<lparr>so_value = v, so_is_secret_derived = sr_output_is_secret_derived r\<rparr>))) (\<lambda>out.
     res_bind (item_index_from_sql (sr_item_index r)) (\<lambda>item.
       Ok \<lparr>st_run_id = run_id, st_step_id = sr_step_id r, st_attempt = sr_attempt r, st_item_index = item,
           st_disposition = disposition,
           st_step_state = (if st = SsRunning \<and> disposition = SdEffectful then SsIndeterminate else st),
           st_first_task_seq = map_option seq_from_sql (sr_first_task_seq r),
           st_last_task_seq = map_option seq_from_sql (sr_last_task_seq r), st_output = out, st_error = sr_error r\<rparr>))))"

fun steps_from_rows :: "flow_codec \<Rightarrow> run_id \<Rightarrow> step_row list \<Rightarrow> (step_run list, durability_error) result" where
  "steps_from_rows cd run_id [] = Ok []"
| "steps_from_rows cd run_id (r # rows) =
     res_bind (step_from_row cd run_id r) (\<lambda>s. res_bind (steps_from_rows cd run_id rows) (\<lambda>ss. Ok (s # ss)))"

definition recover_run :: "flow_codec \<Rightarrow> flow_faults \<Rightarrow> flow_db \<Rightarrow> run_id \<Rightarrow> (workflow_run \<times> step_run list, durability_error) result" where
  "recover_run cd fault db run_id =
     res_bind (workflow_run_row cd fault db run_id) (\<lambda>found.
     res_bind (ok_or (DRunNotFound run_id) found) (\<lambda>run.
       if fault FsSelectSteps then Err DSqlite
       else res_bind (steps_from_rows cd run_id (sort_key (\<lambda>r. (sr_step_id r, sr_attempt r, sr_item_index r))
                        (filter (\<lambda>r. sr_run_id r = fc_uuid_str cd run_id) (fd_steps db)))) (\<lambda>steps. Ok (run, steps))))"

definition run_order :: "run_row \<Rightarrow> int \<times> string" where
  "run_order r = (rr_started_at r, rr_id r)"

definition previous_run_for_binding ::
  "flow_codec \<Rightarrow> flow_faults \<Rightarrow> flow_db \<Rightarrow> binding_id \<Rightarrow> run_id \<Rightarrow> (workflow_run option, durability_error) result" where
  "previous_run_for_binding cd fault db binding_id exclude_run_id =
     (if fault FsSelectRun then Err DSqlite
      else let asking = find_run (fc_uuid_str cd exclude_run_id) db;
               rows = filter (\<lambda>r. rr_binding_id r = Some (fc_uuid_str cd binding_id) \<and> rr_id r \<noteq> fc_uuid_str cd exclude_run_id \<and>
                        (case asking of None \<Rightarrow> True | Some a \<Rightarrow> run_order r < run_order a)) (fd_runs db)
           in case rev (sort_key run_order rows) of
                [] \<Rightarrow> Ok None
              | r # _ \<Rightarrow> res_bind (workflow_run_from_row cd r) (\<lambda>w. Ok (Some w)))"

subsection \<open>Calls of child workflows\<close>

datatype child_call_join = JoinPending | Joined nat int

record child_call =
  cc_child_run_id :: run_id
  cc_parent_run_id :: run_id
  cc_parent_step_id :: string
  cc_parent_attempt :: nat
  cc_parent_item_index :: "nat option"
  cc_parent_task_id :: task_id
  cc_join :: child_call_join

fun join_sql :: "child_call_join \<Rightarrow> string" where
  "join_sql JoinPending = ''pending''"
| "join_sql (Joined _ _) = ''joined''"

definition call_to_row :: "flow_codec \<Rightarrow> child_call \<Rightarrow> int option \<Rightarrow> int option \<Rightarrow> call_row" where
  "call_to_row cd call seq joined_at =
     \<lparr>cr_child_run_id = fc_uuid_str cd (cc_child_run_id call), cr_parent_run_id = fc_uuid_str cd (cc_parent_run_id call),
      cr_parent_step_id = cc_parent_step_id call, cr_parent_attempt = cc_parent_attempt call,
      cr_parent_item_index = item_index_to_sql (cc_parent_item_index call),
      cr_parent_task_id = fc_uuid_str cd (cc_parent_task_id call), cr_join_state = join_sql (cc_join call),
      cr_terminal_task_seq = seq, cr_joined_at = joined_at, cr_continuation_state = ''available'', cr_claim_token = None,
      cr_completed_at = None\<rparr>"

text \<open>The constraints of the table: the row's own, and its keys against the other rows.\<close>

definition call_row_check :: "call_row \<Rightarrow> bool" where
  "call_row_check r \<longleftrightarrow>
     cr_parent_attempt r > 0 \<and> -1 \<le> cr_parent_item_index r \<and> cr_parent_item_index r < 2 ^ 32 \<and>
     nonneg_opt (cr_terminal_task_seq r) \<and>
     (cr_join_state r = ''pending'' \<and> cr_terminal_task_seq r = None \<and> cr_joined_at r = None \<or>
      cr_join_state r = ''joined'' \<and> cr_terminal_task_seq r \<noteq> None \<and> cr_joined_at r \<noteq> None) \<and>
     cr_continuation_state r \<in> {''available'', ''claimed'', ''completed''}"

definition call_conflicts :: "call_row \<Rightarrow> call_row \<Rightarrow> bool" where
  "call_conflicts r r' \<longleftrightarrow>
     cr_child_run_id r = cr_child_run_id r' \<or> cr_parent_task_id r = cr_parent_task_id r' \<or>
     (cr_parent_run_id r, cr_parent_step_id r, cr_parent_attempt r, cr_parent_item_index r) =
     (cr_parent_run_id r', cr_parent_step_id r', cr_parent_attempt r', cr_parent_item_index r')"

definition insert_workflow_child_call :: "flow_codec \<Rightarrow> flow_faults \<Rightarrow> child_call \<Rightarrow> flow_db \<Rightarrow> (unit \<times> flow_db, durability_error) result" where
  "insert_workflow_child_call cd fault call db =
     res_bind (case cc_join call of
                 JoinPending \<Rightarrow> Ok (None, None)
               | Joined seq t \<Rightarrow> res_bind (seq_to_sql (Some seq)) (\<lambda>n. Ok (n, Some t))) (\<lambda>(seq, t).
       let row = call_to_row cd call seq t
       in if fault FsInsertCall \<or> \<not> call_row_check row \<or> list_ex (call_conflicts row) (fd_calls db) then Err DSqlite
          else Ok ((), db\<lparr>fd_calls := fd_calls db @ [row]\<rparr>))"

text \<open>\<^verbatim>\<open>UPDATE workflow_child_call\<close>: how many rows it changed, and the table.\<close>

definition update_calls :: "flow_faults \<Rightarrow> (call_row \<Rightarrow> bool) \<Rightarrow> (call_row \<Rightarrow> call_row) \<Rightarrow> flow_db \<Rightarrow> (nat \<times> flow_db, durability_error) result" where
  "update_calls fault P f db =
     (if fault FsUpdateCall \<or> list_ex (\<lambda>r. P r \<and> \<not> call_row_check (f r)) (fd_calls db) then Err DSqlite
      else Ok (length (filter P (fd_calls db)), db\<lparr>fd_calls := map (\<lambda>r. if P r then f r else r) (fd_calls db)\<rparr>))"

definition call_join_from_row :: "call_row \<Rightarrow> (child_call_join, durability_error) result" where
  "call_join_from_row r =
     (if cr_join_state r = ''pending'' \<and> cr_terminal_task_seq r = None \<and> cr_joined_at r = None then Ok JoinPending
      else if cr_join_state r = ''joined'' then
        (case cr_terminal_task_seq r of
           None \<Rightarrow> Err (UnrecognizedDiscriminant ''workflow_child_call.join_state'' (cr_join_state r))
         | Some n \<Rightarrow>
             if n < 0 then Err (UnrecognizedDiscriminant ''workflow_child_call.terminal_task_seq'' ''negative'')
             else (case cr_joined_at r of
                     None \<Rightarrow> Err (UnrecognizedDiscriminant ''workflow_child_call.join_state'' ''joined without joined_at'')
                   | Some t \<Rightarrow> Ok (Joined (nat n) t)))
      else Err (UnrecognizedDiscriminant ''workflow_child_call.join_state'' (cr_join_state r)))"

definition workflow_child_call_for_child_run ::
  "flow_codec \<Rightarrow> flow_faults \<Rightarrow> flow_db \<Rightarrow> run_id \<Rightarrow> (child_call option, durability_error) result" where
  "workflow_child_call_for_child_run cd fault db child_run_id =
     (if fault FsSelectCall then Err DSqlite
      else case List.find (\<lambda>r. cr_child_run_id r = fc_uuid_str cd child_run_id) (fd_calls db) of
        None \<Rightarrow> Ok None
      | Some r \<Rightarrow>
          res_bind (ok_or (DMalformedId ''workflow_child_call.parent_run_id'') (fc_uuid_parse cd (cr_parent_run_id r))) (\<lambda>parent.
          res_bind (ok_or (DMalformedId ''workflow_child_call.parent_task_id'') (fc_uuid_parse cd (cr_parent_task_id r))) (\<lambda>task.
          res_bind (call_join_from_row r) (\<lambda>join.
          res_bind (item_index_from_sql (cr_parent_item_index r)) (\<lambda>item.
            Ok (Some \<lparr>cc_child_run_id = child_run_id, cc_parent_run_id = parent, cc_parent_step_id = cr_parent_step_id r,
                      cc_parent_attempt = cr_parent_attempt r, cc_parent_item_index = item, cc_parent_task_id = task,
                      cc_join = join\<rparr>))))))"

definition mark_workflow_child_call_joined ::
  "flow_codec \<Rightarrow> flow_faults \<Rightarrow> run_id \<Rightarrow> nat \<Rightarrow> int \<Rightarrow> flow_db \<Rightarrow> (bool \<times> flow_db, durability_error) result" where
  "mark_workflow_child_call_joined cd fault child_run_id terminal_task_seq joined_at db =
     res_bind (seq_to_sql (Some terminal_task_seq)) (\<lambda>seq.
     res_bind (update_calls fault (\<lambda>r. cr_child_run_id r = fc_uuid_str cd child_run_id \<and> cr_join_state r = ''pending'')
                (\<lambda>r. r\<lparr>cr_join_state := ''joined'', cr_terminal_task_seq := seq, cr_joined_at := Some joined_at\<rparr>) db) (\<lambda>(n, db).
       Ok (n = 1, db)))"

text \<open>The fresh token of a claim is an argument.\<close>

definition claim_workflow_child_continuation ::
  "flow_codec \<Rightarrow> flow_faults \<Rightarrow> nat \<Rightarrow> run_id \<Rightarrow> flow_db \<Rightarrow> ((child_call \<times> nat) option \<times> flow_db, durability_error) result" where
  "claim_workflow_child_continuation cd fault token child_run_id db =
     res_bind (update_calls fault (\<lambda>r. cr_child_run_id r = fc_uuid_str cd child_run_id \<and> cr_continuation_state r = ''available'')
                (\<lambda>r. r\<lparr>cr_continuation_state := ''claimed'', cr_claim_token := Some (fc_uuid_str cd token)\<rparr>) db) (\<lambda>(n, db).
       if n = 0 then Ok (None, db)
       else res_bind (workflow_child_call_for_child_run cd fault db child_run_id) (\<lambda>found.
            res_bind (ok_or (DRunNotFound child_run_id) found) (\<lambda>call. Ok (Some (call, token), db))))"

definition claimed_by :: "flow_codec \<Rightarrow> run_id \<Rightarrow> nat \<Rightarrow> call_row \<Rightarrow> bool" where
  "claimed_by cd child_run_id token r \<longleftrightarrow>
     cr_child_run_id r = fc_uuid_str cd child_run_id \<and> cr_continuation_state r = ''claimed'' \<and>
     cr_claim_token r = Some (fc_uuid_str cd token)"

definition release_workflow_child_continuation ::
  "flow_codec \<Rightarrow> flow_faults \<Rightarrow> run_id \<Rightarrow> nat \<Rightarrow> flow_db \<Rightarrow> (unit \<times> flow_db, durability_error) result" where
  "release_workflow_child_continuation cd fault child_run_id token db =
     res_bind (update_calls fault (claimed_by cd child_run_id token)
                (\<lambda>r. r\<lparr>cr_continuation_state := ''available'', cr_claim_token := None\<rparr>) db) (\<lambda>(_, db). Ok ((), db))"

definition release_incomplete_at_boot :: "flow_faults \<Rightarrow> flow_db \<Rightarrow> (nat \<times> flow_db, durability_error) result" where
  "release_incomplete_at_boot fault db =
     update_calls fault (\<lambda>r. cr_continuation_state r = ''claimed'')
       (\<lambda>r. r\<lparr>cr_continuation_state := ''available'', cr_claim_token := None\<rparr>) db"

definition complete_workflow_child_continuation ::
  "flow_codec \<Rightarrow> flow_faults \<Rightarrow> run_id \<Rightarrow> nat \<Rightarrow> int \<Rightarrow> flow_db \<Rightarrow> (bool \<times> flow_db, durability_error) result" where
  "complete_workflow_child_continuation cd fault child_run_id token now db =
     res_bind (update_calls fault (claimed_by cd child_run_id token)
                (\<lambda>r. r\<lparr>cr_continuation_state := ''completed'', cr_claim_token := None, cr_completed_at := Some now\<rparr>) db) (\<lambda>(n, db).
       Ok (n = 1, db))"

subsection \<open>What a run's ledger shows of each operation\<close>

lemma run_state_roundtrip [simp]: "run_state_from_sql (run_state_sql st) = Ok st"
  by (cases st) (simp_all add: run_state_from_sql_def)

lemma legal_not_from_terminal: "transition_is_legal from to \<Longrightarrow> \<not> run_is_terminal from"
  by (cases "from"; cases to) (auto simp: run_is_terminal_def)

lemma ledger_of_cong: "fd_runs db' = fd_runs db \<Longrightarrow> ledger_of cd db' = ledger_of cd db"
  by (simp add: ledger_of_def find_run_def fun_eq_iff)

lemma ledger_of_row: "ledger_of cd db i = Some l \<Longrightarrow> find_run (fc_uuid_str cd i) db \<noteq> None"
  by (auto simp: ledger_of_Some)

lemma release_checkpoint_runs:
  "release_checkpoint cd fault b stored db = Ok db' \<Longrightarrow> fd_runs db' = fd_runs db \<and> fd_steps db' = fd_steps db \<and> fd_calls db' = fd_calls db"
  by (auto simp: release_checkpoint_def decrement_ref_count_def split: option.splits if_splits)

definition moved_ledger :: "run_state \<Rightarrow> run_state \<Rightarrow> int \<Rightarrow> run_row \<Rightarrow> run_ledger \<Rightarrow> run_ledger" where
  "moved_ledger from to now r' l =
     l\<lparr>lg_state := to, lg_ended_at := (if run_is_terminal to then Some now else None),
       lg_parked_at := parked_at_after from to now (lg_parked_at l), lg_hold_until := rr_hold_until r',
       lg_parked_nanos := nonneg (rr_parked_nanos r')\<rparr>"

lemma moved_row_simps [simp]:
  "rr_id (moved_row cd from to now dl r) = rr_id r"
  "rr_state (moved_row cd from to now dl r) = run_state_sql to"
  "rr_ended_at (moved_row cd from to now dl r) = (if run_is_terminal to then Some now else None)"
  "rr_parked_at (moved_row cd from to now dl r) = parked_at_after from to now (rr_parked_at r)"
  "rr_parked_nanos (moved_row cd from to now dl r) = parked_nanos_after from to now (rr_parked_at r) (rr_parked_nanos r)"
  "rr_parent_run_id (moved_row cd from to now dl r) = rr_parent_run_id r"
  "rr_caps_json (moved_row cd from to now dl r) = rr_caps_json r"
  "rr_session_depth (moved_row cd from to now dl r) = rr_session_depth r"
  "rr_started_at (moved_row cd from to now dl r) = rr_started_at r"
  "rr_spent (moved_row cd from to now dl r) = rr_spent r"
  "rr_drawn_at (moved_row cd from to now dl r) = rr_drawn_at r"
  "rr_refunded_at (moved_row cd from to now dl r) = rr_refunded_at r"
  by (simp_all add: moved_row_def Let_def split: deadline_write.splits prod.splits)

lemma moved_row_decodes:
  assumes "run_state_from_sql (rr_state r) = Ok from"
  shows "ledger_from_row cd (moved_row cd from to now dl r) =
           map_sum id (moved_ledger from to now (moved_row cd from to now dl r)) (ledger_from_row cd r)"
  by (simp add: ledger_from_row_def map_sum_bind assms moved_ledger_def)

lemma transition_Ok:
  assumes cd: "codec_ok cd" and ok: "transition_in_transaction cd fault i to now dl sess perm db = Ok (from, db')"
  obtains r where "find_run (fc_uuid_str cd i) db = Some r" "run_state_from_sql (rr_state r) = Ok from"
    "transition_is_legal from to" "run_row_check (moved_row cd from to now dl r)"
    "fd_runs db' = fd_runs (map_run (fc_uuid_str cd i) (moved_row cd from to now dl) db)"
    "fd_steps db' = fd_steps db" "fd_calls db' = fd_calls db"
    "ledger_of cd db' = (ledger_of cd db)(i := map_option (moved_ledger from to now (moved_row cd from to now dl r)) (ledger_of cd db i))"
proof -
  from ok obtain r db1 where r: "find_run (fc_uuid_str cd i) db = Some r" "run_state_from_sql (rr_state r) = Ok from"
      "transition_is_legal from to"
    and rel: "release_checkpoint cd fault (from = RsAwaitingHuman \<and> to \<noteq> RsAwaitingHuman \<or> dl \<noteq> DwLeave) (rr_checkpoint_blob_ref r) db = Ok db1"
    and upd: "update_run (DSqlite :: durability_error) fault (fc_uuid_str cd i) (moved_row cd from to now dl) db1 = Ok db'"
    by (auto simp: transition_in_transaction_def split: option.splits if_splits)
  note same = release_checkpoint_runs [OF rel]
  have runs: "fd_runs db' = fd_runs (map_run (fc_uuid_str cd i) (moved_row cd from to now dl) db)"
    using upd same by (simp add: update_run_Ok map_run_def)
  have "r \<in> set (fd_runs db)" "rr_id r = fc_uuid_str cd i" using r(1) by (auto simp: find_run_def find_Some_iff)
  then have chk: "run_row_check (moved_row cd from to now dl r)" using upd same by (simp add: update_run_Ok)
  have "ledger_of cd db' = ledger_of cd (map_run (fc_uuid_str cd i) (moved_row cd from to now dl) db)"
    by (rule ledger_of_cong [OF runs])
  also have "\<dots> = (ledger_of cd db)(i := map_option (moved_ledger from to now (moved_row cd from to now dl r)) (ledger_of cd db i))"
    by (rule ledger_of_map_run [OF cd]) (use r moved_row_decodes in auto)
  finally show thesis
    using that r chk runs upd same by (simp add: update_run_Ok map_run_def)
qed

lemma map_sum_run_txn:
  "run_txn sq fault body db = (res, db') \<Longrightarrow> db' = db \<or> (\<exists>a. body db = Ok (a, db') \<and> res = Ok a)"
  by (auto simp: run_txn_def split: if_splits sum.splits)

text \<open>A new run's ledger.\<close>

definition fresh_ledger :: "flow_codec \<Rightarrow> workflow_run \<Rightarrow> run_ledger" where
  "fresh_ledger cd run =
     \<lparr>lg_run_id = wr_id run, lg_state = wr_state run, lg_parent_run_id = wr_parent_run_id run,
      lg_started_at = wr_started_at run, lg_ended_at = wr_ended_at run, lg_parked_at = None, lg_hold_until = None,
      lg_parked_nanos = 0, lg_session_depth = wr_session_depth run,
      lg_caps = Option.bind (wr_caps run) (\<lambda>c. fc_caps_parse cd (fc_caps_str cd c)),
      lg_spent = \<lparr>sp_tokens = 0, sp_cost_usd = 0, sp_tasks = 0, sp_tool_calls = 0, sp_subagents = 0,
                  sp_bytes_written = 0, sp_escalations = 0\<rparr>,
      lg_drawn_at = None, lg_refunded_at = None\<rparr>"

lemma parse_opt_map: "(\<And>x. p (f x) = Some x) \<Longrightarrow> parse_opt p e (map_option f x) = Ok x"
  by (cases x) (simp_all add: parse_opt_def)

lemma fresh_row_decodes:
  assumes cd: "codec_ok cd" and chk: "run_row_check (run_to_row cd run)"
  shows "ledger_from_row cd (run_to_row cd run) = Ok (fresh_ledger cd run)"
proof -
  have uuid: "fc_uuid_parse cd (fc_uuid_str cd i) = Some i" for i using cd by (simp add: codec_ok_def)
  have caps: "parse_opt (fc_caps_parse cd) e (map_option (fc_caps_str cd) c) =
      Ok (Option.bind c (\<lambda>c. fc_caps_parse cd (fc_caps_str cd c)))" for c e
  proof (cases c)
    case (Some caps)
    obtain c' where "fc_caps_parse cd (fc_caps_str cd caps) = Some c'" using cd unfolding codec_ok_def by blast
    with Some show ?thesis by (simp add: parse_opt_def)
  qed (simp add: parse_opt_def)
  have depth: "session_depth_from_sql (map_option int (wr_session_depth run)) = Ok (wr_session_depth run)"
    using chk by (cases "wr_session_depth run") (simp_all add: run_row_check_def run_to_row_def session_depth_from_sql_def)
  show ?thesis
    unfolding ledger_from_row_def run_to_row_def run_row.simps parse_opt_map [of "fc_uuid_parse cd" "fc_uuid_str cd", OF uuid] caps depth
      run_state_roundtrip uuid ok_or_def option.case res_bind.simps fresh_ledger_def
    by (simp add: spend_of_columns_def nonneg_def nonneg_u32_def)
qed

lemma find_run_snoc:
  "find_run k (db\<lparr>fd_runs := fd_runs db @ [x]\<rparr>) =
     (case find_run k db of Some r \<Rightarrow> Some r | None \<Rightarrow> if rr_id x = k then Some x else None)"
proof -
  have "List.find P (rows @ [x]) = (case List.find P rows of Some r \<Rightarrow> Some r | None \<Rightarrow> if P x then Some x else None)" for P rows
    by (induction rows) auto
  from this [of "\<lambda>r. rr_id r = k" "fd_runs db"] show ?thesis by (simp add: find_run_def)
qed

lemma insert_row_ledger:
  assumes "codec_ok cd" "find_run (fc_uuid_str cd (wr_id run)) db = None" "run_row_check (run_to_row cd run)"
  shows "ledger_of cd (db\<lparr>fd_runs := fd_runs db @ [run_to_row cd run]\<rparr>) = (ledger_of cd db)(wr_id run \<mapsto> fresh_ledger cd run)"
proof
  fix i
  have "rr_id (run_to_row cd run) = fc_uuid_str cd (wr_id run)" by (simp add: run_to_row_def)
  then show "ledger_of cd (db\<lparr>fd_runs := fd_runs db @ [run_to_row cd run]\<rparr>) i = ((ledger_of cd db)(wr_id run \<mapsto> fresh_ledger cd run)) i"
    using assms(2) fresh_row_decodes [OF assms(1,3)] uuid_str_inj [OF assms(1), of "wr_id run" i]
    by (auto simp: ledger_of_def find_run_snoc split: option.splits)
qed

subsection \<open>Runs in order, and the operations as steps of the tree ledger\<close>

definition run_ok :: "run_ledger \<Rightarrow> bool" where
  "run_ok l \<longleftrightarrow>
     (lg_ended_at l \<noteq> None \<longleftrightarrow> run_is_terminal (lg_state l)) \<and>
     (lg_parked_at l \<noteq> None \<longrightarrow> lg_state l = RsAwaitingHuman) \<and>
     (lg_refunded_at l \<noteq> None \<longrightarrow> run_is_terminal (lg_state l)) \<and>
     (lg_parent_run_id l \<noteq> None \<longrightarrow> lg_drawn_at l \<noteq> None) \<and>
     (\<forall>c. lg_caps l = Some c \<longrightarrow> caps_fit c) \<and> spend_in_range (lg_spent l)"

definition runs_ok :: "flow_codec \<Rightarrow> flow_db \<Rightarrow> bool" where
  "runs_ok cd db \<longleftrightarrow> (\<forall>i l. ledger_of cd db i = Some l \<longrightarrow> run_ok l)"

lemma runs_okD: "runs_ok cd db \<Longrightarrow> ledger_of cd db i = Some l \<Longrightarrow> run_ok l"
  by (simp add: runs_ok_def)

lemma tree_of_upd: "ledger_of cd db' = (ledger_of cd db)(i \<mapsto> l) \<Longrightarrow> tree_of cd db' = (tree_of cd db)(i \<mapsto> entry_of l)"
  by (simp add: tree_of_def fun_eq_iff)

lemma tree_of_upd2:
  "ledger_of cd db' = (ledger_of cd db)(i \<mapsto> l, j \<mapsto> m) \<Longrightarrow> tree_of cd db' = (tree_of cd db)(i \<mapsto> entry_of l, j \<mapsto> entry_of m)"
  by (simp add: tree_of_def fun_eq_iff)

lemma tree_of_Some: "ledger_of cd db i = Some l \<Longrightarrow> tree_of cd db i = Some (entry_of l)"
  by (simp add: tree_of_def)

lemma entry_of_spend: "entry_of (l\<lparr>lg_spent := s\<rparr>) = (entry_of l)\<lparr>re_spent := \<lambda>d. spent_of d s\<rparr>"
  by (simp add: entry_of_def)

lemma run_ok_spend: "run_ok l \<Longrightarrow> spend_in_range s \<Longrightarrow> run_ok (l\<lparr>lg_spent := s\<rparr>)"
  by (simp add: run_ok_def)

lemma admit_step:
  assumes cd: "codec_ok cd" and inv: "runs_ok cd db" and ok: "admit_spend_within rnd cd fault i q now a db = Ok (left, db')"
  shows "runs_ok cd db' \<and> tree_step (tree_of cd db) (Some (i, \<lambda>d. spent_of d q)) (tree_of cd db')"
proof -
  have fit: "caps_fit c" if "ledger_of cd db i = Some l" "lg_caps l = Some c" for l c
    using runs_okD [OF inv that(1)] that(2) by (simp add: run_ok_def)
  obtain l caps tot where l: "ledger_of cd db i = Some l" "lg_caps l = Some caps" "admitting (lg_state l) a"
      "\<And>d. spent_of d tot = spent_of d (lg_spent l) + spent_of d q" "\<And>d. spent_of d tot \<le> cap_of d caps"
      "spend_in_range tot" "ledger_of cd db' = (ledger_of cd db)(i \<mapsto> l\<lparr>lg_spent := tot\<rparr>)"
    by (rule admit_spend_within_Ok [OF cd ok]) (erule fit, assumption, blast)
  have inv': "runs_ok cd db'"
    using inv run_ok_spend [OF runs_okD [OF inv l(1)] l(6)] by (auto simp: runs_ok_def l(7))
  let ?e = "entry_of l"
  have "tree_step (tree_of cd db) (Some (i, \<lambda>d. spent_of d q))
      ((tree_of cd db)(i \<mapsto> ?e\<lparr>re_spent := \<lambda>d. re_spent ?e d + spent_of d q\<rparr>))"
    by (rule tree_step.admit [of "tree_of cd db" i, OF tree_of_Some [OF l(1)]])
       (use admitting_not_terminal [OF l(3)] l(2,4,5) in \<open>simp_all add: entry_of_def flip: l(4)\<close>)
  then have "tree_step (tree_of cd db) (Some (i, \<lambda>d. spent_of d q)) (tree_of cd db')"
    by (simp add: tree_of_upd [OF l(7)] entry_of_spend l(4)) (simp add: entry_of_def)
  with inv' show ?thesis by blast
qed

lemma transition_step:
  assumes cd: "codec_ok cd" and inv: "runs_ok cd db"
    and ok: "transition_in_transaction cd fault i to now dl sess perm db = Ok (from, db')"
  shows "runs_ok cd db' \<and> tree_step (tree_of cd db) None (tree_of cd db')"
proof -
  obtain r where r: "find_run (fc_uuid_str cd i) db = Some r" "run_state_from_sql (rr_state r) = Ok from" "transition_is_legal from to"
    and led: "ledger_of cd db' = (ledger_of cd db)(i := map_option (moved_ledger from to now (moved_row cd from to now dl r)) (ledger_of cd db i))"
    by (rule transition_Ok [OF cd ok])
  show ?thesis
  proof (cases "ledger_of cd db i")
    case None
    with led have "ledger_of cd db' = ledger_of cd db" by (simp add: fun_upd_idem)
    with inv show ?thesis using tree_step.idle by (simp add: runs_ok_def tree_of_def)
  next
    case (Some l)
    let ?m = "moved_ledger from to now (moved_row cd from to now dl r) l"
    have st: "lg_state l = from" using Some r by (auto simp: ledger_of_Some ledger_from_row_def)
    note okl = runs_okD [OF inv Some]
    have nt: "\<not> run_is_terminal from" by (rule legal_not_from_terminal [OF r(3)])
    have okm: "run_ok ?m"
      using okl nt st by (auto simp: run_ok_def moved_ledger_def parked_at_after_def)
    have led': "ledger_of cd db' = (ledger_of cd db)(i \<mapsto> ?m)" using led Some by simp
    have "entry_of ?m = (entry_of l)\<lparr>re_final := run_is_terminal to\<rparr>" by (simp add: entry_of_def moved_ledger_def)
    moreover have "tree_step (tree_of cd db) None ((tree_of cd db)(i \<mapsto> (entry_of l)\<lparr>re_final := run_is_terminal to\<rparr>))"
      by (rule tree_step.move [of "tree_of cd db" i, OF tree_of_Some [OF Some]]) (use nt st in \<open>simp add: entry_of_def\<close>)
    ultimately show ?thesis
      using inv okm by (auto simp: tree_of_upd [OF led'] runs_ok_def led')
  qed
qed

lemma refund_step:
  assumes cd: "codec_ok cd" and inv: "runs_ok cd db" and tree: "tree_ok (tree_of cd db) adm"
    and ok: "refund_within rnd cd fault i now db = Ok (u, db')"
  shows "runs_ok cd db' \<and> tree_step (tree_of cd db) None (tree_of cd db')"
proof -
  have range: "spend_in_range (lg_spent l)" if "ledger_of cd db j = Some l" for j l
    using runs_okD [OF inv that] by (simp add: run_ok_def)
  obtain c p l grant tot where c: "ledger_of cd db i = Some c" "lg_parent_run_id c = Some p" "run_is_terminal (lg_state c)"
      "lg_drawn_at c \<noteq> None" "lg_refunded_at c = None" "lg_caps c = Some grant" "ledger_of cd db p = Some l"
    and t: "\<And>d. spent_of d tot = spent_of d (lg_spent l) - (cap_of d grant - spent_of d (lg_spent c))" "spend_in_range tot"
    and led: "ledger_of cd db' = (let m = (ledger_of cd db)(p \<mapsto> l\<lparr>lg_spent := tot\<rparr>)
                         in m(i := map_option (\<lambda>l. l\<lparr>lg_refunded_at := Some now\<rparr>) (m i)))"
    by (rule refund_within_Ok [OF cd ok]) (erule range, blast)
  have pi: "p \<noteq> i" using tree_okE(4) [OF tree tree_of_Some [OF c(1)]] c(2) by (simp add: entry_of_def)
  let ?c' = "c\<lparr>lg_refunded_at := Some now\<rparr>"
  have led': "ledger_of cd db' = (ledger_of cd db)(p \<mapsto> l\<lparr>lg_spent := tot\<rparr>, i \<mapsto> ?c')"
    using led c(1) pi by (simp add: Let_def)
  have "run_ok ?c'" using runs_okD [OF inv c(1)] c(3) by (simp add: run_ok_def)
  then have inv': "runs_ok cd db'"
    using inv run_ok_spend [OF runs_okD [OF inv c(7)] t(2)] by (auto simp: runs_ok_def led')
  let ?e = "entry_of c" and ?pe = "entry_of l"
  have "tree_step (tree_of cd db) None ((tree_of cd db)
      (p \<mapsto> ?pe\<lparr>re_spent := \<lambda>d. re_spent ?pe d - (re_grant ?e d - re_spent ?e d)\<rparr>, i \<mapsto> ?e\<lparr>re_settled := True\<rparr>))"
    by (rule tree_step.settle [of "tree_of cd db" i, OF tree_of_Some [OF c(1)] _ pi _ _ tree_of_Some [OF c(7)]]) (use c in \<open>simp_all add: entry_of_def\<close>)
  moreover have "entry_of ?c' = ?e\<lparr>re_settled := True\<rparr>" by (simp add: entry_of_def)
  moreover have "entry_of (l\<lparr>lg_spent := tot\<rparr>) = ?pe\<lparr>re_spent := \<lambda>d. re_spent ?pe d - (re_grant ?e d - re_spent ?e d)\<rparr>"
    using c(6) by (simp add: entry_of_spend t(1)) (simp add: entry_of_def)
  ultimately show ?thesis using inv' by (simp add: tree_of_upd2 [OF led'])
qed

text \<open>The grant that a new run's row shows counts the same as the grant it was given.\<close>

lemma stored_caps:
  assumes "codec_ok cd" "Option.bind x (\<lambda>c. fc_caps_parse cd (fc_caps_str cd c)) = Some c'" "\<And>c. x = Some c \<Longrightarrow> caps_fit c"
  shows "caps_fit c'"
proof -
  obtain c where c: "x = Some c" "fc_caps_parse cd (fc_caps_str cd c) = Some c'" using assms(2) by (cases x) auto
  obtain c'' where "fc_caps_parse cd (fc_caps_str cd c) = Some c''" "\<forall>d. cap_of d c'' = cap_of d c"
    using assms(1) unfolding codec_ok_def by blast
  with c have "cap_of d c' = cap_of d c" for d by simp
  with assms(3) [OF c(1)] show ?thesis by (simp add: caps_fit_def)
qed

lemma insert_step:
  assumes cd: "codec_ok cd" and inv: "runs_ok cd db" and ok: "insert_run_row rnd cd fault run db = Ok (x, db')"
    and self: "wr_parent_run_id run \<noteq> Some (wr_id run)" and caps: "\<And>c. wr_caps run = Some c \<Longrightarrow> caps_fit c"
  shows "runs_ok cd db' \<and> tree_step (tree_of cd db) None (tree_of cd db')"
proof -
  let ?f = "fresh_ledger cd run" and ?db = "db\<lparr>fd_runs := fd_runs db @ [run_to_row cd run]\<rparr>"
  from ok have ended: "run_is_terminal (wr_state run) \<longleftrightarrow> wr_ended_at run \<noteq> None"
    and ins: "insert_checked rnd cd fault run db = Ok (x, db')"
    by (auto simp: insert_run_row_def Let_def split: if_splits option.splits)
  from ins have new: "find_run (fc_uuid_str cd (wr_id run)) db = None" and chk: "run_row_check (run_to_row cd run)"
    by (auto simp: insert_checked_def split: if_splits)
  note led = insert_row_ledger [OF cd new chk]
  have none: "ledger_of cd db (wr_id run) = None" using new by (simp add: ledger_of_def)
  have range: "spend_in_range (lg_spent ?f)"
    unfolding spend_in_range_def
  proof (intro allI impI)
    fix d show "spent_of d (lg_spent ?f) < 2 ^ 32" by (cases d) (simp_all add: fresh_ledger_def)
  qed
  have fit: "caps_fit c" if "lg_caps ?f = Some c" for c
    using stored_caps [OF cd _ caps, of "wr_caps run"] that by (simp add: fresh_ledger_def)
  have okf: "run_ok (?f\<lparr>lg_drawn_at := t\<rparr>)" if "wr_parent_run_id run \<noteq> None \<longrightarrow> t \<noteq> None" for t
    using that ended fit range by (auto simp: run_ok_def fresh_ledger_def)
  have e0: "re_spent (entry_of (?f\<lparr>lg_drawn_at := t\<rparr>)) = (\<lambda>_. 0)" for t
  proof
    fix d show "re_spent (entry_of (?f\<lparr>lg_drawn_at := t\<rparr>)) d = 0" by (cases d) (simp_all add: entry_of_def fresh_ledger_def)
  qed
  have t0: "tree_of cd db (wr_id run) = None" by (simp add: tree_of_def none)
  show ?thesis
  proof (cases "wr_parent_run_id run")
    case None
    with ins have db': "db' = ?db" by (auto simp: insert_checked_def Let_def split: if_splits)
    have f: "?f = ?f\<lparr>lg_drawn_at := None\<rparr>" by (simp add: fresh_ledger_def)
    have "tree_step (tree_of cd db) None ((tree_of cd db)(wr_id run \<mapsto> entry_of ?f))"
      by (rule tree_step.open_root [of "tree_of cd db" "wr_id run", OF t0])
         (use None e0 [of None] f in \<open>simp_all add: entry_of_def fresh_ledger_def\<close>)
    with inv okf [of None] None f show ?thesis
      by (auto simp: db' tree_of_upd [OF led] runs_ok_def led)
  next
    case (Some p)
    with ins obtain g where draw: "draw_child_run_within rnd cd fault (wr_id run) (wr_started_at run) ?db = Ok (g, db')"
      by (auto simp: insert_checked_def Let_def wrap_err_def split: if_splits sum.splits)
    have c: "ledger_of cd ?db (wr_id run) = Some ?f" by (simp add: led)
    have fits: "caps_fit k" if "ledger_of cd ?db j = Some l" "lg_caps l = Some k" for j l k
      using that fit runs_okD [OF inv] by (auto simp: led run_ok_def split: if_splits)
    obtain q l caps grant tot where q: "lg_parent_run_id ?f = Some q" "lg_caps ?f = Some grant"
        "ledger_of cd ?db q = Some l" "lg_caps l = Some caps" "lg_state l = RsRunning"
      and t: "\<And>d. spent_of d tot = spent_of d (lg_spent l) + cap_of d grant" "\<And>d. spent_of d tot \<le> cap_of d caps" "spend_in_range tot"
      and led2: "ledger_of cd db' = (let m = (ledger_of cd ?db)(q \<mapsto> l\<lparr>lg_spent := tot\<rparr>)
                         in m(wr_id run := map_option (\<lambda>l. l\<lparr>lg_drawn_at := Some (wr_started_at run)\<rparr>) (m (wr_id run))))"
      by (rule draw_child_run_within_Ok [OF cd draw c]) (erule fits, assumption, blast)
    have "q = p" using q(1) Some by (simp add: fresh_ledger_def)
    with self Some have qi: "q \<noteq> wr_id run" by simp
    then have l: "ledger_of cd db q = Some l" using q(3) by (simp add: led)
    let ?c = "?f\<lparr>lg_drawn_at := Some (wr_started_at run)\<rparr>"
    have led3: "ledger_of cd db' = (ledger_of cd db)(wr_id run \<mapsto> ?c, q \<mapsto> l\<lparr>lg_spent := tot\<rparr>)"
      using led2 qi by (simp add: led Let_def fun_upd_twist)
    have inv': "runs_ok cd db'"
      using inv okf [of "Some (wr_started_at run)"] run_ok_spend [OF runs_okD [OF inv l] t(3)] by (auto simp: runs_ok_def led3)
    let ?e = "entry_of ?c" and ?pe = "entry_of l"
    have grant: "re_grant ?e d = cap_of d grant" for d using q(2) by (simp add: entry_of_def)
    have "tree_step (tree_of cd db) None
        ((tree_of cd db)(wr_id run \<mapsto> ?e, q \<mapsto> ?pe\<lparr>re_spent := \<lambda>d. re_spent ?pe d + re_grant ?e d\<rparr>))"
      by (rule tree_step.open_child [of "tree_of cd db" "wr_id run" q, OF t0 tree_of_Some [OF l]])
         (use q t e0 grant in \<open>simp_all add: entry_of_def fresh_ledger_def run_is_terminal_def flip: t(1)\<close>)
    moreover have "entry_of (l\<lparr>lg_spent := tot\<rparr>) = ?pe\<lparr>re_spent := \<lambda>d. re_spent ?pe d + re_grant ?e d\<rparr>"
      by (simp add: entry_of_spend t(1) grant) (simp add: entry_of_def)
    ultimately show ?thesis using inv' by (simp add: tree_of_upd2 [OF led3])
  qed
qed

end
