(* ===== verification/Flow_Control.thy ===== *)
theory Flow_Control
  imports Flow_Runs
begin

text \<open>
  \<^verbatim>\<open>roundhouse-flow/src/control.rs\<close> (cancel, pause, resume, retry from a step) and \<^verbatim>\<open>parking.rs\<close> (parking a
  run on a human), with the reaper's query of \<^verbatim>\<open>ledger.rs\<close>, over the tables of \<open>Flow_Ledger\<close> and the
  transitions of \<open>Flow_Runs\<close>.  The operations of the four files together are steps of one machine, for
  which the properties are proved.  A checkpointer is a trait object: what its three methods did in
  one call is an argument of \<open>park\<close>.
\<close>

subsection \<open>Controls\<close>

datatype control_error =
    CDurability durability_error
  | CNotRunning run_id run_state
  | CNotPaused run_id run_state
  | CNotCancellable run_id run_state
  | CRunStillActive run_id run_state
  | CUnknownStep string
  | CStepOrderMissingCompletedStep run_id string

text \<open>A refused transition becomes the control's own error, every other error is passed on.\<close>

definition control_result ::
  "(run_id \<Rightarrow> run_state \<Rightarrow> control_error) \<Rightarrow> run_id \<Rightarrow> (run_state, durability_error) result \<times> flow_db \<Rightarrow> (unit, control_error) result \<times> flow_db" where
  "control_result refused run_id out =
     (case out of
        (Inr _, db) \<Rightarrow> (Ok (), db)
      | (Inl (IllegalTransition _ from _), db) \<Rightarrow> (Err (refused run_id from), db)
      | (Inl e, db) \<Rightarrow> (Err (CDurability e), db))"

definition cancel :: "flow_codec \<Rightarrow> flow_faults \<Rightarrow> run_id \<Rightarrow> int \<Rightarrow> flow_db \<Rightarrow> (unit, control_error) result \<times> flow_db" where
  "cancel cd fault run_id now db = control_result CNotCancellable run_id (transition_run cd fault run_id RsCancelling now db)"

definition pause :: "flow_codec \<Rightarrow> flow_faults \<Rightarrow> run_id \<Rightarrow> int \<Rightarrow> flow_db \<Rightarrow> (unit, control_error) result \<times> flow_db" where
  "pause cd fault run_id now db = control_result CNotRunning run_id (transition_run cd fault run_id RsPaused now db)"

definition resume :: "flow_codec \<Rightarrow> flow_faults \<Rightarrow> run_id \<Rightarrow> int \<Rightarrow> flow_db \<Rightarrow> (unit, control_error) result \<times> flow_db" where
  "resume cd fault run_id now db =
     control_result CNotPaused run_id (transition_run_from cd fault run_id [RsPaused] RsRunning now db)"

record forked_run =
  fr_new_run_id :: run_id
  fr_forked_from_run_id :: run_id
  fr_inherited :: "step_run list"

fun steps_before :: "string \<Rightarrow> string list \<Rightarrow> string list option" where
  "steps_before k [] = None"
| "steps_before k (x # xs) = (if x = k then Some [] else map_option ((#) x) (steps_before k xs))"

definition inherited_steps :: "run_id \<Rightarrow> string list \<Rightarrow> step_run list \<Rightarrow> step_run list" where
  "inherited_steps new_run_id before_the_cut steps =
     map (\<lambda>s. s\<lparr>st_run_id := new_run_id, st_first_task_seq := None, st_last_task_seq := None\<rparr>)
       (filter (\<lambda>s. st_step_state s = SsCompleted \<and> st_step_id s \<in> set before_the_cut) steps)"

definition fork_of :: "run_id \<Rightarrow> session_id \<Rightarrow> int \<Rightarrow> run_id \<Rightarrow> workflow_run \<Rightarrow> workflow_run" where
  "fork_of new_run_id new_session_id now original_run_id run =
     \<lparr>wr_id = new_run_id, wr_job_id = wr_job_id run, wr_job_version = wr_job_version run,
      wr_content_hash = wr_content_hash run, wr_session_id = new_session_id, wr_binding_id = wr_binding_id run,
      wr_trigger_event_id = wr_trigger_event_id run, wr_state = RsRunning, wr_parent_run_id = wr_parent_run_id run,
      wr_forked_from_run_id = Some original_run_id, wr_awaiting_until = None, wr_checkpoint_ref = None,
      wr_checkpoint_blob_ref = None, wr_started_at = now, wr_ended_at = None,
      wr_session_depth = wr_session_depth run, wr_caps = wr_caps run\<rparr>"

text \<open>The fresh id of the fork is an argument.\<close>

definition retry_from_step ::
  "rounding \<Rightarrow> flow_codec \<Rightarrow> flow_faults \<Rightarrow> run_id \<Rightarrow> run_id \<Rightarrow> string \<Rightarrow> string list \<Rightarrow> session_id \<Rightarrow> int \<Rightarrow> flow_db
     \<Rightarrow> (forked_run, control_error) result \<times> flow_db" where
  "retry_from_step rnd cd fault new_run_id original_run_id from_step_id step_order new_session_id now db =
     (case steps_before from_step_id step_order of
        None \<Rightarrow> (Err (CUnknownStep from_step_id), db)
      | Some before_the_cut \<Rightarrow>
          (case recover_run cd fault db original_run_id of
             Inl e \<Rightarrow> (Err (CDurability e), db)
           | Inr (run, steps) \<Rightarrow>
               if \<not> run_is_terminal (wr_state run) then (Err (CRunStillActive original_run_id (wr_state run)), db)
               else (case List.find (\<lambda>s. st_step_state s = SsCompleted \<and> st_step_id s \<notin> set step_order) steps of
                       Some s \<Rightarrow> (Err (CStepOrderMissingCompletedStep original_run_id (st_step_id s)), db)
                     | None \<Rightarrow>
                         (let inherited = inherited_steps new_run_id before_the_cut steps
                          in case fork_run rnd cd fault (fork_of new_run_id new_session_id now original_run_id run) inherited db of
                               (Inl e, db') \<Rightarrow> (Err (CDurability e), db')
                             | (Inr _, db') \<Rightarrow>
                                 (Ok \<lparr>fr_new_run_id = new_run_id, fr_forked_from_run_id = original_run_id, fr_inherited = inherited\<rparr>, db')))))"

subsection \<open>Parking\<close>

definition DEFAULT_HOLD_TTL :: duration where
  "DEFAULT_HOLD_TTL = from_secs (72 * 3600)"

definition SYSTEM_WIDE_HOLD_CAP :: duration where
  "SYSTEM_WIDE_HOLD_CAP = from_secs (7 * 86400)"

record checkpoint_artifact =
  ca_restore_ref :: string
  ca_blob_ref :: "blob_ref option"

datatype park_error =
    PkSqlite
  | PkRunNotFound run_id
  | PkDurability durability_error
  | PkMalformedId string
  | PkCheckpoint string
  | PkDeadlineOverflow int duration

record checkpointer =
  ck_artifact :: "session_id \<Rightarrow> run_id \<Rightarrow> string \<Rightarrow> (checkpoint_artifact, string) result"
  ck_index_prepared :: "checkpoint_artifact \<Rightarrow> int \<Rightarrow> flow_db \<Rightarrow> (flow_db, string) result"
  ck_commit :: "run_id \<Rightarrow> checkpoint_artifact \<Rightarrow> int \<Rightarrow> flow_db \<Rightarrow> (flow_db, string) result"

datatype workspace_disposition = WdRelease | WdHoldUntil int

record park_result =
  pr_checkpoint_ref :: string
  pr_session_id :: session_id
  pr_awaiting_until :: "int option"
  pr_workspace :: workspace_disposition
  pr_item_index :: "nat option"

definition absolute_deadline :: "int \<Rightarrow> duration \<Rightarrow> (int, park_error) result" where
  "absolute_deadline now after =
     (if after \<ge> 2 ^ 63 \<or> now + int after \<ge> 2 ^ 63 then Err (PkDeadlineOverflow now after) else Ok (now + int after))"

definition resolve_hold_ttl :: "duration option \<Rightarrow> duration" where
  "resolve_hold_ttl gate_timeout =
     min (case gate_timeout of None \<Rightarrow> DEFAULT_HOLD_TTL | Some d \<Rightarrow> d) SYSTEM_WIDE_HOLD_CAP"

definition run_session_id :: "flow_codec \<Rightarrow> flow_faults \<Rightarrow> flow_db \<Rightarrow> run_id \<Rightarrow> (session_id, park_error) result" where
  "run_session_id cd fault db run_id =
     (if fault FsSelectRun then Err PkSqlite
      else case find_run (fc_uuid_str cd run_id) db of
             None \<Rightarrow> Err (PkRunNotFound run_id)
           | Some r \<Rightarrow> ok_or (PkMalformedId ''workflow_run.session_id'') (fc_uuid_parse cd (rr_session_id r)))"

definition hold_of :: "workspace_disposition \<Rightarrow> int option" where
  "hold_of w = (case w of WdRelease \<Rightarrow> None | WdHoldUntil t \<Rightarrow> Some t)"

definition park ::
  "flow_codec \<Rightarrow> flow_faults \<Rightarrow> run_id \<Rightarrow> awaiting_human \<Rightarrow> bool \<Rightarrow> int \<Rightarrow> checkpointer \<Rightarrow> flow_db \<Rightarrow> (park_result, park_error) result \<times> flow_db" where
  "park cd fault run_id awaiting hold_workspace now ck db =
     (case (case ah_timeout_after awaiting of
              None \<Rightarrow> Ok None
            | Some after \<Rightarrow> res_bind (absolute_deadline now after) (\<lambda>t. Ok (Some t))) of
        Inl e \<Rightarrow> (Err e, db)
      | Inr awaiting_until \<Rightarrow>
          (case (if hold_workspace
                 then res_bind (absolute_deadline now (resolve_hold_ttl (ah_timeout_after awaiting))) (\<lambda>t. Ok (WdHoldUntil t))
                 else Ok WdRelease) of
             Inl e \<Rightarrow> (Err e, db)
           | Inr workspace \<Rightarrow>
               (case run_session_id cd fault db run_id of
                  Inl e \<Rightarrow> (Err e, db)
                | Inr session_id \<Rightarrow>
                    (case ck_artifact ck session_id run_id ''awaiting_human_park'' of
                       Inl m \<Rightarrow> (Err (PkCheckpoint m), db)
                     | Inr artifact \<Rightarrow>
                         (case ck_index_prepared ck artifact now db of
                            Inl m \<Rightarrow> (Err (PkCheckpoint m), db)
                          | Inr db \<Rightarrow>
                              run_txn PkSqlite fault (\<lambda>db.
                                res_bind (wrap_err PkCheckpoint (ck_commit ck run_id artifact now db)) (\<lambda>db.
                                res_bind (wrap_err PkDurability (transition_run_to_awaiting_human cd fault run_id session_id
                                            awaiting_until (hold_of workspace) (ca_restore_ref artifact) (ca_blob_ref artifact) now db)) (\<lambda>(_, db).
                                  Ok (\<lparr>pr_checkpoint_ref = ca_restore_ref artifact, pr_session_id = session_id,
                                       pr_awaiting_until = awaiting_until, pr_workspace = workspace,
                                       pr_item_index = ah_item_index awaiting\<rparr>, db)))) db)))))"

definition reaper_cutoff_instant :: "int \<Rightarrow> int option" where
  "reaper_cutoff_instant now =
     (if now - int SYSTEM_WIDE_HOLD_CAP < - (2 ^ 63) then None else Some (now - int SYSTEM_WIDE_HOLD_CAP))"

definition reaper_cutoff :: "int \<Rightarrow> int \<Rightarrow> bool" where
  "reaper_cutoff parked_at now = (case reaper_cutoff_instant now of None \<Rightarrow> False | Some cutoff \<Rightarrow> parked_at \<le> cutoff)"

fun parse_ids :: "flow_codec \<Rightarrow> string list \<Rightarrow> (run_id list, ledger_error) result" where
  "parse_ids cd [] = Ok []"
| "parse_ids cd (t # ts) =
     res_bind (ok_or (LDurability (DMalformedId ''workflow_run.id'')) (fc_uuid_parse cd t)) (\<lambda>i.
     res_bind (parse_ids cd ts) (\<lambda>is. Ok (i # is)))"

definition parked_runs_past_hold_cap :: "flow_codec \<Rightarrow> flow_faults \<Rightarrow> flow_db \<Rightarrow> int \<Rightarrow> (run_id list, ledger_error) result" where
  "parked_runs_past_hold_cap cd fault db now =
     (case reaper_cutoff_instant now of
        None \<Rightarrow> Ok []
      | Some cutoff \<Rightarrow>
          if fault FsSelectRun then Err LSqlite
          else parse_ids cd (map rr_id (sort_key (\<lambda>r. (the (rr_parked_at r), rr_id r))
                 (filter (\<lambda>r. case rr_parked_at r of None \<Rightarrow> False | Some t \<Rightarrow> t \<le> cutoff) (fd_runs db)))))"

subsection \<open>The machine\<close>

text \<open>
  The operations on calls of child workflows, each in a transaction of its own, with whether it did
  what it was asked: \<^verbatim>\<open>scheduler_driver.rs\<close> and \<^verbatim>\<open>boot.rs\<close> run them so.
\<close>

datatype call_op =
    CoInsert child_call
  | CoJoin run_id nat int
  | CoClaim nat run_id
  | CoRelease run_id nat
  | CoBoot
  | CoComplete run_id nat int

fun call_body :: "flow_codec \<Rightarrow> flow_faults \<Rightarrow> call_op \<Rightarrow> flow_db \<Rightarrow> (bool \<times> flow_db, durability_error) result" where
  "call_body cd f (CoInsert c) db = res_bind (insert_workflow_child_call cd f c db) (\<lambda>(_, db). Ok (True, db))"
| "call_body cd f (CoJoin i n t) db = mark_workflow_child_call_joined cd f i n t db"
| "call_body cd f (CoClaim tok i) db =
     res_bind (claim_workflow_child_continuation cd f tok i db) (\<lambda>(claim, db). Ok (claim \<noteq> None, db))"
| "call_body cd f (CoRelease i tok) db = res_bind (release_workflow_child_continuation cd f i tok db) (\<lambda>(_, db). Ok (True, db))"
| "call_body cd f CoBoot db = res_bind (release_incomplete_at_boot f db) (\<lambda>(_, db). Ok (True, db))"
| "call_body cd f (CoComplete i tok t) db = complete_workflow_child_continuation cd f i tok t db"

datatype flow_op =
    FInsert flow_faults workflow_run
  | FTransition flow_faults run_id run_state int
  | FCancel flow_faults run_id int
  | FPause flow_faults run_id int
  | FResume flow_faults run_id int
  | FPark flow_faults run_id awaiting_human bool int checkpointer
  | FRetry flow_faults run_id run_id string "string list" session_id int
  | FCheckpoint flow_faults step_run
  | FAdmit flow_faults run_id spend int admission
  | FDraw flow_faults run_id int
  | FRefund flow_faults run_id int
  | FCall flow_faults call_op

fun flow_step :: "rounding \<Rightarrow> flow_codec \<Rightarrow> flow_db \<Rightarrow> flow_op \<Rightarrow> flow_db" where
  "flow_step rnd cd db (FInsert f run) = snd (insert_workflow_run rnd cd f run db)"
| "flow_step rnd cd db (FTransition f i to now) = snd (transition_run cd f i to now db)"
| "flow_step rnd cd db (FCancel f i now) = snd (cancel cd f i now db)"
| "flow_step rnd cd db (FPause f i now) = snd (pause cd f i now db)"
| "flow_step rnd cd db (FResume f i now) = snd (resume cd f i now db)"
| "flow_step rnd cd db (FPark f i a hold now ck) = snd (park cd f i a hold now ck db)"
| "flow_step rnd cd db (FRetry f new i step order sess now) = snd (retry_from_step rnd cd f new i step order sess now db)"
| "flow_step rnd cd db (FCheckpoint f step) = snd (checkpoint_step cd f step db)"
| "flow_step rnd cd db (FAdmit f i q now a) = snd (run_txn LSqlite f (admit_spend_within rnd cd f i q now a) db)"
| "flow_step rnd cd db (FDraw f i now) = snd (draw_child_run rnd cd f i now db)"
| "flow_step rnd cd db (FRefund f i now) = snd (refund_child_run rnd cd f i now db)"
| "flow_step rnd cd db (FCall f op) = snd (run_txn DSqlite f (call_body cd f op) db)"

text \<open>What an operation admits: the request of a spend that succeeds.\<close>

definition flow_admits :: "rounding \<Rightarrow> flow_codec \<Rightarrow> flow_db \<Rightarrow> flow_op \<Rightarrow> (run_id \<times> (cap_dim \<Rightarrow> nat)) option" where
  "flow_admits rnd cd db x =
     (case x of
        FAdmit f i q now a \<Rightarrow>
          if is_ok (fst (run_txn LSqlite f (admit_spend_within rnd cd f i q now a) db)) then Some (i, \<lambda>d. spent_of d q) else None
      | _ \<Rightarrow> None)"

text \<open>A checkpointer writes to the table of blobs only.\<close>

definition checkpointer_ok :: "checkpointer \<Rightarrow> bool" where
  "checkpointer_ok ck \<longleftrightarrow>
     (\<forall>a now db db'. ck_index_prepared ck a now db = Ok db' \<longrightarrow> db' = db\<lparr>fd_blobs := fd_blobs db'\<rparr>) \<and>
     (\<forall>i a now db db'. ck_commit ck i a now db = Ok db' \<longrightarrow> db' = db\<lparr>fd_blobs := fd_blobs db'\<rparr>)"

text \<open>
  A new run has a fresh id, so it is not its own parent, and its limits fit their counters.
\<close>

fun flow_op_ok :: "flow_op \<Rightarrow> bool" where
  "flow_op_ok (FInsert f run) \<longleftrightarrow>
     wr_parent_run_id run \<noteq> Some (wr_id run) \<and> (\<forall>c. wr_caps run = Some c \<longrightarrow> caps_fit c)"
| "flow_op_ok (FPark f i a hold now ck) \<longleftrightarrow> checkpointer_ok ck"
| "flow_op_ok _ \<longleftrightarrow> True"

lemma write_step_rows_runs: "write_step_rows cd fault i steps db = Ok (x, db') \<Longrightarrow> fd_runs db' = fd_runs db"
  by (induction steps arbitrary: db) (fastforce simp: write_step_row_def split: if_splits)+

lemma parse_opt_Ok: "parse_opt p e x = Ok y \<longleftrightarrow> map_option p x = map_option Some y"
  by (cases x; cases y) (auto simp: parse_opt_def split: option.splits)

lemma recovered_run_ledger:
  assumes "recover_run cd fault db i = Ok (run, steps)"
  obtains l where "ledger_of cd db i = Some l" "lg_parent_run_id l = wr_parent_run_id run" "lg_caps l = wr_caps run" "lg_state l = wr_state run"
proof -
  from assms obtain r where r: "find_run (fc_uuid_str cd i) db = Some r" "workflow_run_from_row cd r = Ok run"
    by (auto simp: recover_run_def workflow_run_row_def split: if_splits option.splits)
  from r(2) obtain l where "ledger_from_row cd r = Ok l" "lg_parent_run_id l = wr_parent_run_id run" "lg_caps l = wr_caps run" "lg_state l = wr_state run"
    by (auto simp: workflow_run_from_row_def ledger_from_row_def Let_def parse_opt_Ok inj_eq [OF option.inj_map [OF inj_Some]])
  with r(1) that show thesis by (auto simp: ledger_of_Some)
qed

text \<open>
  What a step does to the table of runs: nothing, or the work of one of the four functions that
  write it.  The label is the spend that was admitted.
\<close>

inductive effect :: "rounding \<Rightarrow> flow_codec \<Rightarrow> (run_id \<times> (cap_dim \<Rightarrow> nat)) option \<Rightarrow> flow_db \<Rightarrow> flow_db \<Rightarrow> bool" for rnd cd where
  same: "fd_runs db' = fd_runs db \<Longrightarrow> effect rnd cd None db db'"
| inserted: "insert_run_row rnd cd fault run db = Ok (u, db1) \<Longrightarrow> wr_parent_run_id run \<noteq> Some (wr_id run) \<Longrightarrow>
    (\<And>c. wr_caps run = Some c \<Longrightarrow> caps_fit c) \<Longrightarrow> fd_runs db' = fd_runs db1 \<Longrightarrow> effect rnd cd None db db'"
| moved: "fd_runs db0 = fd_runs db \<Longrightarrow> transition_in_transaction cd fault i to now dl sess perm db0 = Ok (from, db') \<Longrightarrow>
    effect rnd cd None db db'"
| admitted: "admit_spend_within rnd cd fault i q now a db = Ok (left, db') \<Longrightarrow> effect rnd cd (Some (i, \<lambda>d. spent_of d q)) db db'"
| refunded: "refund_within rnd cd fault i now db = Ok (v, db') \<Longrightarrow> effect rnd cd None db db'"

text \<open>A transaction has the effect of its body, or none.\<close>

lemma effect_txn:
  assumes "effect rnd cd None db db0" "\<And>a db'. body db0 = Ok (a, db') \<Longrightarrow> effect rnd cd None db db'"
  shows "effect rnd cd None db (snd (run_txn sq fault body db0))"
proof -
  obtain res db' where out: "run_txn sq fault body db0 = (res, db')" by fastforce
  from map_sum_run_txn [OF out] assms show ?thesis by (auto simp: out)
qed

lemmas effect_idle = effect.same [OF refl]
lemmas effect_txn_idle = effect_txn [OF effect_idle]

lemma effect_case:
  assumes "\<And>e. x = Inl e \<Longrightarrow> effect rnd cd l db (snd (f e))" "\<And>a. x = Inr a \<Longrightarrow> effect rnd cd l db (snd (g a))"
  shows "effect rnd cd l db (snd (case x of Inl e \<Rightarrow> f e | Inr a \<Rightarrow> g a))"
  using assms by (cases x) simp_all

lemma transition_effect: "effect rnd cd None db (snd (run_txn sq fault (transition_in_transaction cd fault i to now dl sess perm) db))"
  by (rule effect_txn_idle) (auto intro: effect.moved [OF refl])

lemma control_result_db: "snd (control_result refused i out) = snd out"
  by (auto simp: control_result_def split: prod.splits sum.splits durability_error_of.splits)

lemma checkpointer_ok_runs:
  assumes "checkpointer_ok ck"
  shows "ck_index_prepared ck a now db = Ok db' \<Longrightarrow> fd_runs db' = fd_runs db"
    and "ck_commit ck i a now db = Ok db' \<Longrightarrow> fd_runs db' = fd_runs db"
proof -
  have blobs: "fd_runs db' = fd_runs db" if "db' = db\<lparr>fd_blobs := fd_blobs db'\<rparr>" for db' db :: flow_db
    using that by (metis flow_db.select_convs(1) flow_db.surjective flow_db.update_convs(4))
  show "ck_index_prepared ck a now db = Ok db' \<Longrightarrow> fd_runs db' = fd_runs db" "ck_commit ck i a now db = Ok db' \<Longrightarrow> fd_runs db' = fd_runs db"
    using assms blobs unfolding checkpointer_ok_def by blast+
qed

lemma park_effect:
  assumes ck: "checkpointer_ok ck"
  shows "effect rnd cd None db (snd (park cd fault i a hold now ck db))"
proof -
  have run: "effect rnd cd None db (snd (run_txn PkSqlite fault (\<lambda>db.
        res_bind (wrap_err PkCheckpoint (ck_commit ck i art now db)) (\<lambda>db.
        res_bind (wrap_err PkDurability (transition_run_to_awaiting_human cd fault i sess w h ref blob now db)) (\<lambda>(_, db). Ok (res, db)))) db0))"
    if idx: "ck_index_prepared ck art now db = Ok db0" for art db0 sess w h ref blob and res :: park_result
  proof (rule effect_txn [OF effect.same [OF checkpointer_ok_runs(1) [OF ck idx]]])
    fix x db2
    assume "res_bind (wrap_err PkCheckpoint (ck_commit ck i art now db0)) (\<lambda>db.
        res_bind (wrap_err PkDurability (transition_run_to_awaiting_human cd fault i sess w h ref blob now db)) (\<lambda>(_, db). Ok (res, db))) = Ok (x, db2)"
    then obtain db1 st where com: "ck_commit ck i art now db0 = Ok db1"
      and tr: "transition_run_to_awaiting_human cd fault i sess w h ref blob now db1 = Ok (st, db2)"
      by (auto simp: wrap_err_def split: sum.splits)
    have "fd_runs db1 = fd_runs db" using checkpointer_ok_runs [OF ck] idx com by metis
    then show "effect rnd cd None db db2" by (rule effect.moved) (rule tr [unfolded transition_run_to_awaiting_human_def])
  qed
  have idle: "effect rnd cd None db (snd (Inl e, db))" for e :: park_error using effect_idle by simp
  show ?thesis
    unfolding park_def by (intro effect_case run idle)
qed

text \<open>
  The parent of the run that is retried is a run of the tree, so it is not the fresh id; the fork
  has the grant of the run it was made from.
\<close>

lemma retry_effect:
  assumes cd: "codec_ok cd" and inv: "runs_ok cd db" and tree: "tree_ok (tree_of cd db) adm"
  shows "effect rnd cd None db (snd (retry_from_step rnd cd fault new i step order sess now db))"
proof -
  have fork: "effect rnd cd None db (snd (fork_run rnd cd fault (fork_of new sess now i run) inh db))"
    if rec: "recover_run cd fault db i = Ok (run, steps)" for run steps inh
    unfolding fork_run_def
  proof (rule effect_txn_idle)
    fix a db'
    assume "res_bind (insert_run_row rnd cd fault (fork_of new sess now i run) db)
       (\<lambda>(_, db). write_step_rows cd fault (wr_id (fork_of new sess now i run)) inh db) = Ok (a, db')"
    then obtain u db1 where ins: "insert_run_row rnd cd fault (fork_of new sess now i run) db = Ok (u, db1)"
      and rows: "write_step_rows cd fault (wr_id (fork_of new sess now i run)) inh db1 = Ok (a, db')"
      by auto
    obtain l where l: "ledger_of cd db i = Some l" "lg_parent_run_id l = wr_parent_run_id run" "lg_caps l = wr_caps run"
      by (rule recovered_run_ledger [OF rec])
    have new: "ledger_of cd db new = None"
      using ins by (auto simp: insert_run_row_def insert_checked_def ledger_of_def fork_of_def Let_def split: if_splits option.splits)
    have "wr_parent_run_id run \<noteq> Some new"
      using tree_okE(5) [OF tree tree_of_Some [OF l(1)]] l(2) new by (auto simp: entry_of_def tree_of_def)
    then show "effect rnd cd None db db'"
      using runs_okD [OF inv l(1)] l(3)
      by (intro effect.inserted [OF ins _ _ write_step_rows_runs [OF rows]]) (auto simp: fork_of_def run_ok_def)
  qed
  have fork': "effect rnd cd None db db'"
    if "fork_run rnd cd fault (fork_of new sess now i run) inh db = (res, db')" "recover_run cd fault db i = Ok (run, steps)"
    for res db' inh run steps
    using fork [OF that(2), of inh] that(1) by simp
  show ?thesis
    unfolding retry_from_step_def
    by (auto simp: effect_idle Let_def split: option.split sum.split prod.split intro: fork')
qed

lemma update_calls_runs: "update_calls fault P f db = Ok (n, db') \<Longrightarrow> fd_runs db' = fd_runs db"
  by (auto simp: update_calls_def split: if_splits)

lemma call_body_runs: "call_body cd f op db = Ok (b, db') \<Longrightarrow> fd_runs db' = fd_runs db"
  by (cases op)
     (auto simp: insert_workflow_child_call_def mark_workflow_child_call_joined_def claim_workflow_child_continuation_def
        release_workflow_child_continuation_def release_incomplete_at_boot_def complete_workflow_child_continuation_def Let_def
        dest: update_calls_runs split: if_splits child_call_join.splits)

lemma admit_effect: "effect rnd cd (flow_admits rnd cd db (FAdmit f i q now a)) db (flow_step rnd cd db (FAdmit f i q now a))"
proof -
  obtain res db' where out: "run_txn LSqlite f (admit_spend_within rnd cd f i q now a) db = (res, db')" by fastforce
  show ?thesis
  proof (cases "is_ok res")
    case True
    then obtain x where "admit_spend_within rnd cd f i q now a db = Ok (x, db')"
      using out by (auto simp: run_txn_def is_ok_def split: if_splits sum.splits)
    from effect.admitted [OF this] show ?thesis using True by (simp add: out flow_admits_def)
  next
    case False
    with out have "db' = db" by (auto simp: run_txn_def is_ok_def split: if_splits sum.splits)
    with effect_idle False show ?thesis by (simp add: out flow_admits_def)
  qed
qed

text \<open>A child run has drawn its grant when it was inserted, so a later draw is refused.\<close>

lemma no_later_draw:
  assumes "runs_ok cd db" "draw_child_run_within rnd cd fault i now db = Ok out"
  shows False
  using assms by (auto simp: draw_child_run_within_def read_ledger_Ok run_ok_def dest!: runs_okD split: option.splits)

lemma flow_step_effect:
  assumes cd: "codec_ok cd" and inv: "runs_ok cd db" and op: "flow_op_ok x" and tree: "tree_ok (tree_of cd db) adm"
  shows "effect rnd cd (flow_admits rnd cd db x) db (flow_step rnd cd db x)"
proof (cases x)
  case (FAdmit f i q now a)
  then show ?thesis using admit_effect by simp
next
  case (FInsert f run)
  have "effect rnd cd None db (flow_step rnd cd db x)"
    using op unfolding FInsert flow_step.simps insert_workflow_run_def
    by (intro effect_txn_idle) (auto intro: effect.inserted [OF _ _ _ refl])
  with FInsert show ?thesis by (simp add: flow_admits_def)
next
  case (FRefund f i now)
  have "effect rnd cd None db (flow_step rnd cd db x)"
    unfolding FRefund flow_step.simps refund_child_run_def by (rule effect_txn_idle) (rule effect.refunded)
  with FRefund show ?thesis by (simp add: flow_admits_def)
next
  case (FDraw f i now)
  have "effect rnd cd None db (flow_step rnd cd db x)"
    unfolding FDraw flow_step.simps draw_child_run_def by (rule effect_txn_idle) (use no_later_draw [OF inv] in blast)
  with FDraw show ?thesis by (simp add: flow_admits_def)
next
  case (FCheckpoint f step)
  have "effect rnd cd None db (flow_step rnd cd db x)"
    unfolding FCheckpoint flow_step.simps checkpoint_step_def
    by (rule effect_txn_idle; rule effect.same)
       (auto simp: checkpoint_step_in_transaction_def write_step_row_def split: if_splits)
  with FCheckpoint show ?thesis by (simp add: flow_admits_def)
next
  case (FCall f op)
  have "effect rnd cd None db (flow_step rnd cd db x)"
    unfolding FCall flow_step.simps by (rule effect_txn_idle; rule effect.same) (rule call_body_runs)
  with FCall show ?thesis by (simp add: flow_admits_def)
qed (use op cd inv tree in \<open>simp_all add: flow_admits_def cancel_def pause_def resume_def control_result_db transition_run_def
       transition_run_from_def transition_effect park_effect retry_effect\<close>)

text \<open>Each effect is a step of the tree ledger.\<close>

lemma effect_simulates:
  assumes eff: "effect rnd cd lab db db'" and cd: "codec_ok cd" and inv: "runs_ok cd db" and tree: "tree_ok (tree_of cd db) adm"
  shows "runs_ok cd db' \<and> tree_step (tree_of cd db) lab (tree_of cd db')"
proof -
  have cong: "runs_ok cd d \<longleftrightarrow> runs_ok cd d'" "tree_of cd d = tree_of cd d'" if "fd_runs d = fd_runs d'" for d d'
    using ledger_of_cong [OF that, of cd] by (simp_all add: runs_ok_def tree_of_def)
  from eff show ?thesis
  proof cases
    case same
    with cong [of db' db] inv show ?thesis by (simp add: tree_step.idle)
  next
    case (inserted fault run u db1)
    with insert_step [OF cd inv inserted(2)] cong [OF inserted(5)] show ?thesis by simp
  next
    case (moved db0 fault i to now dl sess perm "from")
    with transition_step [OF cd _ moved(3)] cong [OF moved(2)] inv show ?thesis by simp
  next
    case (admitted fault i q now a left)
    with admit_step [OF cd inv admitted(2)] show ?thesis by simp
  next
    case (refunded fault i now v)
    with refund_step [OF cd inv tree refunded(2)] show ?thesis by simp
  qed
qed

interpretation flow: tree_implementation "flow_step rnd cd" "flow_admits rnd cd" "tree_of cd" "\<lambda>db. codec_ok cd \<and> runs_ok cd db" flow_op_ok
  for rnd cd
  by unfold_locales (use effect_simulates [OF flow_step_effect] in auto)

subsection \<open>Invariants of the tables\<close>

text \<open>The rows of the runs after a run was inserted.\<close>

lemma drawn_tables:
  assumes "draw_child_run_within rnd cd fault i now db = Ok (x, db')"
  obtains l p cols where "ledger_of cd db i = Some l" "lg_parent_run_id l = Some p"
    "db' = map_run (fc_uuid_str cd i) (\<lambda>r. r\<lparr>rr_drawn_at := Some now\<rparr>) (map_run (fc_uuid_str cd p) (\<lambda>r. r\<lparr>rr_spent := cols\<rparr>) db)"
  using assms that
  by (auto simp: draw_child_run_within_def read_ledger_Ok admit_spend_within_def write_spend_def update_run_Ok split: option.splits)

lemma inserted_tables:
  assumes "insert_run_row rnd cd fault run db = Ok (x, db')"
  shows "run_row_check (run_to_row cd run)" "find_run (fc_uuid_str cd (wr_id run)) db = None"
    "db' = db\<lparr>fd_runs := fd_runs db @ [run_to_row cd run]\<rparr> \<or>
     (\<exists>y. draw_child_run_within rnd cd fault (wr_id run) (wr_started_at run) (db\<lparr>fd_runs := fd_runs db @ [run_to_row cd run]\<rparr>) = Ok (y, db'))"
proof -
  have ins: "insert_checked rnd cd fault run db = Ok (x, db')"
    using assms by (auto simp: insert_run_row_def Let_def split: if_splits option.splits)
  then show "run_row_check (run_to_row cd run)" "find_run (fc_uuid_str cd (wr_id run)) db = None"
    by (auto simp: insert_checked_def split: if_splits)
  show "db' = db\<lparr>fd_runs := fd_runs db @ [run_to_row cd run]\<rparr> \<or>
     (\<exists>y. draw_child_run_within rnd cd fault (wr_id run) (wr_started_at run) (db\<lparr>fd_runs := fd_runs db @ [run_to_row cd run]\<rparr>) = Ok (y, db'))"
    using ins by (auto simp: insert_checked_def Let_def wrap_err_def split: if_splits sum.splits)
qed

lemma run_to_row_id [simp]: "rr_id (run_to_row cd run) = fc_uuid_str cd (wr_id run)"
  by (simp add: run_to_row_def)

lemma inserted_run_found:
  assumes "insert_run_row rnd cd fault run db = Ok (x, db')"
  shows "find_run (fc_uuid_str cd (wr_id run)) db' \<noteq> None"
  using inserted_tables [OF assms] by (auto simp: find_run_snoc find_run_map_run elim!: drawn_tables)

lemma inserted_rows:
  assumes ok: "insert_run_row rnd cd fault run db = Ok (x, db')" and cd: "codec_ok cd" and self: "wr_parent_run_id run \<noteq> Some (wr_id run)"
  shows "\<exists>t. find_run (fc_uuid_str cd (wr_id run)) db' = Some ((run_to_row cd run)\<lparr>rr_drawn_at := t\<rparr>)"
    and "j \<noteq> wr_id run \<Longrightarrow> wr_parent_run_id run \<noteq> Some j \<Longrightarrow> find_run (fc_uuid_str cd j) db' = find_run (fc_uuid_str cd j) db"
    and "fd_steps db' = fd_steps db"
proof -
  let ?db = "db\<lparr>fd_runs := fd_runs db @ [run_to_row cd run]\<rparr>"
  note ins = inserted_tables [OF ok]
  have row: "find_run (fc_uuid_str cd (wr_id run)) ?db = Some (run_to_row cd run)" using ins(2) by (simp add: find_run_snoc)
  have other: "find_run (fc_uuid_str cd j) ?db = find_run (fc_uuid_str cd j) db" if "j \<noteq> wr_id run" for j
    using that by (simp add: find_run_snoc uuid_str_inj [OF cd] split: option.splits)
  have led: "ledger_of cd ?db (wr_id run) = Some (fresh_ledger cd run)" using insert_row_ledger [OF cd ins(2,1)] by simp
  have "(\<exists>t. find_run (fc_uuid_str cd (wr_id run)) db' = Some ((run_to_row cd run)\<lparr>rr_drawn_at := t\<rparr>)) \<and>
     (j \<noteq> wr_id run \<longrightarrow> wr_parent_run_id run \<noteq> Some j \<longrightarrow> find_run (fc_uuid_str cd j) db' = find_run (fc_uuid_str cd j) db) \<and>
     fd_steps db' = fd_steps db" for j
    using ins(3)
  proof
    assume "db' = ?db"
    moreover have "(run_to_row cd run)\<lparr>rr_drawn_at := None\<rparr> = run_to_row cd run" by (simp add: run_to_row_def)
    with row have "find_run (fc_uuid_str cd (wr_id run)) ?db = Some ((run_to_row cd run)\<lparr>rr_drawn_at := None\<rparr>)" by simp
    ultimately show ?thesis using other by auto
  next
    assume "\<exists>y. draw_child_run_within rnd cd fault (wr_id run) (wr_started_at run) ?db = Ok (y, db')"
    then obtain p cols where p: "lg_parent_run_id (fresh_ledger cd run) = Some p"
      and db': "db' = map_run (fc_uuid_str cd (wr_id run)) (\<lambda>r. r\<lparr>rr_drawn_at := Some (wr_started_at run)\<rparr>)
                  (map_run (fc_uuid_str cd p) (\<lambda>r. r\<lparr>rr_spent := cols\<rparr>) ?db)"
      using led by (auto elim!: drawn_tables)
    have "p \<noteq> wr_id run" "wr_parent_run_id run = Some p" using p self by (auto simp: fresh_ledger_def)
    then show ?thesis using row other by (auto simp: db' find_run_map_run uuid_str_inj [OF cd]) (simp add: map_run_def)
  qed
  then show "\<exists>t. find_run (fc_uuid_str cd (wr_id run)) db' = Some ((run_to_row cd run)\<lparr>rr_drawn_at := t\<rparr>)"
    and "j \<noteq> wr_id run \<Longrightarrow> wr_parent_run_id run \<noteq> Some j \<Longrightarrow> find_run (fc_uuid_str cd j) db' = find_run (fc_uuid_str cd j) db"
    and "fd_steps db' = fd_steps db" by blast+
qed

text \<open>
  A property of the tables that each single write keeps is kept by every operation: what the writes
  are is the interface between the statements and the operations built from them.
\<close>

locale table_invariant =
  fixes cd :: flow_codec and P :: "flow_db \<Rightarrow> bool"
  assumes blobs: "P db \<Longrightarrow> P (db\<lparr>fd_blobs := b\<rparr>)"
    and spent: "P db \<Longrightarrow> P (map_run k (\<lambda>r. r\<lparr>rr_spent := s\<rparr>) db)"
    and drawn: "P db \<Longrightarrow> P (map_run k (\<lambda>r. r\<lparr>rr_drawn_at := t\<rparr>) db)"
    and refunded: "P db \<Longrightarrow> P (map_run k (\<lambda>r. r\<lparr>rr_refunded_at := t\<rparr>) db)"
    and moved: "P db \<Longrightarrow> P (map_run k (moved_row cd from to now dl) db)"
    and inserted: "P db \<Longrightarrow> run_row_check (run_to_row cd run) \<Longrightarrow> find_run (fc_uuid_str cd (wr_id run)) db = None \<Longrightarrow>
      P (db\<lparr>fd_runs := fd_runs db @ [run_to_row cd run]\<rparr>)"
    and stepped: "P db \<Longrightarrow> find_run (fc_uuid_str cd i) db \<noteq> None \<Longrightarrow> step_row_check (step_to_row cd i step fs ls) \<Longrightarrow>
      P (db\<lparr>fd_steps := upsert_step (step_to_row cd i step fs ls) (fd_steps db)\<rparr>)"
begin

lemma txn: "P db \<Longrightarrow> (\<And>a db'. body db = Ok (a, db') \<Longrightarrow> P db') \<Longrightarrow> P (snd (run_txn sq fault body db))"
  using map_sum_run_txn [of sq fault body db] by (metis prod.collapse)

lemma write_spend_keeps: "P db \<Longrightarrow> write_spend cd fault i s db = Ok db' \<Longrightarrow> P db'"
  by (auto simp: write_spend_def update_run_Ok intro: spent)

lemma admit_keeps: "P db \<Longrightarrow> admit_spend_within rnd cd fault i q now a db = Ok (x, db') \<Longrightarrow> P db'"
  by (auto simp: admit_spend_within_def intro: write_spend_keeps)

lemma draw_keeps: "P db \<Longrightarrow> draw_child_run_within rnd cd fault i now db = Ok (x, db') \<Longrightarrow> P db'"
  by (auto simp: draw_child_run_within_def update_run_Ok split: option.splits intro: drawn admit_keeps)

lemma refund_keeps: "P db \<Longrightarrow> refund_within rnd cd fault i now db = Ok (x, db') \<Longrightarrow> P db'"
  by (auto simp: refund_within_def update_run_Ok split: option.splits if_splits intro: refunded write_spend_keeps)

lemma release_keeps: "P db \<Longrightarrow> release_checkpoint cd fault b stored db = Ok db' \<Longrightarrow> P db'"
  by (auto simp: release_checkpoint_def decrement_ref_count_def split: option.splits if_splits intro: blobs)

lemma transition_keeps: "P db \<Longrightarrow> transition_in_transaction cd fault i to now dl sess perm db = Ok (x, db') \<Longrightarrow> P db'"
  by (cases perm) (auto simp: transition_in_transaction_def update_run_Ok split: option.splits if_splits intro: moved release_keeps)

lemma insert_keeps: "P db \<Longrightarrow> insert_run_row rnd cd fault run db = Ok (x, db') \<Longrightarrow> P db'"
  by (auto simp: insert_run_row_def insert_checked_def Let_def wrap_err_def split: option.splits if_splits sum.splits
      intro: inserted draw_keeps)

lemma step_row_keeps: "P db \<Longrightarrow> find_run (fc_uuid_str cd i) db \<noteq> None \<Longrightarrow> write_step_row cd fault i step db = Ok (x, db') \<Longrightarrow> P db'"
  by (auto simp: write_step_row_def split: if_splits intro: stepped)

lemma step_rows_keeps: "P db \<Longrightarrow> find_run (fc_uuid_str cd i) db \<noteq> None \<Longrightarrow> write_step_rows cd fault i steps db = Ok (x, db') \<Longrightarrow> P db'"
proof (induction steps arbitrary: db)
  case (Cons step steps)
  then obtain y db1 where w: "write_step_row cd fault i step db = Ok (y, db1)" "write_step_rows cd fault i steps db1 = Ok (x, db')" by auto
  have "find_run (fc_uuid_str cd i) db1 = find_run (fc_uuid_str cd i) db"
    using w(1) by (auto simp: write_step_row_def find_run_def split: if_splits)
  with Cons.IH [OF step_row_keeps [OF Cons.prems(1,2) w(1)] _ w(2)] Cons.prems(2) show ?case by simp
qed simp

lemma checkpointer_keeps:
  assumes "checkpointer_ok ck" "P db"
  shows "ck_index_prepared ck a now db = Ok db' \<Longrightarrow> P db'" "ck_commit ck i a now db = Ok db' \<Longrightarrow> P db'"
proof -
  have "P db'" if "db' = db\<lparr>fd_blobs := fd_blobs db'\<rparr>" for db' using blobs [OF assms(2), of "fd_blobs db'"] that by simp
  with assms(1) show "ck_index_prepared ck a now db = Ok db' \<Longrightarrow> P db'" "ck_commit ck i a now db = Ok db' \<Longrightarrow> P db'"
    unfolding checkpointer_ok_def by blast+
qed

lemma case_keeps:
  assumes "\<And>e. x = Inl e \<Longrightarrow> P (snd (f e))" "\<And>a. x = Inr a \<Longrightarrow> P (snd (g a))"
  shows "P (snd (case x of Inl e \<Rightarrow> f e | Inr a \<Rightarrow> g a))"
  using assms by (cases x) simp_all

lemma park_keeps:
  assumes "P db" and ck: "checkpointer_ok ck"
  shows "P (snd (park cd fault i a hold now ck db))"
proof -
  have "P (snd (run_txn PkSqlite fault (\<lambda>db.
        res_bind (wrap_err PkCheckpoint (ck_commit ck i art now db)) (\<lambda>db.
        res_bind (wrap_err PkDurability (transition_run_to_awaiting_human cd fault i sess w h ref blob now db)) (\<lambda>(_, db). Ok (res, db)))) db0))"
    if "P db0" for art db0 sess w h ref blob and res :: park_result
    by (rule txn [OF that])
       (auto simp: wrap_err_def transition_run_to_awaiting_human_def split: sum.splits
         intro: transition_keeps checkpointer_keeps(2) [OF ck that])
  with checkpointer_keeps(1) [OF ck assms(1)] assms(1) show ?thesis unfolding park_def by (intro case_keeps) simp_all
qed

lemma retry_keeps:
  assumes "P db"
  shows "P (snd (retry_from_step rnd cd fault new i step order sess now db))"
proof -
  have "P (snd (fork_run rnd cd fault fork inh db))" for fork inh
    unfolding fork_run_def by (rule txn [OF assms]) (auto intro!: step_rows_keeps [OF insert_keeps [OF assms] inserted_run_found])
  then have "fork_run rnd cd fault fork inh db = (res, db') \<Longrightarrow> P db'" for fork inh res db' by (metis snd_conv)
  with assms show ?thesis by (auto simp: retry_from_step_def Let_def split: option.split sum.split prod.split)
qed

lemma flow_step_keeps:
  assumes "\<nexists>f op. x = FCall f op" "flow_op_ok x" "P db"
  shows "P (flow_step rnd cd db x)"
proof (cases x)
  case (FInsert f run)
  have "P (snd (insert_workflow_run rnd cd f run db))"
    unfolding insert_workflow_run_def by (rule txn [OF assms(3)]) (rule insert_keeps [OF assms(3)])
  then show ?thesis by (simp add: FInsert)
next
  case (FCheckpoint f step)
  have "P (snd (checkpoint_step cd f step db))"
    unfolding checkpoint_step_def
    by (rule txn [OF assms(3)]) (auto simp: checkpoint_step_in_transaction_def split: if_splits intro: step_row_keeps [OF assms(3)])
  then show ?thesis by (simp add: FCheckpoint)
qed (use assms in \<open>simp_all add: cancel_def pause_def resume_def control_result_db transition_run_def transition_run_from_def
       draw_child_run_def refund_child_run_def txn [OF _ transition_keeps] txn [OF _ admit_keeps] txn [OF _ draw_keeps]
       txn [OF _ refund_keeps] park_keeps retry_keeps\<close>)

end

text \<open>If it also holds of empty tables and the operations on calls keep it, it holds for good.\<close>

locale trace_invariant = table_invariant +
  assumes initial: "P flow_db_new"
    and called: "P db \<Longrightarrow> call_body cd f op db = Ok (b, db') \<Longrightarrow> P db'"
begin

lemma trace: "(\<And>x. x \<in> set xs \<Longrightarrow> flow_op_ok x) \<Longrightarrow> P (foldl (flow_step rnd cd) flow_db_new xs)"
proof (induction xs rule: rev_induct)
  case (snoc x xs)
  then have db: "P (foldl (flow_step rnd cd) flow_db_new xs)" and ok: "flow_op_ok x" by simp_all
  show ?case
  proof (cases "\<exists>f op. x = FCall f op")
    case True
    then show ?thesis using txn [OF db called [OF db]] by auto
  qed (use flow_step_keeps [OF _ ok db] in auto)
qed (simp add: initial)

end

end
