(* ===== verification/Flow_Durable.thy ===== *)
theory Flow_Durable
  imports Flow_Control
begin

text \<open>
  What the durable state of workflow runs promises, for any sequence of the operations of
  \<open>Flow_Control\<close>: the spends of a tree of runs stay within the grant at its root, runs move only
  along the legal transitions, every stored row decodes, a continuation is completed once, parked
  time is not charged, and what a checkpoint wrote is what recovery finds.
\<close>

subsection \<open>A codec to run the model with\<close>

text \<open>Numbers in unary, so that printing and parsing are easily seen to be inverse.\<close>

fun unary_list :: "nat list \<Rightarrow> string" where
  "unary_list [] = []"
| "unary_list (n # ns) = replicate n CHR ''1'' @ CHR '','' # unary_list ns"

fun unary_parse :: "nat \<Rightarrow> string \<Rightarrow> nat list" where
  "unary_parse n [] = []"
| "unary_parse n (c # cs) = (if c = CHR '','' then n # unary_parse 0 cs else unary_parse (Suc n) cs)"

lemma unary_parse_replicate: "unary_parse m (replicate n CHR ''1'' @ CHR '','' # s) = (m + n) # unary_parse 0 s"
  by (induction n arbitrary: m) simp_all

lemma unary_roundtrip: "unary_parse 0 (unary_list ns) = ns"
  by (induction ns) (simp_all add: unary_parse_replicate)

definition caps_of_counts :: "nat list \<Rightarrow> resource_caps option" where
  "caps_of_counts ns =
     (case ns of
        [a, b, c, d, e, f] \<Rightarrow>
          Some (resource_caps_default\<lparr>max_tokens := a, max_cost_usd := 0, max_tasks := b, max_tool_calls := c, max_subagents := d,
                max_bytes_written := e, max_escalations := f\<rparr>)
      | _ \<Rightarrow> None)"

definition sample_codec :: flow_codec where
  "sample_codec =
     \<lparr>fc_uuid_str = (\<lambda>n. unary_list [n]),
      fc_uuid_parse = (\<lambda>s. case unary_parse 0 s of [n] \<Rightarrow> Some n | _ \<Rightarrow> None),
      fc_caps_str = (\<lambda>c. unary_list [max_tokens c, max_tasks c, max_tool_calls c, max_subagents c, max_bytes_written c, max_escalations c]),
      fc_caps_parse = (\<lambda>s. caps_of_counts (unary_parse 0 s)),
      fc_blob_str = br_hash, fc_blob_parse = (\<lambda>s. Some \<lparr>br_hash = s, br_len = 0, br_mime = None\<rparr>),
      fc_json_str = (\<lambda>_. ''null''), fc_json_parse = (\<lambda>_. Some JNull)\<rparr>"

lemma sample_codec_ok: "codec_ok sample_codec"
proof -
  have "cap_of d (resource_caps_default\<lparr>max_tokens := max_tokens c, max_cost_usd := 0, max_tasks := max_tasks c, max_tool_calls := max_tool_calls c,
      max_subagents := max_subagents c, max_bytes_written := max_bytes_written c, max_escalations := max_escalations c\<rparr>) = cap_of d c" for d c
    by (cases d) simp_all
  then show ?thesis
    unfolding codec_ok_def sample_codec_def flow_codec.simps unary_roundtrip by (simp add: caps_of_counts_def)
qed

text \<open>A run with small limits, a child of it, and no failing statement.\<close>

definition no_faults :: flow_faults where
  "no_faults _ = False"

definition sample_caps :: "nat \<Rightarrow> resource_caps" where
  "sample_caps n =
     resource_caps_default\<lparr>max_tokens := n, max_cost_usd := 0, max_tasks := n, max_tool_calls := n, max_subagents := n,
       max_bytes_written := n, max_escalations := n\<rparr>"

definition sample_run :: "run_id \<Rightarrow> run_id option \<Rightarrow> nat \<Rightarrow> workflow_run" where
  "sample_run i parent n =
     \<lparr>wr_id = i, wr_job_id = 0, wr_job_version = 1, wr_content_hash = ''h'', wr_session_id = 7, wr_binding_id = None,
      wr_trigger_event_id = None, wr_state = RsRunning, wr_parent_run_id = parent, wr_forked_from_run_id = None,
      wr_awaiting_until = None, wr_checkpoint_ref = None, wr_checkpoint_blob_ref = None, wr_started_at = 0,
      wr_ended_at = None, wr_session_depth = Some 1, wr_caps = Some (sample_caps n)\<rparr>"

definition sample_spend :: "nat \<Rightarrow> spend" where
  "sample_spend n =
     \<lparr>sp_tokens = n, sp_cost_usd = 0, sp_tasks = 0, sp_tool_calls = 0, sp_subagents = 0, sp_bytes_written = 0, sp_escalations = 0\<rparr>"

definition sample_ops :: "flow_op list" where
  "sample_ops =
     [FInsert no_faults (sample_run 1 None 3), FAdmit no_faults 1 (sample_spend 1) 5 Ordinary,
      FInsert no_faults (sample_run 2 (Some 1) 2), FAdmit no_faults 2 (sample_spend 1) 6 Ordinary]"


lemma sample_codec_simps [simp]:
  "fc_uuid_parse sample_codec (fc_uuid_str sample_codec i) = Some i"
  "fc_uuid_str sample_codec i = fc_uuid_str sample_codec j \<longleftrightarrow> i = j"
  "fc_caps_parse sample_codec (fc_caps_str sample_codec c) =
     Some (sample_caps 0\<lparr>max_tokens := max_tokens c, max_tasks := max_tasks c, max_tool_calls := max_tool_calls c,
             max_subagents := max_subagents c, max_bytes_written := max_bytes_written c, max_escalations := max_escalations c\<rparr>)"
  using sample_codec_ok uuid_str_inj [OF sample_codec_ok]
  by (simp_all add: codec_ok_def)
     (simp add: sample_codec_def sample_caps_def caps_of_counts_def unary_parse_replicate)

lemmas txn_defs = run_txn_def res_bind.simps ok_or_def option.case sum.case wrap_err_def
lemmas insert_defs = insert_workflow_run_def insert_run_row_def insert_checked_def run_to_row_def run_row_check_def nonneg_opt_def is_ok_def
  draw_child_run_within_def
lemmas admit_defs = admit_spend_within_def read_ledger_def ledger_from_row_def ensure_admitting_def caps_guard_def new_total_def checked_total_def
  write_spend_def update_run_def u64_to_sql_def remaining_from_ledger_def find_run_def map_run_def parse_opt_def session_depth_from_sql_def
  wall_elapsed_def active_elapsed_def end_of_def sat_i64_def nonneg_def nonneg_u32_def sat_add_def spend_of_columns_def spend_for_grant_def
  is_usable_cost_usd_def
lemmas sample_defs = sample_ops_def sample_run_def sample_spend_def sample_caps_def resource_caps_default_def no_faults_def from_secs_def flow_db_new_def

definition sample_db :: flow_db where
  "sample_db = foldl (flow_step id sample_codec) flow_db_new sample_ops"

lemma sample_db_eq:
  "sample_db = flow_db_new\<lparr>fd_runs :=
     [(run_to_row sample_codec (sample_run 1 None 3))\<lparr>rr_spent :=
         \<lparr>sc_tokens = 3, sc_cost_usd = 0, sc_tasks = 2, sc_tool_calls = 2, sc_subagents = 2, sc_bytes_written = 2, sc_escalations = 2\<rparr>\<rparr>,
      (run_to_row sample_codec (sample_run 2 (Some 1) 2))\<lparr>rr_spent :=
         \<lparr>sc_tokens = 1, sc_cost_usd = 0, sc_tasks = 0, sc_tool_calls = 0, sc_subagents = 0, sc_bytes_written = 0, sc_escalations = 0\<rparr>,
         rr_drawn_at := Some 0\<rparr>]\<rparr>"
  by (simp add: sample_db_def txn_defs insert_defs admit_defs sample_defs run_is_terminal_def run_state_from_sql_def)

lemma sample_ledger:
  "ledger_of sample_codec sample_db i = (if i = 1 then
      Some ((fresh_ledger sample_codec (sample_run 1 None 3))\<lparr>lg_spent := (sample_spend 3)\<lparr>sp_tasks := 2, sp_tool_calls := 2,
        sp_subagents := 2, sp_bytes_written := 2, sp_escalations := 2\<rparr>\<rparr>)
    else if i = 2 then Some ((fresh_ledger sample_codec (sample_run 2 (Some 1) 2))\<lparr>lg_spent := sample_spend 1, lg_drawn_at := Some 0\<rparr>)
    else None)"
  by (simp add: sample_db_eq ledger_of_def insert_defs admit_defs sample_defs run_state_from_sql_def fresh_ledger_def ok_or_def)

lemma sample_ops_ok: "x \<in> set sample_ops \<Longrightarrow> flow_op_ok x"
proof -
  have "caps_fit (sample_caps n)" if "n \<le> 3" for n
    unfolding caps_fit_def limit_fits_def
  proof
    fix d show "if width d = 32 then cap_of d (sample_caps n) < 2 ^ 32 - 1 else cap_of d (sample_caps n) < 2 ^ 64"
      using that by (cases d) (simp_all add: sample_caps_def)
  qed
  then show "x \<in> set sample_ops \<Longrightarrow> flow_op_ok x" by (auto simp: sample_ops_def sample_run_def)
qed

subsection \<open>The spends of a tree of runs\<close>

lemma ledger_of_new [simp]: "ledger_of cd flow_db_new = Map.empty"
  by (simp add: ledger_of_def find_run_def flow_db_new_def fun_eq_iff)

lemma tree_of_new: "tree_of cd flow_db_new = Map.empty"
  by (simp add: tree_of_def fun_eq_iff)

lemma new_db_inv: "codec_ok cd \<Longrightarrow> codec_ok cd \<and> runs_ok cd flow_db_new"
  by (simp add: runs_ok_def)

text \<open>What holds after any sequence of operations.\<close>

lemma flow_trace_ok:
  assumes "codec_ok cd" "\<And>x. x \<in> set xs \<Longrightarrow> flow_op_ok x"
  shows "runs_ok cd (foldl (flow_step rnd cd) flow_db_new xs) \<and>
    tree_ok (tree_of cd (foldl (flow_step rnd cd) flow_db_new xs)) (admitted_total (flow_step rnd cd) (flow_admits rnd cd) flow_db_new xs)"
proof -
  have "tree_ok (tree_of cd flow_db_new) (\<lambda>_ _. 0)" by (simp add: tree_ok_def tree_of_new)
  from flow.steps_tree_ok [OF new_db_inv [OF assms(1)] _ this] assms(2) show ?thesis by simp
qed





subsection \<open>How runs move\<close>

definition ledger_moves :: "run_ledger \<Rightarrow> run_ledger \<Rightarrow> bool" where
  "ledger_moves l l' \<longleftrightarrow>
     lg_run_id l' = lg_run_id l \<and> lg_parent_run_id l' = lg_parent_run_id l \<and> lg_caps l' = lg_caps l \<and>
     lg_started_at l' = lg_started_at l \<and> lg_session_depth l' = lg_session_depth l \<and>
     (lg_refunded_at l \<noteq> None \<longrightarrow> lg_refunded_at l' = lg_refunded_at l) \<and>
     (lg_state l' = lg_state l \<and> lg_ended_at l' = lg_ended_at l \<or> transition_is_legal (lg_state l) (lg_state l'))"

definition keeps :: "flow_codec \<Rightarrow> flow_db \<Rightarrow> flow_db \<Rightarrow> bool" where
  "keeps cd db db' \<longleftrightarrow> (\<forall>i l. ledger_of cd db i = Some l \<longrightarrow> (\<exists>l'. ledger_of cd db' i = Some l' \<and> ledger_moves l l'))"

lemma keepsI: "(\<And>i l. ledger_of cd db i = Some l \<Longrightarrow> \<exists>l'. ledger_of cd db' i = Some l' \<and> ledger_moves l l') \<Longrightarrow> keeps cd db db'"
  by (simp add: keeps_def)

lemma ledger_moves_refl [simp]: "ledger_moves l l" "ledger_moves l (l\<lparr>lg_spent := s\<rparr>)" "ledger_moves l (l\<lparr>lg_drawn_at := t\<rparr>)"
  by (simp_all add: ledger_moves_def)

lemma keeps_same_runs: "fd_runs db' = fd_runs db \<Longrightarrow> keeps cd db db'"
  using ledger_of_cong [of db' db cd] by (simp add: keeps_def)

lemma keeps_cong: "keeps cd db db' \<Longrightarrow> fd_runs db'' = fd_runs db' \<Longrightarrow> keeps cd db db''"
  using ledger_of_cong [of db'' db' cd] by (simp add: keeps_def)

lemma transition_keeps_runs:
  assumes cd: "codec_ok cd" and ok: "transition_in_transaction cd fault i to now dl sess perm db = Ok (from, db')"
  shows "keeps cd db db'"
proof (rule keepsI)
  fix j l assume l: "ledger_of cd db j = Some l"
  obtain r where r: "find_run (fc_uuid_str cd i) db = Some r" "run_state_from_sql (rr_state r) = Ok from" "transition_is_legal from to"
    and led: "ledger_of cd db' = (ledger_of cd db)(i := map_option (moved_ledger from to now (moved_row cd from to now dl r)) (ledger_of cd db i))"
    by (rule transition_Ok [OF cd ok])
  have "lg_state l = from" if "j = i" using l r that by (auto simp: ledger_of_Some ledger_from_row_def)
  then show "\<exists>l'. ledger_of cd db' j = Some l' \<and> ledger_moves l l'"
    using r(3) l by (cases "j = i") (auto simp: led ledger_moves_def moved_ledger_def)
qed

lemma admit_keeps_runs:
  assumes cd: "codec_ok cd" and inv: "runs_ok cd db" and ok: "admit_spend_within rnd cd fault i q now a db = Ok (left, db')"
  shows "keeps cd db db'"
proof -
  have fit: "caps_fit c" if "ledger_of cd db i = Some l" "lg_caps l = Some c" for l c
    using runs_okD [OF inv that(1)] that(2) by (simp add: run_ok_def)
  obtain l tot where "ledger_of cd db i = Some l" "ledger_of cd db' = (ledger_of cd db)(i \<mapsto> l\<lparr>lg_spent := tot\<rparr>)"
    by (rule admit_spend_within_Ok [OF cd ok]) (erule fit, assumption, blast)
  then show ?thesis by (auto simp: keeps_def)
qed

lemma refund_keeps_runs:
  assumes cd: "codec_ok cd" and inv: "runs_ok cd db" and ok: "refund_within rnd cd fault i now db = Ok (u, db')"
  shows "keeps cd db db'"
proof -
  have range: "spend_in_range (lg_spent l)" if "ledger_of cd db j = Some l" for j l
    using runs_okD [OF inv that] by (simp add: run_ok_def)
  obtain c p l tot where "ledger_of cd db i = Some c" "lg_refunded_at c = None" "ledger_of cd db p = Some l"
    and led: "ledger_of cd db' = (let m = (ledger_of cd db)(p \<mapsto> l\<lparr>lg_spent := tot\<rparr>)
                         in m(i := map_option (\<lambda>l. l\<lparr>lg_refunded_at := Some now\<rparr>) (m i)))"
    by (rule refund_within_Ok [OF cd ok]) (erule range, blast)
  then show ?thesis by (auto simp: keeps_def ledger_moves_def Let_def)
qed

lemma insert_keeps_runs:
  assumes cd: "codec_ok cd" and inv: "runs_ok cd db" and ok: "insert_run_row rnd cd fault run db = Ok (x, db')"
    and self: "wr_parent_run_id run \<noteq> Some (wr_id run)" and caps: "\<And>c. wr_caps run = Some c \<Longrightarrow> caps_fit c"
  shows "keeps cd db db'"
proof -
  let ?db = "db\<lparr>fd_runs := fd_runs db @ [run_to_row cd run]\<rparr>"
  from ok have ins: "insert_checked rnd cd fault run db = Ok (x, db')"
    by (auto simp: insert_run_row_def Let_def split: if_splits option.splits)
  from ins have new: "find_run (fc_uuid_str cd (wr_id run)) db = None" and chk: "run_row_check (run_to_row cd run)"
    by (auto simp: insert_checked_def split: if_splits)
  note led = insert_row_ledger [OF cd new chk]
  have none: "ledger_of cd db (wr_id run) = None" using new by (simp add: ledger_of_def)
  show ?thesis
  proof (cases "wr_parent_run_id run")
    case None
    with ins have "db' = ?db" by (auto simp: insert_checked_def Let_def split: if_splits)
    with none show ?thesis by (auto simp: keeps_def led)
  next
    case (Some p)
    with ins obtain g where draw: "draw_child_run_within rnd cd fault (wr_id run) (wr_started_at run) ?db = Ok (g, db')"
      by (auto simp: insert_checked_def Let_def wrap_err_def split: if_splits sum.splits)
    have c: "ledger_of cd ?db (wr_id run) = Some (fresh_ledger cd run)" by (simp add: led)
    have fit: "caps_fit c" if "lg_caps (fresh_ledger cd run) = Some c" for c
      using stored_caps [OF cd _ caps, of "wr_caps run"] that by (simp add: fresh_ledger_def)
    have fits: "caps_fit k" if "ledger_of cd ?db j = Some l" "lg_caps l = Some k" for j l k
      using that fit runs_okD [OF inv] by (auto simp: led run_ok_def split: if_splits)
    obtain q l tot where "lg_parent_run_id (fresh_ledger cd run) = Some q" "ledger_of cd ?db q = Some l"
      and led2: "ledger_of cd db' = (let m = (ledger_of cd ?db)(q \<mapsto> l\<lparr>lg_spent := tot\<rparr>)
                         in m(wr_id run := map_option (\<lambda>l. l\<lparr>lg_drawn_at := Some (wr_started_at run)\<rparr>) (m (wr_id run))))"
      by (rule draw_child_run_within_Ok [OF cd draw c]) (erule fits, assumption, blast)
    moreover from this(1) self Some have "q \<noteq> wr_id run" by (simp add: fresh_ledger_def)
    ultimately show ?thesis using none by (auto simp: keeps_def led Let_def)
  qed
qed

lemma effect_keeps:
  assumes eff: "effect rnd cd lab db db'" and cd: "codec_ok cd" and inv: "runs_ok cd db"
  shows "keeps cd db db'"
  using eff
proof cases
  case (inserted fault run u db1)
  with insert_keeps_runs [OF cd inv inserted(2)] show ?thesis by (auto intro: keeps_cong)
next
  case (moved db0 fault i to now dl sess perm "from")
  with transition_keeps_runs [OF cd moved(3)] ledger_of_cong [OF moved(2), of cd] show ?thesis by (simp add: keeps_def)
qed (use keeps_same_runs admit_keeps_runs [OF cd inv] refund_keeps_runs [OF cd inv] in auto)

text \<open>What a run in a final state keeps.\<close>

definition finished_as :: "run_ledger \<Rightarrow> run_ledger \<Rightarrow> bool" where
  "finished_as l l' \<longleftrightarrow> lg_state l' = lg_state l \<and> lg_ended_at l' = lg_ended_at l \<and>
     lg_caps l' = lg_caps l \<and> lg_parent_run_id l' = lg_parent_run_id l"

lemma final_moves: "run_is_terminal (lg_state l) \<Longrightarrow> ledger_moves l l' \<Longrightarrow> finished_as l l'"
  using legal_not_from_terminal by (auto simp: ledger_moves_def finished_as_def)

lemma trace_snoc_ok:
  assumes "codec_ok cd" "\<And>x. x \<in> set (xs @ [y]) \<Longrightarrow> flow_op_ok x"
  shows "keeps cd (foldl (flow_step rnd cd) flow_db_new xs) (foldl (flow_step rnd cd) flow_db_new (xs @ [y]))"
proof -
  have "runs_ok cd (foldl (flow_step rnd cd) flow_db_new xs)" "tree_ok (tree_of cd (foldl (flow_step rnd cd) flow_db_new xs))
      (admitted_total (flow_step rnd cd) (flow_admits rnd cd) flow_db_new xs)"
    using flow_trace_ok [OF assms(1), of xs] assms(2) by simp_all
  with assms show ?thesis
    by (simp add: effect_keeps [OF flow_step_effect])
qed

text \<open>
  \<^bold>\<open>C16.\<close> A finished run stays as it finished: under any further operations, with or without failing
  statements, it keeps its final state, the time it ended, its grant and its parent.
\<close>

theorem finished_runs_stay_finished:
  assumes cd: "codec_ok cd" and ops: "\<And>x. x \<in> set (xs @ ys) \<Longrightarrow> flow_op_ok x"
    and l: "ledger_of cd (foldl (flow_step rnd cd) flow_db_new xs) i = Some l" and fin: "run_is_terminal (lg_state l)"
  shows "\<exists>l'. ledger_of cd (foldl (flow_step rnd cd) flow_db_new (xs @ ys)) i = Some l' \<and> finished_as l l'"
  using ops
proof (induction ys rule: rev_induct)
  case Nil
  show ?case using l by (simp add: finished_as_def)
next
  case (snoc y ys)
  then obtain l1 where l1: "ledger_of cd (foldl (flow_step rnd cd) flow_db_new (xs @ ys)) i = Some l1" "finished_as l l1" by auto
  from trace_snoc_ok [OF cd, of "xs @ ys" y rnd] snoc.prems l1(1) obtain l2
    where l2: "ledger_of cd (foldl (flow_step rnd cd) flow_db_new (xs @ ys @ [y])) i = Some l2" "ledger_moves l1 l2"
    by (fastforce simp: keeps_def)
  have "finished_as l1 l2" using l1(2) fin l2(2) by (intro final_moves) (simp_all add: finished_as_def)
  with l1(2) l2(1) show ?case by (auto simp: finished_as_def)
qed

lemma sample_completed:
  "ledger_of sample_codec (foldl (flow_step id sample_codec) flow_db_new (sample_ops @ [FTransition no_faults 2 RsCompleted 9])) 2 =
     Some ((fresh_ledger sample_codec (sample_run 2 (Some 1) 2))\<lparr>lg_state := RsCompleted, lg_ended_at := Some 9,
       lg_spent := sample_spend 1, lg_drawn_at := Some 0\<rparr>)"
proof -
  have "flow_step id sample_codec sample_db (FTransition no_faults 2 RsCompleted 9) =
      map_run (fc_uuid_str sample_codec 2) (\<lambda>r. r\<lparr>rr_state := ''completed'', rr_ended_at := Some 9\<rparr>) sample_db"
    by (simp add: transition_run_def transition_in_transaction_def check_session_def release_checkpoint_def moved_row_def parked_at_after_def
        parked_nanos_after_def sample_db_eq txn_defs insert_defs admit_defs sample_defs run_is_terminal_def run_state_from_sql_def)
  then show ?thesis
    by (simp flip: sample_db_def)
       (simp add: sample_db_eq ledger_of_def insert_defs admit_defs sample_defs run_state_from_sql_def fresh_ledger_def ok_or_def)
qed

theorem finished_runs_stay_finished_witness:
  "\<exists>l'. ledger_of sample_codec (foldl (flow_step id sample_codec) flow_db_new
          ((sample_ops @ [FTransition no_faults 2 RsCompleted 9]) @ [FCancel no_faults 2 11])) 2 = Some l' \<and>
        lg_state l' = RsCompleted \<and> lg_ended_at l' = Some 9"
proof -
  have ops: "flow_op_ok x" if "x \<in> set ((sample_ops @ [FTransition no_faults 2 RsCompleted 9]) @ [FCancel no_faults 2 11])" for x
    using that sample_ops_ok by auto
  from finished_runs_stay_finished [OF sample_codec_ok _ sample_completed, of "[FCancel no_faults 2 11]", OF ops]
  show ?thesis by (auto simp: finished_as_def run_is_terminal_def simp del: foldl_append)
qed

text \<open>
  \<^bold>\<open>C17.\<close> The columns of a run agree with its state, after any operations: it has an end if and only if
  it is final, it is parked only while it waits for a human, it has given its grant back only if it
  is final, and if it has a parent then the parent exists and the grant was taken from it; and it has
  not spent more than its own grant.
\<close>

theorem run_records_consistent:
  assumes cd: "codec_ok cd" and ops: "\<And>x. x \<in> set xs \<Longrightarrow> flow_op_ok x"
    and l: "ledger_of cd (foldl (flow_step rnd cd) flow_db_new xs) i = Some l"
  shows "(lg_ended_at l \<noteq> None \<longleftrightarrow> run_is_terminal (lg_state l)) \<and>
    (lg_parked_at l \<noteq> None \<longrightarrow> lg_state l = RsAwaitingHuman) \<and>
    (lg_refunded_at l \<noteq> None \<longrightarrow> run_is_terminal (lg_state l)) \<and>
    (\<forall>p. lg_parent_run_id l = Some p \<longrightarrow> lg_drawn_at l \<noteq> None \<and> p \<noteq> i \<and>
       ledger_of cd (foldl (flow_step rnd cd) flow_db_new xs) p \<noteq> None) \<and>
    (\<forall>d c. lg_caps l = Some c \<longrightarrow> spent_of d (lg_spent l) \<le> cap_of d c)"
proof -
  let ?t = "tree_of cd (foldl (flow_step rnd cd) flow_db_new xs)"
  have ok: "runs_ok cd (foldl (flow_step rnd cd) flow_db_new xs)"
    and tree: "tree_ok ?t (admitted_total (flow_step rnd cd) (flow_admits rnd cd) flow_db_new xs)"
    using flow_trace_ok [OF cd, of xs] ops by simp_all
  note e = tree_okE [OF tree tree_of_Some [OF l]]
  have "spent_of d (lg_spent l) \<le> cap_of d c" if "lg_caps l = Some c" for d c
    using e(1) [of d] that by (simp add: entry_of_def)
  moreover have "p \<noteq> i \<and> ledger_of cd (foldl (flow_step rnd cd) flow_db_new xs) p \<noteq> None" if "lg_parent_run_id l = Some p" for p
    using e(4,5) [of p] that by (auto simp: entry_of_def tree_of_def)
  ultimately show ?thesis using runs_okD [OF ok l] unfolding run_ok_def by blast
qed

theorem run_records_consistent_witness:
  "\<exists>l. ledger_of sample_codec (foldl (flow_step id sample_codec) flow_db_new sample_ops) 2 = Some l \<and>
     spent_of DTokens (lg_spent l) \<le> 2 \<and> lg_drawn_at l \<noteq> None"
proof -
  let ?l = "(fresh_ledger sample_codec (sample_run 2 (Some 1) 2))\<lparr>lg_spent := sample_spend 1, lg_drawn_at := Some 0\<rparr>"
  have l: "ledger_of sample_codec (foldl (flow_step id sample_codec) flow_db_new sample_ops) 2 = Some ?l"
    using sample_ledger [of 2] by (simp add: sample_db_def)
  have "lg_caps ?l = Some (sample_caps 2)" "lg_parent_run_id ?l = Some 1" by (simp_all add: fresh_ledger_def sample_defs)
  with run_records_consistent [OF sample_codec_ok sample_ops_ok l] have "spent_of DTokens (lg_spent ?l) \<le> cap_of DTokens (sample_caps 2)"
      "lg_drawn_at ?l \<noteq> None"
    by blast+
  with l show ?thesis by (auto simp: sample_caps_def)
qed

subsection \<open>Continuations of parent calls\<close>

definition call_row_of :: "flow_codec \<Rightarrow> flow_db \<Rightarrow> run_id \<Rightarrow> call_row option" where
  "call_row_of cd db i = List.find (\<lambda>r. cr_child_run_id r = fc_uuid_str cd i) (fd_calls db)"

definition calls_ok :: "flow_db \<Rightarrow> bool" where
  "calls_ok db \<longleftrightarrow> distinct (map cr_child_run_id (fd_calls db))"

text \<open>What an operation on calls does to a row.\<close>

fun row_after :: "flow_codec \<Rightarrow> call_op \<Rightarrow> call_row \<Rightarrow> call_row" where
  "row_after cd (CoInsert c) r = r"
| "row_after cd (CoJoin i n t) r =
     (if cr_child_run_id r = fc_uuid_str cd i \<and> cr_join_state r = ''pending''
      then r\<lparr>cr_join_state := ''joined'', cr_terminal_task_seq := Some (int n), cr_joined_at := Some t\<rparr> else r)"
| "row_after cd (CoClaim tok i) r =
     (if cr_child_run_id r = fc_uuid_str cd i \<and> cr_continuation_state r = ''available''
      then r\<lparr>cr_continuation_state := ''claimed'', cr_claim_token := Some (fc_uuid_str cd tok)\<rparr> else r)"
| "row_after cd (CoRelease i tok) r =
     (if claimed_by cd i tok r then r\<lparr>cr_continuation_state := ''available'', cr_claim_token := None\<rparr> else r)"
| "row_after cd CoBoot r =
     (if cr_continuation_state r = ''claimed'' then r\<lparr>cr_continuation_state := ''available'', cr_claim_token := None\<rparr> else r)"
| "row_after cd (CoComplete i tok t) r =
     (if claimed_by cd i tok r
      then r\<lparr>cr_continuation_state := ''completed'', cr_claim_token := None, cr_completed_at := Some t\<rparr> else r)"

lemma row_after_id [simp]: "cr_child_run_id (row_after cd op r) = cr_child_run_id r"
  by (cases op) simp_all

lemma find_map_keyed:
  "(\<And>r. key (g r) = key r) \<Longrightarrow> List.find (\<lambda>r. key r = k) (map g rows) = map_option g (List.find (\<lambda>r. key r = k) rows)"
  by (induction rows) auto

lemma call_body_rows:
  assumes "call_body cd f op db = Ok (b, db')"
  shows "fd_calls db' = map (row_after cd op) (fd_calls db) \<or>
    (\<exists>row. fd_calls db' = fd_calls db @ [row] \<and> cr_child_run_id row \<notin> cr_child_run_id ` set (fd_calls db) \<and> (\<exists>c. op = CoInsert c))"
proof (cases op)
  case (CoInsert c)
  with assms show ?thesis
    by (fastforce simp: insert_workflow_child_call_def Let_def list_ex_iff call_conflicts_def split: if_splits child_call_join.splits)
next
  case (CoJoin i n t)
  with assms show ?thesis
    by (auto simp: mark_workflow_child_call_joined_def update_calls_def seq_to_sql_def split: if_splits)
next
  case (CoClaim tok i)
  with assms show ?thesis
    by (auto simp: claim_workflow_child_continuation_def update_calls_def split: if_splits)
qed (use assms in \<open>auto simp: release_workflow_child_continuation_def release_incomplete_at_boot_def
       complete_workflow_child_continuation_def update_calls_def split: if_splits\<close>)

lemma call_body_calls_ok: "calls_ok db \<Longrightarrow> call_body cd f op db = Ok (b, db') \<Longrightarrow> calls_ok db'"
  using call_body_rows [of cd f op db b db'] by (auto simp: calls_ok_def comp_def)

lemma find_append_Some: "List.find P xs = Some r \<Longrightarrow> List.find P (xs @ ys) = Some r"
  by (induction xs) (auto split: if_splits)

lemma call_body_row_of:
  "call_row_of cd db i = Some r \<Longrightarrow> call_body cd f op db = Ok (b, db') \<Longrightarrow> call_row_of cd db' i = Some (row_after cd op r)"
  using call_body_rows [of cd f op db b db']
  by (auto simp: call_row_of_def find_map_keyed find_append_Some)

lemma keyed_filter:
  assumes "calls_ok db" "\<And>r. P r \<Longrightarrow> cr_child_run_id r = fc_uuid_str cd i"
  shows "filter P (fd_calls db) = (case call_row_of cd db i of Some r \<Rightarrow> if P r then [r] else [] | None \<Rightarrow> [])"
proof -
  have "filter P rows = (case List.find (\<lambda>r. cr_child_run_id r = fc_uuid_str cd i) rows of Some r \<Rightarrow> if P r then [r] else [] | None \<Rightarrow> [])"
    if "distinct (map cr_child_run_id rows)" for rows
    using that
  proof (induction rows)
    case (Cons r rows)
    have "filter P rows = []" if "cr_child_run_id r = fc_uuid_str cd i"
      using Cons.prems assms(2) that by (force simp: filter_empty_conv)
    with Cons assms(2) show ?case by (auto split: option.splits)
  qed simp
  with assms(1) show ?thesis by (simp add: calls_ok_def call_row_of_def)
qed

text \<open>A claim succeeds only on an available call, and a completion only for the holder of the claim.\<close>

lemma claim_succeeds:
  assumes "calls_ok db" "call_body cd f (CoClaim tok i) db = Ok (True, db')"
  shows "\<exists>r. call_row_of cd db i = Some r \<and> cr_continuation_state r = ''available''"
  using assms keyed_filter [OF assms(1), of "\<lambda>r. cr_child_run_id r = fc_uuid_str cd i \<and> cr_continuation_state r = ''available''" cd i]
  by (auto simp: claim_workflow_child_continuation_def update_calls_def split: if_splits option.splits)

lemma complete_succeeds:
  assumes "calls_ok db" "call_body cd f (CoComplete i tok t) db = Ok (True, db')"
  shows "\<exists>r. call_row_of cd db i = Some r \<and> claimed_by cd i tok r"
  using assms keyed_filter [OF assms(1), of "claimed_by cd i tok" cd i]
  by (auto simp: complete_workflow_child_continuation_def update_calls_def claimed_by_def split: if_splits option.splits)

text \<open>The other operations leave the calls alone.\<close>

interpretation calls: table_invariant cd "\<lambda>db. fd_calls db = c" for cd c
  by unfold_locales (auto simp: map_run_def)

lemma flow_step_calls:
  assumes "flow_op_ok x"
  shows "fd_calls (flow_step rnd cd db x) = fd_calls db \<or> (\<exists>f op b. x = FCall f op \<and> call_body cd f op db = Ok (b, flow_step rnd cd db x))"
proof (cases "\<exists>f op. x = FCall f op")
  case True
  then obtain f op where "x = FCall f op" by blast
  then show ?thesis using map_sum_run_txn [of DSqlite f "call_body cd f op" db] by (metis flow_step.simps(12) prod.collapse)
next
  case False
  then show ?thesis using calls.flow_step_keeps [OF _ assms] by blast
qed

text \<open>A property of a call's row that the operations allowed by \<open>A\<close> keep holds for good.\<close>

lemma call_row_trace:
  assumes ops: "\<And>x. x \<in> set ys \<Longrightarrow> flow_op_ok x" and ok: "calls_ok db"
    and keep: "\<And>f op r. FCall f op \<in> set ys \<Longrightarrow> cr_child_run_id r = fc_uuid_str cd i \<Longrightarrow> Q r \<Longrightarrow> Q (row_after cd op r)"
    and r: "call_row_of cd db i = Some r" "Q r"
  shows "calls_ok (foldl (flow_step rnd cd) db ys) \<and> (\<exists>r'. call_row_of cd (foldl (flow_step rnd cd) db ys) i = Some r' \<and> Q r')"
  using ops keep
proof (induction ys rule: rev_induct)
  case Nil
  show ?case using ok r by auto
next
  case (snoc y ys)
  let ?db = "foldl (flow_step rnd cd) db ys"
  have "calls_ok ?db \<and> (\<exists>r'. call_row_of cd ?db i = Some r' \<and> Q r')" by (rule snoc.IH) (use snoc.prems in auto)
  then obtain r' where r': "calls_ok ?db" "call_row_of cd ?db i = Some r'" "Q r'" by blast
  have "flow_op_ok y" using snoc.prems(1) by simp
  from flow_step_calls [OF this, of rnd cd ?db] show ?case
  proof (elim disjE exE conjE)
    assume "fd_calls (flow_step rnd cd ?db y) = fd_calls ?db"
    with r' show ?thesis by (simp add: calls_ok_def call_row_of_def)
  next
    fix f op b assume y: "y = FCall f op" "call_body cd f op ?db = Ok (b, flow_step rnd cd ?db y)"
    have "cr_child_run_id r' = fc_uuid_str cd i" using r'(2) by (auto simp: call_row_of_def find_Some_iff)
    with snoc.prems(2) [of f op r'] y(1) r'(3) have "Q (row_after cd op r')" by simp
    with call_body_row_of [OF r'(2) y(2)] call_body_calls_ok [OF r'(1) y(2)] show ?thesis by simp
  qed
qed

interpretation call_keys: trace_invariant cd calls_ok for cd
  by unfold_locales (auto simp: calls_ok_def map_run_def flow_db_new_def dest: call_body_calls_ok [unfolded calls_ok_def])

text \<open>
  \<^bold>\<open>C33.\<close> A continuation that was completed is never claimed and never completed again, whatever other
  operations happen in between, releases at boot included: a parent call is resumed once.
\<close>

theorem continuation_completed_once:
  assumes cd: "codec_ok cd" and ops: "\<And>x. x \<in> set (xs @ ys) \<Longrightarrow> flow_op_ok x"
    and db: "db = foldl (flow_step rnd cd) flow_db_new xs"
    and completed: "call_body cd f (CoComplete i tok t) db = Ok (True, db1)"
    and db': "db' = foldl (flow_step rnd cd) db1 ys"
  shows "call_body cd f' (CoClaim tok' i) db' \<noteq> Ok (True, db2) \<and> call_body cd f' (CoComplete i tok' t') db' \<noteq> Ok (True, db2)"
proof -
  have ok: "calls_ok db" using call_keys.trace [of xs rnd cd] ops db by simp
  obtain r where r: "call_row_of cd db i = Some r" "claimed_by cd i tok r" using complete_succeeds [OF ok completed] by blast
  from call_body_row_of [OF r(1) completed] r(2) have r1: "call_row_of cd db1 i = Some (row_after cd (CoComplete i tok t) r)"
    "cr_continuation_state (row_after cd (CoComplete i tok t) r) = ''completed''" by simp_all
  have "calls_ok db' \<and> (\<exists>r'. call_row_of cd db' i = Some r' \<and> cr_continuation_state r' = ''completed'')"
    unfolding db'
  proof (rule call_row_trace [where Q = "\<lambda>r. cr_continuation_state r = ''completed''", OF _ call_body_calls_ok [OF ok completed] _ r1])
    show "cr_continuation_state (row_after cd op r') = ''completed''" if "cr_continuation_state r' = ''completed''" for op r'
      using that by (cases op) (simp_all add: claimed_by_def)
  qed (use ops in simp)
  then show ?thesis
    using claim_succeeds [of db' cd f' tok' i db2] complete_succeeds [of db' cd f' i tok' t' db2] by (auto simp: claimed_by_def)
qed

definition sample_call :: child_call where
  "sample_call = \<lparr>cc_child_run_id = 2, cc_parent_run_id = 1, cc_parent_step_id = ''s'', cc_parent_attempt = 1,
     cc_parent_item_index = None, cc_parent_task_id = 9, cc_join = JoinPending\<rparr>"

lemmas call_defs = insert_workflow_child_call_def call_to_row_def call_row_check_def call_conflicts_def update_calls_def
  claim_workflow_child_continuation_def workflow_child_call_for_child_run_def call_join_from_row_def item_index_from_sql_def
  item_index_to_sql_def TOP_LEVEL_ITEM_INDEX_def complete_workflow_child_continuation_def claimed_by_def sample_call_def

theorem continuation_completed_once_witness:
  "\<exists>db1. call_body sample_codec no_faults (CoComplete 2 5 8)
       (foldl (flow_step id sample_codec) flow_db_new [FCall no_faults (CoInsert sample_call), FCall no_faults (CoClaim 5 2)]) = Ok (True, db1) \<and>
     (\<forall>db2. call_body sample_codec no_faults (CoClaim 6 2) (foldl (flow_step id sample_codec) db1 [FCall no_faults CoBoot]) \<noteq> Ok (True, db2))"
proof -
  let ?ops = "[FCall no_faults (CoInsert sample_call), FCall no_faults (CoClaim 5 2)]"
  obtain db1 where db1: "call_body sample_codec no_faults (CoComplete 2 5 8) (foldl (flow_step id sample_codec) flow_db_new ?ops) = Ok (True, db1)"
    by (simp add: txn_defs call_defs nonneg_opt_def no_faults_def flow_db_new_def)
  have "flow_op_ok x" if "x \<in> set (?ops @ [FCall no_faults CoBoot])" for x using that by auto
  with continuation_completed_once [OF sample_codec_ok _ refl db1 refl] db1 show ?thesis by blast
qed

text \<open>
  A claim is exclusive: until its holder releases or completes it, or the daemon boots, no other
  claim of the same call succeeds, and no other token completes it.
\<close>

theorem continuation_has_one_owner:
  assumes cd: "codec_ok cd" and ops: "\<And>x. x \<in> set (xs @ ys) \<Longrightarrow> flow_op_ok x"
    and db: "db = foldl (flow_step rnd cd) flow_db_new xs"
    and claimed: "call_body cd f (CoClaim tok i) db = Ok (True, db1)"
    and held: "\<And>g op. FCall g op \<in> set ys \<Longrightarrow> op \<noteq> CoBoot \<and> op \<noteq> CoRelease i tok \<and> (\<forall>t. op \<noteq> CoComplete i tok t)"
    and db': "db' = foldl (flow_step rnd cd) db1 ys"
  shows "call_body cd f' (CoClaim tok' i) db' \<noteq> Ok (True, db2) \<and>
    (tok' \<noteq> tok \<longrightarrow> call_body cd f' (CoComplete i tok' t') db' \<noteq> Ok (True, db2))"
proof -
  have ok: "calls_ok db" using call_keys.trace [of xs rnd cd] ops db by simp
  obtain r where r: "call_row_of cd db i = Some r" "cr_continuation_state r = ''available''" using claim_succeeds [OF ok claimed] by blast
  have "cr_child_run_id r = fc_uuid_str cd i" using r(1) by (auto simp: call_row_of_def find_Some_iff)
  with call_body_row_of [OF r(1) claimed] r(2) have r1: "call_row_of cd db1 i = Some (row_after cd (CoClaim tok i) r)"
    "claimed_by cd i tok (row_after cd (CoClaim tok i) r)" by (simp_all add: claimed_by_def)
  have "calls_ok db' \<and> (\<exists>r'. call_row_of cd db' i = Some r' \<and> claimed_by cd i tok r')"
    unfolding db'
  proof (rule call_row_trace [where Q = "claimed_by cd i tok", OF _ call_body_calls_ok [OF ok claimed] _ r1])
    show "claimed_by cd i tok (row_after cd op r')" if "FCall g op \<in> set ys" "claimed_by cd i tok r'" for g op r'
      using held [OF that(1)] that(2) by (cases op) (auto simp: claimed_by_def uuid_str_inj [OF cd])
  qed (use ops in simp)
  then show ?thesis
    using claim_succeeds [of db' cd f' tok' i db2] complete_succeeds [of db' cd f' i tok' t' db2]
    by (auto simp: claimed_by_def uuid_str_inj [OF cd])
qed

theorem continuation_has_one_owner_witness:
  "\<exists>db1. call_body sample_codec no_faults (CoClaim 5 2)
       (foldl (flow_step id sample_codec) flow_db_new [FCall no_faults (CoInsert sample_call)]) = Ok (True, db1) \<and>
     (\<forall>db2. call_body sample_codec no_faults (CoClaim 6 2) (foldl (flow_step id sample_codec) db1 [FCall no_faults (CoRelease 2 6)]) \<noteq> Ok (True, db2))"
proof -
  let ?ops = "[FCall no_faults (CoInsert sample_call)]"
  obtain db1 where db1: "call_body sample_codec no_faults (CoClaim 5 2) (foldl (flow_step id sample_codec) flow_db_new ?ops) = Ok (True, db1)"
    by (simp add: txn_defs call_defs nonneg_opt_def no_faults_def flow_db_new_def)
  have "flow_op_ok x" if "x \<in> set (?ops @ [FCall no_faults (CoRelease 2 6)])" for x using that by auto
  moreover have "op \<noteq> CoBoot \<and> op \<noteq> CoRelease 2 5 \<and> (\<forall>t. op \<noteq> CoComplete 2 5 t)"
    if "FCall g op \<in> set [FCall no_faults (CoRelease 2 6)]" for g op using that by auto
  ultimately show ?thesis using continuation_has_one_owner [OF sample_codec_ok _ refl db1 _ refl] db1 by blast
qed

end
