(* ===== verification/Flow_Recovery.thy ===== *)
theory Flow_Recovery
  imports Flow_Durable
begin

text \<open>
  Reading the durable state back: every row that the operations store decodes, a checkpoint is found
  again by recovery, time spent parked is not charged as active time, a retry inherits the completed
  steps before its cut, and the reaper sees a parked run exactly when its hold has run out.
\<close>

subsection \<open>Stored rows decode\<close>

definition col_ok :: "('a \<Rightarrow> 'b option) \<Rightarrow> 'a option \<Rightarrow> bool" where
  "col_ok p x \<longleftrightarrow> (case x of None \<Rightarrow> True | Some a \<Rightarrow> p a \<noteq> None)"

definition run_typed :: "flow_codec \<Rightarrow> run_row \<Rightarrow> bool" where
  "run_typed cd r \<longleftrightarrow>
     fc_uuid_parse cd (rr_id r) \<noteq> None \<and> fc_uuid_parse cd (rr_job_id r) \<noteq> None \<and> fc_uuid_parse cd (rr_session_id r) \<noteq> None \<and>
     col_ok (fc_uuid_parse cd) (rr_binding_id r) \<and> col_ok (fc_uuid_parse cd) (rr_parent_run_id r) \<and>
     col_ok (fc_uuid_parse cd) (rr_forked_from_run_id r) \<and> col_ok (fc_blob_parse cd) (rr_checkpoint_blob_ref r) \<and>
     col_ok (fc_caps_parse cd) (rr_caps_json r) \<and> is_ok (run_state_from_sql (rr_state r)) \<and> is_ok (session_depth_from_sql (rr_session_depth r))"

definition step_typed :: "flow_codec \<Rightarrow> step_row \<Rightarrow> bool" where
  "step_typed cd r \<longleftrightarrow>
     is_ok (disposition_from_sql (sr_disposition r)) \<and> is_ok (step_state_from_sql (sr_state r)) \<and>
     col_ok (fc_json_parse cd) (sr_output r) \<and> is_ok (item_index_from_sql (sr_item_index r))"

definition rows_typed :: "flow_codec \<Rightarrow> flow_db \<Rightarrow> bool" where
  "rows_typed cd db \<longleftrightarrow> list_all (run_typed cd) (fd_runs db) \<and> list_all (step_typed cd) (fd_steps db)"

lemma parse_opt_typed: "col_ok p x \<Longrightarrow> parse_opt p e x = Ok (Option.bind x p)"
  by (cases x) (auto simp: parse_opt_def col_ok_def)

lemma is_ok_Ok: "is_ok r \<longleftrightarrow> (\<exists>a. r = Ok a)"
  by (cases r) (simp_all add: is_ok_def)

lemma run_typed_decodes: "run_typed cd r \<Longrightarrow> \<exists>w. workflow_run_from_row cd r = Ok w"
  by (auto simp: run_typed_def workflow_run_from_row_def Let_def is_ok_Ok parse_opt_typed)

lemma run_typed_ledger: "run_typed cd r \<Longrightarrow> \<exists>l. ledger_from_row cd r = Ok l"
  by (auto simp: run_typed_def ledger_from_row_def is_ok_Ok parse_opt_typed)

lemma step_typed_decodes: "step_typed cd r \<Longrightarrow> \<exists>s. step_from_row cd i r = Ok s"
  by (auto simp: step_typed_def step_from_row_def is_ok_Ok col_ok_def ok_or_def simp del: res_bind_eq_Ok split: option.splits)

lemma steps_typed_decode: "list_all (step_typed cd) rows \<Longrightarrow> \<exists>ss. steps_from_rows cd i rows = Ok ss"
  by (induction rows) (auto dest!: step_typed_decodes [where i = i])

text \<open>
  What is relied on of the texts besides \<open>codec_ok\<close>: a printed blob reference and a printed JSON value
  can be parsed.
\<close>

definition codec_total :: "flow_codec \<Rightarrow> bool" where
  "codec_total cd \<longleftrightarrow> codec_ok cd \<and> (\<forall>b. fc_blob_parse cd (fc_blob_str cd b) \<noteq> None) \<and> (\<forall>v. fc_json_parse cd (fc_json_str cd v) \<noteq> None)"

lemma col_ok_printed: "(\<And>x. p (f x) \<noteq> None) \<Longrightarrow> col_ok p (map_option f x)"
  by (cases x) (simp_all add: col_ok_def)

lemma printed_typed:
  assumes "codec_total cd"
  shows "fc_uuid_parse cd (fc_uuid_str cd i) \<noteq> None" "col_ok (fc_uuid_parse cd) (map_option (fc_uuid_str cd) x)"
    "col_ok (fc_caps_parse cd) (map_option (fc_caps_str cd) c)" "col_ok (fc_blob_parse cd) (map_option (fc_blob_str cd) b)"
    "col_ok (fc_json_parse cd) (map_option (\<lambda>out. fc_json_str cd (so_value out)) v)"
  using assms by (auto simp: codec_total_def codec_ok_def intro!: col_ok_printed)

lemma disposition_roundtrip [simp]: "disposition_from_sql (disposition_sql d) = Ok d"
  by (cases d) (simp_all add: disposition_from_sql_def)

lemma step_state_roundtrip [simp]: "step_state_from_sql (step_state_sql st) = Ok st"
  by (cases st) (simp_all add: step_state_from_sql_def)

lemma run_typed_inserted:
  assumes "codec_total cd" "run_row_check (run_to_row cd run)"
  shows "run_typed cd (run_to_row cd run)"
  using assms(2) printed_typed [OF assms(1)]
  by (auto simp: run_typed_def run_row_check_def run_to_row_def session_depth_from_sql_def is_ok_def split: option.splits)

lemma run_typed_moved:
  assumes "codec_total cd" "run_typed cd r"
  shows "run_typed cd (moved_row cd from to now dl r)"
  using assms(2) printed_typed [OF assms(1)]
  by (auto simp: run_typed_def moved_row_def Let_def is_ok_def col_ok_def split: deadline_write.splits)

lemma step_typed_written:
  assumes "codec_total cd" "step_row_check (step_to_row cd i step fs ls)"
  shows "step_typed cd (step_to_row cd i step fs ls)"
  using assms(2) printed_typed(5) [OF assms(1), of "st_output step"]
  by (auto simp: step_typed_def step_row_check_def step_to_row_def is_ok_def item_index_from_sql_def TOP_LEVEL_ITEM_INDEX_def simp del: map_option_eq_Some option.map)

lemma step_typed_upsert: "step_typed cd new \<Longrightarrow> list_all (step_typed cd) rows \<Longrightarrow> list_all (step_typed cd) (upsert_step new rows)"
  by (induction rows) (auto simp: merge_row_def step_typed_def)

lemma map_run_typed:
  assumes "rows_typed cd db" "\<And>r. run_typed cd r \<Longrightarrow> run_typed cd (f r)"
  shows "rows_typed cd (map_run k f db)"
  using assms by (auto simp: rows_typed_def map_run_def list_all_iff)

lemma update_calls_typed: "rows_typed cd db \<Longrightarrow> update_calls fault P f db = Ok (n, db') \<Longrightarrow> rows_typed cd db'"
  by (auto simp: update_calls_def rows_typed_def split: if_splits)

lemma call_body_typed: "rows_typed cd db \<Longrightarrow> call_body cd f op db = Ok (b, db') \<Longrightarrow> rows_typed cd db'"
proof (cases op)
  case (CoInsert c)
  then show "rows_typed cd db \<Longrightarrow> call_body cd f op db = Ok (b, db') \<Longrightarrow> ?thesis"
    by (auto simp: insert_workflow_child_call_def Let_def rows_typed_def split: if_splits)
qed (auto simp: mark_workflow_child_call_joined_def claim_workflow_child_continuation_def release_workflow_child_continuation_def
       release_incomplete_at_boot_def complete_workflow_child_continuation_def dest: update_calls_typed split: if_splits)

lemma typed_invariant:
  assumes "codec_total cd"
  shows "trace_invariant cd (rows_typed cd)"
proof
  show "rows_typed cd (db\<lparr>fd_blobs := b\<rparr>)" if "rows_typed cd db" for db b using that by (simp add: rows_typed_def)
  show "rows_typed cd (map_run k (\<lambda>r. r\<lparr>rr_spent := s\<rparr>) db)" if "rows_typed cd db" for db k s
    by (rule map_run_typed [OF that]) (simp add: run_typed_def)
  show "rows_typed cd (map_run k (\<lambda>r. r\<lparr>rr_drawn_at := t\<rparr>) db)" if "rows_typed cd db" for db k t
    by (rule map_run_typed [OF that]) (simp add: run_typed_def)
  show "rows_typed cd (map_run k (\<lambda>r. r\<lparr>rr_refunded_at := t\<rparr>) db)" if "rows_typed cd db" for db k t
    by (rule map_run_typed [OF that]) (simp add: run_typed_def)
  show "rows_typed cd (map_run k (moved_row cd from to now dl) db)" if "rows_typed cd db" for db k "from" to now dl
    by (rule map_run_typed [OF that]) (rule run_typed_moved [OF assms])
  show "rows_typed cd (db\<lparr>fd_runs := fd_runs db @ [run_to_row cd run]\<rparr>)"
    if "rows_typed cd db" "run_row_check (run_to_row cd run)" for db run
    using that run_typed_inserted [OF assms that(2)] by (simp add: rows_typed_def)
  show "rows_typed cd (db\<lparr>fd_steps := upsert_step (step_to_row cd i step fs ls) (fd_steps db)\<rparr>)"
    if "rows_typed cd db" "step_row_check (step_to_row cd i step fs ls)" for db i step fs ls
    using that step_typed_upsert [OF step_typed_written [OF assms that(2)]] by (simp add: rows_typed_def)
  show "rows_typed cd flow_db_new" by (simp add: rows_typed_def flow_db_new_def)
  show "rows_typed cd db'" if "rows_typed cd db" "call_body cd f op db = Ok (b, db')" for db f op b db'
    using that by (rule call_body_typed)
qed

lemma typed_run_readable:
  assumes typed: "rows_typed cd db" and fault: "\<not> fault FsSelectRun" "\<not> fault FsSelectSteps" and r: "find_run (fc_uuid_str cd i) db = Some r"
  shows "\<exists>run steps l. recover_run cd fault db i = Ok (run, steps) \<and> read_ledger cd fault db i = Ok l"
proof -
  have "run_typed cd r" using r typed by (auto simp: find_run_def find_Some_iff rows_typed_def list_all_iff)
  moreover have "list_all (step_typed cd) (sort_key k (filter Q (fd_steps db)))" for k :: "step_row \<Rightarrow> string \<times> nat \<times> int" and Q
    using typed by (simp add: rows_typed_def list_all_iff)
  ultimately show ?thesis
    using r fault run_typed_decodes [of cd r] run_typed_ledger [of cd r] steps_typed_decode [of cd _ i]
    by (fastforce simp: recover_run_def workflow_run_row_def read_ledger_def wrap_err_def)
qed


lemma sample_codec_total: "codec_total sample_codec"
  using sample_codec_ok by (simp add: codec_total_def) (simp add: sample_codec_def)


subsection \<open>A checkpoint is found again\<close>

definition same_slot :: "step_run \<Rightarrow> step_run \<Rightarrow> bool" where
  "same_slot s s' \<longleftrightarrow> st_step_id s = st_step_id s' \<and> st_attempt s = st_attempt s' \<and> st_item_index s = st_item_index s'"

text \<open>
  What recovery returns for a step that was stored: an effectful step that was running has an unknown
  outcome, an error text is truncated, and the first task number is the one that was stored first.
\<close>

definition checkpoint_image :: "flow_codec \<Rightarrow> nat option \<Rightarrow> step_run \<Rightarrow> step_run" where
  "checkpoint_image cd earlier step =
     step\<lparr>st_step_state := (if st_step_state step = SsRunning \<and> st_disposition step = SdEffectful then SsIndeterminate else st_step_state step),
          st_first_task_seq := (case earlier of Some n \<Rightarrow> Some n | None \<Rightarrow> st_first_task_seq step),
          st_output := map_option (\<lambda>out. out\<lparr>so_value := the (fc_json_parse cd (fc_json_str cd (so_value out)))\<rparr>) (st_output step),
          st_error := map_option truncate_stored_step_error (st_error step)\<rparr>"

abbreviation slot_of :: "step_row \<Rightarrow> string \<times> nat \<times> int" where
  "slot_of r \<equiv> (sr_step_id r, sr_attempt r, sr_item_index r)"

abbreviation steps_of :: "flow_codec \<Rightarrow> flow_db \<Rightarrow> run_id \<Rightarrow> step_row list" where
  "steps_of cd db i \<equiv> filter (\<lambda>r. sr_run_id r = fc_uuid_str cd i) (fd_steps db)"

lemma list_all2_filter_both:
  "list_all2 R xs ys \<Longrightarrow> (\<And>x y. R x y \<Longrightarrow> P x \<longleftrightarrow> Q y) \<Longrightarrow> list_all2 R (filter P xs) (filter Q ys)"
  by (induction rule: list_all2_induct) auto

lemma steps_from_rows_list: "steps_from_rows cd i rows = Ok ss \<Longrightarrow> list_all2 (\<lambda>r s. step_from_row cd i r = Ok s) rows ss"
  by (induction rows arbitrary: ss) auto

lemma item_index_to_sql_inj: "item_index_to_sql x = item_index_to_sql y \<longleftrightarrow> x = y"
  by (auto simp: item_index_to_sql_def TOP_LEVEL_ITEM_INDEX_def split: option.splits)

lemma decoded_slot:
  assumes "step_from_row cd i r = Ok s"
  shows "slot_of r = (st_step_id s, st_attempt s, item_index_to_sql (st_item_index s))"
  using assms by (auto simp: step_from_row_def item_index_from_sql_def item_index_to_sql_def TOP_LEVEL_ITEM_INDEX_def
      simp del: item_index_to_sql_inj split: if_splits option.splits)

lemma merge_row_key [simp]: "step_key (merge_row r new) = step_key new"
  by (simp add: merge_row_def step_key_def)

lemma upsert_keys: "step_key ` set (upsert_step new rows) = insert (step_key new) (step_key ` set rows)"
  by (induction rows) auto

lemma upsert_distinct: "distinct (map step_key rows) \<Longrightarrow> distinct (map step_key (upsert_step new rows))"
proof (induction rows)
  case (Cons r rows)
  then show ?case using upsert_keys [of new rows] by auto
qed simp

lemma upsert_other: "filter (\<lambda>r. Q (step_key r) \<and> step_key r \<noteq> step_key new) (upsert_step new rows) = filter (\<lambda>r. Q (step_key r) \<and> step_key r \<noteq> step_key new) rows"
proof (induction rows)
  case (Cons r rows)
  then show ?case by (cases "step_key r = step_key new") (simp_all only: upsert_step.simps filter.simps merge_row_key if_True if_False refl not_False_eq_True simp_thms)
qed simp

lemma upsert_same:
  "distinct (map step_key rows) \<Longrightarrow>
   filter (\<lambda>r. step_key r = step_key new) (upsert_step new rows) =
     [case List.find (\<lambda>r. step_key r = step_key new) rows of None \<Rightarrow> new | Some r \<Rightarrow> merge_row r new]"
proof (induction rows)
  case (Cons r rows)
  have "filter (\<lambda>r. step_key r = step_key new) rows = []" if "step_key r = step_key new"
    using Cons.prems that by (auto simp: filter_empty_conv image_iff)
  with Cons show ?case by auto
qed simp

lemma call_body_steps: "call_body cd f op db = Ok (b, db') \<Longrightarrow> fd_steps db' = fd_steps db"
  by (cases op)
     (auto simp: insert_workflow_child_call_def mark_workflow_child_call_joined_def claim_workflow_child_continuation_def
        release_workflow_child_continuation_def release_incomplete_at_boot_def complete_workflow_child_continuation_def Let_def
        update_calls_def split: if_splits child_call_join.splits)

interpretation step_keys: trace_invariant cd "\<lambda>db. distinct (map step_key (fd_steps db))" for cd
  by unfold_locales (auto simp: map_run_def flow_db_new_def upsert_distinct call_body_steps)

lemma keyed_rows:
  "distinct (map step_key rows) \<Longrightarrow>
   filter (\<lambda>r. step_key r = step_key new) rows = (case List.find (\<lambda>r. step_key r = step_key new) rows of None \<Rightarrow> [] | Some r \<Rightarrow> [r])"
proof (induction rows)
  case (Cons r rows)
  have "filter (\<lambda>r. step_key r = step_key new) rows = []" if "step_key r = step_key new"
    using Cons.prems that by (auto simp: filter_empty_conv image_iff)
  with Cons show ?case by (cases "step_key r = step_key new") simp_all
qed simp

lemma decoded_unique:
  "list_all2 (\<lambda>r s. step_from_row cd i r = Ok s) rows xs \<Longrightarrow> list_all2 (\<lambda>r s. step_from_row cd i r = Ok s) rows ys \<Longrightarrow> xs = ys"
proof -
  have "zs = map (\<lambda>r. projr (step_from_row cd i r)) rows" if "list_all2 (\<lambda>r s. step_from_row cd i r = Ok s) rows zs" for zs
    using that by (induction rule: list_all2_induct) simp_all
  then show "list_all2 (\<lambda>r s. step_from_row cd i r = Ok s) rows xs \<Longrightarrow> list_all2 (\<lambda>r s. step_from_row cd i r = Ok s) rows ys \<Longrightarrow> xs = ys"
    by metis
qed

lemma written_row_decodes:
  assumes cd: "codec_total cd" and chk: "step_row_check (step_to_row cd (st_run_id step) step fs ls)"
    and seqs: "seq_to_sql (st_first_task_seq step) = Ok fs" "seq_to_sql (st_last_task_seq step) = Ok ls"
  shows "step_from_row cd (st_run_id step) ((step_to_row cd (st_run_id step) step fs ls)\<lparr>sr_first_task_seq := (case old of Some n \<Rightarrow> Some n | None \<Rightarrow> fs)\<rparr>) =
           Ok (checkpoint_image cd (map_option seq_from_sql old) step)"
proof -
  have seq: "map_option seq_from_sql fs = st_first_task_seq step" "map_option seq_from_sql ls = st_last_task_seq step"
    using seqs by (auto simp: seq_to_sql_def seq_from_sql_def split: option.splits if_splits)
  have item: "item_index_from_sql (item_index_to_sql (st_item_index step)) = Ok (st_item_index step)"
    using chk by (auto simp: step_row_check_def step_to_row_def item_index_from_sql_def item_index_to_sql_def TOP_LEVEL_ITEM_INDEX_def split: option.splits)
  have out: "(case map_option (\<lambda>out. fc_json_str cd (so_value out)) v of None \<Rightarrow> Ok None
       | Some text \<Rightarrow> res_bind (ok_or MalformedStoredOutput (fc_json_parse cd text))
           (\<lambda>x. Ok (Some \<lparr>so_value = x, so_is_secret_derived = (case v of None \<Rightarrow> False | Some out \<Rightarrow> so_is_secret_derived out)\<rparr>))) =
     Ok (map_option (\<lambda>out. out\<lparr>so_value := the (fc_json_parse cd (fc_json_str cd (so_value out)))\<rparr>) v)" for v :: "step_output option"
  proof (cases v)
    case (Some o')
    obtain x where "fc_json_parse cd (fc_json_str cd (so_value o')) = Some x" using cd unfolding codec_total_def by blast
    with Some show ?thesis by (cases o') simp
  qed simp
  have first: "map_option seq_from_sql (case old of Some n \<Rightarrow> Some n | None \<Rightarrow> fs) =
      (case map_option seq_from_sql old of Some n \<Rightarrow> Some n | None \<Rightarrow> st_first_task_seq step)"
    by (cases old) (simp_all add: seq(1))
  show ?thesis
    unfolding step_from_row_def step_to_row_def step_row.simps disposition_roundtrip step_state_roundtrip res_bind.simps out item first seq
    by (simp add: checkpoint_image_def)
qed

lemma recovered_steps:
  assumes "recover_run cd f db i = Ok (run, steps)"
  shows "list_all2 (\<lambda>r s. step_from_row cd i r = Ok s) (sort_key slot_of (steps_of cd db i)) steps"
    and "\<exists>r. find_run (fc_uuid_str cd i) db = Some r \<and> workflow_run_from_row cd r = Ok run"
  using assms by (auto simp: recover_run_def workflow_run_row_def split: if_splits option.splits dest: steps_from_rows_list)

text \<open>The steps in one slot, and the others, as the rows have them.\<close>

lemma recovered_slot:
  assumes rec: "recover_run cd f db (st_run_id step) = Ok (run, steps)"
    and new: "new = step_to_row cd (st_run_id step) step fs ls"
  shows "list_all2 (\<lambda>r s. step_from_row cd (st_run_id step) r = Ok s)
           (sort_key slot_of (filter (\<lambda>r. step_key r = step_key new) (fd_steps db))) (filter (\<lambda>s. same_slot s step) steps)"
    and "list_all2 (\<lambda>r s. step_from_row cd (st_run_id step) r = Ok s)
           (sort_key slot_of (filter (\<lambda>r. fst (step_key r) = sr_run_id new \<and> step_key r \<noteq> step_key new) (fd_steps db)))
           (filter (\<lambda>s. \<not> same_slot s step) steps)"
proof -
  have slot: "slot_of r = slot_of new \<longleftrightarrow> same_slot s step" if "step_from_row cd (st_run_id step) r = Ok s" for r s
    using decoded_slot [OF that] by (auto simp: new step_to_row_def same_slot_def item_index_to_sql_inj)
  have key: "step_key r = step_key new \<longleftrightarrow> sr_run_id r = fc_uuid_str cd (st_run_id step) \<and> slot_of r = slot_of new" for r
    by (auto simp: step_key_def new step_to_row_def)
  have "filter (\<lambda>r. slot_of r = slot_of new) (sort_key slot_of (steps_of cd db (st_run_id step))) =
      sort_key slot_of (filter (\<lambda>r. step_key r = step_key new) (fd_steps db))"
    unfolding filter_sort filter_filter key by (simp add: conj_commute)
  with list_all2_filter_both [OF recovered_steps(1) [OF rec], of "\<lambda>r. slot_of r = slot_of new" "\<lambda>s. same_slot s step"] slot
  show "list_all2 (\<lambda>r s. step_from_row cd (st_run_id step) r = Ok s)
           (sort_key slot_of (filter (\<lambda>r. step_key r = step_key new) (fd_steps db))) (filter (\<lambda>s. same_slot s step) steps)" by simp
  have "(\<lambda>r. slot_of r \<noteq> slot_of new \<and> sr_run_id r = fc_uuid_str cd (st_run_id step)) =
      (\<lambda>r. fst (step_key r) = sr_run_id new \<and> step_key r \<noteq> step_key new)"
    by (auto simp: key fun_eq_iff) (auto simp: step_key_def new step_to_row_def)
  then have "filter (\<lambda>r. slot_of r \<noteq> slot_of new) (sort_key slot_of (steps_of cd db (st_run_id step))) =
      sort_key slot_of (filter (\<lambda>r. fst (step_key r) = sr_run_id new \<and> step_key r \<noteq> step_key new) (fd_steps db))"
    unfolding filter_sort filter_filter by (simp add: conj_commute)
  moreover have "list_all2 (\<lambda>r s. step_from_row cd (st_run_id step) r = Ok s)
      (filter (\<lambda>r. slot_of r \<noteq> slot_of new) (sort_key slot_of (steps_of cd db (st_run_id step)))) (filter (\<lambda>s. \<not> same_slot s step) steps)"
    by (rule list_all2_filter_both [OF recovered_steps(1) [OF rec]]) (use slot in blast)
  ultimately show "list_all2 (\<lambda>r s. step_from_row cd (st_run_id step) r = Ok s)
           (sort_key slot_of (filter (\<lambda>r. fst (step_key r) = sr_run_id new \<and> step_key r \<noteq> step_key new) (fd_steps db)))
           (filter (\<lambda>s. \<not> same_slot s step) steps)" by (simp only:)
qed


definition sample_step :: step_run where
  "sample_step = \<lparr>st_run_id = 1, st_step_id = ''build'', st_attempt = 1, st_item_index = None, st_disposition = SdEffectful,
     st_step_state = SsRunning, st_first_task_seq = Some 4, st_last_task_seq = None, st_output = None, st_error = None\<rparr>"


subsection \<open>Parked time is not active time\<close>

text \<open>
  The transitions of one run: the state it goes to and when, with the other arguments of the
  transition function, which the plain transition, the restricted one and parking choose differently.
\<close>

type_synonym run_move = "run_state \<times> int \<times> flow_faults \<times> deadline_write \<times> session_id option \<times> run_state list option"

fun replay :: "flow_codec \<Rightarrow> run_id \<Rightarrow> run_move list \<Rightarrow> flow_db \<Rightarrow> flow_db option" where
  "replay cd i [] db = Some db"
| "replay cd i ((to, now, fault, dl, sess, perm) # moves) db =
     (case run_txn DSqlite fault (transition_in_transaction cd fault i to now dl sess perm) db of
        (Inl _, _) \<Rightarrow> None
      | (Inr _, db') \<Rightarrow> replay cd i moves db')"

text \<open>The time a run spent in states other than waiting for a human, and before its end.\<close>

definition counts :: "run_state \<Rightarrow> bool" where
  "counts st \<longleftrightarrow> st \<noteq> RsAwaitingHuman \<and> \<not> run_is_terminal st"

fun active_time :: "run_state \<Rightarrow> int \<Rightarrow> run_move list \<Rightarrow> int \<Rightarrow> int" where
  "active_time st t [] now = (if counts st then now - t else 0)"
| "active_time st t ((to, t', _) # moves) now = (if counts st then t' - t else 0) + active_time to t' moves now"

fun times_from :: "int \<Rightarrow> run_move list \<Rightarrow> int \<Rightarrow> bool" where
  "times_from t [] now \<longleftrightarrow> t \<le> now"
| "times_from t ((_, t', _) # moves) now \<longleftrightarrow> t \<le> t' \<and> times_from t' moves now"

text \<open>What a ledger shows of a run that was active for \<open>a\<close> until its last move at \<open>t\<close>.\<close>

definition clock_ok :: "run_ledger \<Rightarrow> int \<Rightarrow> int \<Rightarrow> bool" where
  "clock_ok l t a \<longleftrightarrow> 0 \<le> a \<and> 0 \<le> lg_started_at l \<and> lg_started_at l \<le> t \<and>
     (lg_ended_at l = (if run_is_terminal (lg_state l) then Some t else None)) \<and>
     (if lg_state l = RsAwaitingHuman
      then \<exists>p. lg_parked_at l = Some p \<and> lg_started_at l \<le> p \<and> p \<le> t \<and> int (lg_parked_nanos l) = p - lg_started_at l - a
      else lg_parked_at l = None \<and> int (lg_parked_nanos l) = t - lg_started_at l - a)"

lemma clock_ok_elapsed:
  assumes "clock_ok l t a" "t \<le> now" "now < 2 ^ 63"
  shows "int (active_elapsed l now) = a + (if counts (lg_state l) then now - t else 0)"
  using assms
  by (auto simp: clock_ok_def active_elapsed_def end_of_def sat_i64_def nonneg_def sat_add_def counts_def Let_def run_is_terminal_def
      min_def max_def split: if_splits)

interpretation parked: trace_invariant cd "\<lambda>db. list_all (\<lambda>r. 0 \<le> rr_parked_nanos r) (fd_runs db)" for cd
proof
  show "list_all (\<lambda>r. 0 \<le> rr_parked_nanos r) (fd_runs db')"
    if "list_all (\<lambda>r. 0 \<le> rr_parked_nanos r) (fd_runs db)" "call_body cd f op db = Ok (b, db')" for db db' f op b
    using that call_body_runs by metis
qed (auto simp: map_run_def list_all_iff flow_db_new_def run_to_row_def parked_nanos_after_def sat_i64_def split: option.splits)

lemma move_clock:
  assumes cd: "codec_ok cd" and nn: "list_all (\<lambda>r. 0 \<le> rr_parked_nanos r) (fd_runs db)"
    and ok: "transition_in_transaction cd fault i to now dl sess perm db = Ok (from, db')"
    and l: "ledger_of cd db i = Some l" and clock: "clock_ok l t a" and time: "t \<le> now" "now < 2 ^ 63"
  shows "\<exists>l'. ledger_of cd db' i = Some l' \<and> lg_state l' = to \<and> lg_started_at l' = lg_started_at l \<and>
    clock_ok l' now (a + (if counts (lg_state l) then now - t else 0))"
proof -
  obtain r where r: "find_run (fc_uuid_str cd i) db = Some r" "run_state_from_sql (rr_state r) = Ok from" "transition_is_legal from to"
    and led: "ledger_of cd db' = (ledger_of cd db)(i := map_option (moved_ledger from to now (moved_row cd from to now dl r)) (ledger_of cd db i))"
    by (rule transition_Ok [OF cd ok])
  have cols: "lg_state l = from" "lg_parked_at l = rr_parked_at r" "lg_parked_nanos l = nonneg (rr_parked_nanos r)"
    using l r by (auto simp: ledger_of_Some ledger_from_row_def)
  have pos: "0 \<le> rr_parked_nanos r" using nn r(1) by (auto simp: list_all_iff find_run_def find_Some_iff)
  then have nanos: "int (lg_parked_nanos l) = rr_parked_nanos r" by (simp add: cols nonneg_def)
  have nt: "\<not> run_is_terminal from" by (rule legal_not_from_terminal [OF r(3)])
  let ?l' = "moved_ledger from to now (moved_row cd from to now dl r) l"
  have "clock_ok ?l' now (a + (if counts from then now - t else 0))"
  proof (cases "from = RsAwaitingHuman")
    case True
    with clock cols nanos obtain p where "rr_parked_at r = Some p" "lg_started_at l \<le> p" "p \<le> t" "rr_parked_nanos r = p - lg_started_at l - a"
        "0 \<le> a" "0 \<le> lg_started_at l"
      by (auto simp: clock_ok_def)
    with True time cols pos show ?thesis
      by (auto simp: clock_ok_def moved_ledger_def parked_at_after_def parked_nanos_after_def counts_def sat_i64_def nonneg_def)
  next
    case False
    with clock cols nanos have "rr_parked_at r = None" "rr_parked_nanos r = t - lg_started_at l - a" "0 \<le> a" "0 \<le> lg_started_at l" "lg_started_at l \<le> t"
      by (auto simp: clock_ok_def)
    with False time cols nt pos show ?thesis
      by (auto simp: clock_ok_def moved_ledger_def parked_at_after_def parked_nanos_after_def counts_def nonneg_def)
  qed
  then show ?thesis using led l cols by (simp add: moved_ledger_def)
qed

lemma times_from_le: "times_from t moves now \<Longrightarrow> t \<le> now"
  by (induction t moves now rule: times_from.induct) auto

lemma replay_clock:
  assumes "codec_ok cd" "list_all (\<lambda>r. 0 \<le> rr_parked_nanos r) (fd_runs db)" "replay cd i moves db = Some db'"
    and "ledger_of cd db i = Some l" "clock_ok l t a" "times_from t moves now" "now < 2 ^ 63"
  shows "\<exists>l'. ledger_of cd db' i = Some l' \<and> int (active_elapsed l' now) = a + active_time (lg_state l) t moves now"
  using assms(2-6)
proof (induction moves arbitrary: db l t a)
  case Nil
  then show ?case using clock_ok_elapsed [of l t a now] assms(7) by auto
next
  case (Cons m moves)
  obtain to t' fault dl sess perm where m: "m = (to, t', fault, dl, sess, perm)" by (cases m)
  obtain st db1 where out: "run_txn DSqlite fault (transition_in_transaction cd fault i to t' dl sess perm) db = (Ok st, db1)"
    and rest: "replay cd i moves db1 = Some db'"
    using Cons.prems(2) by (auto simp: m split: prod.splits sum.splits)
  then have tr: "transition_in_transaction cd fault i to t' dl sess perm db = Ok (st, db1)"
    by (auto simp: run_txn_def split: if_splits sum.splits)
  have time: "t \<le> t'" "times_from t' moves now" using Cons.prems(5) by (simp_all add: m)
  with times_from_le assms(7) have "t' < 2 ^ 63" by (blast intro: le_less_trans)
  from move_clock [OF assms(1) Cons.prems(1) tr Cons.prems(3,4) time(1) this] obtain l1 where
    l1: "ledger_of cd db1 i = Some l1" "lg_state l1 = to" "clock_ok l1 t' (a + (if counts (lg_state l) then t' - t else 0))" by blast
  from Cons.IH [OF parked.transition_keeps [OF Cons.prems(1) tr] rest l1(1,3) time(2)] show ?case by (simp add: m l1(2) add.assoc)
qed

text \<open>
  \<^bold>\<open>C28.\<close> The active time of a run, which its active-time limit is compared with, is the time it spent
  in states other than waiting for a human, up to its end: the columns \<^verbatim>\<open>parked_at\<close> and \<^verbatim>\<open>parked_nanos\<close>,
  kept by the transitions, account for every wait, repeated parks included, however many there were.
\<close>

theorem active_time_excludes_waits:
  assumes cd: "codec_ok cd" and ops: "\<And>x. x \<in> set xs \<Longrightarrow> flow_op_ok x"
    and db: "db = foldl (flow_step rnd cd) flow_db_new xs"
    and new: "ledger_of cd db i = Some l" "lg_state l = RsRunning" "lg_parked_nanos l = 0" "0 \<le> lg_started_at l"
    and moves: "replay cd i moves db = Some db'" "times_from (lg_started_at l) moves now" "now < 2 ^ 63"
  shows "\<exists>l'. ledger_of cd db' i = Some l' \<and> int (active_elapsed l' now) = active_time RsRunning (lg_started_at l) moves now"
proof -
  have "run_ok l" using runs_okD [OF conjunct1 [OF flow_trace_ok [OF cd ops]] new(1) [unfolded db]] .
  then have "clock_ok l (lg_started_at l) 0" using new(2-4) by (auto simp: clock_ok_def run_ok_def run_is_terminal_def)
  from replay_clock [OF cd _ moves(1) new(1) this moves(2,3)] parked.trace [OF ops] db new(2) show ?thesis by simp
qed

text \<open>A run that works from 0 to 10, waits until 50 and works until 60 was active for 20.\<close>

definition sample_moves :: "run_move list" where
  "sample_moves =
     [(RsAwaitingHuman, 10, no_faults, DwSet (Some 90) None ''ckpt'' None, None, None),
      (RsRunning, 50, no_faults, DwLeave, None, None)]"

theorem active_time_excludes_waits_witness:
  "\<exists>db' l'. replay sample_codec 1 sample_moves (foldl (flow_step id sample_codec) flow_db_new sample_ops) = Some db' \<and>
     ledger_of sample_codec db' 1 = Some l' \<and> int (active_elapsed l' 60) = 20"
proof -
  let ?db = "foldl (flow_step id sample_codec) flow_db_new sample_ops"
  have "\<exists>db'. replay sample_codec 1 sample_moves sample_db = Some db'"
    by (simp add: sample_moves_def sample_db_eq transition_in_transaction_def check_session_def release_checkpoint_def moved_row_def
        parked_at_after_def parked_nanos_after_def update_run_def map_run_def find_run_def run_to_row_def run_row_check_def nonneg_opt_def
        is_ok_def txn_defs sample_defs run_is_terminal_def run_state_from_sql_def sat_i64_def)
  then obtain db' where moves: "replay sample_codec 1 sample_moves ?db = Some db'" by (auto simp: sample_db_def)
  obtain l where l: "ledger_of sample_codec ?db 1 = Some l" "lg_state l = RsRunning" "lg_parked_nanos l = 0" "lg_started_at l = 0"
    using sample_ledger [of 1] by (auto simp: sample_db_def fresh_ledger_def sample_run_def)
  have "\<exists>l'. ledger_of sample_codec db' 1 = Some l' \<and> int (active_elapsed l' 60) = active_time RsRunning (lg_started_at l) sample_moves 60"
    by (rule active_time_excludes_waits [OF sample_codec_ok sample_ops_ok refl l(1-3) _ moves]) (simp_all add: l(4) sample_moves_def)
  moreover have "active_time RsRunning 0 sample_moves 60 = 20"
    by (simp add: sample_moves_def counts_def run_is_terminal_def)
  ultimately show ?thesis using moves l(4) by auto
qed

subsection \<open>Retrying from a step\<close>

text \<open>Every step row belongs to a run.\<close>

definition steps_owned :: "flow_db \<Rightarrow> bool" where
  "steps_owned db \<longleftrightarrow> list_all (\<lambda>r. find_run (sr_run_id r) db \<noteq> None) (fd_steps db)"

lemma upsert_owned:
  "list_all Q rows \<Longrightarrow> Q new \<Longrightarrow> (\<And>r. Q (merge_row r new)) \<Longrightarrow> list_all Q (upsert_step new rows)"
  by (induction rows) auto

lemma steps_owned_map_run: "steps_owned db \<Longrightarrow> (\<And>r. rr_id (f r) = rr_id r) \<Longrightarrow> steps_owned (map_run k f db)"
  by (auto simp: steps_owned_def find_run_map_run list_all_iff map_run_def [of k f db, THEN arg_cong, of fd_steps])

interpretation owned: trace_invariant cd steps_owned for cd
proof
  show "steps_owned (db\<lparr>fd_blobs := b\<rparr>)" if "steps_owned db" for db b using that by (simp add: steps_owned_def find_run_def)
  show "steps_owned (db\<lparr>fd_runs := fd_runs db @ [run_to_row cd run]\<rparr>)" if "steps_owned db" for db run
    using that by (auto simp: steps_owned_def find_run_snoc list_all_iff split: option.splits)
  show "steps_owned (db\<lparr>fd_steps := upsert_step (step_to_row cd i step fs ls) (fd_steps db)\<rparr>)"
    if "steps_owned db" "find_run (fc_uuid_str cd i) db \<noteq> None" for db i step fs ls
    using that by (auto simp: steps_owned_def find_run_def merge_row_def step_to_row_def intro!: upsert_owned)
  show "steps_owned flow_db_new" by (simp add: steps_owned_def flow_db_new_def)
  show "steps_owned db'" if "steps_owned db" "call_body cd f op db = Ok (b, db')" for db f op b db'
    using that call_body_runs [OF that(2)] call_body_steps [OF that(2)] by (simp add: steps_owned_def find_run_def)
qed (simp_all add: steps_owned_map_run)

lemma upsert_new: "step_key new \<notin> step_key ` set rows \<Longrightarrow> upsert_step new rows = rows @ [new]"
  by (induction rows) auto

definition fork_row :: "flow_codec \<Rightarrow> run_id \<Rightarrow> step_run \<Rightarrow> step_row" where
  "fork_row cd i s = step_to_row cd i s None None"

text \<open>Writing steps of distinct slots for a run that has none appends their rows.\<close>

lemma written_rows:
  assumes "write_step_rows cd fault i steps db = Ok (x, db')"
    and "\<And>s. s \<in> set steps \<Longrightarrow> st_first_task_seq s = None \<and> st_last_task_seq s = None"
    and "distinct (map (\<lambda>s. step_key (fork_row cd i s)) steps)"
    and "\<And>s r. s \<in> set steps \<Longrightarrow> r \<in> set (fd_steps db) \<Longrightarrow> step_key r \<noteq> step_key (fork_row cd i s)"
  shows "db' = db\<lparr>fd_steps := fd_steps db @ map (fork_row cd i) steps\<rparr> \<and> list_all (\<lambda>s. step_row_check (fork_row cd i s)) steps"
  using assms
proof (induction steps arbitrary: db)
  case (Cons s steps)
  from Cons.prems(1,2) have w: "write_step_rows cd fault i steps (db\<lparr>fd_steps := upsert_step (fork_row cd i s) (fd_steps db)\<rparr>) = Ok (x, db')"
    and chk: "step_row_check (fork_row cd i s)"
    by (auto simp: write_step_row_def seq_to_sql_def fork_row_def split: if_splits)
  have "upsert_step (fork_row cd i s) (fd_steps db) = fd_steps db @ [fork_row cd i s]"
    by (rule upsert_new) (use Cons.prems(4) in force)
  moreover have "step_key r \<noteq> step_key (fork_row cd i s')" if "s' \<in> set steps" "r \<in> set (fd_steps db @ [fork_row cd i s])" for s' r
    using that Cons.prems(3,4) by auto
  ultimately show ?case using Cons.IH [OF w] Cons.prems(2,3) chk by simp
qed simp

lemma sort_key_sorted: "sorted (map f xs) \<Longrightarrow> sort_key f xs = xs"
  by (induction xs) (simp_all add: insort_is_Cons)

lemma recovered_sorted:
  assumes "recover_run cd f db i = Ok (run, steps)"
  shows "map (\<lambda>s. slot_of (fork_row cd j s)) steps = map slot_of (sort_key slot_of (steps_of cd db i))"
proof -
  have "map (\<lambda>s. slot_of (fork_row cd j s)) ss = map slot_of rows" if "list_all2 (\<lambda>r s. step_from_row cd i r = Ok s) rows ss" for rows ss
    using that by (induction rule: list_all2_induct) (auto dest!: decoded_slot simp: fork_row_def step_to_row_def)
  from this [OF recovered_steps(1) [OF assms]] show ?thesis .
qed

lemma slots_distinct:
  assumes "distinct (map step_key rows)"
  shows "distinct (map slot_of (filter (\<lambda>r. sr_run_id r = k) rows))"
proof -
  have "step_key r = step_key r' \<longleftrightarrow> slot_of r = slot_of r'" if "sr_run_id r = k" "sr_run_id r' = k" for r r'
    using that by (auto simp: step_key_def)
  with assms show ?thesis by (induction rows) (auto simp: image_iff)
qed

lemma inherited_fork_rows:
  "map (fork_row cd j) (inherited_steps j before steps) =
     map (fork_row cd j) (filter (\<lambda>s. st_step_state s = SsCompleted \<and> st_step_id s \<in> set before) steps)"
  by (simp add: inherited_steps_def fork_row_def step_to_row_def)

lemma fork_rows_decode:
  assumes cd: "codec_total cd" and steps: "\<And>s. s \<in> set steps \<Longrightarrow> st_run_id s = i \<and> st_first_task_seq s = None \<and> st_last_task_seq s = None"
    and chk: "list_all (\<lambda>s. step_row_check (fork_row cd i s)) steps"
  shows "steps_from_rows cd i (map (fork_row cd i) steps) = Ok (map (checkpoint_image cd None) steps)"
  using steps chk
proof (induction steps)
  case (Cons s steps)
  have s: "st_run_id s = i" "seq_to_sql (st_first_task_seq s) = Ok None" "seq_to_sql (st_last_task_seq s) = Ok None"
    "step_row_check (step_to_row cd (st_run_id s) s None None)"
    using Cons.prems by (auto simp: seq_to_sql_def fork_row_def)
  have "(fork_row cd i s)\<lparr>sr_first_task_seq := None\<rparr> = fork_row cd i s" by (simp add: fork_row_def step_to_row_def)
  with written_row_decodes [OF cd s(4,2,3), of None] s(1) have "step_from_row cd i (fork_row cd i s) = Ok (checkpoint_image cd None s)"
    by (simp add: fork_row_def)
  with Cons show ?case by simp
qed simp

lemma retry_Ok:
  assumes "retry_from_step rnd cd fault new i step order sess now db = (Ok fr, db')"
  obtains before run steps u db1 v where "steps_before step order = Some before" "recover_run cd fault db i = Ok (run, steps)"
    "run_is_terminal (wr_state run)" "fr_inherited fr = inherited_steps new before steps"
    "insert_run_row rnd cd fault (fork_of new sess now i run) db = Ok (u, db1)"
    "write_step_rows cd fault new (inherited_steps new before steps) db1 = Ok (v, db')"
  using assms that
  by (auto simp: retry_from_step_def fork_run_def run_txn_def Let_def fork_of_def split: option.splits sum.splits if_splits prod.splits)

lemma recover_run_cong:
  assumes "find_run (fc_uuid_str cd i) db' = find_run (fc_uuid_str cd i) db" "steps_of cd db' i = steps_of cd db i"
  shows "recover_run cd f db' i = recover_run cd f db i"
  unfolding recover_run_def workflow_run_row_def assms ..

lemma recover_run_faults:
  "recover_run cd fault db i = Ok x \<Longrightarrow> \<not> f FsSelectRun \<Longrightarrow> \<not> f FsSelectSteps \<Longrightarrow> recover_run cd f db i = Ok x"
  by (auto simp: recover_run_def workflow_run_row_def split: if_splits option.splits)

lemma inserted_run_decodes:
  assumes cd: "codec_total cd" and chk: "run_row_check (run_to_row cd run)"
  shows "\<exists>w. workflow_run_from_row cd ((run_to_row cd run)\<lparr>rr_drawn_at := t\<rparr>) = Ok w \<and> wr_state w = wr_state run \<and>
    wr_parent_run_id w = wr_parent_run_id run \<and> wr_forked_from_run_id w = wr_forked_from_run_id run \<and>
    wr_job_id w = wr_job_id run \<and> wr_job_version w = wr_job_version run \<and> wr_content_hash w = wr_content_hash run"
proof -
  have uuid: "fc_uuid_parse cd (fc_uuid_str cd j) = Some j" for j using cd by (simp add: codec_total_def codec_ok_def)
  have "run_typed cd ((run_to_row cd run)\<lparr>rr_drawn_at := t\<rparr>)" using run_typed_inserted [OF cd chk] by (simp add: run_typed_def)
  from run_typed_decodes [OF this] show ?thesis
    by (auto simp: workflow_run_from_row_def run_to_row_def Let_def uuid parse_opt_map [of "fc_uuid_parse cd" "fc_uuid_str cd", OF uuid])
qed

lemma inherited_rows:
  assumes rec: "recover_run cd f db i = Ok (run, steps)" and keys: "distinct (map step_key (fd_steps db))"
  shows "distinct (map (\<lambda>s. step_key (fork_row cd j s)) (inherited_steps j before steps))"
    and "sorted (map slot_of (map (fork_row cd j) (inherited_steps j before steps)))"
proof -
  let ?kept = "filter (\<lambda>s. st_step_state s = SsCompleted \<and> st_step_id s \<in> set before) steps"
  have "distinct (map slot_of (sort_key slot_of (steps_of cd db i)))"
    using slots_distinct [OF keys, of "fc_uuid_str cd i"] by (simp add: distinct_map)
  then have d: "distinct (map (\<lambda>s. slot_of (fork_row cd j s)) steps)" by (simp only: recovered_sorted [OF rec])
  have "distinct (map step_key rows)" if "distinct (map slot_of rows)" for rows
    using that by (induction rows) (auto simp: step_key_def)
  from this [of "map (fork_row cd j) ?kept"] distinct_map_filter [OF d] have "distinct (map step_key (map (fork_row cd j) ?kept))"
    by (simp add: comp_def)
  then show "distinct (map (\<lambda>s. step_key (fork_row cd j s)) (inherited_steps j before steps))"
    unfolding inherited_fork_rows [symmetric] by (simp add: comp_def)
  have "sorted (map (\<lambda>s. slot_of (fork_row cd j s)) steps)" unfolding recovered_sorted [OF rec] by (rule sorted_sort_key)
  from sorted_filter [OF this] show "sorted (map slot_of (map (fork_row cd j) (inherited_steps j before steps)))"
    unfolding inherited_fork_rows by (simp add: comp_def)
qed


definition sample_finished :: "flow_op list" where
  "sample_finished =
     [FInsert no_faults (sample_run 1 None 3), FCheckpoint no_faults (sample_step\<lparr>st_step_state := SsCompleted\<rparr>),
      FTransition no_faults 1 RsCompleted 9]"

lemmas step_defs = checkpoint_step_def checkpoint_step_in_transaction_def write_step_row_def step_row_check_def seq_to_sql_def
  sample_step_def step_to_row_def item_index_to_sql_def TOP_LEVEL_ITEM_INDEX_def disposition_from_sql_def step_state_from_sql_def
  item_index_from_sql_def seq_from_sql_def

lemmas move_defs = transition_run_def transition_in_transaction_def check_session_def release_checkpoint_def moved_row_def
  parked_at_after_def parked_nanos_after_def

lemma sample_finished_db:
  "foldl (flow_step id sample_codec) flow_db_new sample_finished =
     \<lparr>fd_runs = [(run_to_row sample_codec (sample_run 1 None 3))\<lparr>rr_state := ''completed'', rr_ended_at := Some 9\<rparr>],
      fd_steps = [step_to_row sample_codec 1 (sample_step\<lparr>st_step_state := SsCompleted\<rparr>) (Some 4) None], fd_calls = [], fd_blobs = Map.empty\<rparr>"
  by (simp add: sample_finished_def step_defs move_defs txn_defs insert_defs admit_defs sample_defs run_is_terminal_def run_state_from_sql_def)

lemma sample_retry:
  "\<exists>fr db'. retry_from_step id sample_codec no_faults 3 1 ''test'' [''build'', ''test''] 8 12
     (foldl (flow_step id sample_codec) flow_db_new sample_finished) = (Ok fr, db')"
  unfolding sample_finished_db
  by (simp add: retry_from_step_def recover_run_def workflow_run_row_def workflow_run_from_row_def step_from_row_def
      fork_run_def fork_of_def inherited_steps_def step_defs txn_defs insert_defs admit_defs sample_defs run_is_terminal_def run_state_from_sql_def)


subsection \<open>Holds and the reaper\<close>

definition run_rows_keyed :: "flow_codec \<Rightarrow> flow_db \<Rightarrow> bool" where
  "run_rows_keyed cd db \<longleftrightarrow> distinct (map rr_id (fd_runs db)) \<and> set (map rr_id (fd_runs db)) \<subseteq> range (fc_uuid_str cd)"

lemma run_rows_keyed_map_run:
  assumes "run_rows_keyed cd db" "\<And>r. rr_id (f r) = rr_id r"
  shows "run_rows_keyed cd (map_run k f db)"
proof -
  have "map rr_id (fd_runs (map_run k f db)) = map rr_id (fd_runs db)" using assms(2) by (simp add: map_run_def)
  with assms(1) show ?thesis unfolding run_rows_keyed_def by metis
qed

lemma find_run_None: "find_run k db = None \<longleftrightarrow> k \<notin> rr_id ` set (fd_runs db)"
  by (auto simp: find_run_def find_None_iff)

interpretation run_keys: trace_invariant cd "run_rows_keyed cd" for cd
proof
  show "run_rows_keyed cd db'" if "run_rows_keyed cd db" "call_body cd f op db = Ok (b, db')" for db f op b db'
    using that(1) call_body_runs [OF that(2)] by (simp add: run_rows_keyed_def)
qed (simp_all add: run_rows_keyed_map_run, simp_all add: run_rows_keyed_def flow_db_new_def find_run_None)

lemma parse_ids_printed: "codec_ok cd \<Longrightarrow> list_all (\<lambda>r. r \<in> range (fc_uuid_str cd)) ks \<Longrightarrow>
    \<exists>is. parse_ids cd ks = Ok is \<and> ks = map (fc_uuid_str cd) is"
  by (induction ks) (auto simp: codec_ok_def)

lemma keyed_find:
  assumes "run_rows_keyed cd db" "r \<in> set (fd_runs db)"
  shows "find_run (rr_id r) db = Some r"
proof -
  have "List.find (\<lambda>x. rr_id x = rr_id r) rows = Some r" if "distinct (map rr_id rows)" "r \<in> set rows" for rows
    using that by (induction rows) auto
  with assms show ?thesis by (simp add: run_rows_keyed_def find_run_def)
qed

lemma find_run_keyed: "run_rows_keyed cd db \<Longrightarrow> find_run k db = Some r \<longleftrightarrow> r \<in> set (fd_runs db) \<and> rr_id r = k"
  using keyed_find [of cd db r] by (auto simp: find_run_def find_Some_iff)

lemma parked_column:
  assumes "rows_typed cd db" "find_run (fc_uuid_str cd i) db = Some r"
  shows "\<exists>l. ledger_of cd db i = Some l \<and> lg_parked_at l = rr_parked_at r"
proof -
  have "run_typed cd r" using assms by (auto simp: find_run_def find_Some_iff rows_typed_def list_all_iff)
  from run_typed_ledger [OF this] obtain l where "ledger_from_row cd r = Ok l" by blast
  moreover from this have "lg_parked_at l = rr_parked_at r" by (auto simp: ledger_from_row_def)
  ultimately show ?thesis using assms(2) by (auto simp: ledger_of_Some)
qed

text \<open>
  The reaper's query returns exactly the runs that have been parked for the system-wide hold cap
  of seven days or longer, each once: no run is missed and none is reaped early.
\<close>

theorem reaper_finds_expired_holds:
  assumes cd: "codec_total cd" and ops: "\<And>x. x \<in> set xs \<Longrightarrow> flow_op_ok x"
    and db: "db = foldl (flow_step rnd cd) flow_db_new xs" and fault: "\<not> fault FsSelectRun"
    and now: "now - int SYSTEM_WIDE_HOLD_CAP \<ge> - (2 ^ 63)"
  shows "\<exists>ids. parked_runs_past_hold_cap cd fault db now = Ok ids \<and> distinct ids \<and>
    (\<forall>i. i \<in> set ids \<longleftrightarrow> (\<exists>l t. ledger_of cd db i = Some l \<and> lg_parked_at l = Some t \<and> t + int SYSTEM_WIDE_HOLD_CAP \<le> now))"
proof -
  have cd0: "codec_ok cd" using cd by (simp add: codec_total_def)
  have keyed: "run_rows_keyed cd db" unfolding db by (rule run_keys.trace) (rule ops)
  have typed: "rows_typed cd db" using trace_invariant.trace [OF typed_invariant [OF cd] ops] db by simp
  let ?past = "\<lambda>r. case rr_parked_at r of None \<Rightarrow> False | Some t \<Rightarrow> t \<le> now - int SYSTEM_WIDE_HOLD_CAP"
  let ?rows = "sort_key (\<lambda>r. (the (rr_parked_at r), rr_id r)) (filter ?past (fd_runs db))"
  have printed: "list_all (\<lambda>k. k \<in> range (fc_uuid_str cd)) (map rr_id ?rows)"
    using keyed by (auto simp: run_rows_keyed_def list_all_iff)
  obtain ids where ids: "parse_ids cd (map rr_id ?rows) = Ok ids" "map rr_id ?rows = map (fc_uuid_str cd) ids"
    using parse_ids_printed [OF cd0 printed] by blast
  have "distinct (map rr_id ?rows)" using keyed by (auto simp: run_rows_keyed_def distinct_map inj_on_def)
  then have dist: "distinct ids" unfolding ids(2) by (simp add: distinct_map)
  have "i \<in> set ids \<longleftrightarrow> (\<exists>l t. ledger_of cd db i = Some l \<and> lg_parked_at l = Some t \<and> t + int SYSTEM_WIDE_HOLD_CAP \<le> now)" for i
  proof -
    have "i \<in> set ids \<longleftrightarrow> fc_uuid_str cd i \<in> set (map (fc_uuid_str cd) ids)" by (auto simp: uuid_str_inj [OF cd0])
    also have "\<dots> \<longleftrightarrow> (\<exists>r \<in> set (fd_runs db). rr_id r = fc_uuid_str cd i \<and> ?past r)" unfolding ids(2) [symmetric] by (auto simp: image_iff)
    also have "\<dots> \<longleftrightarrow> (\<exists>r. find_run (fc_uuid_str cd i) db = Some r \<and> ?past r)"
      by (auto simp: find_run_keyed [OF keyed])
    also have "\<dots> \<longleftrightarrow> (\<exists>l t. ledger_of cd db i = Some l \<and> lg_parked_at l = Some t \<and> t + int SYSTEM_WIDE_HOLD_CAP \<le> now)"
    proof
      assume "\<exists>r. find_run (fc_uuid_str cd i) db = Some r \<and> ?past r"
      then obtain r where r: "find_run (fc_uuid_str cd i) db = Some r" "?past r" by blast
      with parked_column [OF typed r(1)] show "\<exists>l t. ledger_of cd db i = Some l \<and> lg_parked_at l = Some t \<and> t + int SYSTEM_WIDE_HOLD_CAP \<le> now"
        by (auto split: option.splits)
    next
      assume "\<exists>l t. ledger_of cd db i = Some l \<and> lg_parked_at l = Some t \<and> t + int SYSTEM_WIDE_HOLD_CAP \<le> now"
      then obtain l t where l: "ledger_of cd db i = Some l" "lg_parked_at l = Some t" "t + int SYSTEM_WIDE_HOLD_CAP \<le> now" by blast
      then obtain r where r: "find_run (fc_uuid_str cd i) db = Some r" by (auto simp: ledger_of_Some)
      have "rr_parked_at r = Some t" using parked_column [OF typed r] l(1,2) by auto
      with r l(3) show "\<exists>r. find_run (fc_uuid_str cd i) db = Some r \<and> ?past r" by auto
    qed
    finally show ?thesis .
  qed
  with ids(1) dist fault now show ?thesis by (auto simp: parked_runs_past_hold_cap_def reaper_cutoff_instant_def)
qed

definition sample_waiting :: "flow_op list" where
  "sample_waiting = [FInsert no_faults (sample_run 1 None 3), FTransition no_faults 1 RsAwaitingHuman 10]"

theorem reaper_finds_expired_holds_witness:
  "\<exists>ids. parked_runs_past_hold_cap sample_codec no_faults (foldl (flow_step id sample_codec) flow_db_new sample_waiting)
      (10 + int SYSTEM_WIDE_HOLD_CAP) = Ok ids \<and> 1 \<in> set ids"
proof -
  let ?db = "foldl (flow_step id sample_codec) flow_db_new sample_waiting"
  have db: "?db = flow_db_new\<lparr>fd_runs := [(run_to_row sample_codec (sample_run 1 None 3))\<lparr>rr_state := ''awaiting_human'', rr_parked_at := Some 10\<rparr>]\<rparr>"
    by (simp add: sample_waiting_def move_defs txn_defs insert_defs admit_defs sample_defs run_is_terminal_def run_state_from_sql_def)
  have "\<exists>l. ledger_of sample_codec ?db 1 = Some l \<and> lg_parked_at l = Some 10"
    unfolding db by (simp add: ledger_of_def txn_defs insert_defs admit_defs sample_defs run_state_from_sql_def)
  moreover have "flow_op_ok x" if "x \<in> set sample_waiting" for x
    using that sample_ops_ok [of x] by (auto simp: sample_waiting_def sample_ops_def)
  ultimately show ?thesis
    using reaper_finds_expired_holds [OF sample_codec_total _ refl, of sample_waiting no_faults "10 + int SYSTEM_WIDE_HOLD_CAP" id]
    by (fastforce simp: no_faults_def)
qed

lemma checkpointer_ok_blobs:
  assumes "checkpointer_ok ck" "ck_index_prepared ck art now db = Ok db'"
  shows "fd_runs db' = fd_runs db \<and> fd_steps db' = fd_steps db \<and> fd_calls db' = fd_calls db"
proof -
  have "db' = db\<lparr>fd_blobs := fd_blobs db'\<rparr>" using assms unfolding checkpointer_ok_def by blast
  moreover have "fd_runs (db\<lparr>fd_blobs := b\<rparr>) = fd_runs db \<and> fd_steps (db\<lparr>fd_blobs := b\<rparr>) = fd_steps db \<and>
      fd_calls (db\<lparr>fd_blobs := b\<rparr>) = fd_calls db" for b by simp
  ultimately show ?thesis by metis
qed

definition park_report :: "int option \<Rightarrow> workspace_disposition \<Rightarrow> session_id \<Rightarrow> checkpoint_artifact \<Rightarrow> awaiting_human \<Rightarrow> park_result" where
  "park_report au ws sess art a =
     \<lparr>pr_checkpoint_ref = ca_restore_ref art, pr_session_id = sess, pr_awaiting_until = au, pr_workspace = ws, pr_item_index = ah_item_index a\<rparr>"

lemma absolute_deadline_Ok: "absolute_deadline now after = Ok t \<Longrightarrow> t = now + int after"
  by (auto simp: absolute_deadline_def split: if_splits)

lemma park_outcome:
  assumes "park cd fault i a hold now ck db = (res, db')"
  shows "(\<exists>e. res = Err e \<and> (db' = db \<or> (\<exists>art. ck_index_prepared ck art now db = Ok db'))) \<or>
    (\<exists>au ws sess art db0 db1 st. res = Ok (park_report au ws sess art a) \<and> au = map_option (\<lambda>d. now + int d) (ah_timeout_after a) \<and>
       hold_of ws = (if hold then Some (now + int (resolve_hold_ttl (ah_timeout_after a))) else None) \<and>
       ck_index_prepared ck art now db = Ok db0 \<and> ck_commit ck i art now db0 = Ok db1 \<and>
       transition_run_to_awaiting_human cd fault i sess au (hold_of ws) (ca_restore_ref art) (ca_blob_ref art) now db1 = Ok (st, db'))"
proof (cases "\<exists>e. res = Err e")
  case True
  have txn: "run_txn sq f body db0 = (Err e, db') \<Longrightarrow> db' = db0" for sq :: park_error and f and body :: "flow_db \<Rightarrow> (park_result \<times> flow_db, park_error) result" and db0 e
    by (auto simp: run_txn_def split: if_splits sum.splits)
  show ?thesis using True assms unfolding park_def by (auto split: sum.splits dest!: txn)
next
  case False
  then obtain rep where res: "res = Ok rep" by (cases res) auto
  let ?deadline = "case ah_timeout_after a of None \<Rightarrow> Ok None | Some after \<Rightarrow> res_bind (absolute_deadline now after) (\<lambda>t. Ok (Some t))"
  let ?hold = "if hold then res_bind (absolute_deadline now (resolve_hold_ttl (ah_timeout_after a))) (\<lambda>t. Ok (WdHoldUntil t)) else Ok WdRelease"
  from assms res obtain au ws sess art db0 where dl: "?deadline = Ok au" and ws: "?hold = Ok ws"
    and idx: "ck_index_prepared ck art now db = Ok db0"
    and txn: "run_txn PkSqlite fault (\<lambda>db.
        res_bind (wrap_err PkCheckpoint (ck_commit ck i art now db)) (\<lambda>db.
        res_bind (wrap_err PkDurability (transition_run_to_awaiting_human cd fault i sess au (hold_of ws) (ca_restore_ref art) (ca_blob_ref art) now db))
          (\<lambda>(_, db). Ok (park_report au ws sess art a, db)))) db0 = (Ok rep, db')"
    unfolding park_def park_report_def by (auto split: sum.splits)
  have "au = map_option (\<lambda>d. now + int d) (ah_timeout_after a)"
    using dl by (cases "ah_timeout_after a") (auto dest: absolute_deadline_Ok)
  moreover have "hold_of ws = (if hold then Some (now + int (resolve_hold_ttl (ah_timeout_after a))) else None)"
    using ws by (auto simp: hold_of_def dest: absolute_deadline_Ok split: if_splits)
  moreover obtain db1 st where "ck_commit ck i art now db0 = Ok db1" "rep = park_report au ws sess art a"
      "transition_run_to_awaiting_human cd fault i sess au (hold_of ws) (ca_restore_ref art) (ca_blob_ref art) now db1 = Ok (st, db')"
    using txn by (auto simp: run_txn_def wrap_err_def split: if_splits sum.splits)
  ultimately show ?thesis using res idx by blast
qed

text \<open>
  Parking stores what it reports: a parked run waits for a human with the deadline of the request,
  no deadline if there is none, is held at most for the requested time, the default of three days or
  the cap of seven days, and keeps its first parking time when it is parked again; a park that fails
  changes nothing of any run, step or call.
\<close>

theorem park_stores_bounded_hold:
  assumes cd: "codec_total cd" and ops: "\<And>x. x \<in> set xs \<Longrightarrow> flow_op_ok x"
    and db: "db = foldl (flow_step rnd cd) flow_db_new xs" and ck: "checkpointer_ok ck"
    and out: "park cd fault i a hold now ck db = (res, db')"
  shows "case res of
      Inl e \<Rightarrow> fd_runs db' = fd_runs db \<and> fd_steps db' = fd_steps db \<and> fd_calls db' = fd_calls db
    | Inr r \<Rightarrow> \<exists>l l'. ledger_of cd db i = Some l \<and> ledger_of cd db' i = Some l' \<and> lg_state l' = RsAwaitingHuman \<and>
        lg_parked_at l' = Some (case lg_parked_at l of Some t \<Rightarrow> t | None \<Rightarrow> now) \<and>
        pr_awaiting_until r = map_option (\<lambda>d. now + int d) (ah_timeout_after a) \<and>
        lg_hold_until l' = (if hold then Some (now + int (min (case ah_timeout_after a of None \<Rightarrow> DEFAULT_HOLD_TTL | Some d \<Rightarrow> d) SYSTEM_WIDE_HOLD_CAP)) else None)"
proof -
  from park_outcome [OF out] consider (failed) e where "res = Err e" "db' = db \<or> (\<exists>art. ck_index_prepared ck art now db = Ok db')"
    | (parked) au ws sess art db0 db1 st where "res = Ok (park_report au ws sess art a)" "au = map_option (\<lambda>d. now + int d) (ah_timeout_after a)"
        "hold_of ws = (if hold then Some (now + int (resolve_hold_ttl (ah_timeout_after a))) else None)"
        "ck_index_prepared ck art now db = Ok db0" "ck_commit ck i art now db0 = Ok db1"
        "transition_run_to_awaiting_human cd fault i sess au (hold_of ws) (ca_restore_ref art) (ca_blob_ref art) now db1 = Ok (st, db')"
    by blast
  then show ?thesis
  proof cases
    case failed
    then show ?thesis using checkpointer_ok_blobs [OF ck] by fastforce
  next
    case parked
    have cd0: "codec_ok cd" using cd by (simp add: codec_total_def)
    have runs: "fd_runs db1 = fd_runs db" using checkpointer_ok_runs [OF ck] parked(4,5) by metis
    obtain r where r: "find_run (fc_uuid_str cd i) db1 = Some r"
      and led: "ledger_of cd db' = (ledger_of cd db1)(i := map_option (moved_ledger st RsAwaitingHuman now (moved_row cd st RsAwaitingHuman now
          (DwSet au (hold_of ws) (ca_restore_ref art) (ca_blob_ref art)) r)) (ledger_of cd db1 i))"
      by (rule transition_Ok [OF cd0 parked(6) [unfolded transition_run_to_awaiting_human_def]])
    have typed: "rows_typed cd db" using trace_invariant.trace [OF typed_invariant [OF cd] ops] db by simp
    have "find_run (fc_uuid_str cd i) db = Some r" using r runs by (simp add: find_run_def)
    from parked_column [OF typed this] obtain l where l: "ledger_of cd db i = Some l" by blast
    with led ledger_of_cong [OF runs, of cd] show ?thesis
      by (auto simp: parked(1-3) park_report_def moved_ledger_def moved_row_def Let_def parked_at_after_def resolve_hold_ttl_def split: option.splits)
  qed
qed

definition sample_checkpointer :: checkpointer where
  "sample_checkpointer = \<lparr>ck_artifact = (\<lambda>_ _ _. Ok \<lparr>ca_restore_ref = ''ckpt'', ca_blob_ref = None\<rparr>),
     ck_index_prepared = (\<lambda>_ _ db. Ok db), ck_commit = (\<lambda>_ _ _ db. Ok db)\<rparr>"

definition sample_wait :: awaiting_human where
  "sample_wait = \<lparr>ah_task_id = 5, ah_source = HwGate, ah_form_schema = JNull, ah_timeout_after = None, ah_on_timeout = OtFail, ah_item_index = None\<rparr>"

theorem park_stores_bounded_hold_witness:
  "\<exists>r db' l'. park sample_codec no_faults 1 sample_wait True 20 sample_checkpointer
      (foldl (flow_step id sample_codec) flow_db_new sample_ops) = (Ok r, db') \<and>
     ledger_of sample_codec db' 1 = Some l' \<and> lg_hold_until l' = Some (20 + int DEFAULT_HOLD_TTL)"
proof -
  let ?db = "foldl (flow_step id sample_codec) flow_db_new sample_ops"
  have "\<exists>r db'. park sample_codec no_faults 1 sample_wait True 20 sample_checkpointer sample_db = (Ok r, db')"
    by (simp add: park_def sample_wait_def sample_checkpointer_def run_session_id_def absolute_deadline_def resolve_hold_ttl_def
        DEFAULT_HOLD_TTL_def SYSTEM_WIDE_HOLD_CAP_def transition_run_to_awaiting_human_def hold_of_def sample_db_eq
        move_defs txn_defs insert_defs admit_defs sample_defs run_is_terminal_def run_state_from_sql_def)
  then obtain r db' where out: "park sample_codec no_faults 1 sample_wait True 20 sample_checkpointer ?db = (Ok r, db')"
    by (auto simp: sample_db_def)
  have ck: "checkpointer_ok sample_checkpointer" by (simp add: checkpointer_ok_def sample_checkpointer_def)
  have "DEFAULT_HOLD_TTL \<le> SYSTEM_WIDE_HOLD_CAP" by (simp add: DEFAULT_HOLD_TTL_def SYSTEM_WIDE_HOLD_CAP_def from_secs_def)
  with park_stores_bounded_hold [OF sample_codec_total sample_ops_ok refl ck out] out show ?thesis
    by (auto simp: sample_wait_def min_def)
qed

end
