(* ===== verification/Store_Redact.thy ===== *)
theory Store_Redact
  imports Core_Task Rust_Str "HOL-Library.Sublist"
begin

text \<open>
  The redaction filter of \<^verbatim>\<open>store/src/redact.rs\<close> and the methods of the writer
  (\<^verbatim>\<open>store/src/writer.rs\<close>) that hand out split points to streaming callers.

  The multi-pattern search is the \<^verbatim>\<open>aho-corasick\<close> crate.  It is an argument \<open>search\<close> of every
  definition: the matches that \<^verbatim>\<open>find_iter\<close> of an automaton over some patterns reports in a byte
  string.  What the crate documents for \<^verbatim>\<open>MatchKind::LeftmostLongest\<close> is the locale \<open>find_iter\<close>,
  and \<open>scan\<close> is a search that has these properties.
\<close>

subsection \<open>The search\<close>

text \<open>Positions and the matches a search may report.\<close>

type_synonym find_fn = "string list \<Rightarrow> string \<Rightarrow> (nat \<times> nat) list"

definition occurs_at :: "string \<Rightarrow> string \<Rightarrow> nat \<Rightarrow> bool" where
  "occurs_at p s i \<longleftrightarrow> i \<le> length s \<and> prefix p (drop i s)"

text \<open>
  \<open>leftmost_longest pats s i ms\<close>: the reports from position \<open>i\<close> on.  A report starts at the first
  position where some pattern occurs, it is the longest pattern there, and the search goes on
  behind its end.
\<close>

inductive leftmost_longest :: "string list \<Rightarrow> string \<Rightarrow> nat \<Rightarrow> (nat \<times> nat) list \<Rightarrow> bool"
  for pats :: "string list" and s :: string
where
  ll_end: "(\<And>p j. p \<in> set pats \<Longrightarrow> i \<le> j \<Longrightarrow> \<not> occurs_at p s j) \<Longrightarrow> leftmost_longest pats s i []"
| ll_step: "\<lbrakk>i \<le> a; \<And>p j. p \<in> set pats \<Longrightarrow> i \<le> j \<Longrightarrow> j < a \<Longrightarrow> \<not> occurs_at p s j;
     q \<in> set pats; occurs_at q s a; b = a + length q;
     \<And>p. p \<in> set pats \<Longrightarrow> occurs_at p s a \<Longrightarrow> length p \<le> length q;
     leftmost_longest pats s b ms\<rbrakk> \<Longrightarrow> leftmost_longest pats s i ((a, b) # ms)"

text \<open>The documented contract of \<^verbatim>\<open>find_iter\<close>, for patterns none of which is empty.\<close>

locale find_iter =
  fixes search :: find_fn
  assumes reports: "[] \<notin> set pats \<Longrightarrow> leftmost_longest pats s 0 (search pats s)"

text \<open>A search by trying every position.\<close>

definition longest_at :: "string list \<Rightarrow> string \<Rightarrow> nat" where
  "longest_at pats s = foldr (\<lambda>p n. if prefix p s then max (length p) n else n) pats 0"

function scan_from :: "string list \<Rightarrow> nat \<Rightarrow> string \<Rightarrow> (nat \<times> nat) list" where
  "scan_from pats i [] = []"
| "scan_from pats i (c # s) =
     (let n = longest_at pats (c # s)
      in if n = 0 then scan_from pats (Suc i) s
         else (i, i + n) # scan_from pats (i + n) (drop (n - 1) s))"
  by pat_completeness auto
termination by (relation "measure (\<lambda>(_, _, s). length s)") auto

definition scan :: find_fn where
  "scan pats s = scan_from pats 0 s"

subsection \<open>The redactor\<close>

definition REDACTED_PLACEHOLDER :: string where
  "REDACTED_PLACEHOLDER = ''[REDACTED]''"

definition MAX_JSON_REDACT_DEPTH :: nat where
  "MAX_JSON_REDACT_DEPTH = 64"

text \<open>The automaton stands for the patterns it was built over.\<close>

record redactor =
  automaton :: "string list"
  max_pattern_len :: nat

definition build :: "string list \<Rightarrow> redactor" where
  "build secret_values =
     (let patterns = filter (\<lambda>s. s \<noteq> []) secret_values
      in \<lparr>automaton = patterns, max_pattern_len = foldr max (map length patterns) 0\<rparr>)"

text \<open>
  The loop of \<open>redact\<close> and \<open>redact_bytes\<close>: \<open>ph\<close> is the placeholder, \<open>last\<close> the end of the previous
  match.  The counter is a \<^verbatim>\<open>u32\<close>.
\<close>

fun redact_loop ::
  "'a list \<Rightarrow> 'a list \<Rightarrow> (nat \<times> nat) list \<Rightarrow> 'a list \<Rightarrow> nat \<Rightarrow> u32 \<Rightarrow> 'a list \<times> u32" where
  "redact_loop ph text [] out last_end count = (out @ drop last_end text, count)"
| "redact_loop ph text ((a, b) # ms) out last_end count =
     redact_loop ph text ms (out @ take (a - last_end) (drop last_end text) @ ph) b (count + 1)"

definition redact :: "find_fn \<Rightarrow> redactor \<Rightarrow> string \<Rightarrow> string \<times> u32" where
  "redact search r text = redact_loop REDACTED_PLACEHOLDER text (search (automaton r) text) [] 0 0"

text \<open>The search reads raw bytes; a \<^verbatim>\<open>u8\<close> is the character with its code.\<close>

definition u8_char :: "u8 \<Rightarrow> char" where
  "u8_char b = char_of (unat b)"

definition char_u8 :: "char \<Rightarrow> u8" where
  "char_u8 c = of_nat (of_char c)"

definition redact_bytes :: "find_fn \<Rightarrow> redactor \<Rightarrow> u8 list \<Rightarrow> u8 list \<times> u32" where
  "redact_bytes search r bytes =
     redact_loop (map char_u8 REDACTED_PLACEHOLDER) bytes (search (automaton r) (map u8_char bytes)) [] 0 0"

fun safe_split_loop :: "(nat \<times> nat) list \<Rightarrow> nat \<Rightarrow> nat" where
  "safe_split_loop [] k = k"
| "safe_split_loop ((a, b) # ms) k =
     (if a \<ge> k then k else safe_split_loop ms (if b > k then a else k))"

definition safe_split_len :: "find_fn \<Rightarrow> redactor \<Rightarrow> string \<Rightarrow> nat \<Rightarrow> nat" where
  "safe_split_len search r bytes max_len =
     safe_split_loop (search (automaton r) bytes) (min max_len (length bytes))"

subsubsection \<open>JSON values and payloads\<close>

definition TRUNCATED :: string where
  "TRUNCATED = ''[TRUNCATED: exceeded the JSON redaction depth cap]''"

text \<open>\<open>drop_iteratively\<close> frees the value it is given and has no effect the model could show.\<close>

lemma json_list_size [termination_simp]: "v \<in> set vs \<Longrightarrow> size v < Suc (size_list size vs)"
  by (simp add: less_Suc_eq_le size_list_estimation')

fun redact_json_value_at_depth :: "find_fn \<Rightarrow> redactor \<Rightarrow> json \<Rightarrow> nat \<Rightarrow> json \<times> u32" where
  "redact_json_value_at_depth search r v depth =
     (if depth \<ge> MAX_JSON_REDACT_DEPTH then (JString TRUNCATED, 0)
      else case v of
        JString s \<Rightarrow> map_prod JString id (redact search r s)
      | JArray items \<Rightarrow>
          (let vs = map (\<lambda>v. redact_json_value_at_depth search r v (depth + 1)) items
           in (JArray (map fst vs), sum_list (map snd vs)))
      | JObject m \<Rightarrow>
          (let vs = map (\<lambda>(k, v). (k, redact_json_value_at_depth search r v (depth + 1))) m
           in (JObject (map (\<lambda>(k, v). (k, fst v)) vs), sum_list (map (snd \<circ> snd) vs)))
      | other \<Rightarrow> (other, 0))"

declare redact_json_value_at_depth.simps [simp del]

definition redact_json_value :: "find_fn \<Rightarrow> redactor \<Rightarrow> json \<Rightarrow> json \<times> u32" where
  "redact_json_value search r v = redact_json_value_at_depth search r v 0"

fun redact_event_payload :: "find_fn \<Rightarrow> redactor \<Rightarrow> event_payload \<Rightarrow> event_payload \<times> u32" where
  "redact_event_payload search r (TaskDelta (DeltaText text)) =
     map_prod (\<lambda>t. TaskDelta (DeltaText t)) id (redact search r text)"
| "redact_event_payload search r (TaskDelta (DeltaThinking text sig)) =
     map_prod (\<lambda>t. TaskDelta (DeltaThinking t sig)) id (redact search r text)"
| "redact_event_payload search r (TaskDelta (DeltaToolArgs fragment)) =
     map_prod (\<lambda>t. TaskDelta (DeltaToolArgs t)) id (redact search r fragment)"
| "redact_event_payload search r (TaskDelta (DeltaStdout bytes)) =
     map_prod (\<lambda>b. TaskDelta (DeltaStdout b)) id (redact_bytes search r bytes)"
| "redact_event_payload search r (TaskDelta (DeltaStderr bytes)) =
     map_prod (\<lambda>b. TaskDelta (DeltaStderr b)) id (redact_bytes search r bytes)"
| "redact_event_payload search r (Note level text) = map_prod (Note level) id (redact search r text)"
| "redact_event_payload search r (TaskProgress p) =
     map_prod (\<lambda>t. TaskProgress (p\<lparr>pr_message := t\<rparr>)) id (redact search r (pr_message p))"
| "redact_event_payload search r (TaskFailed e retryable) =
     map_prod (\<lambda>t. TaskFailed (e\<lparr>te_message := t\<rparr>) retryable) id (redact search r (te_message e))"
| "redact_event_payload search r (TaskCreated kind parent org inp) =
     map_prod (TaskCreated kind parent org) id
       (case inp of
          InText t \<Rightarrow> map_prod InText id (redact search r t)
        | InJson v \<Rightarrow> map_prod InJson id (redact_json_value search r v)
        | InBlob b \<Rightarrow> (InBlob b, 0))"
| "redact_event_payload search r (Loss kind description affected) =
     map_prod (\<lambda>d. Loss kind d affected) id (redact search r description)"
| "redact_event_payload search r (TaskCompleted outp use tr) =
     map_prod (\<lambda>outp. TaskCompleted outp use tr) id
       (case outp of
          OutText t \<Rightarrow> map_prod OutText id (redact search r t)
        | OutJson v \<Rightarrow> map_prod OutJson id (redact_json_value search r v)
        | OutBlob b \<Rightarrow> (OutBlob b, 0))"
| "redact_event_payload search r (SessionClosed (OutcomeFailed reason)) =
     map_prod (\<lambda>t. SessionClosed (OutcomeFailed t)) id (redact search r reason)"
| "redact_event_payload search r other = (other, 0)"

subsubsection \<open>The writer's redaction methods\<close>

text \<open>
  The redactor a method loads is its argument: \<^verbatim>\<open>set_redactor\<close> swaps it between calls, never inside
  one.
\<close>

definition redact_outbound :: "find_fn \<Rightarrow> redactor \<Rightarrow> string \<Rightarrow> string \<times> u32" where
  "redact_outbound search r text = redact search r text"

definition redact_outbound_bytes :: "find_fn \<Rightarrow> redactor \<Rightarrow> u8 list \<Rightarrow> u8 list \<times> u32" where
  "redact_outbound_bytes search r bytes = redact_bytes search r bytes"

definition redaction_holdback :: "redactor \<Rightarrow> nat" where
  "redaction_holdback r = max_pattern_len r - 1"

definition redaction_safe_split_len :: "find_fn \<Rightarrow> redactor \<Rightarrow> string \<Rightarrow> nat \<Rightarrow> nat" where
  "redaction_safe_split_len search r bytes max_len = safe_split_len search r bytes max_len"

definition redaction_split_for_flush :: "find_fn \<Rightarrow> redactor \<Rightarrow> string \<Rightarrow> nat" where
  "redaction_split_for_flush search r bytes =
     (let holdback = max_pattern_len r - 1; max_len = length bytes - holdback
      in safe_split_len search r bytes max_len)"

definition redaction_split_for_coalescer :: "find_fn \<Rightarrow> redactor \<Rightarrow> string \<Rightarrow> nat \<Rightarrow> bool \<Rightarrow> nat" where
  "redaction_split_for_coalescer search r bytes max_len final_flush =
     (if final_flush then safe_split_len search r bytes max_len
      else let holdback = max_pattern_len r - 1; capped = min max_len (length bytes - holdback)
           in safe_split_len search r bytes capped)"

definition redaction_split_and_redact ::
  "find_fn \<Rightarrow> redactor \<Rightarrow> u8 list \<Rightarrow> nat \<Rightarrow> bool \<Rightarrow> nat \<times> u8 list \<times> u32" where
  "redaction_split_and_redact search r bytes max_len final_flush =
     (let hay = map u8_char bytes;
          cut = (if final_flush then safe_split_len search r hay max_len
                 else let holdback = max_pattern_len r - 1; capped = min max_len (length bytes - holdback)
                      in safe_split_len search r hay capped);
          (redacted, matches) = redact_bytes search r (take cut bytes)
      in (cut, redacted, matches))"

text \<open>
  \<open>scan_outbound\<close>: what is decided and what note is appended first.  The append may fail with an
  error of the store (\<open>append_note\<close>).
\<close>

datatype secret_leak_disposition = LeakAsk | LeakDeny

definition scan_outbound ::
  "find_fn \<Rightarrow> redactor \<Rightarrow> (event \<Rightarrow> (u64, 'e) result) \<Rightarrow> session_id \<Rightarrow> int \<Rightarrow> string \<Rightarrow> bool
   \<Rightarrow> (secret_leak_disposition option, 'e) result" where
  "scan_outbound search r append_note sid now payload hardened =
     (let count = snd (redact search r payload)
      in if count = 0 then Ok None
         else let d = (if hardened then LeakDeny else LeakAsk);
                  d_text = (case d of
                      LeakDeny \<Rightarrow> ''blocked (denied under --profile hardened)''
                    | LeakAsk \<Rightarrow> ''held pending human approval before sending'');
                  ev = record_note sid 0 now None NoteWarn
                    (''SecretLeak: outbound payload to provider matched '' @ decimal (unat count) @
                     '' known secret value(s); '' @ d_text) 1
              in (case append_note ev of Err e \<Rightarrow> Err e | Ok _ \<Rightarrow> Ok (Some d)))"

subsection \<open>Properties of the search\<close>

declare scan_from.simps [simp del]
declare scan_from.simps(1) [simp]

lemma longest_at_le: "longest_at pats s \<le> length s"
  by (induction pats) (auto simp: longest_at_def dest: prefix_length_le)

lemma longest_at_ge: "p \<in> set pats \<Longrightarrow> prefix p s \<Longrightarrow> length p \<le> longest_at pats s"
  by (induction pats) (auto simp: longest_at_def le_max_iff_disj)

lemma longest_at_pos: "0 < longest_at pats s \<Longrightarrow> \<exists>q\<in>set pats. prefix q s \<and> length q = longest_at pats s"
proof (induction pats)
  case (Cons p pats)
  then show ?case
    by (cases "prefix p s"; cases "longest_at pats s \<le> length p") (auto simp: longest_at_def max_def)
qed (simp add: longest_at_def)

lemma longest_at_cong:
  "(\<And>p. p \<in> set pats \<Longrightarrow> prefix p s \<longleftrightarrow> prefix p t) \<Longrightarrow> longest_at pats s = longest_at pats t"
  by (induction pats) (auto simp: longest_at_def)

lemma longest_at_0: "[] \<notin> set pats \<Longrightarrow> longest_at pats s = 0 \<longleftrightarrow> (\<forall>p\<in>set pats. \<not> prefix p s)"
  using longest_at_ge [of _ pats s] longest_at_pos [of pats s] by (metis bot_nat_0.not_eq_extremum length_0_conv le_zero_eq)

lemma longest_at_take:
  assumes "longest_at pats s \<le> k"
  shows "longest_at pats (take k s) = longest_at pats s"
proof (rule longest_at_cong)
  fix p assume "p \<in> set pats"
  show "prefix p (take k s) \<longleftrightarrow> prefix p s"
  proof
    assume "prefix p s"
    with \<open>p \<in> set pats\<close> assms have "length p \<le> k" using longest_at_ge by (meson le_trans)
    with \<open>prefix p s\<close> show "prefix p (take k s)" by (auto simp: prefix_def)
  qed (metis append_take_drop_id prefix_prefix)
qed

lemma longest_at_append:
  assumes "\<And>p. p \<in> set pats \<Longrightarrow> length p \<le> length s"
  shows "longest_at pats (s @ t) = longest_at pats s"
  by (rule longest_at_cong) (metis assms prefix_length_prefix prefix_prefix prefixI)

text \<open>Induction along the search, with the split of the text at the next report.\<close>

lemma scan_induct [case_names Nil Skip Hit]:
  assumes "P []"
    and "\<And>c s. longest_at pats (c # s) = 0 \<Longrightarrow> P s \<Longrightarrow> P (c # s)"
    and "\<And>s n. n = longest_at pats s \<Longrightarrow> 0 < n \<Longrightarrow> n \<le> length s \<Longrightarrow> P (drop n s) \<Longrightarrow> P s"
  shows "P s"
proof (induction "length s" arbitrary: s rule: less_induct)
  case less
  show ?case
  proof (cases s)
    case (Cons c t)
    show ?thesis
    proof (cases "longest_at pats s = 0")
      case False
      with assms(3) [of "longest_at pats s" s] less longest_at_le [of pats s] show ?thesis by simp
    qed (use Cons assms(2) less in auto)
  qed (use assms(1) in simp)
qed

lemma scan_from_Skip: "longest_at pats (c # s) = 0 \<Longrightarrow> scan_from pats i (c # s) = scan_from pats (Suc i) s"
  by (simp add: scan_from.simps)

lemma scan_from_Hit:
  "n = longest_at pats s \<Longrightarrow> 0 < n \<Longrightarrow> scan_from pats i s = (i, i + n) # scan_from pats (i + n) (drop n s)"
  using longest_at_le [of pats s] by (cases s) (auto simp: scan_from.simps Let_def drop_Cons')

lemma occurs_at_drop: "i \<le> length s \<Longrightarrow> occurs_at p s (i + j) \<longleftrightarrow> occurs_at p (drop i s) j"
  by (auto simp: occurs_at_def add.commute)

lemma occurs_at_0 [simp]: "occurs_at p s 0 \<longleftrightarrow> prefix p s"
  by (simp add: occurs_at_def)

text \<open>The reports are determined by the contract.\<close>

lemma leftmost_longest_skip:
  assumes "leftmost_longest pats s i ms" "i < length s" "\<And>p. p \<in> set pats \<Longrightarrow> \<not> occurs_at p s i"
  shows "leftmost_longest pats s (Suc i) ms"
  using assms
proof (cases rule: leftmost_longest.cases)
  case (ll_step a q b ms')
  with assms(3) have "Suc i \<le> a" by (metis le_neq_implies_less Suc_leI)
  with ll_step show ?thesis by (auto intro!: leftmost_longest.ll_step)
qed (auto intro: leftmost_longest.ll_end)

lemma leftmost_longest_scan:
  assumes "[] \<notin> set pats"
  shows "i \<le> length s \<Longrightarrow> leftmost_longest pats s i ms \<Longrightarrow> ms = scan_from pats i (drop i s)"
proof (induction "drop i s" arbitrary: i ms rule: scan_induct [where pats = pats])
  case Nil
  then have "i = length s" by simp
  from Nil.prems(2) show ?case
  proof (cases rule: leftmost_longest.cases)
    case (ll_step a q b ms')
    then have "q = []" using \<open>i = length s\<close> by (simp add: occurs_at_def)
    with ll_step assms show ?thesis by simp
  qed (use Nil.hyps in simp)
next
  case (Skip c t)
  then have i: "i < length s" "drop (Suc i) s = t" by (metis drop_all list.distinct(1) not_le, metis drop_Suc list.sel(3) tl_drop)
  have "\<not> occurs_at p s i" if "p \<in> set pats" for p
    using that Skip.hyps(1,3) longest_at_0 [OF assms, of "c # t"] by (auto simp: occurs_at_def)
  then have "ms = scan_from pats (Suc i) (drop (Suc i) s)"
    using Skip.hyps(2) [of "Suc i" ms] leftmost_longest_skip [OF Skip.prems(2) i(1)] i by simp
  with Skip.hyps(1,3) i(2) show ?case by (metis scan_from_Skip)
next
  case (Hit n)
  then obtain q where q: "q \<in> set pats" "occurs_at q s i" "length q = n"
    using longest_at_pos [of pats "drop i s"] by (auto simp: occurs_at_def)
  from Hit.prems(2) show ?case
  proof (cases rule: leftmost_longest.cases)
    case (ll_step a q' b ms')
    with q have "a = i" by (metis le_neq_implies_less order_refl)
    moreover have "length q' = n"
      using ll_step(2,5,7) [unfolded \<open>a = i\<close>] q Hit.hyps(1) longest_at_ge [of q' pats "drop i s"]
      by (metis occurs_at_def le_antisym \<open>a = i\<close> ll_step(4))
    ultimately have "ms' = scan_from pats (i + n) (drop (i + n) s)"
      using ll_step Hit.hyps(3) Hit.prems(1) Hit.hyps(4) [of "i + n" ms'] by (simp add: add.commute)
    with ll_step \<open>a = i\<close> \<open>length q' = n\<close> show ?thesis
      using scan_from_Hit [OF Hit.hyps(1,2), of i] by (simp add: add.commute)
  qed (use q in auto)
qed

lemma scan_leftmost_longest:
  assumes "[] \<notin> set pats"
  shows "i \<le> length s \<Longrightarrow> leftmost_longest pats s i (scan_from pats i (drop i s))"
proof (induction "drop i s" arbitrary: i rule: scan_induct [where pats = pats])
  case Nil
  then have "\<not> occurs_at p s j" if "p \<in> set pats" "i \<le> j" for p j
    using that assms by (auto simp: occurs_at_def)
  with Nil.hyps show ?case by (metis ll_end scan_from.simps(1))
next
  case (Skip c t)
  then have i: "i < length s" "drop (Suc i) s = t" by (metis drop_all list.distinct(1) not_le, metis drop_Suc list.sel(3) tl_drop)
  have no: "\<not> occurs_at p s i" if "p \<in> set pats" for p
    using that Skip.hyps(1,3) longest_at_0 [OF assms, of "c # t"] by (auto simp: occurs_at_def)
  have "leftmost_longest pats s (Suc i) (scan_from pats i (drop i s))"
    using Skip.hyps(2) [of "Suc i"] Skip.hyps(1,3) i by (metis Suc_leI scan_from_Skip)
  then show ?case
  proof (cases rule: leftmost_longest.cases)
    case ll_end
    then have "\<not> occurs_at p s j" if "p \<in> set pats" "i \<le> j" for p j
      using that no by (cases "i = j") auto
    with ll_end(1) show ?thesis by (metis leftmost_longest.ll_end)
  next
    case (ll_step a q b ms)
    then have "\<not> occurs_at p s j" if "p \<in> set pats" "i \<le> j" "j < a" for p j
      using that no by (cases "i = j") auto
    with ll_step show ?thesis by (auto intro!: leftmost_longest.ll_step)
  qed
next
  case (Hit n)
  then obtain q where q: "q \<in> set pats" "occurs_at q s i" "length q = n"
    using longest_at_pos [of pats "drop i s"] by (auto simp: occurs_at_def)
  have "leftmost_longest pats s (i + n) (scan_from pats (i + n) (drop n (drop i s)))"
    using Hit.hyps(3) Hit.prems Hit.hyps(4) [of "i + n"] by (simp add: add.commute)
  moreover have "length p \<le> length q" if "p \<in> set pats" "occurs_at p s i" for p
    using that q(3) Hit.hyps(1) longest_at_ge [of p pats "drop i s"] by (simp add: occurs_at_def)
  ultimately show ?case
    unfolding scan_from_Hit [OF Hit.hyps(1,2)] using q by (auto intro!: leftmost_longest.ll_step)
qed

interpretation reference: find_iter scan
proof
  fix pats s assume "[] \<notin> set (pats :: string list)"
  from scan_leftmost_longest [OF this, of 0 s] show "leftmost_longest pats s 0 (scan pats s)"
    by (simp add: scan_def)
qed

context find_iter
begin

lemma search_is_scan: "[] \<notin> set pats \<Longrightarrow> search pats s = scan pats s"
  using leftmost_longest_scan [OF _ _ reports, of pats s] by (simp add: scan_def)

end

lemma automaton_build: "[] \<notin> set (automaton (build secrets))" "set (automaton (build secrets)) = set secrets - {[]}"
  by (auto simp: build_def Let_def)

lemma max_pattern_len_build: "p \<in> set (automaton (build secrets)) \<Longrightarrow> length p \<le> max_pattern_len (build secrets)"
proof -
  have "p \<in> set ps \<Longrightarrow> length p \<le> foldr max (map length ps) 0" for ps
    by (induction ps) auto
  then show "p \<in> set (automaton (build secrets)) \<Longrightarrow> length p \<le> max_pattern_len (build secrets)"
    by (simp add: build_def Let_def)
qed

subsection \<open>Redaction as a function of the text\<close>

text \<open>
  What the loops compute when the reports are those of \<open>scan\<close>: the text with every report replaced,
  and the positions that are not inside a report.
\<close>

function redacted :: "'a list \<Rightarrow> ('a \<Rightarrow> char) \<Rightarrow> string list \<Rightarrow> 'a list \<Rightarrow> 'a list" where
  "redacted ph ch pats [] = []"
| "redacted ph ch pats (c # s) =
     (let n = longest_at pats (map ch (c # s))
      in if n = 0 then c # redacted ph ch pats s else ph @ redacted ph ch pats (drop (n - 1) s))"
  by pat_completeness auto
termination by (relation "measure (\<lambda>(_, _, _, s). length s)") auto

declare redacted.simps [simp del]
declare redacted.simps(1) [simp]

lemma redacted_Skip:
  "longest_at pats (map ch (c # s)) = 0 \<Longrightarrow> redacted ph ch pats (c # s) = c # redacted ph ch pats s"
  by (simp add: redacted.simps)

lemma redacted_Hit:
  "n = longest_at pats (map ch s) \<Longrightarrow> 0 < n \<Longrightarrow> redacted ph ch pats s = ph @ redacted ph ch pats (drop n s)"
  using longest_at_le [of pats "map ch s"] by (cases s) (auto simp: redacted.simps Let_def drop_Cons')

lemma scan_induct_map [case_names Nil Skip Hit]:
  assumes "P []"
    and "\<And>c s. longest_at pats (map ch (c # s)) = 0 \<Longrightarrow> P s \<Longrightarrow> P (c # s)"
    and "\<And>s n. n = longest_at pats (map ch s) \<Longrightarrow> 0 < n \<Longrightarrow> n \<le> length s \<Longrightarrow> P (drop n s) \<Longrightarrow> P s"
  shows "P s"
proof (induction "map ch s" arbitrary: s rule: scan_induct [where pats = pats])
  case Nil
  then show ?case using assms(1) by simp
next
  case (Skip c t)
  from Skip.hyps(3) obtain c' t' where s: "s = c' # t'" "map ch t' = t" "ch c' = c"
    by (metis map_eq_Cons_conv)
  have "P t'" by (rule Skip.hyps(2)) (simp add: s)
  moreover have "longest_at pats (map ch (c' # t')) = 0" using Skip.hyps(1) s by simp
  ultimately show ?case using assms(2) s(1) by blast
next
  case (Hit n)
  have "P (drop n s)" by (rule Hit.hyps(4)) (simp add: drop_map)
  moreover have "n \<le> length s" using Hit.hyps(3) by simp
  ultimately show ?case using Hit.hyps(1,2) assms(3) by blast
qed

lemma redact_loop_scan:
  assumes "text = pre @ s" "last_end \<le> length pre"
  shows "redact_loop ph text (scan_from pats (length pre) (map ch s)) out last_end count =
     (out @ drop last_end pre @ redacted ph ch pats s,
      count + of_nat (length (scan_from pats (length pre) (map ch s))))"
  using assms
proof (induction s arbitrary: pre out last_end count rule: scan_induct_map [where pats = pats and ch = ch])
  case (Skip c s)
  from Skip.IH [of "pre @ [c]" last_end out count] Skip.prems Skip.hyps show ?case
    by (simp add: scan_from_Skip redacted_Skip)
next
  case (Hit s n)
  let ?pre = "pre @ take n s"
  have "scan_from pats (length pre) (map ch s)
      = (length pre, length ?pre) # scan_from pats (length ?pre) (map ch (drop n s))"
    using scan_from_Hit [of n pats "map ch s" "length pre"] Hit.hyps by (simp add: drop_map)
  with Hit.IH [of ?pre "length ?pre" "out @ drop last_end pre @ ph" "count + 1"] Hit.prems
  show ?case
    by (simp add: redacted_Hit [OF Hit.hyps(1,2)])
qed simp

text \<open>Positions that are not strictly inside a report, and the last of them up to a bound.\<close>

function split_ref :: "string list \<Rightarrow> string \<Rightarrow> nat \<Rightarrow> nat" where
  "split_ref pats [] k = 0"
| "split_ref pats (c # s) k =
     (let n = longest_at pats (c # s)
      in if k = 0 then 0
         else if n = 0 then Suc (split_ref pats s (k - 1))
         else if n > k then 0
         else n + split_ref pats (drop (n - 1) s) (k - n))"
  by pat_completeness auto
termination by (relation "measure (\<lambda>(_, s, _). length s)") auto

definition clear :: "string list \<Rightarrow> string \<Rightarrow> nat \<Rightarrow> bool" where
  "clear pats s k \<longleftrightarrow> k \<le> length s \<and> split_ref pats s k = k"

declare split_ref.simps [simp del]
declare split_ref.simps(1) [simp]

lemma split_ref_0 [simp]: "split_ref pats s 0 = 0"
  by (cases s) (simp_all add: split_ref.simps)

lemma split_ref_Skip:
  "longest_at pats (c # s) = 0 \<Longrightarrow> split_ref pats (c # s) (Suc k) = Suc (split_ref pats s k)"
  by (simp add: split_ref.simps)

lemma split_ref_Hit:
  "n = longest_at pats s \<Longrightarrow> 0 < n \<Longrightarrow>
     split_ref pats s k = (if k < n then 0 else n + split_ref pats (drop n s) (k - n))"
  using longest_at_le [of pats s] by (cases s) (auto simp: split_ref.simps Let_def drop_Cons')

lemma split_ref_le: "k \<le> length s \<Longrightarrow> split_ref pats s k \<le> k"
proof (induction s arbitrary: k rule: scan_induct [where pats = pats])
  case (Skip c s)
  then show ?case by (cases k) (simp_all add: split_ref_Skip)
next
  case (Hit s n)
  have "n \<le> k \<Longrightarrow> split_ref pats (drop n s) (k - n) \<le> k - n"
    using Hit.IH [of "k - n"] Hit.prems by simp
  then show ?case by (auto simp: split_ref_Hit [OF Hit.hyps(1,2)])
qed simp

lemma clear_0 [simp]: "clear pats s 0"
  by (simp add: clear_def)

lemma clear_Skip: "longest_at pats (c # s) = 0 \<Longrightarrow> clear pats (c # s) (Suc k) \<longleftrightarrow> clear pats s k"
  by (simp add: clear_def split_ref_Skip)

lemma clear_Hit:
  assumes "n = longest_at pats s" "0 < n" "0 < k"
  shows "clear pats s k \<longleftrightarrow> n \<le> k \<and> clear pats (drop n s) (k - n)"
proof -
  have "n \<le> length s" using assms(1) longest_at_le by simp
  with assms(3) show ?thesis
    by (auto simp: clear_def split_ref_Hit [OF assms(1,2)])
qed

lemma clear_split_ref: "k \<le> length s \<Longrightarrow> clear pats s (split_ref pats s k)"
proof (induction s arbitrary: k rule: scan_induct [where pats = pats])
  case (Skip c s)
  then show ?case by (cases k) (auto simp: split_ref_Skip clear_Skip)
next
  case (Hit s n)
  have "n \<le> k \<Longrightarrow> clear pats (drop n s) (split_ref pats (drop n s) (k - n))"
    using Hit.IH [of "k - n"] Hit.prems by simp
  then show ?case
    using Hit.hyps(2) by (auto simp: split_ref_Hit [OF Hit.hyps(1,2)] clear_Hit [OF Hit.hyps(1,2)])
qed simp

lemma split_ref_greatest: "k \<le> length s \<Longrightarrow> j \<le> k \<Longrightarrow> clear pats s j \<Longrightarrow> j \<le> split_ref pats s k"
proof (induction s arbitrary: j k rule: scan_induct [where pats = pats])
  case (Skip c s)
  then show ?case by (cases k; cases j) (auto simp: split_ref_Skip clear_Skip)
next
  case (Hit s n)
  show ?case
  proof (cases "j = 0")
    case False
    then have "n \<le> j" "clear pats (drop n s) (j - n)"
      using Hit.prems(3) clear_Hit [OF Hit.hyps(1,2), of j] by auto
    then have "j - n \<le> split_ref pats (drop n s) (k - n)"
      using Hit.IH [of "k - n" "j - n"] Hit.prems by simp
    with \<open>n \<le> j\<close> Hit.prems(2) show ?thesis by (simp add: split_ref_Hit [OF Hit.hyps(1,2)])
  qed simp
qed simp

lemma scan_from_ge: "(a, b) \<in> set (scan_from pats i s) \<Longrightarrow> i \<le> a \<and> a < b"
proof (induction s arbitrary: i rule: scan_induct [where pats = pats])
  case (Skip c s)
  from Skip.IH [of "Suc i"] Skip.prems show ?case by (simp add: scan_from_Skip [OF Skip.hyps])
next
  case (Hit s n)
  from Hit.IH [of "i + n"] Hit.prems Hit.hyps(2) show ?case
    by (auto simp: scan_from_Hit [OF Hit.hyps(1,2)])
qed simp

lemma safe_split_loop_stop: "(\<And>a b. (a, b) \<in> set ms \<Longrightarrow> k \<le> a) \<Longrightarrow> safe_split_loop ms k = k"
  by (cases ms) fastforce+

lemma safe_split_loop_scan:
  "k \<le> length s \<Longrightarrow> safe_split_loop (scan_from pats i s) (i + k) = i + split_ref pats s k"
proof (induction s arbitrary: i k rule: scan_induct [where pats = pats])
  case (Skip c s)
  show ?case
  proof (cases k)
    case 0
    then show ?thesis using scan_from_ge by (auto intro!: safe_split_loop_stop)
  next
    case (Suc k')
    with Skip.IH [of k' "Suc i"] Skip.prems show ?thesis
      by (simp add: scan_from_Skip [OF Skip.hyps] split_ref_Skip [OF Skip.hyps])
  qed
next
  case (Hit s n)
  let ?ms = "scan_from pats (i + n) (drop n s)"
  have "n \<le> k \<Longrightarrow> safe_split_loop ?ms (i + k) = i + n + split_ref pats (drop n s) (k - n)"
    using Hit.IH [of "k - n" "i + n"] Hit.prems by simp
  moreover have "safe_split_loop ?ms i = i"
    using scan_from_ge [of _ _ pats "i + n" "drop n s"] by (fastforce intro!: safe_split_loop_stop)
  ultimately show ?case
    using Hit.hyps(2) by (auto simp: scan_from_Hit [OF Hit.hyps(1,2)] split_ref_Hit [OF Hit.hyps(1,2)])
qed simp

lemma clear_scan:
  "k \<le> length s \<Longrightarrow> clear pats s k \<longleftrightarrow> (\<forall>(a, b)\<in>set (scan_from pats i s). \<not> (a < i + k \<and> i + k < b))"
proof (induction s arbitrary: i k rule: scan_induct [where pats = pats])
  case (Skip c s)
  show ?case
  proof (cases k)
    case 0
    then show ?thesis using scan_from_ge [of _ _ pats i "c # s"] by fastforce
  next
    case (Suc k')
    with Skip.IH [of k' "Suc i"] Skip.prems show ?thesis
      by (simp add: scan_from_Skip [OF Skip.hyps] clear_Skip [OF Skip.hyps])
  qed
next
  case (Hit s n)
  show ?case
  proof (cases "0 < k \<and> n \<le> k")
    case True
    with Hit.IH [of "k - n" "i + n"] Hit.prems show ?thesis
      by (auto simp: scan_from_Hit [OF Hit.hyps(1,2)] clear_Hit [OF Hit.hyps(1,2)])
  next
    case False
    then show ?thesis
    proof (cases "k = 0")
      case True
      then show ?thesis using scan_from_ge [of _ _ pats i s] by fastforce
    qed (auto simp: scan_from_Hit [OF Hit.hyps(1,2)] clear_Hit [OF Hit.hyps(1,2)])
  qed
qed simp

text \<open>
  A cut that is clear splits the work: the two parts are redacted on their own.  A cut far enough
  before the end stays clear whatever follows.
\<close>

lemma redacted_split:
  "clear pats (map ch s) k \<Longrightarrow>
     redacted ph ch pats s = redacted ph ch pats (take k s) @ redacted ph ch pats (drop k s)"
proof (induction s arbitrary: k rule: scan_induct_map [where pats = pats and ch = ch])
  case (Skip c s)
  show ?case
  proof (cases k)
    case (Suc k')
    have "longest_at pats (map ch (take k (c # s))) = 0"
      using longest_at_take [of pats "map ch (c # s)" k] Skip.hyps by (simp only: take_map)
    with Suc Skip.IH [of k'] Skip.prems Skip.hyps show ?thesis
      by (simp add: redacted_Skip clear_Skip)
  qed simp
next
  case (Hit s n)
  show ?case
  proof (cases "k = 0")
    case False
    then have n: "n \<le> k" "clear pats (map ch (drop n s)) (k - n)"
      using Hit.prems clear_Hit [OF Hit.hyps(1,2), of k] by (auto simp: drop_map)
    have "n = longest_at pats (map ch (take k s))"
      using longest_at_take [of pats "map ch s" k] Hit.hyps(1) n(1) by (simp add: take_map)
    from redacted_Hit [OF this Hit.hyps(2)] Hit.IH [OF n(2)] n(1) show ?thesis
      by (simp add: redacted_Hit [OF Hit.hyps(1,2)] drop_take)
  qed simp
qed simp

lemma clear_append:
  assumes "\<And>p. p \<in> set pats \<Longrightarrow> length p \<le> m"
  shows "clear pats s k \<Longrightarrow> k + (m - 1) \<le> length s \<Longrightarrow> clear pats (s @ t) k"
proof (induction s arbitrary: k rule: scan_induct [where pats = pats])
  case (Skip c s)
  show ?case
  proof (cases k)
    case (Suc k')
    have "length p \<le> length (c # s)" if "p \<in> set pats" for p
      using assms [OF that] Skip.prems(2) Suc by simp
    from longest_at_append [OF this] Skip.hyps have "longest_at pats ((c # s) @ t) = 0" by simp
    with Suc Skip show ?thesis by (simp add: clear_Skip)
  qed simp
next
  case (Hit s n)
  show ?case
  proof (cases "k = 0")
    case False
    then have n: "n \<le> k" "clear pats (drop n s) (k - n)"
      using Hit.prems(1) clear_Hit [OF Hit.hyps(1,2), of k] by auto
    have "length p \<le> length s" if "p \<in> set pats" for p
      using assms [OF that] Hit.prems(2) False by simp
    from longest_at_append [OF this] Hit.hyps(1) have "n = longest_at pats (s @ t)" by simp
    from clear_Hit [OF this Hit.hyps(2), of k] Hit.IH [OF n(2)] Hit.prems(2) Hit.hyps(3) n(1) False
    show ?thesis by simp
  qed simp
qed simp

text \<open>Every occurrence of a pattern meets a report.\<close>

lemma scan_meets:
  assumes "[] \<notin> set pats" "p \<in> set pats"
  shows "occurs_at p s j \<Longrightarrow> \<exists>(a, b)\<in>set (scan_from pats i s). a < i + j + length p \<and> i + j < b"
proof (induction s arbitrary: i j rule: scan_induct [where pats = pats])
  case Nil
  then show ?case using assms by (auto simp: occurs_at_def)
next
  case (Skip c s)
  from Skip.hyps longest_at_0 [OF assms(1)] Skip.prems assms(2) obtain j' where "j = Suc j'" by (cases j) auto
  with Skip.IH [of j' "Suc i"] Skip.prems show ?case
    by (simp add: scan_from_Skip [OF Skip.hyps] occurs_at_def)
next
  case (Hit s n)
  show ?case
  proof (cases "j < n")
    case True
    have "0 < length p" using assms by auto
    with True show ?thesis by (auto simp: scan_from_Hit [OF Hit.hyps(1,2)])
  next
    case False
    then have "occurs_at p (drop n s) (j - n)"
      using Hit.prems Hit.hyps(3) by (auto simp: occurs_at_def)
    from Hit.IH [OF this, of "i + n"] False show ?thesis
      by (simp add: scan_from_Hit [OF Hit.hyps(1,2)])
  qed
qed

lemma scan_occurs:
  "(a, b) \<in> set (scan_from pats i s) \<Longrightarrow>
     b \<le> i + length s \<and> (\<exists>q\<in>set pats. b = a + length q \<and> occurs_at q s (a - i))"
proof (induction s arbitrary: i rule: scan_induct [where pats = pats])
  case (Skip c s)
  from Skip.prems have "(a, b) \<in> set (scan_from pats (Suc i) s)" by (simp add: scan_from_Skip [OF Skip.hyps])
  moreover from scan_from_ge [OF this] obtain d where "a = Suc i + d" by (metis le_Suc_ex)
  ultimately show ?case using Skip.IH [of "Suc i"] by (auto simp: occurs_at_def)
next
  case (Hit s n)
  show ?case
  proof (cases "(a, b) = (i, i + n)")
    case True
    moreover obtain q where "q \<in> set pats" "prefix q s" "length q = n"
      using longest_at_pos [of pats s] Hit.hyps by auto
    ultimately show ?thesis using Hit.hyps(3) by auto
  next
    case False
    then have m: "(a, b) \<in> set (scan_from pats (i + n) (drop n s))"
      using Hit.prems by (auto simp: scan_from_Hit [OF Hit.hyps(1,2)])
    from scan_from_ge [OF m] obtain d where "a = i + n + d" by (metis le_Suc_ex)
    with Hit.IH [OF m] Hit.hyps(3) show ?thesis by (fastforce simp: occurs_at_def add.commute)
  qed
qed simp

subsection \<open>What the redactor guarantees\<close>

text \<open>The parts of a text that redaction keeps, and their concatenation around placeholders.\<close>

fun kept :: "(nat \<times> nat) list \<Rightarrow> nat \<Rightarrow> 'a list \<Rightarrow> 'a list list" where
  "kept [] last_end text = [drop last_end text]"
| "kept ((a, b) # ms) last_end text = take (a - last_end) (drop last_end text) # kept ms b text"

fun join_with :: "'a list \<Rightarrow> 'a list list \<Rightarrow> 'a list" where
  "join_with ph [] = []"
| "join_with ph [q] = q"
| "join_with ph (q # q' # qs) = q @ ph @ join_with ph (q' # qs)"

lemma redact_loop_kept:
  "redact_loop ph hay ms out last_end count =
     (out @ join_with ph (kept ms last_end hay), count + of_nat (length ms))"
proof (induction ph hay ms out last_end count rule: redact_loop.induct)
  case (2 ph hay a b ms out last_end count)
  then show ?case by (cases ms) (auto simp: algebra_simps)
qed simp

fun reports_ordered :: "nat \<Rightarrow> (nat \<times> nat) list \<Rightarrow> nat \<Rightarrow> bool" where
  "reports_ordered i [] len \<longleftrightarrow> i \<le> len"
| "reports_ordered i ((a, b) # ms) len \<longleftrightarrow> i \<le> a \<and> a < b \<and> reports_ordered b ms len"

lemma reports_ordered_le: "reports_ordered i ms len \<Longrightarrow> i \<le> len \<and> (\<forall>(a, b)\<in>set ms. i \<le> a \<and> a < b \<and> b \<le> len)"
  by (induction i ms len rule: reports_ordered.induct) auto

lemma reports_ordered_weaken: "reports_ordered i ms len \<Longrightarrow> j \<le> i \<Longrightarrow> reports_ordered j ms len"
  by (cases ms) auto

lemma scan_ordered: "reports_ordered i (scan_from pats i s) (i + length s)"
proof (induction s arbitrary: i rule: scan_induct [where pats = pats])
  case (Skip c s)
  from Skip.IH [of "Suc i"] show ?case by (simp add: scan_from_Skip [OF Skip.hyps] reports_ordered_weaken)
next
  case (Hit s n)
  from Hit.IH [of "i + n"] Hit.hyps(2,3) show ?case by (simp add: scan_from_Hit [OF Hit.hyps(1,2)])
qed simp

lemma kept_disjoint:
  "reports_ordered i ms (length hay) \<Longrightarrow> q \<in> set (kept ms i hay) \<Longrightarrow>
     \<exists>e. i \<le> e \<and> occurs_at q hay e \<and> (\<forall>(a, b)\<in>set ms. b \<le> e \<or> e + length q \<le> a)"
proof (induction ms i hay rule: kept.induct)
  case (1 i hay)
  then show ?case by (auto simp: occurs_at_def intro!: exI [of _ i])
next
  case (2 a b ms i hay)
  show ?case
  proof (cases "q \<in> set (kept ms b hay)")
    case True
    with 2 obtain e where "b \<le> e" "occurs_at q hay e" "\<forall>(a, b)\<in>set ms. b \<le> e \<or> e + length q \<le> a"
      by auto
    with "2.prems"(1) show ?thesis by (auto intro!: exI [of _ e])
  next
    case False
    with "2.prems" have q: "q = take (a - i) (drop i hay)" by simp
    have "i \<le> a" "a \<le> length hay" using reports_ordered_le [OF "2.prems"(1)] by auto
    moreover have "i + length q \<le> a'" if "(a', b') \<in> set ms" for a' b'
      using reports_ordered_le [of b ms "length hay"] "2.prems"(1) that q \<open>i \<le> a\<close> by fastforce
    ultimately show ?thesis
      by (auto simp: q occurs_at_def take_is_prefix min_def intro!: exI [of _ i])
  qed
qed

context find_iter
begin

lemma search_build: "search (automaton (build secrets)) s = scan_from (automaton (build secrets)) 0 s"
  by (simp add: search_is_scan automaton_build scan_def)

lemma redact_eq:
  "redact search (build secrets) hay =
     (redacted REDACTED_PLACEHOLDER id (automaton (build secrets)) hay,
      of_nat (length (search (automaton (build secrets)) hay)))"
  using redact_loop_scan [of hay "[]" hay 0 REDACTED_PLACEHOLDER "automaton (build secrets)" id]
  by (simp add: redact_def search_build)

lemma redact_bytes_eq:
  "redact_bytes search (build secrets) bytes =
     (redacted (map char_u8 REDACTED_PLACEHOLDER) u8_char (automaton (build secrets)) bytes,
      of_nat (length (search (automaton (build secrets)) (map u8_char bytes))))"
  using redact_loop_scan [of bytes "[]" bytes 0 "map char_u8 REDACTED_PLACEHOLDER" "automaton (build secrets)" u8_char]
  by (simp add: redact_bytes_def search_build)

lemma safe_split_len_eq:
  "safe_split_len search (build secrets) s m = split_ref (automaton (build secrets)) s (min m (length s))"
  using safe_split_loop_scan [of "min m (length s)" s "automaton (build secrets)" 0]
  by (simp add: safe_split_len_def search_build)

lemma safe_split_len_clear: "clear (automaton (build secrets)) s (safe_split_len search (build secrets) s m)"
  by (simp add: safe_split_len_eq clear_split_ref)

lemma kept_free:
  assumes "q \<in> set (kept (search (automaton (build secrets)) hay) 0 hay)" "p \<in> set secrets" "p \<noteq> []"
  shows "\<not> sublist p q"
proof
  let ?pats = "automaton (build secrets)"
  let ?ms = "scan_from ?pats 0 hay"
  assume "sublist p q"
  then obtain u v where q: "q = u @ p @ v" by (auto simp: sublist_def)
  obtain e where e: "occurs_at q hay e" "\<forall>(a, b)\<in>set ?ms. b \<le> e \<or> e + length q \<le> a"
    using kept_disjoint [of 0 ?ms hay q] scan_ordered [of 0 ?pats hay] assms(1) by (auto simp: search_build)
  then obtain w where "drop e hay = u @ p @ v @ w" "e \<le> length hay" by (auto simp: occurs_at_def q prefix_def)
  then have "occurs_at p (drop e hay) (length u)" by (simp add: occurs_at_def)
  then have "occurs_at p hay (e + length u)" using \<open>e \<le> length hay\<close> by (simp add: occurs_at_drop)
  moreover have "p \<in> set ?pats" using assms automaton_build(2) by auto
  ultimately obtain a b where "(a, b) \<in> set ?ms" "a < e + length u + length p" "e + length u < b"
    using scan_meets [OF automaton_build(1), of p secrets hay "e + length u" 0] by auto
  with e(2) show False by (auto simp: q)
qed

end

lemma length_kept [simp]: "length (kept ms i hay) = Suc (length ms)"
  by (induction ms i hay rule: kept.induct) auto

definition slice :: "'a list \<Rightarrow> nat \<times> nat \<Rightarrow> 'a list" where
  "slice hay = (\<lambda>(a, b). take (b - a) (drop a hay))"

lemma kept_glue:
  "reports_ordered i ms (length hay) \<Longrightarrow>
     drop i hay = concat (map (\<lambda>(q, c). q @ c) (zip (kept ms i hay) (map (slice hay) ms @ [[]])))"
proof (induction ms i hay rule: kept.induct)
  case (2 a b ms i hay)
  then have "i \<le> a" "a < b" "drop b hay = concat (map (\<lambda>(q, c). q @ c) (zip (kept ms b hay) (map (slice hay) ms @ [[]])))"
    by auto
  moreover from this(1,2) have "drop i hay = take (a - i) (drop i hay) @ take (b - a) (drop a hay) @ drop b hay"
    by (metis append_take_drop_id drop_drop le_add_diff_inverse2 less_imp_le)
  ultimately show ?case by (simp add: slice_def)
qed simp

text \<open>
  \<^bold>\<open>C7.\<close> Redaction: a text is a sequence of kept pieces and of registered secrets between them; the
  result has a placeholder in place of each of these secrets, no kept piece contains a registered
  secret, and the returned number is the number of placeholders (as a \<^verbatim>\<open>u32\<close>).
\<close>

theorem redaction_complete:
  assumes "find_iter search"
  shows "\<exists>pieces cuts.
     hay = concat (map (\<lambda>(q, c). q @ c) (zip pieces (cuts @ [[]]))) \<and>
     length pieces = Suc (length cuts) \<and>
     set cuts \<subseteq> set secrets - {[]} \<and>
     redact search (build secrets) hay = (join_with REDACTED_PLACEHOLDER pieces, of_nat (length cuts)) \<and>
     (\<forall>q\<in>set pieces. \<forall>p\<in>set secrets. sublist p q \<longrightarrow> p = [])"
proof (intro exI conjI)
  let ?pats = "automaton (build secrets)"
  define ms where "ms = search ?pats hay"
  then have ms: "ms = scan_from ?pats 0 hay" by (simp add: find_iter.search_build [OF assms])
  show "hay = concat (map (\<lambda>(q, c). q @ c) (zip (kept ms 0 hay) (map (slice hay) ms @ [[]])))"
    using kept_glue [of 0 ms hay] scan_ordered [of 0 ?pats hay] ms by simp
  show "set (map (slice hay) ms) \<subseteq> set secrets - {[]}"
    using scan_occurs [of _ _ ?pats 0 hay] automaton_build(2) [of secrets]
    by (fastforce simp: ms slice_def occurs_at_def prefix_def)
  show "redact search (build secrets) hay =
      (join_with REDACTED_PLACEHOLDER (kept ms 0 hay), of_nat (length (map (slice hay) ms)))"
    by (simp add: redact_def redact_loop_kept ms_def)
  show "\<forall>q\<in>set (kept ms 0 hay). \<forall>p\<in>set secrets. sublist p q \<longrightarrow> p = []"
    using find_iter.kept_free [OF assms, of _ secrets hay] ms_def by blast
qed simp

theorem redaction_complete_witness:
  "\<exists>pieces cuts.
     ''a key, a keychain'' = concat (map (\<lambda>(q, c). q @ c) (zip pieces (cuts @ [[]]))) \<and>
     length pieces = Suc (length cuts) \<and>
     set cuts \<subseteq> set [''key'', [], ''keychain''] - {[]} \<and>
     redact scan (build [''key'', [], ''keychain'']) ''a key, a keychain'' =
       (join_with REDACTED_PLACEHOLDER pieces, of_nat (length cuts)) \<and>
     (\<forall>q\<in>set pieces. \<forall>p\<in>set [''key'', [], ''keychain'']. sublist p q \<longrightarrow> p = [])"
  by (rule redaction_complete) (rule reference.find_iter_axioms)

text \<open>
  \<^bold>\<open>C32.\<close> The split point that streaming callers get is the greatest position up to the bound that is
  not strictly inside a reported match.
\<close>

theorem safe_split_len_is_greatest:
  assumes "find_iter search"
  shows "is_arg_max id
     (\<lambda>k. k \<le> max_len \<and> k \<le> length bytes \<and>
          (\<forall>(a, b)\<in>set (search (automaton (build secrets)) bytes). \<not> (a < k \<and> k < b)))
     (safe_split_len search (build secrets) bytes max_len)"
proof -
  note E = find_iter.safe_split_len_eq [OF assms, of secrets bytes max_len]
    and S = find_iter.search_build [OF assms, of secrets bytes]
  let ?k = "min max_len (length bytes)" and ?pats = "automaton (build secrets)"
  have "k \<le> length bytes \<Longrightarrow> clear ?pats bytes k \<longleftrightarrow> (\<forall>(a, b)\<in>set (search ?pats bytes). \<not> (a < k \<and> k < b))" for k
    using clear_scan [of k bytes ?pats 0] by (simp add: S)
  moreover have "clear ?pats bytes (split_ref ?pats bytes ?k)" "split_ref ?pats bytes ?k \<le> ?k"
    using split_ref_le [of ?k bytes ?pats] by (simp_all add: clear_split_ref)
  moreover have "j \<le> split_ref ?pats bytes ?k" if "j \<le> ?k" "clear ?pats bytes j" for j
    using that by (simp add: split_ref_greatest)
  ultimately show ?thesis by (fastforce simp: is_arg_max_linorder E)
qed

theorem safe_split_len_is_greatest_witness:
  "is_arg_max id
     (\<lambda>k. k \<le> 5 \<and> k \<le> length ''a key b'' \<and>
          (\<forall>(a, b)\<in>set (scan (automaton (build [''key'', []])) ''a key b''). \<not> (a < k \<and> k < b)))
     (safe_split_len scan (build [''key'', []]) ''a key b'' 5)"
  by (rule safe_split_len_is_greatest) (rule reference.find_iter_axioms)

lemma redact_payload_fold:
  "task_state_step st (fst (redact_event_payload search r p)) = task_state_step st p"
  "fold_session_from sst (fst (redact_event_payload search r p) # ps) = fold_session_from sst (p # ps)"
  by (cases "(search, r, p)" rule: redact_event_payload.cases; simp)+

text \<open>
  Redaction does not change the meaning of a log: the folds of the redacted events are those
  of the original ones.
\<close>

theorem redacted_log_has_same_state:
  "fold_task_state (map (fst \<circ> redact_event_payload search r) evs) = fold_task_state evs \<and>
   fold_session_state (map (fst \<circ> redact_event_payload search r) evs) = fold_session_state evs"
proof -
  have "foldl task_state_step st (map (fst \<circ> redact_event_payload search r) evs) = foldl task_state_step st evs" for st
    by (induction evs arbitrary: st) (simp_all add: redact_payload_fold)
  moreover have "fold_session_from sst (map (fst \<circ> redact_event_payload search r) evs) = fold_session_from sst evs" for sst
  proof (induction evs arbitrary: sst)
    case (Cons p evs)
    then show ?case unfolding list.map comp_apply redact_payload_fold by simp
  qed simp
  ultimately show ?thesis by (simp add: fold_task_state_def fold_session_state_def)
qed

text \<open>
  The documentation of \<^verbatim>\<open>safe_split_len\<close> says that a secret which overlaps a reported one cannot
  reassemble in the output.  It can, with characters of the placeholder.
\<close>

lemma overlapped_secret_can_reassemble:
  "redact scan (build [''xD'', ''D]]'']) ''xD]]'' = (''[REDACTED]]]'', 1) \<and> sublist ''D]]'' ''[REDACTED]]]''"
  by code_simp

subsection \<open>JSON values\<close>

fun json_strings :: "json \<Rightarrow> string list" where
  "json_strings (JString s) = [s]"
| "json_strings (JArray vs) = concat (map json_strings vs)"
| "json_strings (JObject m) = concat (map (\<lambda>(k, v). json_strings v) m)"
| "json_strings _ = []"

fun json_depth :: "json \<Rightarrow> nat" where
  "json_depth (JArray vs) = Suc (foldr max (map json_depth vs) 0)"
| "json_depth (JObject m) = Suc (foldr max (map (\<lambda>(k, v). json_depth v) m) 0)"
| "json_depth _ = 0"

lemma foldr_max_le: "(\<And>x. x \<in> set xs \<Longrightarrow> x \<le> n) \<Longrightarrow> foldr max xs (0 :: nat) \<le> n"
  by (induction xs) auto

lemma redact_json_at_depth:
  "json_depth (fst (redact_json_value_at_depth search r v depth)) \<le> MAX_JSON_REDACT_DEPTH - depth \<and>
   set (json_strings (fst (redact_json_value_at_depth search r v depth)))
     \<subseteq> insert TRUNCATED ((fst \<circ> redact search r) ` set (json_strings v))"
proof (induction search r v depth rule: redact_json_value_at_depth.induct)
  case (1 search r v depth)
  let ?R = "\<lambda>v. fst (redact_json_value_at_depth search r v (depth + 1))"
  show ?case
  proof (cases "depth \<ge> MAX_JSON_REDACT_DEPTH")
    case False
    show ?thesis
    proof (cases v)
      case (JArray items)
      have "json_depth (?R v) \<le> MAX_JSON_REDACT_DEPTH - (depth + 1)" if "v \<in> set items" for v
        using "1.IH"(1) [OF False JArray that] by blast
      then have "foldr max (map (json_depth \<circ> ?R) items) 0 \<le> MAX_JSON_REDACT_DEPTH - (depth + 1)"
        by (intro foldr_max_le) auto
      moreover have "set (json_strings (?R v)) \<subseteq> insert TRUNCATED ((fst \<circ> redact search r) ` set (json_strings v))"
        if "v \<in> set items" for v
        using "1.IH"(1) [OF False JArray that] by blast
      moreover have "fst (redact_json_value_at_depth search r v depth) = JArray (map ?R items)"
        using False by (simp add: JArray redact_json_value_at_depth.simps [of _ _ "JArray items"] comp_def)
      ultimately show ?thesis using False JArray by (auto simp: Suc_le_eq comp_def)
    next
      case (JObject m)
      have "json_depth (?R v) \<le> MAX_JSON_REDACT_DEPTH - (depth + 1)" if "(k, v) \<in> set m" for k v
        using "1.IH"(2) [OF False JObject that refl] by blast
      then have "foldr max (map (\<lambda>x. json_depth (?R (snd x))) m) 0 \<le> MAX_JSON_REDACT_DEPTH - (depth + 1)"
        by (intro foldr_max_le) auto
      moreover have "set (json_strings (?R v)) \<subseteq> insert TRUNCATED ((fst \<circ> redact search r) ` set (json_strings v))"
        if "(k, v) \<in> set m" for k v
        using "1.IH"(2) [OF False JObject that refl] by blast
      moreover have "fst (redact_json_value_at_depth search r v depth) = JObject (map (\<lambda>x. (fst x, ?R (snd x))) m)"
        using False by (simp add: JObject redact_json_value_at_depth.simps [of _ _ "JObject m"] comp_def case_prod_beta)
      ultimately show ?thesis using False JObject by (fastforce simp: Suc_le_eq comp_def case_prod_beta)
    qed (use False in \<open>simp_all add: redact_json_value_at_depth.simps [where depth = depth]\<close>)
  qed (simp add: redact_json_value_at_depth.simps [of _ _ v])
qed

end
