(* ===== verification/Store_Writer.thy ===== *)
theory Store_Writer
  imports Store_Redact
begin

text \<open>
  The append-only event log and its single writer: \<^verbatim>\<open>store/src/{writer,tasks_view,recovery,txn}.rs\<close>,
  the readers of \<^verbatim>\<open>session_events.rs\<close> and \<^verbatim>\<open>suspended.rs\<close>, the blob index of \<^verbatim>\<open>blobs.rs\<close>, over the
  tables \<^verbatim>\<open>events\<close>, \<^verbatim>\<open>tasks\<close> and \<^verbatim>\<open>blobs\<close> of \<^verbatim>\<open>migrations.rs\<close>.

  A transaction is a function on the tables whose result is kept only if it commits.  SQLite may
  fail at every statement (\<open>ev_faults\<close>, one function per attempt); the texts of identifiers,
  payloads and reasons are a parameter (\<open>ev_codec\<close>).  Panics of a database closure and a pool that
  hands out no connection, which fails an operation before it reads or writes, are not modelled.
\<close>

subsection \<open>Tables, texts and failures\<close>

record ev_row =
  er_session :: string
  er_seq :: int
  er_ts :: int
  er_task :: "string option"
  er_payload :: string
  er_schema :: "16 word"

record task_row =
  tk_task_id :: string
  tk_session :: string
  tk_kind :: string
  tk_state :: string
  tk_parent :: "string option"
  tk_created_seq :: int
  tk_updated_seq :: int
  tk_suspended_since :: "int option"
  tk_reason :: "string option"
  tk_redactions :: int

record blob_index_row =
  bi_hash :: string
  bi_len :: int
  bi_mime :: "string option"
  bi_created_at :: int
  bi_last_referenced_at :: int
  bi_ref_count :: int

record event_db =
  db_events :: "ev_row list"
  db_tasks :: "task_row list"
  db_blobs :: "blob_index_row list"

record ev_codec =
  uuid_text :: "nat \<Rightarrow> string"
  uuid_parse :: "string \<Rightarrow> nat option"
  payload_text :: "event_payload \<Rightarrow> string option"
  payload_parse :: "string \<Rightarrow> event_payload option"
  reason_text :: "suspend_reason \<Rightarrow> string option"
  reason_parse :: "string \<Rightarrow> suspend_reason option"
  kind_text :: "task_kind \<Rightarrow> string"

text \<open>What is printed can be read back.\<close>

definition ev_codec_ok :: "ev_codec \<Rightarrow> bool" where
  "ev_codec_ok c \<longleftrightarrow>
     (\<forall>n. uuid_parse c (uuid_text c n) = Some n) \<and>
     (\<forall>p t. payload_text c p = Some t \<longrightarrow> payload_parse c t = Some p) \<and>
     (\<forall>s t. reason_text c s = Some t \<longrightarrow> reason_parse c t = Some s)"

datatype sqlite_error = DatabaseBusy | ConstraintViolation | StatementChangedRows nat | ToSqlConversionFailure | SqliteOther

definition is_sqlite_busy :: "sqlite_error \<Rightarrow> bool" where
  "is_sqlite_busy e \<longleftrightarrow> e = DatabaseBusy"

datatype record_blob_error = MissingFile string | BlobSqlite sqlite_error

datatype ev_store_error =
    EvSqlite sqlite_error
  | EvPool
  | EvInteract string
  | EvBlob record_blob_error
  | EvSessionClosed string

text \<open>The places where SQLite may fail; the number is the position in the batch.\<close>

datatype ev_stmt =
    StBusyZero | StRestore | StBegin | StCommit
  | StTail nat | StInsert nat | StUpsert nat | StRedactions nat | StBlob nat
  | StSelectTasks

type_synonym ev_faults = "ev_stmt \<Rightarrow> sqlite_error option"

definition attempt_stmt :: "ev_faults \<Rightarrow> ev_stmt \<Rightarrow> (unit, ev_store_error) result" where
  "attempt_stmt f st = (case f st of Some e \<Rightarrow> Err (EvSqlite e) | None \<Rightarrow> Ok ())"

subsection \<open>Transactions and busy retries\<close>

definition MAX_BUSY_RETRIES :: nat where
  "MAX_BUSY_RETRIES = 8"

text \<open>\<open>begin_immediate\<close>, the body, and the commit or the rollback.\<close>

definition in_transaction ::
  "ev_faults \<Rightarrow> (event_db \<Rightarrow> ('a \<times> event_db, ev_store_error) result) \<Rightarrow> event_db
   \<Rightarrow> ('a, ev_store_error) result \<times> event_db" where
  "in_transaction f body db =
     (case f StBegin of
        Some e \<Rightarrow> (Err (EvSqlite e), db)
      | None \<Rightarrow>
          (case body db of
             Err e \<Rightarrow> (Err e, db)
           | Ok (v, db') \<Rightarrow>
               (case f StCommit of
                  Some e \<Rightarrow> (Err (EvSqlite e), db)
                | None \<Rightarrow> (Ok v, db'))))"

text \<open>
  \<open>with_bounded_busy_attempt\<close> sets the busy timeout before the operation and restores it after.  If
  restoring fails, its error is returned, whatever the operation did.
\<close>

definition with_bounded_busy_attempt ::
  "ev_faults \<Rightarrow> (event_db \<Rightarrow> ('a, ev_store_error) result \<times> event_db) \<Rightarrow> event_db
   \<Rightarrow> ('a, ev_store_error) result \<times> event_db" where
  "with_bounded_busy_attempt f operation db =
     (case f StBusyZero of
        Some e \<Rightarrow> (Err (EvSqlite e), db)
      | None \<Rightarrow>
          (let (result, db') = operation db
           in (case f StRestore of
                 Some e \<Rightarrow> (Err (EvSqlite e), db')
               | None \<Rightarrow> (result, db'))))"

text \<open>The retry loop of every operation of the writer: \<open>attempt\<close> counts from 1.\<close>

function busy_loop ::
  "(nat \<Rightarrow> event_db \<Rightarrow> ('a, ev_store_error) result \<times> event_db) \<Rightarrow> nat \<Rightarrow> event_db
   \<Rightarrow> ('a, ev_store_error) result \<times> event_db" where
  "busy_loop op attempt db =
     (case op attempt db of
        (Err (EvSqlite e), db') \<Rightarrow>
          (if is_sqlite_busy e \<and> attempt < MAX_BUSY_RETRIES then busy_loop op (attempt + 1) db'
           else (Err (EvSqlite e), db'))
      | res \<Rightarrow> res)"
  by pat_completeness auto
termination by (relation "measure (\<lambda>(_, attempt, _). MAX_BUSY_RETRIES - attempt)") auto

declare busy_loop.simps [simp del]

subsection \<open>Appending\<close>

datatype session_tail = TailEmpty | TailOpen int | TailClosed

text \<open>\<^verbatim>\<open>ORDER BY seq DESC LIMIT 1\<close> over the rows of a session.\<close>

fun highest_seq :: "ev_row list \<Rightarrow> ev_row option" where
  "highest_seq [] = None"
| "highest_seq (r # rs) =
     (case highest_seq rs of
        None \<Rightarrow> Some r
      | Some r' \<Rightarrow> if er_seq r' \<ge> er_seq r then Some r' else Some r)"

definition read_session_tail :: "ev_codec \<Rightarrow> event_db \<Rightarrow> string \<Rightarrow> session_tail" where
  "read_session_tail c db sid =
     (case highest_seq (filter (\<lambda>r. er_session r = sid) (db_events db)) of
        None \<Rightarrow> TailEmpty
      | Some r \<Rightarrow>
          (case payload_parse c (er_payload r) of
             Some (SessionClosed _) \<Rightarrow> TailClosed
           | _ \<Rightarrow> TailOpen (er_seq r)))"

definition next_seq_or_reject_closed ::
  "ev_codec \<Rightarrow> ev_faults \<Rightarrow> nat \<Rightarrow> event_db \<Rightarrow> string \<Rightarrow> (int, ev_store_error) result" where
  "next_seq_or_reject_closed c f i db sid =
     (case attempt_stmt f (StTail i) of
        Err e \<Rightarrow> Err e
      | Ok _ \<Rightarrow>
          (case read_session_tail c db sid of
             TailEmpty \<Rightarrow> Ok 0
           | TailClosed \<Rightarrow> Err (EvSessionClosed sid)
           | TailOpen seq \<Rightarrow> Ok (seq + 1)))"

text \<open>The insert into \<^verbatim>\<open>events\<close>, whose primary key is the session and the number.\<close>

definition insert_event ::
  "ev_faults \<Rightarrow> nat \<Rightarrow> ev_row \<Rightarrow> event_db \<Rightarrow> (event_db, ev_store_error) result" where
  "insert_event f i row db =
     (case attempt_stmt f (StInsert i) of
        Err e \<Rightarrow> Err e
      | Ok _ \<Rightarrow>
          (if list_ex (\<lambda>r. er_session r = er_session row \<and> er_seq r = er_seq row) (db_events db)
           then Err (EvSqlite ConstraintViolation)
           else Ok (db\<lparr>db_events := db_events db @ [row]\<rparr>)))"

text \<open>The row of \<^verbatim>\<open>tasks\<close> follows the state that this one event folds to.\<close>

definition upsert_for_event ::
  "ev_codec \<Rightarrow> ev_faults \<Rightarrow> nat \<Rightarrow> string \<Rightarrow> string \<Rightarrow> int \<Rightarrow> int \<Rightarrow> event_payload \<Rightarrow> event_db
   \<Rightarrow> (event_db, ev_store_error) result" where
  "upsert_for_event c f i tid sid seq ts payload db =
     (case fold_task_state [payload] of
        None \<Rightarrow> Ok db
      | Some state \<Rightarrow>
          (case (case state of
                   TSuspended reason \<Rightarrow>
                     (case reason_text c reason of
                        Some t \<Rightarrow> Ok (Some ts, Some t)
                      | None \<Rightarrow> Err (EvSqlite ToSqlConversionFailure))
                 | _ \<Rightarrow> Ok (None, None)) of
             Err e \<Rightarrow> Err e
           | Ok (suspended_since, reason_json) \<Rightarrow>
               (case attempt_stmt f (StUpsert i) of
                  Err e \<Rightarrow> Err e
                | Ok _ \<Rightarrow>
                    (case payload of
                       TaskCreated kind parent _ _ \<Rightarrow>
                         (if list_ex (\<lambda>t. tk_task_id t = tid) (db_tasks db)
                          then Err (EvSqlite ConstraintViolation)
                          else Ok (db\<lparr>db_tasks := db_tasks db @
                            [\<lparr>tk_task_id = tid, tk_session = sid, tk_kind = kind_text c kind,
                              tk_state = as_sql_str state, tk_parent = map_option (uuid_text c) parent,
                              tk_created_seq = seq, tk_updated_seq = seq,
                              tk_suspended_since = suspended_since, tk_reason = reason_json,
                              tk_redactions = 0\<rparr>]\<rparr>))
                     | _ \<Rightarrow>
                         (if list_ex (\<lambda>t. tk_task_id t = tid) (db_tasks db)
                          then Ok (db\<lparr>db_tasks := map (\<lambda>t.
                            if tk_task_id t = tid
                            then t\<lparr>tk_state := as_sql_str state, tk_updated_seq := seq,
                                   tk_suspended_since := suspended_since, tk_reason := reason_json\<rparr>
                            else t) (db_tasks db)\<rparr>)
                          else Err (EvSqlite (StatementChangedRows 0)))))))"

definition add_redactions ::
  "ev_faults \<Rightarrow> nat \<Rightarrow> string \<Rightarrow> u32 \<Rightarrow> event_db \<Rightarrow> (event_db, ev_store_error) result" where
  "add_redactions f i tid n db =
     (if n > 0 then
        (case attempt_stmt f (StRedactions i) of
           Err e \<Rightarrow> Err e
         | Ok _ \<Rightarrow>
             (if list_ex (\<lambda>t. tk_task_id t = tid) (db_tasks db)
              then Ok (db\<lparr>db_tasks := map (\<lambda>t.
                if tk_task_id t = tid then t\<lparr>tk_redactions := tk_redactions t + uint n\<rparr> else t) (db_tasks db)\<rparr>)
              else Err (EvSqlite (StatementChangedRows 0))))
      else Ok db)"

text \<open>What every append does inside its transaction once the payload is redacted and printed.\<close>

definition write_row ::
  "ev_codec \<Rightarrow> ev_faults \<Rightarrow> nat \<Rightarrow> ev_row \<Rightarrow> event_payload \<Rightarrow> u32 \<Rightarrow> event_db
   \<Rightarrow> (event_db, ev_store_error) result" where
  "write_row c f i row payload redactions db =
     (case insert_event f i row db of
        Err e \<Rightarrow> Err e
      | Ok db1 \<Rightarrow>
          (case er_task row of
             None \<Rightarrow> Ok db1
           | Some tid \<Rightarrow>
               (case upsert_for_event c f i tid (er_session row) (er_seq row) (er_ts row) payload db1 of
                  Err e \<Rightarrow> Err e
                | Ok db2 \<Rightarrow> add_redactions f i tid redactions db2)))"

definition event_row_of :: "ev_codec \<Rightarrow> event \<Rightarrow> int \<Rightarrow> string \<Rightarrow> ev_row" where
  "event_row_of c ev seq t =
     \<lparr>er_session = uuid_text c (ev_session_id ev), er_seq = seq, er_ts = ev_ts ev,
      er_task = map_option (uuid_text c) (ev_task_id ev), er_payload = t, er_schema = ev_schema_v ev\<rparr>"

definition append_event_in_transaction ::
  "ev_codec \<Rightarrow> find_fn \<Rightarrow> redactor \<Rightarrow> ev_faults \<Rightarrow> nat \<Rightarrow> event \<Rightarrow> event_db
   \<Rightarrow> (u64 \<times> event_db, ev_store_error) result" where
  "append_event_in_transaction c search r f i ev db =
     (let (payload, redactions) = redact_event_payload search r (ev_payload ev);
          sid = uuid_text c (ev_session_id ev)
      in case payload_text c payload of
           None \<Rightarrow> Err (EvInteract ''serialize'')
         | Some payload_json \<Rightarrow>
             (case next_seq_or_reject_closed c f i db sid of
                Err e \<Rightarrow> Err e
              | Ok next_seq \<Rightarrow>
                  (case write_row c f i (event_row_of c ev next_seq payload_json) payload redactions db of
                     Err e \<Rightarrow> Err e
                   | Ok db' \<Rightarrow>
                       (if next_seq < 0 then Err (EvInteract ''event sequence exceeded u64 range'')
                        else Ok (of_int next_seq, db')))))"

text \<open>The transaction of \<open>append_one\<close>; the payload is redacted and printed before it.\<close>

definition append_one_body ::
  "ev_codec \<Rightarrow> event \<Rightarrow> event_payload \<Rightarrow> string \<Rightarrow> u32 \<Rightarrow> ev_faults \<Rightarrow> event_db
   \<Rightarrow> (u64 \<times> event_db, ev_store_error) result" where
  "append_one_body c ev payload payload_json redactions f db =
     (case next_seq_or_reject_closed c f 0 db (uuid_text c (ev_session_id ev)) of
        Err e \<Rightarrow> Err e
      | Ok next_seq \<Rightarrow>
          (case write_row c f 0 (event_row_of c ev next_seq payload_json) payload redactions db of
             Err e \<Rightarrow> Err e
           | Ok db' \<Rightarrow> Ok (of_int next_seq, db')))"

definition append_one ::
  "ev_codec \<Rightarrow> find_fn \<Rightarrow> (nat \<Rightarrow> ev_faults) \<Rightarrow> redactor \<Rightarrow> event \<Rightarrow> event_db
   \<Rightarrow> (u64, ev_store_error) result \<times> event_db" where
  "append_one c search fs r ev db =
     (let (payload, redactions) = redact_event_payload search r (ev_payload ev)
      in case payload_text c payload of
           None \<Rightarrow> (Err (EvInteract ''serialize''), db)
         | Some payload_json \<Rightarrow>
             busy_loop (\<lambda>attempt.
               with_bounded_busy_attempt (fs attempt) (in_transaction (fs attempt)
                 (append_one_body c ev payload payload_json redactions (fs attempt)))) 1 db)"

subsubsection \<open>Batches\<close>

record prepared_event =
  pe_event :: event
  pe_payload_json :: string
  pe_payload :: event_payload
  pe_redactions :: u32

fun prepare_events ::
  "ev_codec \<Rightarrow> find_fn \<Rightarrow> redactor \<Rightarrow> event list \<Rightarrow> (prepared_event list, ev_store_error) result" where
  "prepare_events c search r [] = Ok []"
| "prepare_events c search r (ev # evs) =
     (let (payload, redactions) = redact_event_payload search r (ev_payload ev)
      in case payload_text c payload of
           None \<Rightarrow> Err (EvInteract ''serialize'')
         | Some t \<Rightarrow>
             (case prepare_events c search r evs of
                Err e \<Rightarrow> Err e
              | Ok ps \<Rightarrow> Ok (\<lparr>pe_event = ev, pe_payload_json = t, pe_payload = payload,
                              pe_redactions = redactions\<rparr> # ps)))"

text \<open>
  The loop of \<open>append_batch\<close>: \<open>next_seqs\<close> holds the next number of every session the batch has
  written to, \<open>closed_in_batch\<close> the sessions it has closed.
\<close>

fun batch_loop ::
  "ev_codec \<Rightarrow> ev_faults \<Rightarrow> nat \<Rightarrow> (string \<rightharpoonup> int) \<Rightarrow> string list \<Rightarrow> u64 list \<Rightarrow> prepared_event list \<Rightarrow> event_db
   \<Rightarrow> (u64 list \<times> event_db, ev_store_error) result" where
  "batch_loop c f i next_seqs closed_in_batch seqs [] db = Ok (seqs, db)"
| "batch_loop c f i next_seqs closed_in_batch seqs (item # items) db =
     (let sid = uuid_text c (ev_session_id (pe_event item))
      in case (case next_seqs sid of
                 Some seq \<Rightarrow> if sid \<notin> set closed_in_batch then Ok seq else Err (EvSessionClosed sid)
               | None \<Rightarrow> next_seq_or_reject_closed c f i db sid) of
           Err e \<Rightarrow> Err e
         | Ok next_seq \<Rightarrow>
             (case write_row c f i (event_row_of c (pe_event item) next_seq (pe_payload_json item))
                     (pe_payload item) (pe_redactions item) db of
                Err e \<Rightarrow> Err e
              | Ok db' \<Rightarrow>
                  batch_loop c f (Suc i) (next_seqs(sid \<mapsto> next_seq + 1))
                    (case pe_payload item of SessionClosed _ \<Rightarrow> sid # closed_in_batch | _ \<Rightarrow> closed_in_batch)
                    (seqs @ [of_int next_seq]) items db'))"

definition append_batch ::
  "ev_codec \<Rightarrow> find_fn \<Rightarrow> (nat \<Rightarrow> ev_faults) \<Rightarrow> redactor \<Rightarrow> event list \<Rightarrow> event_db
   \<Rightarrow> (u64 list, ev_store_error) result \<times> event_db" where
  "append_batch c search fs r evs db =
     (if evs = [] then (Ok [], db)
      else case prepare_events c search r evs of
             Err e \<Rightarrow> (Err e, db)
           | Ok batch \<Rightarrow>
               busy_loop (\<lambda>attempt.
                 with_bounded_busy_attempt (fs attempt)
                   (in_transaction (fs attempt) (batch_loop c (fs attempt) 0 Map.empty [] [] batch))) 1 db)"

subsubsection \<open>Batches with blobs\<close>

fun blob_ref_in_payload :: "event_payload \<Rightarrow> blob_ref option" where
  "blob_ref_in_payload (TaskDelta (DeltaBlob b)) = Some b"
| "blob_ref_in_payload (TaskCreated _ _ _ (InBlob b)) = Some b"
| "blob_ref_in_payload (TaskCompleted (OutBlob b) _ _) = Some b"
| "blob_ref_in_payload _ = None"

text \<open>\<open>has_file\<close>: whether the file of a hash exists in the state directory.\<close>

definition record_blob_write ::
  "ev_faults \<Rightarrow> nat \<Rightarrow> (string \<Rightarrow> bool) \<Rightarrow> blob_ref \<Rightarrow> int \<Rightarrow> event_db \<Rightarrow> (event_db, record_blob_error) result" where
  "record_blob_write f i has_file b now db =
     (if \<not> has_file (br_hash b) then Err (MissingFile (br_hash b))
      else case f (StBlob i) of
             Some e \<Rightarrow> Err (BlobSqlite e)
           | None \<Rightarrow>
               Ok (if list_ex (\<lambda>row. bi_hash row = br_hash b) (db_blobs db)
                   then db\<lparr>db_blobs := map (\<lambda>row.
                     if bi_hash row = br_hash b
                     then row\<lparr>bi_ref_count := bi_ref_count row + 1, bi_last_referenced_at := now\<rparr>
                     else row) (db_blobs db)\<rparr>
                   else db\<lparr>db_blobs := db_blobs db @
                     [\<lparr>bi_hash = br_hash b, bi_len = sint (br_len b), bi_mime = br_mime b,
                       bi_created_at = now, bi_last_referenced_at = now, bi_ref_count = 1\<rparr>]\<rparr>))"

fun append_with_blobs_loop ::
  "ev_codec \<Rightarrow> find_fn \<Rightarrow> redactor \<Rightarrow> ev_faults \<Rightarrow> (string \<Rightarrow> bool) \<Rightarrow> nat \<Rightarrow> u64 list \<Rightarrow> event list \<Rightarrow> event_db
   \<Rightarrow> (u64 list \<times> event_db, ev_store_error) result" where
  "append_with_blobs_loop c search r f has_file i seqs [] db = Ok (seqs, db)"
| "append_with_blobs_loop c search r f has_file i seqs (ev # evs) db =
     (case append_event_in_transaction c search r f i ev db of
        Err e \<Rightarrow> Err e
      | Ok (seq, db1) \<Rightarrow>
          (case (case blob_ref_in_payload (ev_payload ev) of
                   None \<Rightarrow> Ok db1
                 | Some b \<Rightarrow> record_blob_write f i has_file b (ev_ts ev) db1) of
             Err e \<Rightarrow> Err (EvBlob e)
           | Ok db2 \<Rightarrow> append_with_blobs_loop c search r f has_file (Suc i) (seqs @ [seq]) evs db2))"

text \<open>
  \<open>busy_error_in\<close> turns a busy failure of either kind into the one the retry loop retries; an
  exhausted retry reports it as a failure of SQLite.
\<close>

definition busy_error_in :: "ev_store_error \<Rightarrow> ev_store_error" where
  "busy_error_in e = (case e of EvBlob (BlobSqlite b) \<Rightarrow> if is_sqlite_busy b then EvSqlite b else e | _ \<Rightarrow> e)"

definition append_batch_with_blobs ::
  "ev_codec \<Rightarrow> find_fn \<Rightarrow> (nat \<Rightarrow> ev_faults) \<Rightarrow> (string \<Rightarrow> bool) \<Rightarrow> redactor \<Rightarrow> event list \<Rightarrow> event_db
   \<Rightarrow> (u64 list, ev_store_error) result \<times> event_db" where
  "append_batch_with_blobs c search fs has_file r evs db =
     (if evs = [] then (Ok [], db)
      else busy_loop (\<lambda>attempt.
             with_bounded_busy_attempt (fs attempt)
               (in_transaction (fs attempt) (\<lambda>db.
                  case append_with_blobs_loop c search r (fs attempt) has_file 0 [] evs db of
                    Err e \<Rightarrow> Err (busy_error_in e)
                  | Ok res \<Rightarrow> Ok res))) 1 db)"

subsection \<open>Closing a session\<close>

datatype close_receipt = ReceiptClosed nat | ReceiptAlreadyClosed

definition open_states :: "string list" where
  "open_states = [''Created'', ''Decided'', ''Running'', ''Suspended'']"

fun cancel_loop ::
  "ev_codec \<Rightarrow> find_fn \<Rightarrow> redactor \<Rightarrow> ev_faults \<Rightarrow> session_id \<Rightarrow> int \<Rightarrow> nat \<Rightarrow> string list \<Rightarrow> event_db
   \<Rightarrow> (event_db, ev_store_error) result" where
  "cancel_loop c search r f sid ts i [] db = Ok db"
| "cancel_loop c search r f sid ts i (t # tids) db =
     (case uuid_parse c t of
        None \<Rightarrow> Err (EvInteract ''corrupt task_id in tasks table'')
      | Some tid \<Rightarrow>
          (case append_event_in_transaction c search r f i
                  (record_task_cancelled sid 0 ts tid OriginSystem CancelSessionClosed 1) db of
             Err e \<Rightarrow> Err e
           | Ok (_, db') \<Rightarrow> cancel_loop c search r f sid ts (Suc i) tids db'))"

definition close_session_body ::
  "ev_codec \<Rightarrow> find_fn \<Rightarrow> redactor \<Rightarrow> ev_faults \<Rightarrow> session_id \<Rightarrow> int \<Rightarrow> session_outcome \<Rightarrow> event_db
   \<Rightarrow> (close_receipt \<times> event_db, ev_store_error) result" where
  "close_session_body c search r f sid ts outcome db =
     (let s = uuid_text c sid
      in case attempt_stmt f (StTail 0) of
           Err e \<Rightarrow> Err e
         | Ok _ \<Rightarrow>
             (if read_session_tail c db s = TailClosed then Ok (ReceiptAlreadyClosed, db)
              else case attempt_stmt f StSelectTasks of
                     Err e \<Rightarrow> Err e
                   | Ok _ \<Rightarrow>
                       (let open_tasks = map tk_task_id
                              (filter (\<lambda>t. tk_session t = s \<and> tk_state t \<in> set open_states) (db_tasks db))
                        in case cancel_loop c search r f sid ts 1 open_tasks db of
                             Err e \<Rightarrow> Err e
                           | Ok db1 \<Rightarrow>
                               (case append_event_in_transaction c search r f (Suc (length open_tasks))
                                       (record_session_closed sid 0 ts outcome 1) db1 of
                                  Err e \<Rightarrow> Err e
                                | Ok (_, db2) \<Rightarrow> Ok (ReceiptClosed (length open_tasks), db2)))))"

text \<open>
  One attempt.  The early return with \<open>AlreadyClosed\<close> drops the transaction without a commit; nothing
  was written.
\<close>

definition close_session_attempt ::
  "ev_codec \<Rightarrow> find_fn \<Rightarrow> redactor \<Rightarrow> session_id \<Rightarrow> int \<Rightarrow> session_outcome \<Rightarrow> ev_faults \<Rightarrow> event_db
   \<Rightarrow> (close_receipt, ev_store_error) result \<times> event_db" where
  "close_session_attempt c search r sid ts outcome f db =
     (case f StBegin of
        Some e \<Rightarrow> (Err (EvSqlite e), db)
      | None \<Rightarrow>
          (case close_session_body c search r f sid ts outcome db of
             Err e \<Rightarrow> (Err e, db)
           | Ok (ReceiptAlreadyClosed, _) \<Rightarrow> (Ok ReceiptAlreadyClosed, db)
           | Ok (ReceiptClosed n, db') \<Rightarrow>
               (case f StCommit of
                  Some e \<Rightarrow> (Err (EvSqlite e), db)
                | None \<Rightarrow> (Ok (ReceiptClosed n), db'))))"

definition close_session ::
  "ev_codec \<Rightarrow> find_fn \<Rightarrow> (nat \<Rightarrow> ev_faults) \<Rightarrow> redactor \<Rightarrow> session_id \<Rightarrow> int \<Rightarrow> session_outcome \<Rightarrow> event_db
   \<Rightarrow> (close_receipt, ev_store_error) result \<times> event_db" where
  "close_session c search fs r sid ts outcome db =
     busy_loop (\<lambda>attempt. with_bounded_busy_attempt (fs attempt)
       (close_session_attempt c search r sid ts outcome (fs attempt))) 1 db"

subsection \<open>Recovery, backfill and readers\<close>

text \<open>
  At boot every task that was neither finished nor suspended is cancelled with the reason
  \<open>DaemonRestart\<close>, in one batch.  \<open>sort_ids\<close> orders the returned ids.
\<close>

fun recovery_events ::
  "ev_codec \<Rightarrow> int \<Rightarrow> task_row list \<Rightarrow> ((task_id \<times> event) list, ev_store_error) result" where
  "recovery_events c ts [] = Ok []"
| "recovery_events c ts (t # rows) =
     (case uuid_parse c (tk_task_id t) of
        None \<Rightarrow> Err (EvInteract ''corrupt task_id in tasks table'')
      | Some tid \<Rightarrow>
          (case uuid_parse c (tk_session t) of
             None \<Rightarrow> Err (EvInteract ''corrupt session_id in tasks table'')
           | Some sid \<Rightarrow>
               (case recovery_events c ts rows of
                  Err e \<Rightarrow> Err e
                | Ok evs \<Rightarrow>
                    Ok ((tid, record_task_cancelled sid 0 ts tid OriginSystem CancelDaemonRestart 1) # evs))))"

definition recover_interrupted_tasks ::
  "ev_codec \<Rightarrow> find_fn \<Rightarrow> (nat \<Rightarrow> ev_faults) \<Rightarrow> redactor \<Rightarrow> int \<Rightarrow> event_db
   \<Rightarrow> (task_id list, ev_store_error) result \<times> event_db" where
  "recover_interrupted_tasks c search fs r now db =
     (case attempt_stmt (fs 0) StSelectTasks of
        Err e \<Rightarrow> (Err e, db)
      | Ok _ \<Rightarrow>
          (case recovery_events c now
                  (filter (\<lambda>t. tk_state t \<in> {''Created'', ''Decided'', ''Running''}) (db_tasks db)) of
             Err e \<Rightarrow> (Err e, db)
           | Ok evs \<Rightarrow>
               (if evs = [] then (Ok [], db)
                else case append_batch c search fs r (map snd evs) db of
                       (Err e, db') \<Rightarrow> (Err e, db')
                     | (Ok _, db') \<Rightarrow> (Ok (sort (map fst evs)), db'))))"

text \<open>
  \<open>backfill_tasks_table\<close> computes the row of a task from its events in the order of their numbers;
  \<open>backfill_task\<close> is the body of its loop for one task that has no row.
\<close>

record backfill_state =
  bf_state :: "task_state option"
  bf_created_seq :: "int option"
  bf_kind :: "task_kind option"
  bf_parent :: "string option"
  bf_last_seq :: int
  bf_last_ts :: int

definition backfill_step :: "ev_codec \<Rightarrow> backfill_state \<Rightarrow> int \<times> int \<times> event_payload \<Rightarrow> backfill_state" where
  "backfill_step c b = (\<lambda>(seq, ts, payload).
     let b1 = (case payload of
                 TaskCreated k p _ _ \<Rightarrow>
                   b\<lparr>bf_created_seq := Some seq, bf_kind := Some k, bf_parent := map_option (uuid_text c) p\<rparr>
               | _ \<Rightarrow> b)
     in (case fold_task_state [payload] of
           Some s \<Rightarrow> b1\<lparr>bf_state := Some s, bf_last_seq := seq, bf_last_ts := ts\<rparr>
         | None \<Rightarrow> b1))"

definition backfill_task ::
  "ev_codec \<Rightarrow> string \<Rightarrow> string \<Rightarrow> (int \<times> int \<times> event_payload) list \<Rightarrow> (task_row option, sqlite_error) result" where
  "backfill_task c tid sid history =
     (let b = foldl (backfill_step c)
                \<lparr>bf_state = None, bf_created_seq = None, bf_kind = None, bf_parent = None,
                 bf_last_seq = 0, bf_last_ts = 0\<rparr> history
      in case (bf_state b, bf_created_seq b, bf_kind b) of
           (Some state, Some created, Some kind) \<Rightarrow>
             (case (case state of
                      TSuspended reason \<Rightarrow>
                        (case reason_text c reason of
                           Some t \<Rightarrow> Ok (Some (bf_last_ts b), Some t)
                         | None \<Rightarrow> Err ToSqlConversionFailure)
                    | _ \<Rightarrow> Ok (None, None)) of
                Err e \<Rightarrow> Err e
              | Ok (since, reason_json) \<Rightarrow>
                  Ok (Some \<lparr>tk_task_id = tid, tk_session = sid, tk_kind = kind_text c kind,
                            tk_state = as_sql_str state, tk_parent = bf_parent b,
                            tk_created_seq = created, tk_updated_seq = bf_last_seq b,
                            tk_suspended_since = since, tk_reason = reason_json, tk_redactions = 0\<rparr>))
         | _ \<Rightarrow> Ok None)"

fun collect_results :: "('a \<Rightarrow> ('b, 'e) result) \<Rightarrow> 'a list \<Rightarrow> ('b list, 'e) result" where
  "collect_results g [] = Ok []"
| "collect_results g (x # xs) =
     (case g x of
        Err e \<Rightarrow> Err e
      | Ok y \<Rightarrow> (case collect_results g xs of Err e \<Rightarrow> Err e | Ok ys \<Rightarrow> Ok (y # ys)))"

text \<open>
  The whole backfill: the events of the tasks that have no row, in the order of their numbers, and
  an insert for every task with enough events.  The loop runs over a hash map; \<open>order\<close> is its order.
\<close>

definition history_entry :: "ev_codec \<Rightarrow> ev_row \<Rightarrow> (int \<times> int \<times> event_payload, sqlite_error) result" where
  "history_entry c r =
     (case payload_parse c (er_payload r) of
        None \<Rightarrow> Err ToSqlConversionFailure
      | Some p \<Rightarrow> Ok (er_seq r, er_ts r, p))"

definition backfill_row :: "ev_codec \<Rightarrow> event_db \<Rightarrow> string \<Rightarrow> (task_row option, sqlite_error) result" where
  "backfill_row c db t =
     (let rows = sort_key er_seq (filter (\<lambda>r. er_task r = Some t) (db_events db))
      in case collect_results (history_entry c) rows of
           Err e \<Rightarrow> Err e
         | Ok history \<Rightarrow> backfill_task c t (er_session (hd rows)) history)"

definition backfill_tasks_table ::
  "ev_codec \<Rightarrow> ev_faults \<Rightarrow> (string list \<Rightarrow> string list) \<Rightarrow> event_db \<Rightarrow> (unit, sqlite_error) result \<times> event_db" where
  "backfill_tasks_table c f order db =
     (case f StBegin of
        Some e \<Rightarrow> (Err e, db)
      | None \<Rightarrow>
          (case f StSelectTasks of
             Some e \<Rightarrow> (Err e, db)
           | None \<Rightarrow>
               (let missing = order (remdups (filter (\<lambda>t. \<not> list_ex (\<lambda>row. tk_task_id row = t) (db_tasks db))
                      (List.map_filter er_task (db_events db))))
                in case collect_results (backfill_row c db) missing of
                     Err e \<Rightarrow> (Err e, db)
                   | Ok rows \<Rightarrow>
                       (case f StCommit of
                          Some e \<Rightarrow> (Err e, db)
                        | None \<Rightarrow> (Ok (), db\<lparr>db_tasks := db_tasks db @ List.map_filter id rows\<rparr>)))))"

text \<open>The readers of a session's log and of the suspended tasks.\<close>

record stored_event =
  sv_session_id :: session_id
  sv_seq :: u64
  sv_ts :: int
  sv_task_id :: "task_id option"
  sv_payload :: event_payload
  sv_schema_v :: "16 word"

definition stored_event_of ::
  "ev_codec \<Rightarrow> session_id \<Rightarrow> ev_row \<Rightarrow> (stored_event, ev_store_error) result" where
  "stored_event_of c sid r =
     (case (case er_task r of
              None \<Rightarrow> Ok None
            | Some t \<Rightarrow> (case uuid_parse c t of
                           None \<Rightarrow> Err (EvInteract ''corrupt task_id in events table'')
                         | Some tid \<Rightarrow> Ok (Some tid))) of
        Err e \<Rightarrow> Err e
      | Ok tid \<Rightarrow>
          (case payload_parse c (er_payload r) of
             None \<Rightarrow> Err (EvInteract ''corrupt payload'')
           | Some p \<Rightarrow>
               Ok \<lparr>sv_session_id = sid, sv_seq = of_int (er_seq r), sv_ts = er_ts r, sv_task_id = tid,
                   sv_payload = p, sv_schema_v = er_schema r\<rparr>))"

definition session_events ::
  "ev_codec \<Rightarrow> ev_faults \<Rightarrow> event_db \<Rightarrow> session_id \<Rightarrow> (stored_event list, ev_store_error) result" where
  "session_events c f db sid =
     (case attempt_stmt f StSelectTasks of
        Err e \<Rightarrow> Err e
      | Ok _ \<Rightarrow>
          collect_results (stored_event_of c sid)
            (sort_key er_seq (filter (\<lambda>r. er_session r = uuid_text c sid) (db_events db))))"

record suspended_task =
  su_task_id :: task_id
  su_session_id :: session_id
  su_reason :: suspend_reason

definition suspended_task_of :: "ev_codec \<Rightarrow> task_row \<Rightarrow> (suspended_task, ev_store_error) result" where
  "suspended_task_of c t =
     (case uuid_parse c (tk_task_id t) of
        None \<Rightarrow> Err (EvInteract ''corrupt task_id in tasks table'')
      | Some tid \<Rightarrow>
          (case uuid_parse c (tk_session t) of
             None \<Rightarrow> Err (EvInteract ''corrupt session_id in tasks table'')
           | Some sid \<Rightarrow>
               (case tk_reason t of
                  None \<Rightarrow> Err (EvInteract ''data inconsistency: suspend_reason_json is NULL'')
                | Some j \<Rightarrow>
                    (case reason_parse c j of
                       None \<Rightarrow> Err (EvInteract ''corrupt suspend_reason_json'')
                     | Some reason \<Rightarrow> Ok \<lparr>su_task_id = tid, su_session_id = sid, su_reason = reason\<rparr>))))"

definition suspended_tasks :: "ev_codec \<Rightarrow> ev_faults \<Rightarrow> event_db \<Rightarrow> (suspended_task list, ev_store_error) result" where
  "suspended_tasks c f db =
     (case attempt_stmt f StSelectTasks of
        Err e \<Rightarrow> Err e
      | Ok _ \<Rightarrow> collect_results (suspended_task_of c) (filter (\<lambda>t. tk_state t = ''Suspended'') (db_tasks db)))"

subsection \<open>The writer task\<close>

text \<open>
  The commands that the single writer takes from its channel, one after the other, each with the
  failures it meets; \<open>set_redactor\<close> may come between two of them.
\<close>

datatype write_cmd =
    CmdAppend "nat \<Rightarrow> ev_faults" event
  | CmdAppendBatch "nat \<Rightarrow> ev_faults" "event list"
  | CmdAppendBatchWithBlobs "nat \<Rightarrow> ev_faults" "string \<Rightarrow> bool" "event list"
  | CmdCloseSession "nat \<Rightarrow> ev_faults" session_id int session_outcome
  | CmdRecover "nat \<Rightarrow> ev_faults" int
  | CmdSetRedactor "string list"

record event_writer =
  ew_db :: event_db
  ew_redactor :: redactor

definition spawn_writer :: "event_db \<Rightarrow> event_writer" where
  "spawn_writer db = \<lparr>ew_db = db, ew_redactor = build []\<rparr>"

fun writer_step :: "ev_codec \<Rightarrow> find_fn \<Rightarrow> event_writer \<Rightarrow> write_cmd \<Rightarrow> event_writer" where
  "writer_step c search w (CmdAppend fs ev) =
     w\<lparr>ew_db := snd (append_one c search fs (ew_redactor w) ev (ew_db w))\<rparr>"
| "writer_step c search w (CmdAppendBatch fs evs) =
     w\<lparr>ew_db := snd (append_batch c search fs (ew_redactor w) evs (ew_db w))\<rparr>"
| "writer_step c search w (CmdAppendBatchWithBlobs fs has_file evs) =
     w\<lparr>ew_db := snd (append_batch_with_blobs c search fs has_file (ew_redactor w) evs (ew_db w))\<rparr>"
| "writer_step c search w (CmdCloseSession fs sid ts outcome) =
     w\<lparr>ew_db := snd (close_session c search fs (ew_redactor w) sid ts outcome (ew_db w))\<rparr>"
| "writer_step c search w (CmdRecover fs now) =
     w\<lparr>ew_db := snd (recover_interrupted_tasks c search fs (ew_redactor w) now (ew_db w))\<rparr>"
| "writer_step c search w (CmdSetRedactor secrets) = w\<lparr>ew_redactor := build secrets\<rparr>"

definition empty_db :: event_db where
  "empty_db = \<lparr>db_events = [], db_tasks = [], db_blobs = []\<rparr>"

definition writer_run :: "ev_codec \<Rightarrow> find_fn \<Rightarrow> write_cmd list \<Rightarrow> event_writer" where
  "writer_run c search cmds = foldl (writer_step c search) (spawn_writer empty_db) cmds"

subsection \<open>The state of the store\<close>

definition session_log :: "event_db \<Rightarrow> string \<Rightarrow> ev_row list" where
  "session_log db s = filter (\<lambda>r. er_session r = s) (db_events db)"

definition is_terminator :: "ev_codec \<Rightarrow> ev_row \<Rightarrow> bool" where
  "is_terminator c r = (case payload_parse c (er_payload r) of Some (SessionClosed _) \<Rightarrow> True | _ \<Rightarrow> False)"

text \<open>The log of a session is numbered from 0 without a gap, and nothing follows a terminator.\<close>

definition log_ok :: "ev_codec \<Rightarrow> event_db \<Rightarrow> bool" where
  "log_ok c db \<longleftrightarrow>
     (\<forall>s. map er_seq (session_log db s) = map int [0..<length (session_log db s)] \<and>
          (\<forall>r\<in>set (butlast (session_log db s)). \<not> is_terminator c r))"

definition task_log :: "ev_codec \<Rightarrow> event_db \<Rightarrow> string \<Rightarrow> event_payload list" where
  "task_log c db t =
     map (\<lambda>r. the (payload_parse c (er_payload r))) (filter (\<lambda>r. er_task r = Some t) (db_events db))"

text \<open>A row of \<^verbatim>\<open>tasks\<close> shows the state its events fold to, with the reason of a suspension.\<close>

definition row_shows :: "ev_codec \<Rightarrow> task_state \<Rightarrow> task_row \<Rightarrow> bool" where
  "row_shows c st row \<longleftrightarrow>
     tk_state row = as_sql_str st \<and>
     (case st of
        TSuspended reason \<Rightarrow> tk_reason row = reason_text c reason \<and> tk_reason row \<noteq> None \<and> tk_suspended_since row \<noteq> None
      | _ \<Rightarrow> tk_reason row = None \<and> tk_suspended_since row = None)"

definition state_shown :: "ev_codec \<Rightarrow> task_row list \<Rightarrow> string \<Rightarrow> task_state option \<Rightarrow> bool" where
  "state_shown c rows t st = (case st of
      None \<Rightarrow> t \<notin> tk_task_id ` set rows
    | Some st \<Rightarrow> \<exists>row\<in>set rows. tk_task_id row = t \<and> row_shows c st row)"

definition view_ok :: "ev_codec \<Rightarrow> event_db \<Rightarrow> bool" where
  "view_ok c db \<longleftrightarrow>
     distinct (map tk_task_id (db_tasks db)) \<and>
     (\<forall>r\<in>set (db_events db). payload_parse c (er_payload r) \<noteq> None) \<and>
     (\<forall>t. state_shown c (db_tasks db) t (fold_task_state (task_log c db t)))"

text \<open>A row has the session of one of its events, and all identifiers are printed ones.\<close>

definition ids_ok :: "ev_codec \<Rightarrow> event_db \<Rightarrow> bool" where
  "ids_ok c db \<longleftrightarrow>
     (\<forall>t\<in>set (db_tasks db). \<exists>r\<in>set (db_events db). er_task r = Some (tk_task_id t) \<and> er_session r = tk_session t) \<and>
     (\<forall>r\<in>set (db_events db). er_session r \<in> range (uuid_text c) \<and> set_option (er_task r) \<subseteq> range (uuid_text c))"

text \<open>Every row is the one a backfill of its task would compute, but for the count of redactions.\<close>

definition history :: "ev_codec \<Rightarrow> event_db \<Rightarrow> string \<Rightarrow> (int \<times> int \<times> event_payload) list" where
  "history c db t =
     map (\<lambda>r. (er_seq r, er_ts r, the (payload_parse c (er_payload r))))
       (filter (\<lambda>r. er_task r = Some t) (db_events db))"

definition rebuildable :: "ev_codec \<Rightarrow> event_db \<Rightarrow> bool" where
  "rebuildable c db \<longleftrightarrow>
     (\<forall>row\<in>set (db_tasks db).
        backfill_task c (tk_task_id row) (tk_session row) (history c db (tk_task_id row)) =
          Ok (Some (row\<lparr>tk_redactions := 0\<rparr>)))"

definition store_ok :: "ev_codec \<Rightarrow> event_db \<Rightarrow> bool" where
  "store_ok c db \<longleftrightarrow> log_ok c db \<and> view_ok c db \<and> ids_ok c db \<and> rebuildable c db"

lemma ids_ok_task:
  "ids_ok c db \<Longrightarrow> t \<in> set (db_tasks db) \<Longrightarrow> tk_task_id t \<in> range (uuid_text c) \<and> tk_session t \<in> range (uuid_text c)"
proof -
  assume ok: "ids_ok c db" and t: "t \<in> set (db_tasks db)"
  then obtain r where r: "r \<in> set (db_events db)" "er_task r = Some (tk_task_id t)" "er_session r = tk_session t"
    by (auto simp: ids_ok_def)
  from ok r(1) have "er_session r \<in> range (uuid_text c)" "set_option (er_task r) \<subseteq> range (uuid_text c)"
    by (auto simp: ids_ok_def)
  with r(2,3) show ?thesis by simp
qed

lemma empty_store_ok: "store_ok c empty_db"
  by (simp add: store_ok_def log_ok_def view_ok_def state_shown_def ids_ok_def rebuildable_def empty_db_def session_log_def task_log_def fold_task_state_def)

subsubsection \<open>The tail of a log\<close>

lemma highest_seq_snoc: "(\<And>r'. r' \<in> set rs \<Longrightarrow> er_seq r' \<le> er_seq r) \<Longrightarrow> highest_seq (rs @ [r]) = Some r"
  by (induction rs) auto

lemma highest_seq_last:
  assumes "map er_seq rs = map int [0..<length rs]" "rs \<noteq> []"
  shows "highest_seq rs = Some (last rs) \<and> er_seq (last rs) = int (length rs) - 1"
proof -
  obtain rs' r where rs: "rs = rs' @ [r]" using assms(2) by (cases rs rule: rev_cases) auto
  with assms(1) have r: "er_seq r = int (length rs')" and "map er_seq rs' = map int [0..<length rs']" by auto
  then have "er_seq x \<le> er_seq r" if "x \<in> set rs'" for x
    using that by (metis (no_types, lifting) imageE list.set_map atLeastLessThan_iff image_eqI set_upt of_nat_le_iff less_imp_le)
  with r rs show ?thesis by (simp add: highest_seq_snoc)
qed

lemma read_session_tail_eq:
  assumes "log_ok c db"
  shows "read_session_tail c db s =
     (if session_log db s = [] then TailEmpty
      else if is_terminator c (last (session_log db s)) then TailClosed
      else TailOpen (int (length (session_log db s)) - 1))"
  using highest_seq_last [of "session_log db s"] assms
  by (auto simp: read_session_tail_def log_ok_def is_terminator_def session_log_def [symmetric]
      split: option.splits event_payload.splits)

definition open_log :: "ev_codec \<Rightarrow> event_db \<Rightarrow> string \<Rightarrow> bool" where
  "open_log c db s \<longleftrightarrow> (\<forall>r\<in>set (session_log db s). \<not> is_terminator c r)"

lemma open_log_iff:
  "log_ok c db \<Longrightarrow> open_log c db s \<longleftrightarrow> session_log db s = [] \<or> \<not> is_terminator c (last (session_log db s))"
  unfolding open_log_def log_ok_def
  by (cases "session_log db s" rule: rev_cases) (auto dest!: spec [of _ s])

lemma next_seq_eq:
  assumes "log_ok c db"
  shows "next_seq_or_reject_closed c f i db s =
     (case f (StTail i) of
        Some e \<Rightarrow> Err (EvSqlite e)
      | None \<Rightarrow> if open_log c db s then Ok (int (length (session_log db s))) else Err (EvSessionClosed s))"
  by (auto simp: next_seq_or_reject_closed_def attempt_stmt_def read_session_tail_eq [OF assms]
      open_log_iff [OF assms] split: option.splits)

subsubsection \<open>One row\<close>

lemma fold_snoc:
  "fold_task_state (ps @ [p]) = (case fold_task_state [p] of Some st \<Rightarrow> Some st | None \<Rightarrow> fold_task_state ps)"
  by (cases p) (simp_all add: fold_task_state_def)

lemma insert_event_Ok:
  "insert_event f i row db = Ok db' \<Longrightarrow> db' = db\<lparr>db_events := db_events db @ [row]\<rparr>"
  by (auto simp: insert_event_def split: sum.splits if_splits)

lemma row_shows_redactions [simp]: "row_shows c st (t\<lparr>tk_redactions := n\<rparr>) = row_shows c st t"
  by (simp add: row_shows_def split: task_state.split)

lemma add_redactions_Ok:
  assumes "add_redactions f i tid n db = Ok db'"
  shows "db_events db' = db_events db"
    "\<exists>g. db_tasks db' = map g (db_tasks db) \<and>
        (\<forall>t. tk_task_id (g t) = tk_task_id t \<and> tk_session (g t) = tk_session t \<and>
             (g t)\<lparr>tk_redactions := 0\<rparr> = t\<lparr>tk_redactions := 0\<rparr>) \<and>
        (\<forall>c st t. row_shows c st (g t) = row_shows c st t)"
proof -
  let ?g = "\<lambda>t. if tk_task_id t = tid then t\<lparr>tk_redactions := tk_redactions t + uint n\<rparr> else t"
  have d: "db_events db' = db_events db \<and> (db_tasks db' = map id (db_tasks db) \<or> db_tasks db' = map ?g (db_tasks db))"
    using assms by (auto simp: add_redactions_def split: sum.splits if_splits)
  then show "db_events db' = db_events db" by blast
  from d consider "db_tasks db' = map id (db_tasks db)" | "db_tasks db' = map ?g (db_tasks db)" by blast
  then show "\<exists>g. db_tasks db' = map g (db_tasks db) \<and>
        (\<forall>t. tk_task_id (g t) = tk_task_id t \<and> tk_session (g t) = tk_session t \<and>
             (g t)\<lparr>tk_redactions := 0\<rparr> = t\<lparr>tk_redactions := 0\<rparr>) \<and>
        (\<forall>c st t. row_shows c st (g t) = row_shows c st t)"
  proof cases
    case 1
    then show ?thesis by (intro exI [of _ id]) simp
  next
    case 2
    then show ?thesis by (intro exI [of _ ?g]) simp
  qed
qed

text \<open>What an upsert leaves: nothing changed, a new row, or one changed row.\<close>

lemma upsert_None:
  "fold_task_state [payload] = None \<Longrightarrow> upsert_for_event c f i tid sid seq ts payload db = Ok db' \<Longrightarrow> db' = db"
  by (simp add: upsert_for_event_def)

lemma upsert_Some:
  assumes "upsert_for_event c f i tid sid seq ts payload db = Ok db'" "fold_task_state [payload] = Some st"
  shows "db_events db' = db_events db"
    "(\<exists>row. tk_task_id row = tid \<and> tk_session row = sid \<and> row_shows c st row \<and>
            tid \<notin> tk_task_id ` set (db_tasks db) \<and> db_tasks db' = db_tasks db @ [row]) \<or>
     (\<exists>g. tid \<in> tk_task_id ` set (db_tasks db) \<and>
            db_tasks db' = map (\<lambda>t. if tk_task_id t = tid then g t else t) (db_tasks db) \<and>
            (\<forall>t. tk_task_id (g t) = tk_task_id t \<and> tk_session (g t) = tk_session t \<and> row_shows c st (g t)))"
proof -
  obtain since rj where sr: "(case st of
                   TSuspended reason \<Rightarrow>
                     (case reason_text c reason of
                        Some t \<Rightarrow> Ok (Some ts, Some t)
                      | None \<Rightarrow> Err (EvSqlite ToSqlConversionFailure))
                 | _ \<Rightarrow> Ok (None, None)) = Ok (since, rj)"
    using assms by (auto simp: upsert_for_event_def split: sum.splits)
  have show_row: "tk_state row = as_sql_str st \<Longrightarrow> tk_suspended_since row = since \<Longrightarrow> tk_reason row = rj \<Longrightarrow> row_shows c st row" for row
    using sr by (auto simp: row_shows_def split: task_state.splits option.splits) metis+
  let ?old = "tid \<in> tk_task_id ` set (db_tasks db)"
  have ex: "list_ex (\<lambda>t. tk_task_id t = tid) (db_tasks db) \<longleftrightarrow> ?old" by (auto simp: list_ex_iff)
  have "db_events db' = db_events db \<and>
    ((\<exists>row. tk_task_id row = tid \<and> tk_session row = sid \<and> tk_state row = as_sql_str st \<and>
            tk_suspended_since row = since \<and> tk_reason row = rj \<and> \<not> ?old \<and> db_tasks db' = db_tasks db @ [row]) \<or>
     ?old \<and> db_tasks db' = map (\<lambda>t. if tk_task_id t = tid
         then t\<lparr>tk_state := as_sql_str st, tk_updated_seq := seq, tk_suspended_since := since, tk_reason := rj\<rparr>
         else t) (db_tasks db))"
    using assms by (cases payload) (auto simp: upsert_for_event_def sr ex split: sum.splits if_splits)
  then show "db_events db' = db_events db"
    "(\<exists>row. tk_task_id row = tid \<and> tk_session row = sid \<and> row_shows c st row \<and>
            tid \<notin> tk_task_id ` set (db_tasks db) \<and> db_tasks db' = db_tasks db @ [row]) \<or>
     (\<exists>g. tid \<in> tk_task_id ` set (db_tasks db) \<and>
            db_tasks db' = map (\<lambda>t. if tk_task_id t = tid then g t else t) (db_tasks db) \<and>
            (\<forall>t. tk_task_id (g t) = tk_task_id t \<and> tk_session (g t) = tk_session t \<and> row_shows c st (g t)))"
    using show_row by (blast, fastforce)
qed

lemma session_log_snoc:
  "db_events db' = db_events db @ [row] \<Longrightarrow>
     session_log db' s = session_log db s @ (if er_session row = s then [row] else [])"
  by (simp add: session_log_def)

lemma log_ok_snoc:
  assumes "log_ok c db" "db_events db' = db_events db @ [row]"
    and "er_seq row = int (length (session_log db (er_session row)))" "open_log c db (er_session row)"
  shows "log_ok c db'"
  using assms by (auto simp: log_ok_def open_log_def session_log_snoc [OF assms(2)] butlast_append)

lemma task_log_snoc:
  "db_events db' = db_events db @ [row] \<Longrightarrow>
     task_log c db' t = task_log c db t @ (if er_task row = Some t then [the (payload_parse c (er_payload row))] else [])"
  by (simp add: task_log_def)

text \<open>Changing rows without their id and what they show keeps the view.\<close>

lemma view_ok_cong:
  assumes "view_ok c db" "db_events db' = db_events db" "db_tasks db' = map g (db_tasks db)"
    and "\<And>t. tk_task_id (g t) = tk_task_id t" "\<And>st t. row_shows c st (g t) = row_shows c st t"
  shows "view_ok c db'"
proof -
  have "task_log c db' = task_log c db" using assms(2) by (simp add: task_log_def fun_eq_iff)
  moreover have "state_shown c (map g rows) t st = state_shown c rows t st" for rows t st
    using assms(4,5) by (auto simp: state_shown_def image_image split: option.split)
  ultimately show ?thesis using assms by (simp add: view_ok_def comp_def)
qed

lemma view_ok_upsert:
  assumes "view_ok c db" "db_events db1 = db_events db @ [row]" "db_tasks db1 = db_tasks db"
    and "payload_parse c (er_payload row) = Some payload" "er_task row = Some tid"
    and "upsert_for_event c f i tid sid seq ts payload db1 = Ok db2"
  shows "view_ok c db2 \<and> db_events db2 = db_events db1"
proof (cases "fold_task_state [payload]")
  case None
  with assms have "db2 = db1" by (simp add: upsert_None)
  moreover have "fold_task_state (task_log c db1 t) = fold_task_state (task_log c db t)" for t
    using assms(4,5) None by (simp add: task_log_snoc [OF assms(2)] fold_snoc)
  ultimately show ?thesis using assms(1-4) by (simp add: view_ok_def)
next
  case (Some st)
  note up = upsert_Some [OF assms(6) Some]
  have log: "fold_task_state (task_log c db2 t) = (if t = tid then Some st else fold_task_state (task_log c db t))" for t
    using task_log_snoc [of db2 db row c t] up(1) assms(2,4,5) Some by (simp add: fold_snoc)
  have old: "state_shown c (db_tasks db) t (fold_task_state (task_log c db t))" for t
    using assms(1) by (simp add: view_ok_def)
  have parse: "\<forall>r\<in>set (db_events db2). payload_parse c (er_payload r) \<noteq> None"
    using assms(1,2,4) up(1) by (auto simp: view_ok_def)
  from up(2) show ?thesis
  proof
    assume "\<exists>r. tk_task_id r = tid \<and> tk_session r = sid \<and> row_shows c st r \<and>
      tid \<notin> tk_task_id ` set (db_tasks db1) \<and> db_tasks db2 = db_tasks db1 @ [r]"
    then obtain r where r: "tk_task_id r = tid" "row_shows c st r" "tid \<notin> tk_task_id ` set (db_tasks db)"
      "db_tasks db2 = db_tasks db @ [r]" using assms(3) by auto
    have "distinct (map tk_task_id (db_tasks db2))" using assms(1) r by (simp add: view_ok_def)
    moreover have "state_shown c (db_tasks db2) t (fold_task_state (task_log c db2 t))" for t
      using old [of t] r by (auto simp: log state_shown_def split: option.splits)
    ultimately show ?thesis using parse up(1) by (simp add: view_ok_def)
  next
    assume "\<exists>g. tid \<in> tk_task_id ` set (db_tasks db1) \<and>
      db_tasks db2 = map (\<lambda>t. if tk_task_id t = tid then g t else t) (db_tasks db1) \<and>
      (\<forall>t. tk_task_id (g t) = tk_task_id t \<and> tk_session (g t) = tk_session t \<and> row_shows c st (g t))"
    then obtain g where g: "tid \<in> tk_task_id ` set (db_tasks db)"
      "db_tasks db2 = map (\<lambda>t. if tk_task_id t = tid then g t else t) (db_tasks db)"
      "\<And>t. tk_task_id (g t) = tk_task_id t" "\<And>t. row_shows c st (g t)" using assms(3) by auto
    have ids: "map tk_task_id (db_tasks db2) = map tk_task_id (db_tasks db)"
      using g(2,3) by (simp add: comp_def if_distrib cong: map_cong)
    then have "distinct (map tk_task_id (db_tasks db2))" using assms(1) by (simp add: view_ok_def)
    moreover have "state_shown c (db_tasks db2) t (fold_task_state (task_log c db2 t))" for t
    proof (cases "t = tid")
      case True
      with g show ?thesis by (fastforce simp: log state_shown_def)
    next
      case False
      have "tk_task_id ` set (db_tasks db2) = tk_task_id ` set (db_tasks db)" using ids by (metis list.set_map)
      with False old [of t] g(2) show ?thesis
        by (cases "fold_task_state (task_log c db t)") (force simp: log state_shown_def)+
    qed
    ultimately show ?thesis using parse up(1) by (simp add: view_ok_def)
  qed
qed

text \<open>How a row that a backfill computes follows the next event.\<close>

definition backfill_fold :: "ev_codec \<Rightarrow> (int \<times> int \<times> event_payload) list \<Rightarrow> backfill_state" where
  "backfill_fold c hist = foldl (backfill_step c)
     \<lparr>bf_state = None, bf_created_seq = None, bf_kind = None, bf_parent = None, bf_last_seq = 0, bf_last_ts = 0\<rparr> hist"

lemma backfill_fold_snoc: "backfill_fold c (hist @ [e]) = backfill_step c (backfill_fold c hist) e"
  by (simp add: backfill_fold_def)

lemma backfill_state_fold: "bf_state (backfill_fold c hist) = fold_task_state (map (snd \<circ> snd) hist)"
proof (induction hist rule: rev_induct)
  case (snoc e hist)
  obtain seq ts p where "e = (seq, ts, p)" by (cases e)
  with snoc show ?case
    by (cases p) (simp_all add: backfill_fold_snoc fold_snoc backfill_step_def fold_task_state_def split: cancel_reason.split)
qed (simp add: backfill_fold_def fold_task_state_def)

lemma backfill_fold_None:
  "fold_task_state (map (snd \<circ> snd) hist) = None \<Longrightarrow> backfill_fold c hist = backfill_fold c []"
proof (induction hist rule: rev_induct)
  case (snoc e hist)
  obtain seq ts p where "e = (seq, ts, p)" by (cases e)
  with snoc show ?case
    by (cases p) (auto simp: backfill_fold_snoc fold_snoc backfill_step_def fold_task_state_def split: cancel_reason.splits)
qed simp

lemma backfill_task_eq:
  "backfill_task c tid sid hist =
     (let b = backfill_fold c hist
      in case (bf_state b, bf_created_seq b, bf_kind b) of
           (Some state, Some created, Some kind) \<Rightarrow>
             (case (case state of
                      TSuspended reason \<Rightarrow>
                        (case reason_text c reason of
                           Some t \<Rightarrow> Ok (Some (bf_last_ts b), Some t)
                         | None \<Rightarrow> Err ToSqlConversionFailure)
                    | _ \<Rightarrow> Ok (None, None)) of
                Err e \<Rightarrow> Err e
              | Ok (since, reason_json) \<Rightarrow>
                  Ok (Some \<lparr>tk_task_id = tid, tk_session = sid, tk_kind = kind_text c kind,
                            tk_state = as_sql_str state, tk_parent = bf_parent b,
                            tk_created_seq = created, tk_updated_seq = bf_last_seq b,
                            tk_suspended_since = since, tk_reason = reason_json, tk_redactions = 0\<rparr>))
         | _ \<Rightarrow> Ok None)"
  by (simp add: backfill_task_def backfill_fold_def)

lemma upsert_backfill_insert:
  assumes "upsert_for_event c f i tid sid seq ts (TaskCreated k p org inp) db = Ok db'"
    and "fold_task_state (map (snd \<circ> snd) hist) = None"
  shows "\<exists>row. db_tasks db' = db_tasks db @ [row] \<and> tk_task_id row = tid \<and> tk_session row = sid \<and>
     backfill_task c tid sid (hist @ [(seq, ts, TaskCreated k p org inp)]) = Ok (Some (row\<lparr>tk_redactions := 0\<rparr>))"
  using assms(1)
  by (auto simp: upsert_for_event_def fold_task_state_def backfill_task_eq backfill_fold_snoc backfill_fold_None [OF assms(2)]
      backfill_fold_def backfill_step_def split: sum.splits if_splits)

lemma upsert_backfill_update:
  assumes "upsert_for_event c f i tid sid seq ts payload db = Ok db'" "fold_task_state [payload] = Some st"
    and "\<And>k p org inp. payload \<noteq> TaskCreated k p org inp"
  shows "\<exists>g. db_tasks db' = map (\<lambda>t. if tk_task_id t = tid then g t else t) (db_tasks db) \<and>
     (\<forall>t. tk_task_id (g t) = tk_task_id t \<and> tk_session (g t) = tk_session t) \<and>
     (\<forall>row hist. tk_task_id row = tid \<longrightarrow>
        backfill_task c tid (tk_session row) hist = Ok (Some (row\<lparr>tk_redactions := 0\<rparr>)) \<longrightarrow>
        backfill_task c tid (tk_session row) (hist @ [(seq, ts, payload)]) = Ok (Some ((g row)\<lparr>tk_redactions := 0\<rparr>)))"
proof -
  obtain since rj where sr: "(case st of
                   TSuspended reason \<Rightarrow>
                     (case reason_text c reason of
                        Some t \<Rightarrow> Ok (Some ts, Some t)
                      | None \<Rightarrow> Err (EvSqlite ToSqlConversionFailure))
                 | _ \<Rightarrow> Ok (None, None)) = Ok (since, rj)"
    using assms(1,2) by (auto simp: upsert_for_event_def split: sum.splits)
  then have sr': "(case st of
                   TSuspended reason \<Rightarrow>
                     (case reason_text c reason of
                        Some t \<Rightarrow> Ok (Some ts, Some t)
                      | None \<Rightarrow> Err ToSqlConversionFailure)
                 | _ \<Rightarrow> Ok (None, None)) = Ok (since, rj)"
    by (auto split: task_state.splits option.splits) metis
  let ?g = "\<lambda>t. t\<lparr>tk_state := as_sql_str st, tk_updated_seq := seq, tk_suspended_since := since, tk_reason := rj\<rparr>"
  have up: "db_tasks db' = map (\<lambda>t. if tk_task_id t = tid then ?g t else t) (db_tasks db)"
    using assms by (cases payload) (auto simp: upsert_for_event_def sr split: sum.splits if_splits)
  have step: "backfill_step c b (seq, ts, payload) = b\<lparr>bf_state := Some st, bf_last_seq := seq, bf_last_ts := ts\<rparr>" for b
    using assms(2,3) by (cases payload) (auto simp: backfill_step_def)
  have "backfill_task c tid (tk_session row) (hist @ [(seq, ts, payload)]) = Ok (Some ((?g row)\<lparr>tk_redactions := 0\<rparr>))"
    if "tk_task_id row = tid" "backfill_task c tid (tk_session row) hist = Ok (Some (row\<lparr>tk_redactions := 0\<rparr>))" for row hist
  proof -
    from that(2) obtain st0 created kind since0 rj0 where b: "bf_state (backfill_fold c hist) = Some st0"
      "bf_created_seq (backfill_fold c hist) = Some created" "bf_kind (backfill_fold c hist) = Some kind"
      "\<lparr>tk_task_id = tid, tk_session = tk_session row, tk_kind = kind_text c kind,
         tk_state = as_sql_str st0, tk_parent = bf_parent (backfill_fold c hist),
         tk_created_seq = created, tk_updated_seq = bf_last_seq (backfill_fold c hist),
         tk_suspended_since = since0, tk_reason = rj0, tk_redactions = 0\<rparr> = row\<lparr>tk_redactions := 0\<rparr>"
      by (auto simp: backfill_task_eq Let_def split: option.splits sum.splits)
    have "(?g row)\<lparr>tk_redactions := 0\<rparr> = ?g (row\<lparr>tk_redactions := 0\<rparr>)" by simp
    then show ?thesis
      unfolding b(4) [symmetric] using sr'
      by (auto simp: backfill_task_eq backfill_fold_snoc step b(2,3) Let_def split: task_state.splits option.splits) metis
  qed
  with up show ?thesis by (intro exI [of _ ?g]) simp
qed

lemma backfill_no_state:
  "fold_task_state [payload] = None \<Longrightarrow>
     backfill_task c tid sid (hist @ [(seq, ts, payload)]) = backfill_task c tid sid hist"
  by (cases payload) (simp_all add: backfill_task_eq backfill_fold_snoc backfill_step_def fold_task_state_def)

lemma history_snoc:
  "db_events db' = db_events db @ [row] \<Longrightarrow>
     history c db' t = history c db t @
       (if er_task row = Some t then [(er_seq row, er_ts row, the (payload_parse c (er_payload row)))] else [])"
  by (simp add: history_def)

lemma history_payloads: "map (snd \<circ> snd) (history c db t) = task_log c db t"
  by (simp add: history_def task_log_def)

lemma rebuildable_upsert:
  assumes "rebuildable c db" "view_ok c db" "db_events db1 = db_events db @ [row]" "db_tasks db1 = db_tasks db"
    and "payload_parse c (er_payload row) = Some payload" "er_task row = Some tid"
    and "upsert_for_event c f i tid (er_session row) (er_seq row) (er_ts row) payload db1 = Ok db2"
  shows "rebuildable c db2"
proof -
  have "db_events db2 = db_events db @ [row]"
    using assms(3,7) upsert_None [OF _ assms(7)] upsert_Some(1) [OF assms(7)] by (cases "fold_task_state [payload]") auto
  from history_snoc [OF this] have h: "history c db2 t =
      history c db t @ (if t = tid then [(er_seq row, er_ts row, payload)] else [])" for t
    using assms(5,6) by auto
  have old: "backfill_task c (tk_task_id t) (tk_session t) (history c db (tk_task_id t)) = Ok (Some (t\<lparr>tk_redactions := 0\<rparr>))"
    if "t \<in> set (db_tasks db)" for t
    using assms(1) that by (simp add: rebuildable_def)
  consider "fold_task_state [payload] = None" | k p org inp where "payload = TaskCreated k p org inp"
    | st where "fold_task_state [payload] = Some st" "\<And>k p org inp. payload \<noteq> TaskCreated k p org inp"
    by (cases payload) (auto simp: fold_task_state_def)
  then show ?thesis
  proof cases
    case 1
    then have "db_tasks db2 = db_tasks db" using upsert_None [OF 1 assms(7)] assms(4) by simp
    with old show ?thesis by (auto simp: rebuildable_def h backfill_no_state [OF 1])
  next
    case (2 k p org inp)
    have "tid \<notin> tk_task_id ` set (db_tasks db)"
      using assms(4,7) 2 by (auto simp: upsert_for_event_def fold_task_state_def list_ex_iff split: sum.splits if_splits)
    moreover have "state_shown c (db_tasks db) tid (fold_task_state (task_log c db tid))"
      using assms(2) by (simp add: view_ok_def)
    ultimately have "fold_task_state (map (snd \<circ> snd) (history c db tid)) = None"
      by (auto simp: state_shown_def history_payloads split: option.splits)
    from upsert_backfill_insert [OF assms(7) [unfolded 2] this] obtain new where
      "db_tasks db2 = db_tasks db @ [new]" "tk_task_id new = tid" "tk_session new = er_session row"
      "backfill_task c tid (er_session row) (history c db tid @ [(er_seq row, er_ts row, payload)]) =
         Ok (Some (new\<lparr>tk_redactions := 0\<rparr>))" using assms(4) 2 by auto
    moreover have "tk_task_id t \<noteq> tid" if "t \<in> set (db_tasks db)" for t
      using that \<open>tid \<notin> _\<close> by blast
    ultimately show ?thesis using old by (auto simp: rebuildable_def h)
  next
    case (3 st)
    from upsert_backfill_update [OF assms(7) 3] obtain g where g:
      "db_tasks db2 = map (\<lambda>t. if tk_task_id t = tid then g t else t) (db_tasks db)"
      "\<And>t. tk_task_id (g t) = tk_task_id t \<and> tk_session (g t) = tk_session t"
      "\<And>t hist. tk_task_id t = tid \<Longrightarrow> backfill_task c tid (tk_session t) hist = Ok (Some (t\<lparr>tk_redactions := 0\<rparr>)) \<Longrightarrow>
         backfill_task c tid (tk_session t) (hist @ [(er_seq row, er_ts row, payload)]) = Ok (Some ((g t)\<lparr>tk_redactions := 0\<rparr>))"
      using assms(4) by auto
    show ?thesis unfolding rebuildable_def
    proof
      fix t' assume "t' \<in> set (db_tasks db2)"
      then obtain t where t: "t \<in> set (db_tasks db)" "t' = (if tk_task_id t = tid then g t else t)" by (auto simp: g(1))
      with old [OF t(1)] g(2,3) [of t]
      show "backfill_task c (tk_task_id t') (tk_session t') (history c db2 (tk_task_id t')) =
          Ok (Some (t'\<lparr>tk_redactions := 0\<rparr>))" by (auto simp: h)
    qed
  qed
qed

text \<open>A row that an append may write next.\<close>

definition fits :: "ev_codec \<Rightarrow> event_db \<Rightarrow> ev_row \<Rightarrow> event_payload \<Rightarrow> bool" where
  "fits c db row payload \<longleftrightarrow>
     payload_parse c (er_payload row) = Some payload \<and>
     er_seq row = int (length (session_log db (er_session row))) \<and>
     open_log c db (er_session row) \<and>
     er_session row \<in> range (uuid_text c) \<and> set_option (er_task row) \<subseteq> range (uuid_text c)"

lemma ids_ok_step:
  assumes "ids_ok c db" "db_events db' = db_events db @ [row]"
    and "er_session row \<in> range (uuid_text c)" "set_option (er_task row) \<subseteq> range (uuid_text c)"
    and "\<And>t. t \<in> set (db_tasks db') \<Longrightarrow>
      (\<exists>t0\<in>set (db_tasks db). tk_task_id t = tk_task_id t0 \<and> tk_session t = tk_session t0) \<or>
      er_task row = Some (tk_task_id t) \<and> tk_session t = er_session row"
  shows "ids_ok c db'"
proof -
  have "\<exists>r\<in>set (db_events db'). er_task r = Some (tk_task_id t) \<and> er_session r = tk_session t"
    if "t \<in> set (db_tasks db')" for t
    using assms(5) [OF that] assms(1,2) by (auto simp: ids_ok_def)
  with assms(1-4) show ?thesis by (auto simp: ids_ok_def)
qed

lemma write_row_ok:
  assumes "store_ok c db" "fits c db row payload" "write_row c f i row payload n db = Ok db'"
  shows "store_ok c db' \<and> db_events db' = db_events db @ [row]"
proof (cases "er_task row")
  case None
  with assms(3) have "insert_event f i row db = Ok db'" by (auto simp: write_row_def split: sum.splits)
  then have db': "db' = db\<lparr>db_events := db_events db @ [row]\<rparr>" by (rule insert_event_Ok)
  have "view_ok c db'"
    using assms(1,2) None by (auto simp: store_ok_def view_ok_def fits_def db' task_log_def)
  moreover have "log_ok c db'" using assms(1,2) by (auto simp: store_ok_def fits_def db' intro: log_ok_snoc)
  moreover have "ids_ok c db'" using assms(1,2) by (auto simp: store_ok_def fits_def db' ids_ok_def)
  moreover have "rebuildable c db'" using assms(1) None by (simp add: store_ok_def rebuildable_def db' history_def)
  ultimately show ?thesis by (simp add: store_ok_def db')
next
  case (Some tid)
  with assms(3) obtain db1 db2 where d: "insert_event f i row db = Ok db1"
    "upsert_for_event c f i tid (er_session row) (er_seq row) (er_ts row) payload db1 = Ok db2"
    "add_redactions f i tid n db2 = Ok db'"
    by (auto simp: write_row_def split: sum.splits)
  have db1: "db1 = db\<lparr>db_events := db_events db @ [row]\<rparr>" using d(1) by (rule insert_event_Ok)
  have v2: "view_ok c db2 \<and> db_events db2 = db_events db1"
    using assms(1,2) Some by (intro view_ok_upsert [OF _ _ _ _ _ d(2), of db row]) (auto simp: db1 store_ok_def fits_def)
  obtain g where g: "db_tasks db' = map g (db_tasks db2)" "\<And>t. tk_task_id (g t) = tk_task_id t"
    "\<And>t. tk_session (g t) = tk_session t" "\<And>c st t. row_shows c st (g t) = row_shows c st t"
    "\<And>t. (g t)\<lparr>tk_redactions := 0\<rparr> = t\<lparr>tk_redactions := 0\<rparr>"
    using add_redactions_Ok(2) [OF d(3)] by blast
  have ev: "db_events db' = db_events db @ [row]" using add_redactions_Ok(1) [OF d(3)] v2 db1 by simp
  have "view_ok c db'" using v2 g add_redactions_Ok(1) [OF d(3)] by (blast intro: view_ok_cong)
  moreover have "log_ok c db'" using assms(1,2) ev by (auto simp: store_ok_def fits_def intro: log_ok_snoc)
  moreover have "rebuildable c db2"
    using assms(1,2) Some by (intro rebuildable_upsert [OF _ _ _ _ _ _ d(2), of db]) (auto simp: db1 store_ok_def fits_def)
  then have "rebuildable c db'"
    using g add_redactions_Ok(1) [OF d(3)] by (simp add: rebuildable_def history_def)
  moreover have old: "(\<exists>t0\<in>set (db_tasks db). tk_task_id t = tk_task_id t0 \<and> tk_session t = tk_session t0) \<or>
      tid = tk_task_id t \<and> tk_session t = er_session row" if "t \<in> set (db_tasks db2)" for t
    using that upsert_Some(2) [OF d(2)] upsert_None [OF _ d(2)]
    by (cases "fold_task_state [payload]") (fastforce simp: db1)+
  have "(\<exists>t0\<in>set (db_tasks db). tk_task_id t = tk_task_id t0 \<and> tk_session t = tk_session t0) \<or>
      er_task row = Some (tk_task_id t) \<and> tk_session t = er_session row" if t: "t \<in> set (db_tasks db')" for t
  proof -
    from t obtain t2 where "t2 \<in> set (db_tasks db2)" "t = g t2" by (auto simp: g(1))
    with old [of t2] Some show ?thesis by (simp add: g(2,3))
  qed
  then have "ids_ok c db'"
    using assms(1,2) by (intro ids_ok_step [OF _ ev]) (auto simp only: store_ok_def fits_def)
  ultimately show ?thesis using ev by (simp add: store_ok_def)
qed

lemma append_event_ok:
  assumes "ev_codec_ok c" "store_ok c db" "append_event_in_transaction c search r f i ev db = Ok (n, db')"
  shows "store_ok c db' \<and>
    (\<exists>t. payload_text c (fst (redact_event_payload search r (ev_payload ev))) = Some t \<and>
       fits c db (event_row_of c ev (int (length (session_log db (uuid_text c (ev_session_id ev))))) t)
         (fst (redact_event_payload search r (ev_payload ev))) \<and>
       db_events db' = db_events db @ [event_row_of c ev (int (length (session_log db (uuid_text c (ev_session_id ev))))) t])"
proof -
  let ?p = "fst (redact_event_payload search r (ev_payload ev))" and ?s = "uuid_text c (ev_session_id ev)"
  obtain t where t: "payload_text c ?p = Some t"
    using assms(3) by (auto simp: append_event_in_transaction_def Let_def split: prod.splits option.splits)
  have o: "open_log c db ?s" "next_seq_or_reject_closed c f i db ?s = Ok (int (length (session_log db ?s)))"
    using assms(2,3) t by (auto simp: append_event_in_transaction_def next_seq_eq store_ok_def Let_def
        split: prod.splits option.splits if_splits)
  let ?row = "event_row_of c ev (int (length (session_log db ?s))) t"
  have "write_row c f i ?row ?p (snd (redact_event_payload search r (ev_payload ev))) db = Ok db'"
    using assms(3) t o(2) by (auto simp: append_event_in_transaction_def Let_def split: prod.splits sum.splits if_splits)
  moreover have "fits c db ?row ?p"
    using assms(1) t o(1) by (auto simp: fits_def event_row_of_def ev_codec_ok_def)
  ultimately show ?thesis using t write_row_ok [OF assms(2)] by blast
qed

subsubsection \<open>Batches\<close>

text \<open>The events of a batch appended one after the other, each reading the tail of its log.\<close>

fun append_each ::
  "ev_codec \<Rightarrow> find_fn \<Rightarrow> redactor \<Rightarrow> ev_faults \<Rightarrow> nat \<Rightarrow> u64 list \<Rightarrow> event list \<Rightarrow> event_db
   \<Rightarrow> (u64 list \<times> event_db, ev_store_error) result" where
  "append_each c search r f i seqs [] db = Ok (seqs, db)"
| "append_each c search r f i seqs (ev # evs) db =
     (case append_event_in_transaction c search r f i ev db of
        Err e \<Rightarrow> Err e
      | Ok (n, db') \<Rightarrow> append_each c search r f (Suc i) (seqs @ [n]) evs db')"

lemma append_each_ok:
  assumes "ev_codec_ok c"
  shows "store_ok c db \<Longrightarrow> append_each c search r f i seqs evs db = Ok (ns, db') \<Longrightarrow>
     store_ok c db' \<and> prefix (db_events db) (db_events db')"
proof (induction evs arbitrary: i seqs db)
  case (Cons ev evs)
  then obtain n db1 where 1: "append_event_in_transaction c search r f i ev db = Ok (n, db1)"
    "append_each c search r f (Suc i) (seqs @ [n]) evs db1 = Ok (ns, db')"
    by (auto split: sum.splits)
  from append_event_ok [OF assms Cons.prems(1) 1(1)] Cons.IH [OF _ 1(2)] show ?case by (auto dest: append_prefixD)
qed simp

definition tracks :: "ev_codec \<Rightarrow> event_db \<Rightarrow> (string \<rightharpoonup> int) \<Rightarrow> string list \<Rightarrow> bool" where
  "tracks c db next_seqs closed_in_batch \<longleftrightarrow>
     (\<forall>s. case next_seqs s of
            None \<Rightarrow> s \<notin> set closed_in_batch
          | Some n \<Rightarrow> n = int (length (session_log db s)) \<and> (open_log c db s \<longleftrightarrow> s \<notin> set closed_in_batch))"

lemma tracks_step:
  assumes "tracks c db next_seqs cl" "open_log c db (er_session row)" "db_events db' = db_events db @ [row]"
    and "payload_parse c (er_payload row) = Some payload"
    and "er_session row \<notin> set cl"
  shows "tracks c db' (next_seqs(er_session row \<mapsto> int (length (session_log db (er_session row))) + 1))
     (case payload of SessionClosed _ \<Rightarrow> er_session row # cl | _ \<Rightarrow> cl)"
proof -
  have l: "session_log db' s = session_log db s @ (if er_session row = s then [row] else [])" for s
    using assms(3) by (rule session_log_snoc)
  have cl: "(case payload of SessionClosed _ \<Rightarrow> er_session row # cl | _ \<Rightarrow> cl) =
      (if is_terminator c row then er_session row # cl else cl)"
    using assms(4) by (simp add: is_terminator_def split: event_payload.split)
  show ?thesis
    unfolding tracks_def cl
  proof
    fix s
    have old: "case next_seqs s of None \<Rightarrow> s \<notin> set cl
        | Some n \<Rightarrow> n = int (length (session_log db s)) \<and> (open_log c db s \<longleftrightarrow> s \<notin> set cl)"
      using assms(1) by (simp add: tracks_def)
    show "case (next_seqs(er_session row \<mapsto> int (length (session_log db (er_session row))) + 1)) s of
        None \<Rightarrow> s \<notin> set (if is_terminator c row then er_session row # cl else cl)
      | Some n \<Rightarrow> n = int (length (session_log db' s)) \<and>
          (open_log c db' s \<longleftrightarrow> s \<notin> set (if is_terminator c row then er_session row # cl else cl))"
    proof (cases "s = er_session row")
      case True
      with assms(2,5) show ?thesis by (auto simp: open_log_def l)
    next
      case False
      with old show ?thesis by (cases "next_seqs s") (simp_all add: open_log_def l)
    qed
  qed
qed

lemma batch_loop_is_append_each:
  assumes "ev_codec_ok c" "\<And>i. f (StTail i) = None"
  shows "store_ok c db \<Longrightarrow> tracks c db next_seqs cl \<Longrightarrow> prepare_events c search r evs = Ok batch \<Longrightarrow>
     batch_loop c f i next_seqs cl seqs batch db = append_each c search r f i seqs evs db"
proof (induction evs arbitrary: i next_seqs cl seqs batch db)
  case (Cons ev evs)
  let ?p = "fst (redact_event_payload search r (ev_payload ev))"
  let ?n = "snd (redact_event_payload search r (ev_payload ev))"
  let ?s = "uuid_text c (ev_session_id ev)"
  obtain t batch' where b: "payload_text c ?p = Some t" "prepare_events c search r evs = Ok batch'"
    "batch = \<lparr>pe_event = ev, pe_payload_json = t, pe_payload = ?p, pe_redactions = ?n\<rparr> # batch'"
    using Cons.prems(3) by (auto simp: Let_def split: prod.splits option.splits sum.splits)
  let ?len = "int (length (session_log db ?s))"
  let ?row = "event_row_of c ev ?len t"
  have seq: "(case next_seqs ?s of
                 Some seq \<Rightarrow> if ?s \<notin> set cl then Ok seq else Err (EvSessionClosed ?s)
               | None \<Rightarrow> next_seq_or_reject_closed c f i db ?s) =
      (if open_log c db ?s then Ok ?len else Err (EvSessionClosed ?s))"
    using Cons.prems(1,2) assms(2)
    by (auto simp: next_seq_eq store_ok_def tracks_def split: option.splits dest!: spec [of _ ?s])
  have tl: "next_seq_or_reject_closed c f i db ?s = (if open_log c db ?s then Ok ?len else Err (EvSessionClosed ?s))"
    using Cons.prems(1) assms(2) by (simp add: next_seq_eq store_ok_def)
  show ?case
  proof (cases "open_log c db ?s")
    case False
    then show ?thesis by (simp add: b(3) seq append_event_in_transaction_def Let_def case_prod_beta b(1) tl)
  next
    case True
    show ?thesis
    proof (cases "write_row c f i ?row ?p ?n db")
      case (Inl e)
      with True show ?thesis
        by (simp add: b(3) seq append_event_in_transaction_def Let_def case_prod_beta b(1) tl)
    next
      case (Inr db')
      have "fits c db ?row ?p" using assms(1) b(1) True by (auto simp: fits_def event_row_of_def ev_codec_ok_def)
      from write_row_ok [OF Cons.prems(1) this Inr]
      have ok: "store_ok c db'" "db_events db' = db_events db @ [?row]" by auto
      have "?s \<notin> set cl"
        using Cons.prems(2) True by (auto simp: tracks_def split: option.splits dest!: spec [of _ ?s])
      moreover have e: "er_session ?row = ?s" "payload_parse c (er_payload ?row) = Some ?p"
        using assms(1) b(1) by (simp_all add: event_row_of_def ev_codec_ok_def)
      ultimately have "tracks c db' (next_seqs(?s \<mapsto> ?len + 1)) (case ?p of SessionClosed _ \<Rightarrow> ?s # cl | _ \<Rightarrow> cl)"
        using tracks_step [OF Cons.prems(2), of ?row db' ?p, unfolded e(1), OF True ok(2) e(2)] by blast
      note IH = Cons.IH [OF ok(1) this b(2)]
      from True Inr show ?thesis
        by (simp add: b(3) seq append_event_in_transaction_def Let_def case_prod_beta b(1) tl IH del: fun_upd_apply)
    qed
  qed
qed simp

subsubsection \<open>Operations of the writer\<close>

text \<open>A step of the store: a consistent store stays consistent and its log only grows.\<close>

definition extends :: "ev_codec \<Rightarrow> event_db \<Rightarrow> event_db \<Rightarrow> bool" where
  "extends c db db' \<longleftrightarrow>
     (ev_codec_ok c \<longrightarrow> store_ok c db \<longrightarrow> store_ok c db' \<and> prefix (db_events db) (db_events db'))"

lemma extends_refl [simp]: "extends c db db"
  by (simp add: extends_def)

lemma extends_trans: "extends c db db1 \<Longrightarrow> extends c db1 db2 \<Longrightarrow> extends c db db2"
  by (auto simp: extends_def intro: prefix_order.trans)

lemma busy_loop_extends:
  "(\<And>attempt db. extends c db (snd (op attempt db))) \<Longrightarrow> extends c db (snd (busy_loop op attempt db))"
proof (induction op attempt db rule: busy_loop.induct)
  case (1 op attempt db)
  show ?case
  proof (cases "\<exists>e db'. op attempt db = (Err (EvSqlite e), db') \<and> is_sqlite_busy e \<and> attempt < MAX_BUSY_RETRIES")
    case True
    then obtain e db' where o: "op attempt db = (Err (EvSqlite e), db')" "is_sqlite_busy e \<and> attempt < MAX_BUSY_RETRIES" by blast
    have "extends c db db'" using "1.prems" [of db attempt] o(1) by simp
    moreover have "extends c db' (snd (busy_loop op (attempt + 1) db'))"
      using "1.IH" [OF o(1) [symmetric] refl refl o(2) "1.prems"] .
    ultimately show ?thesis using o by (simp add: busy_loop.simps [of op attempt db] extends_trans)
  next
    case False
    then have "busy_loop op attempt db = op attempt db"
      by (auto simp: busy_loop.simps [of op attempt db] split: prod.split sum.split ev_store_error.split)
    with "1.prems" show ?thesis by simp
  qed
qed

lemma bounded_attempt_extends:
  "extends c db (snd (operation db)) \<Longrightarrow> extends c db (snd (with_bounded_busy_attempt f operation db))"
  by (auto simp: with_bounded_busy_attempt_def split: option.split prod.split)

text \<open>
  What the writer's operations have in common: the body of a transaction that leaves a consistent
  store, run with the retries.
\<close>

locale writer_op =
  fixes c :: ev_codec
    and body :: "ev_faults \<Rightarrow> event_db \<Rightarrow> ('a \<times> event_db, ev_store_error) result"
  assumes body_extends: "body f db = Ok (v, db') \<Longrightarrow> extends c db db'"
begin

lemma in_transaction_extends: "extends c db (snd (in_transaction f (body f) db))"
  by (auto simp: in_transaction_def body_extends split: option.split sum.split)

lemma retried_extends:
  "extends c db (snd (busy_loop (\<lambda>attempt. with_bounded_busy_attempt (fs attempt)
     (in_transaction (fs attempt) (body (fs attempt)))) attempt db))"
  by (intro busy_loop_extends bounded_attempt_extends in_transaction_extends)

end

lemma append_event_extends:
  "append_event_in_transaction c search r f i ev db = Ok (n, db') \<Longrightarrow> extends c db db'"
  using append_event_ok by (fastforce simp: extends_def)

lemma extends_blobs: "extends c db (db\<lparr>db_blobs := b\<rparr>)"
  by (simp add: extends_def store_ok_def log_ok_def view_ok_def ids_ok_def rebuildable_def
      session_log_def task_log_def history_def)

text \<open>
  The bodies.  A single append is an append inside a transaction; a batch is a sequence of them, with
  no reads of the tail that could fail.
\<close>

lemma append_one_body_eq:
  assumes "store_ok c db" "redact_event_payload search r (ev_payload ev) = (p, n)" "payload_text c p = Some t"
  shows "append_one_body c ev p t n f db = append_event_in_transaction c search r f 0 ev db"
  using assms
  by (auto simp: append_one_body_def append_event_in_transaction_def next_seq_eq store_ok_def Let_def
      split: option.splits sum.splits)

definition tail_readable :: "ev_faults \<Rightarrow> ev_faults" where
  "tail_readable f = (\<lambda>st. case st of StTail _ \<Rightarrow> None | _ \<Rightarrow> f st)"

lemma write_row_tail_readable: "write_row c (tail_readable f) i row p n db = write_row c f i row p n db"
proof -
  have a: "attempt_stmt (tail_readable f) (StInsert i) = attempt_stmt f (StInsert i)"
    "attempt_stmt (tail_readable f) (StUpsert i) = attempt_stmt f (StUpsert i)"
    "attempt_stmt (tail_readable f) (StRedactions i) = attempt_stmt f (StRedactions i)"
    by (simp_all add: attempt_stmt_def tail_readable_def)
  show ?thesis unfolding write_row_def insert_event_def upsert_for_event_def add_redactions_def a ..
qed

lemma batch_loop_tail_readable:
  "batch_loop c f i next_seqs cl seqs batch db = Ok res \<Longrightarrow>
     batch_loop c (tail_readable f) i next_seqs cl seqs batch db = Ok res"
proof (induction c f i next_seqs cl seqs batch db rule: batch_loop.induct)
  case (2 c f i next_seqs cl seqs item items db)
  let ?s = "uuid_text c (ev_session_id (pe_event item))"
  have "next_seq_or_reject_closed c (tail_readable f) i db ?s = Ok n"
    if "next_seq_or_reject_closed c f i db ?s = Ok n" for n
    using that by (auto simp: next_seq_or_reject_closed_def attempt_stmt_def tail_readable_def split: option.splits)
  with 2 show ?case
    by (fastforce simp: Let_def write_row_tail_readable split: sum.splits option.splits if_splits)
qed simp

lemma tracks_start: "tracks c db Map.empty []"
  by (simp add: tracks_def)

lemma batch_loop_extends:
  assumes "prepare_events c search r evs = Ok batch" "batch_loop c f 0 Map.empty [] [] batch db = Ok (ns, db')"
  shows "extends c db db'"
proof -
  have "store_ok c db' \<and> prefix (db_events db) (db_events db')" if "ev_codec_ok c" "store_ok c db"
  proof -
    have "append_each c search r (tail_readable f) 0 [] evs db = Ok (ns, db')"
      using batch_loop_is_append_each [OF that(1) _ that(2) tracks_start assms(1), of "tail_readable f" 0 "[]"]
        batch_loop_tail_readable [OF assms(2)] by (simp add: tail_readable_def)
    from append_each_ok [OF that this] show ?thesis .
  qed
  then show ?thesis by (simp add: extends_def)
qed

lemma record_blob_write_Ok:
  "record_blob_write f i has_file b now db = Ok db' \<Longrightarrow> \<exists>bs. db' = db\<lparr>db_blobs := bs\<rparr>"
  by (auto simp: record_blob_write_def split: option.splits if_splits)

lemma append_with_blobs_extends:
  "append_with_blobs_loop c search r f has_file i seqs evs db = Ok (ns, db') \<Longrightarrow> extends c db db'"
proof (induction evs arbitrary: i seqs db)
  case (Cons ev evs)
  from Cons.prems obtain n db1 db2 where d: "append_event_in_transaction c search r f i ev db = Ok (n, db1)"
    "db2 = db1 \<or> (\<exists>b. record_blob_write f i has_file b (ev_ts ev) db1 = Ok db2)"
    "append_with_blobs_loop c search r f has_file (Suc i) (seqs @ [n]) evs db2 = Ok (ns, db')"
    by (auto split: sum.splits option.splits) blast+
  have "extends c db1 db2" using d(2) record_blob_write_Ok extends_blobs by (metis extends_refl)
  with append_event_extends [OF d(1)] Cons.IH [OF d(3)] show ?case by (blast intro: extends_trans)
qed simp

lemma append_one_body_extends:
  assumes "redact_event_payload search r (ev_payload ev) = (p, n)" "payload_text c p = Some t"
    and "append_one_body c ev p t n f db = Ok (v, db')"
  shows "extends c db db'"
  using assms append_one_body_eq [OF _ assms(1,2)] append_event_extends by (metis extends_def)

interpretation one: writer_op c "\<lambda>f db. case redact_event_payload search r (ev_payload ev) of (p, n) \<Rightarrow>
    (case payload_text c p of None \<Rightarrow> Err (EvInteract ''serialize'') | Some t \<Rightarrow> append_one_body c ev p t n f db)"
  for c search r ev
  by unfold_locales (auto split: prod.splits option.splits intro: append_one_body_extends)

interpretation many: writer_op c "\<lambda>f db. case prepare_events c search r evs of
    Err e \<Rightarrow> Err e | Ok batch \<Rightarrow> batch_loop c f 0 Map.empty [] [] batch db"
  for c search r evs
  by unfold_locales (auto split: sum.splits intro: batch_loop_extends)

interpretation blobs: writer_op c "\<lambda>f db. case append_with_blobs_loop c search r f has_file 0 [] evs db of
    Err e \<Rightarrow> Err (busy_error_in e) | Ok res \<Rightarrow> Ok res"
  for c search r has_file evs
  by unfold_locales (auto split: sum.splits intro: append_with_blobs_extends)

lemma append_one_extends: "extends c db (snd (append_one c search fs r ev db))"
  using one.retried_extends [of c db fs ev search r 1]
  by (auto simp: append_one_def Let_def split: prod.splits option.splits)

lemma append_batch_extends: "extends c db (snd (append_batch c search fs r evs db))"
  using many.retried_extends [of c db fs search r evs 1]
  by (auto simp: append_batch_def split: sum.splits)

lemma append_batch_with_blobs_extends:
  "extends c db (snd (append_batch_with_blobs c search fs has_file r evs db))"
  using blobs.retried_extends [of c db fs search r has_file evs 1] by (simp add: append_batch_with_blobs_def)

lemma cancel_loop_extends: "cancel_loop c search r f sid ts i tids db = Ok db' \<Longrightarrow> extends c db db'"
proof (induction tids arbitrary: i db)
  case (Cons t tids)
  from Cons.prems obtain tid n db1 where d: "append_event_in_transaction c search r f i
      (record_task_cancelled sid 0 ts tid OriginSystem CancelSessionClosed 1) db = Ok (n, db1)"
    "cancel_loop c search r f sid ts (Suc i) tids db1 = Ok db'"
    by (auto split: sum.splits option.splits)
  from append_event_extends [OF d(1)] Cons.IH [OF d(2)] show ?case by (rule extends_trans)
qed simp

lemma close_session_body_Ok:
  assumes "close_session_body c search r f sid ts outcome db = Ok (rc, db')"
  obtains (already) "rc = ReceiptAlreadyClosed" "db' = db" "read_session_tail c db (uuid_text c sid) = TailClosed"
  | (closed) n db1 k i tids where "rc = ReceiptClosed (length tids)"
      "tids = map tk_task_id (filter (\<lambda>t. tk_session t = uuid_text c sid \<and> tk_state t \<in> set open_states) (db_tasks db))"
      "cancel_loop c search r f sid ts 1 tids db = Ok db1"
      "append_event_in_transaction c search r f i (record_session_closed sid 0 ts outcome 1) db1 = Ok (n, db')"
  using assms that by (auto simp: close_session_body_def Let_def split: sum.splits option.splits if_splits)

lemma close_session_attempt_extends: "extends c db (snd (close_session_attempt c search r sid ts outcome f db))"
proof -
  have "extends c db db'" if "close_session_body c search r f sid ts outcome db = Ok (rc, db')" for rc db'
    using that by (cases rule: close_session_body_Ok)
      (auto intro: extends_trans cancel_loop_extends append_event_extends)
  then show ?thesis by (auto simp: close_session_attempt_def split: option.split sum.split close_receipt.split)
qed

lemma close_session_extends: "extends c db (snd (close_session c search fs r sid ts outcome db))"
  unfolding close_session_def by (intro busy_loop_extends bounded_attempt_extends close_session_attempt_extends)

lemma recover_extends: "extends c db (snd (recover_interrupted_tasks c search fs r now db))"
  using append_batch_extends
  by (auto simp: recover_interrupted_tasks_def split: sum.splits prod.splits) (metis snd_conv)+

lemma writer_step_extends: "extends c (ew_db w) (ew_db (writer_step c search w cmd))"
  by (cases cmd) (simp_all add: append_one_extends append_batch_extends append_batch_with_blobs_extends
      close_session_extends recover_extends)

lemma writer_run_store_ok:
  assumes "ev_codec_ok c"
  shows "store_ok c (ew_db (writer_run c search cmds))"
proof -
  have "store_ok c (ew_db (foldl (writer_step c search) w cmds))" if "store_ok c (ew_db w)" for w
    using that
  proof (induction cmds arbitrary: w)
    case (Cons cmd cmds)
    with writer_step_extends [of c w search cmd] assms show ?case by (auto simp: extends_def)
  qed simp
  from this [of "spawn_writer empty_db"] show ?thesis
    by (simp add: writer_run_def spawn_writer_def empty_store_ok)
qed

subsection \<open>A concrete codec and store\<close>

text \<open>An instance for the parameters: identifiers in unary, a few payloads with fixed texts.\<close>

definition demo_payloads :: "(event_payload \<times> string) list" where
  "demo_payloads =
     [(TaskCreated KChat None OriginUser (InText ''hi''), ''T''),
      (TaskStarted \<lparr>ia_tier = TierNone, ia_digest = [], ia_net_enforced = False\<rparr> None, ''B''),
      (TaskSuspended AwaitingReply, ''S''),
      (Note NoteInfo ''[REDACTED]!'', ''N''),
      (TaskCancelled OriginSystem CancelDaemonRestart, ''D''),
      (TaskCancelled OriginSystem CancelSessionClosed, ''X''),
      (SessionClosed OutcomeCompleted, ''C'')]"

definition demo_codec :: ev_codec where
  "demo_codec =
     \<lparr>uuid_text = (\<lambda>n. replicate n (CHR ''1'')), uuid_parse = (\<lambda>s. Some (length s)),
      payload_text = map_of demo_payloads, payload_parse = map_of (map (\<lambda>(p, t). (t, p)) demo_payloads),
      reason_text = (\<lambda>s. if s = AwaitingReply then Some ''R'' else None),
      reason_parse = (\<lambda>t. if t = ''R'' then Some AwaitingReply else None), kind_text = (\<lambda>_. ''Chat'')\<rparr>"

lemma demo_codec_ok: "ev_codec_ok demo_codec"
  by (auto simp: ev_codec_ok_def demo_codec_def demo_payloads_def split: if_splits)

definition ev_no_faults :: "nat \<Rightarrow> ev_faults" where
  "ev_no_faults = (\<lambda>_ _. None)"

definition demo_event :: "task_id option \<Rightarrow> event_payload \<Rightarrow> event" where
  "demo_event tid p = new_sealed 1 0 10 tid p 1"

text \<open>Two tasks of one session, one running and one suspended.\<close>

definition demo_cmds :: "write_cmd list" where
  "demo_cmds =
     [CmdAppend ev_no_faults (demo_event (Some 2) (TaskCreated KChat None OriginUser (InText ''hi''))),
      CmdAppend ev_no_faults (demo_event (Some 2) (TaskStarted \<lparr>ia_tier = TierNone, ia_digest = [], ia_net_enforced = False\<rparr> None)),
      CmdAppend ev_no_faults (demo_event (Some 3) (TaskCreated KChat None OriginUser (InText ''hi''))),
      CmdAppend ev_no_faults (demo_event (Some 3) (TaskSuspended AwaitingReply))]"

definition demo_db :: event_db where
  "demo_db = ew_db (writer_run demo_codec scan demo_cmds)"

lemma demo_db_ok: "store_ok demo_codec demo_db"
  by (simp add: demo_db_def writer_run_store_ok demo_codec_ok)

text \<open>
  \<^bold>\<open>C6.\<close> The event store: whatever commands the writer executes and whatever failures they meet, the
  log of every session is numbered 0, 1, 2, ... without a gap, nothing follows its terminator, and
  every row of the table of tasks shows exactly the state that the events of its task fold to; and a
  further command never changes a row that is in the log.
\<close>

theorem event_store_consistent:
  assumes "ev_codec_ok c"
  shows "store_ok c (ew_db (writer_run c search cmds)) \<and>
     prefix (db_events (ew_db (writer_run c search cmds)))
       (db_events (ew_db (writer_run c search (cmds @ [cmd]))))"
  using writer_step_extends [of c "writer_run c search cmds" search cmd] writer_run_store_ok [OF assms, of search cmds] assms
  by (simp add: writer_run_def extends_def)

theorem event_store_consistent_witness:
  "store_ok demo_codec (ew_db (writer_run demo_codec scan demo_cmds)) \<and>
   prefix (db_events (ew_db (writer_run demo_codec scan demo_cmds)))
     (db_events (ew_db (writer_run demo_codec scan (demo_cmds @ [CmdCloseSession ev_no_faults 1 20 OutcomeCompleted]))))"
  by (rule event_store_consistent) (rule demo_codec_ok)

end
