(* ===== verification/Store_Recovery.thy ===== *)
theory Store_Recovery
  imports Store_Writer
begin

text \<open>
  What the operations of the event store achieve: batches are sequences of appends, closing a session
  sweeps its tasks, recovery after a crash interrupts what was running, the readers return what was
  written, and the backfill of \<^verbatim>\<open>tasks_view.rs\<close> computes the rows that the appends would have left.
\<close>

subsection \<open>Batches\<close>

text \<open>
  \<^bold>\<open>C21.\<close> A batch numbers its events from two small caches instead of reading the log again for every
  event.  On a consistent store this is the same as appending the events one after the other in one
  transaction, for every outcome: same rows, same numbers, same rejection of an event behind a
  terminator of the same batch.
\<close>

theorem batch_is_sequential:
  assumes "ev_codec_ok c" "store_ok c db" "prepare_events c search r evs = Ok batch"
    and "\<And>i. f (StTail i) = None"
  shows "batch_loop c f 0 Map.empty [] [] batch db = append_each c search r f 0 [] evs db"
  by (rule batch_loop_is_append_each) (use assms tracks_start in auto)

theorem batch_is_sequential_witness:
  "batch_loop demo_codec (\<lambda>_. None) 0 Map.empty [] []
     [\<lparr>pe_event = demo_event None (SessionClosed OutcomeCompleted), pe_payload_json = ''C'',
       pe_payload = SessionClosed OutcomeCompleted, pe_redactions = 0\<rparr>] demo_db =
   append_each demo_codec scan (build []) (\<lambda>_. None) 0 [] [demo_event None (SessionClosed OutcomeCompleted)] demo_db"
  by (rule batch_is_sequential [OF demo_codec_ok demo_db_ok])
     (simp_all add: demo_event_def new_sealed_def demo_codec_def demo_payloads_def)

subsection \<open>Cancelling tasks\<close>

text \<open>
  \<open>ended ids state rows rows'\<close>: the rows with an id of \<open>ids\<close> have come to \<open>state\<close>, the others are as
  they were.
\<close>

definition ended :: "string set \<Rightarrow> string \<Rightarrow> task_row list \<Rightarrow> task_row list \<Rightarrow> bool" where
  "ended ids state rows rows' \<longleftrightarrow>
     list_all2 (\<lambda>t t'. tk_task_id t' = tk_task_id t \<and> tk_session t' = tk_session t \<and>
       (if tk_task_id t \<in> ids then tk_state t' = state else t' = t)) rows rows'"

lemma ended_empty: "ended {} state rows rows"
  by (simp add: ended_def list.rel_refl)

lemma ended_insert: "ended {t} state rows rows1 \<Longrightarrow> ended ids state rows1 rows2 \<Longrightarrow> ended (insert t ids) state rows rows2"
  unfolding ended_def by (erule list_all2_trans [rotated], assumption) (auto split: if_splits)

lemma ended_map:
  "(\<And>t. tk_task_id (g t) = tk_task_id t \<and> tk_session (g t) = tk_session t \<and> tk_state (g t) = state) \<Longrightarrow>
     ended {tid} state rows (map (\<lambda>t. if tk_task_id t = tid then g t else t) rows)"
  by (simp add: ended_def list_all2_conv_all_nth)

definition cancel_state :: "cancel_reason \<Rightarrow> string" where
  "cancel_state why = as_sql_str (if why = CancelDaemonRestart then TInterrupted else TCancelled)"

lemma append_cancel_ended:
  assumes "append_event_in_transaction c search r f i (record_task_cancelled sid q ts tid org why v) db = Ok (n, db')"
  shows "ended {uuid_text c tid} (cancel_state why) (db_tasks db) (db_tasks db')"
  using assms
  by (auto simp: append_event_in_transaction_def record_task_cancelled_def new_sealed_def Let_def cancel_state_def
      write_row_def event_row_of_def upsert_for_event_def add_redactions_def fold_task_state_def insert_event_def
      split: sum.splits option.splits if_splits cancel_reason.splits intro!: ended_map)

lemma cancel_loop_ended:
  assumes "ev_codec_ok c"
  shows "set tids \<subseteq> range (uuid_text c) \<Longrightarrow> cancel_loop c search r f sid ts i tids db = Ok db' \<Longrightarrow>
     ended (set tids) ''Cancelled'' (db_tasks db) (db_tasks db')"
proof (induction tids arbitrary: i db)
  case (Cons t tids)
  then obtain tid where t: "t = uuid_text c tid" by auto
  with assms have "uuid_parse c t = Some tid" by (simp add: ev_codec_ok_def)
  with Cons.prems obtain n db1 where d: "append_event_in_transaction c search r f i
      (record_task_cancelled sid 0 ts tid OriginSystem CancelSessionClosed 1) db = Ok (n, db1)"
    "cancel_loop c search r f sid ts (Suc i) tids db1 = Ok db'"
    by (auto split: sum.splits)
  from append_cancel_ended [OF d(1)] Cons.IH [OF _ d(2)] Cons.prems(1) t show ?case
    by (auto intro: ended_insert simp: cancel_state_def)
qed (simp add: ended_empty)

subsection \<open>Closing a session\<close>

text \<open>A result of a retried operation is the result of one of its attempts.\<close>

lemma busy_loop_Ok:
  assumes "\<And>attempt db. extends c db (snd (op attempt db))"
  shows "busy_loop op attempt db = (Ok v, db') \<Longrightarrow> \<exists>a db0. extends c db db0 \<and> op a db0 = (Ok v, db')"
  using assms
proof (induction op attempt db rule: busy_loop.induct)
  case (1 op attempt db)
  show ?case
  proof (cases "\<exists>e db1. op attempt db = (Err (EvSqlite e), db1) \<and> is_sqlite_busy e \<and> attempt < MAX_BUSY_RETRIES")
    case True
    then obtain e db1 where o: "op attempt db = (Err (EvSqlite e), db1)" "is_sqlite_busy e \<and> attempt < MAX_BUSY_RETRIES" by blast
    have "extends c db db1" using "1.prems"(2) [of db attempt] o(1) by simp
    moreover have "busy_loop op (attempt + 1) db1 = (Ok v, db')"
      using "1.prems"(1) o by (simp add: busy_loop.simps [of op attempt db])
    ultimately show ?thesis
      using "1.IH" [OF o(1) [symmetric] refl refl o(2) _ "1.prems"(2)] by (blast intro: extends_trans)
  next
    case False
    then have "op attempt db = (Ok v, db')"
      using "1.prems"(1) by (auto simp: busy_loop.simps [of op attempt db] split: prod.splits sum.splits ev_store_error.splits if_splits)
    then show ?thesis using extends_refl by blast
  qed
qed

lemma bounded_attempt_Ok: "with_bounded_busy_attempt f operation db = (Ok v, db') \<Longrightarrow> operation db = (Ok v, db')"
  by (auto simp: with_bounded_busy_attempt_def split: option.splits prod.splits)

lemma in_transaction_Ok: "in_transaction f body db = (Ok v, db') \<Longrightarrow> body db = Ok (v, db')"
  by (auto simp: in_transaction_def split: option.splits sum.splits)

lemma close_session_Ok:
  assumes "close_session c search fs r sid ts outcome db = (Ok rc, db')"
  shows "\<exists>a db0. extends c db db0 \<and> close_session_body c search r (fs a) sid ts outcome db0 = Ok (rc, db')"
proof -
  let ?op = "\<lambda>attempt. with_bounded_busy_attempt (fs attempt)
       (close_session_attempt c search r sid ts outcome (fs attempt))"
  have "extends c db (snd (?op a db))" for a db
    by (intro bounded_attempt_extends close_session_attempt_extends)
  with assms obtain a db0 where "extends c db db0" "?op a db0 = (Ok rc, db')"
    using busy_loop_Ok [of c ?op 1 db rc db'] by (auto simp: close_session_def)
  moreover from bounded_attempt_Ok [OF this(2)]
  have "close_session_body c search r (fs a) sid ts outcome db0 = Ok (rc, db')"
    by (auto simp: close_session_attempt_def split: option.splits sum.splits close_receipt.splits
        elim: close_session_body_Ok)
  ultimately show ?thesis by blast
qed

text \<open>What a committed terminator leaves.\<close>

lemma append_terminator:
  assumes "ev_codec_ok c" "store_ok c db"
    and "append_event_in_transaction c search r f i (record_session_closed sid q ts outcome v) db = Ok (n, db')"
  shows "\<not> open_log c db' (uuid_text c sid) \<and> db_tasks db' = db_tasks db"
proof -
  obtain out where p: "fst (redact_event_payload search r (SessionClosed outcome)) = SessionClosed out"
    by (cases outcome) (auto simp: fst_map_prod)
  from append_event_ok [OF assms] obtain t where "payload_parse c t = Some (SessionClosed out)"
    "db_events db' = db_events db @ [event_row_of c (record_session_closed sid q ts outcome v)
       (int (length (session_log db (uuid_text c sid)))) t]"
    using assms(1) p by (auto simp: record_session_closed_def new_sealed_def ev_codec_ok_def)
  then have "\<not> open_log c db' (uuid_text c sid)"
    by (simp add: open_log_def session_log_snoc is_terminator_def event_row_of_def record_session_closed_def new_sealed_def)
  moreover have "db_tasks db' = db_tasks db"
    using assms(3) by (auto simp: append_event_in_transaction_def record_session_closed_def new_sealed_def Let_def
        write_row_def event_row_of_def insert_event_def split: sum.splits option.splits if_splits prod.splits)
  ultimately show ?thesis by blast
qed

lemma close_session_sweeps:
  assumes "ev_codec_ok c" "store_ok c db"
    and "close_session_body c search r f sid ts outcome db = Ok (ReceiptClosed k, db')"
  shows "\<not> open_log c db' (uuid_text c sid)"
    "\<And>t. t \<in> set (db_tasks db') \<Longrightarrow> tk_session t = uuid_text c sid \<Longrightarrow> tk_state t \<notin> set open_states"
proof -
  from assms(3) obtain n db1 i tids where d:
    "tids = map tk_task_id (filter (\<lambda>t. tk_session t = uuid_text c sid \<and> tk_state t \<in> set open_states) (db_tasks db))"
    "cancel_loop c search r f sid ts 1 tids db = Ok db1"
    "append_event_in_transaction c search r f i (record_session_closed sid 0 ts outcome 1) db1 = Ok (n, db')"
    by (cases rule: close_session_body_Ok) auto
  have "store_ok c db1" using cancel_loop_extends [OF d(2)] assms(1,2) by (simp add: extends_def)
  note fin = append_terminator [OF assms(1) this d(3)]
  then show "\<not> open_log c db' (uuid_text c sid)" by blast
  have "set tids \<subseteq> range (uuid_text c)" using assms(2) d(1) ids_ok_task [of c db] by (auto simp: store_ok_def)
  from cancel_loop_ended [OF assms(1) this d(2)] fin
  have e: "ended (set tids) ''Cancelled'' (db_tasks db) (db_tasks db')" by simp
  fix t assume t: "t \<in> set (db_tasks db')" "tk_session t = uuid_text c sid"
  with e obtain t0 where t0: "t0 \<in> set (db_tasks db)" "tk_task_id t = tk_task_id t0" "tk_session t = tk_session t0"
    "if tk_task_id t0 \<in> set tids then tk_state t = ''Cancelled'' else t = t0"
    by (fastforce simp: ended_def list_all2_conv_all_nth in_set_conv_nth)
  show "tk_state t \<notin> set open_states"
  proof (cases "tk_task_id t0 \<in> set tids")
    case True
    with t0(4) show ?thesis by (simp add: open_states_def)
  next
    case False
    with t0 t(2) d(1) show ?thesis by force
  qed
qed

text \<open>
  \<^bold>\<open>C19.\<close> Closing a session: when \<open>close_session\<close> reports that it has closed the session, whatever
  failures and retries it met, the log of the session ends with its terminator, every task that the
  session created is finished, and any further append to the session is rejected without an effect.
\<close>

theorem close_session_is_final:
  assumes "ev_codec_ok c" "store_ok c db"
    and "close_session c search fs r sid ts outcome db = (Ok (ReceiptClosed k), db')"
    and "ev_session_id ev = sid"
    and "payload_text c (fst (redact_event_payload search r' (ev_payload ev))) \<noteq> None"
  shows "is_terminator c (last (session_log db' (uuid_text c sid))) \<and>
    (\<forall>t\<in>set (db_tasks db'). tk_session t = uuid_text c sid \<longrightarrow> tk_state t \<notin> {''Created'', ''Decided'', ''Running'', ''Suspended''}) \<and>
    append_one c search (\<lambda>_ _. None) r' ev db' = (Err (EvSessionClosed (uuid_text c sid)), db')"
proof -
  from close_session_Ok [OF assms(3)] obtain a db0 where a: "extends c db db0"
    "close_session_body c search r (fs a) sid ts outcome db0 = Ok (ReceiptClosed k, db')" by blast
  have ok0: "store_ok c db0" using a(1) assms(1,2) by (simp add: extends_def)
  note sw = close_session_sweeps [OF assms(1) ok0 a(2)]
  have ok: "store_ok c db'"
    using close_session_extends [of c db search fs r sid ts outcome] assms(1-3) by (simp add: extends_def)
  have "is_terminator c (last (session_log db' (uuid_text c sid)))"
    using sw(1) open_log_iff [of c db' "uuid_text c sid"] ok by (simp add: store_ok_def)
  moreover have "append_one_body c ev p t n (\<lambda>_. None) db' = Err (EvSessionClosed (uuid_text c sid))" for p t n
    using sw(1) ok assms(4) by (simp add: append_one_body_def next_seq_eq store_ok_def)
  then have "append_one c search (\<lambda>_ _. None) r' ev db' = (Err (EvSessionClosed (uuid_text c sid)), db')"
    using assms(5) by (auto simp: append_one_def busy_loop.simps with_bounded_busy_attempt_def in_transaction_def
        split: prod.splits)
  ultimately show ?thesis using sw(2) unfolding open_states_def list.set by blast
qed

theorem close_session_is_final_witness:
  "let db' = snd (close_session demo_codec scan ev_no_faults (build []) 1 20 OutcomeCompleted demo_db) in
    is_terminator demo_codec (last (session_log db' (uuid_text demo_codec 1))) \<and>
    (\<forall>t\<in>set (db_tasks db'). tk_session t = uuid_text demo_codec 1 \<longrightarrow> tk_state t \<notin> {''Created'', ''Decided'', ''Running'', ''Suspended''}) \<and>
    append_one demo_codec scan (\<lambda>_ _. None) (build []) (demo_event None (SessionClosed OutcomeCompleted)) db' =
      (Err (EvSessionClosed (uuid_text demo_codec 1)), db')"
proof -
  have "fst (close_session demo_codec scan ev_no_faults (build []) 1 20 OutcomeCompleted demo_db) = Ok (ReceiptClosed 2)"
    by code_simp
  then show ?thesis
    unfolding Let_def
    by (intro close_session_is_final [OF demo_codec_ok demo_db_ok, of scan ev_no_faults "build []" 1 20 OutcomeCompleted 2])
       (simp_all add: prod_eq_iff demo_event_def new_sealed_def demo_codec_def demo_payloads_def)
qed

subsection \<open>Failures\<close>

text \<open>
  If restoring the busy timeout does not fail, an operation either commits in one attempt or leaves
  the store as it was.
\<close>

lemma busy_loop_atomic:
  assumes "\<forall>a db e db'. op a db = (Err e, db') \<longrightarrow> db' = db"
  shows "busy_loop op attempt db = (res, db') \<Longrightarrow> case res of Err _ \<Rightarrow> db' = db | Ok v \<Rightarrow> \<exists>a. op a db = (Ok v, db')"
  using assms
proof (induction op attempt db rule: busy_loop.induct)
  case (1 op attempt db)
  show ?case
  proof (cases "\<exists>e. op attempt db = (Err (EvSqlite e), db) \<and> is_sqlite_busy e \<and> attempt < MAX_BUSY_RETRIES")
    case True
    then obtain e where o: "op attempt db = (Err (EvSqlite e), db)" "is_sqlite_busy e \<and> attempt < MAX_BUSY_RETRIES" by blast
    moreover have "busy_loop op (attempt + 1) db = (res, db')"
      using "1.prems"(1) o by (simp add: busy_loop.simps [of op attempt db])
    ultimately show ?thesis using "1.IH" [OF o(1) [symmetric] refl refl o(2)] "1.prems"(2) by simp
  next
    case False
    have "op attempt db = (res, db')"
      using "1.prems" False by (auto simp: busy_loop.simps [of op attempt db] split: prod.splits sum.splits ev_store_error.splits if_splits)
    with "1.prems"(2) show ?thesis by (auto split: sum.split)
  qed
qed

lemma retried_atomic:
  assumes "\<forall>a. fs a StRestore = None"
    and "busy_loop (\<lambda>a. with_bounded_busy_attempt (fs a) (in_transaction (fs a) (body (fs a)))) attempt db = (res, db')"
  shows "case res of Err _ \<Rightarrow> db' = db | Ok v \<Rightarrow> \<exists>a. body (fs a) db = Ok (v, db')"
proof -
  let ?op = "\<lambda>a. with_bounded_busy_attempt (fs a) (in_transaction (fs a) (body (fs a)))"
  have "\<forall>a db e db'. ?op a db = (Err e, db') \<longrightarrow> db' = db"
    using assms(1) by (auto simp: with_bounded_busy_attempt_def in_transaction_def split: option.splits sum.splits prod.splits)
  from busy_loop_atomic [OF this assms(2)] show ?thesis
    by (auto split: sum.splits dest!: bounded_attempt_Ok in_transaction_Ok)
qed

subsection \<open>Reading the log\<close>

lemma collect_results_append:
  "collect_results g (xs @ ys) =
     (case collect_results g xs of
        Err e \<Rightarrow> Err e
      | Ok us \<Rightarrow> (case collect_results g ys of Err e \<Rightarrow> Err e | Ok vs \<Rightarrow> Ok (us @ vs)))"
  by (induction xs) (auto split: sum.splits)

lemma session_log_sorted: "log_ok c db \<Longrightarrow> sort_key er_seq (session_log db s) = session_log db s"
proof (rule sort_key_id_if_sorted)
  assume "log_ok c db"
  then have "map er_seq (session_log db s) = map int [0..<length (session_log db s)]" by (simp add: log_ok_def)
  also have "sorted \<dots>" by (auto simp: sorted_iff_nth_mono)
  finally show "sorted (map er_seq (session_log db s))" .
qed

lemma session_events_eq:
  assumes "log_ok c db" "f StSelectTasks = None"
  shows "session_events c f db sid = collect_results (stored_event_of c sid) (session_log db (uuid_text c sid))"
  using session_log_sorted [OF assms(1)] assms(2)
  by (simp add: session_events_def attempt_stmt_def session_log_def)



subsection \<open>Recovery\<close>

lemma append_each_cancel_ended:
  assumes "\<And>ev. ev \<in> set evs \<Longrightarrow>
    \<exists>sid tid. ev = record_task_cancelled sid 0 ts tid OriginSystem CancelDaemonRestart 1"
  shows "append_each c search r f i seqs evs db = Ok (ns, db') \<Longrightarrow>
     ended (\<Union>ev\<in>set evs. uuid_text c ` set_option (ev_task_id ev)) ''Interrupted'' (db_tasks db) (db_tasks db')"
  using assms
proof (induction evs arbitrary: i seqs db)
  case (Cons ev evs)
  from Cons.prems(2) [of ev] obtain sid tid where
    ev: "ev = record_task_cancelled sid 0 ts tid OriginSystem CancelDaemonRestart 1" by auto
  from Cons.prems(1) obtain n db1 where d: "append_event_in_transaction c search r f i ev db = Ok (n, db1)"
    "append_each c search r f (Suc i) (seqs @ [n]) evs db1 = Ok (ns, db')"
    by (auto split: sum.splits)
  have "ended {uuid_text c tid} ''Interrupted'' (db_tasks db) (db_tasks db1)"
    using append_cancel_ended [OF d(1) [unfolded ev]] by (simp add: cancel_state_def)
  moreover have "ended (\<Union>ev\<in>set evs. uuid_text c ` set_option (ev_task_id ev)) ''Interrupted'' (db_tasks db1) (db_tasks db')"
    using Cons.IH [OF d(2)] Cons.prems(2) by simp
  ultimately show ?case
    using ended_insert by (simp add: ev record_task_cancelled_def new_sealed_def)
qed (simp add: ended_empty)

lemma recovery_events_Ok:
  assumes "ev_codec_ok c"
  shows "\<forall>t\<in>set rows. tk_task_id t \<in> range (uuid_text c) \<and> tk_session t \<in> range (uuid_text c) \<Longrightarrow>
     \<exists>evs. recovery_events c ts rows = Ok evs \<and> map (uuid_text c \<circ> fst) evs = map tk_task_id rows \<and>
       (\<forall>(tid, ev)\<in>set evs. \<exists>sid. ev = record_task_cancelled sid 0 ts tid OriginSystem CancelDaemonRestart 1)"
proof (induction rows)
  case (Cons t rows)
  then obtain tid sid where t: "tk_task_id t = uuid_text c tid" "tk_session t = uuid_text c sid" by auto
  with assms have "uuid_parse c (tk_task_id t) = Some tid" "uuid_parse c (tk_session t) = Some sid"
    by (simp_all add: ev_codec_ok_def)
  with Cons t(1) show ?case by auto
qed simp



subsection \<open>Suspended tasks\<close>

lemma collect_results_Ok:
  "(\<And>x. x \<in> set xs \<Longrightarrow> g x = Ok (h x)) \<Longrightarrow> collect_results g xs = Ok (map h xs)"
  by (induction xs) auto

lemma distinct_map_comp: "distinct (map (g \<circ> h) xs) \<Longrightarrow> distinct (map h xs)"
  by (auto simp: distinct_map intro: inj_on_imageI2)

lemma row_of_task:
  assumes "view_ok c db" "row \<in> set (db_tasks db)"
  shows "\<exists>st. fold_task_state (task_log c db (tk_task_id row)) = Some st \<and> row_shows c st row"
proof -
  have "state_shown c (db_tasks db) (tk_task_id row) (fold_task_state (task_log c db (tk_task_id row)))"
    and d: "distinct (map tk_task_id (db_tasks db))"
    using assms(1) by (simp_all add: view_ok_def)
  with assms(2) obtain st row' where "fold_task_state (task_log c db (tk_task_id row)) = Some st"
    "row' \<in> set (db_tasks db)" "tk_task_id row' = tk_task_id row" "row_shows c st row'"
    by (auto simp: state_shown_def split: option.splits)
  with d assms(2) show ?thesis by (metis distinct_map inj_onD)
qed

text \<open>
  The list of suspended tasks never runs into one of the inconsistencies that the code reports,
  and consists of exactly the tasks whose events fold to a suspension, each with its reason.
\<close>

theorem suspended_tasks_exact:
  assumes "ev_codec_ok c" "store_ok c db" "f StSelectTasks = None"
  shows "\<exists>xs. suspended_tasks c f db = Ok xs \<and> distinct (map su_task_id xs) \<and>
     (\<lambda>x. (uuid_text c (su_task_id x), su_reason x)) ` set xs =
       {(t, reason). fold_task_state (task_log c db t) = Some (TSuspended reason)}"
proof -
  let ?rows = "filter (\<lambda>t. tk_state t = ''Suspended'') (db_tasks db)"
  let ?h = "\<lambda>t. \<lparr>su_task_id = the (uuid_parse c (tk_task_id t)), su_session_id = the (uuid_parse c (tk_session t)),
    su_reason = the (reason_parse c (the (tk_reason t)))\<rparr>"
  have row: "suspended_task_of c t = Ok (?h t) \<and> uuid_text c (su_task_id (?h t)) = tk_task_id t \<and>
      fold_task_state (task_log c db (tk_task_id t)) = Some (TSuspended (su_reason (?h t)))"
    if "t \<in> set ?rows" for t
  proof -
    from that have t: "t \<in> set (db_tasks db)" "tk_state t = ''Suspended''" by auto
    obtain st where st: "fold_task_state (task_log c db (tk_task_id t)) = Some st" "row_shows c st t"
      using row_of_task [of c db t] assms(2) t(1) by (auto simp: store_ok_def)
    with t(2) obtain reason j where "st = TSuspended reason" "tk_reason t = Some j" "reason_text c reason = Some j"
      by (cases st) (auto simp: row_shows_def, metis)
    moreover obtain tid sid where "tk_task_id t = uuid_text c tid" "tk_session t = uuid_text c sid"
      using ids_ok_task [of c db t] assms(2) t(1) by (auto simp: store_ok_def)
    ultimately show ?thesis using assms(1) st(1) by (simp add: suspended_task_of_def ev_codec_ok_def)
  qed
  have "suspended_tasks c f db = Ok (map ?h ?rows)"
    using assms(3) collect_results_Ok [of ?rows "suspended_task_of c" ?h] row
    by (simp add: suspended_tasks_def attempt_stmt_def)
  moreover have "distinct (map (uuid_text c \<circ> su_task_id) (map ?h ?rows))"
  proof -
    have e: "map (uuid_text c \<circ> su_task_id) (map ?h ?rows) = map tk_task_id ?rows" using row by simp
    have "distinct (map tk_task_id ?rows)" using assms(2) unfolding store_ok_def view_ok_def by (blast intro: distinct_map_filter)
    then show ?thesis unfolding e .
  qed
  then have "distinct (map su_task_id (map ?h ?rows))" by (rule distinct_map_comp)
  moreover have "\<exists>x\<in>set (map ?h ?rows). (t, reason) = (uuid_text c (su_task_id x), su_reason x)"
    if st: "fold_task_state (task_log c db t) = Some (TSuspended reason)" for t reason
  proof -
    have "state_shown c (db_tasks db) t (Some (TSuspended reason))"
      using assms(2) st by (metis store_ok_def view_ok_def)
    then obtain r where r: "r \<in> set ?rows" "tk_task_id r = t" by (auto simp: state_shown_def row_shows_def)
    with row [OF r(1)] st show ?thesis by auto
  qed
  ultimately show ?thesis using row by (intro exI [of _ "map ?h ?rows"]) fastforce
qed

theorem suspended_tasks_exact_witness:
  "\<exists>xs. suspended_tasks demo_codec (\<lambda>_. None) demo_db = Ok xs \<and> distinct (map su_task_id xs) \<and>
     (\<lambda>x. (uuid_text demo_codec (su_task_id x), su_reason x)) ` set xs =
       {(t, reason). fold_task_state (task_log demo_codec demo_db t) = Some (TSuspended reason)}"
  by (rule suspended_tasks_exact) (simp_all add: demo_codec_ok demo_db_ok)

subsection \<open>Rebuilding the table of tasks\<close>

lemma backfill_row_eq:
  assumes "view_ok c db" "sorted (map er_seq (filter (\<lambda>r. er_task r = Some t) (db_events db)))"
  shows "backfill_row c db t = backfill_task c t (er_session (hd (filter (\<lambda>r. er_task r = Some t) (db_events db)))) (history c db t)"
proof -
  let ?rows = "filter (\<lambda>r. er_task r = Some t) (db_events db)"
  have "collect_results (history_entry c) ?rows = Ok (history c db t)"
    unfolding history_def using assms(1)
    by (intro collect_results_Ok) (auto simp: history_entry_def view_ok_def split: option.splits)
  moreover have "sort_key er_seq ?rows = ?rows" using assms(2) by (rule sort_key_id_if_sorted)
  ultimately show ?thesis by (simp add: backfill_row_def)
qed

text \<open>When the events of a task are in one session, their order in the log is that of their numbers.\<close>

definition one_session :: "event_db \<Rightarrow> bool" where
  "one_session db \<longleftrightarrow>
     (\<forall>r\<in>set (db_events db). \<forall>r'\<in>set (db_events db).
        er_task r \<noteq> None \<longrightarrow> er_task r = er_task r' \<longrightarrow> er_session r = er_session r')"

lemma task_rows_one_session:
  assumes "log_ok c db" "one_session db" "r \<in> set (db_events db)" "er_task r = Some t"
  shows "er_session (hd (filter (\<lambda>r. er_task r = Some t) (db_events db))) = er_session r"
    "sorted (map er_seq (filter (\<lambda>r. er_task r = Some t) (db_events db)))"
proof -
  let ?rows = "filter (\<lambda>r. er_task r = Some t) (db_events db)"
  have s: "er_session r' = er_session r" if "r' \<in> set ?rows" for r'
  proof -
    from that have "r' \<in> set (db_events db)" "er_task r' = Some t" by auto
    with assms(2-4) show ?thesis unfolding one_session_def by (metis option.distinct(1))
  qed
  have "?rows \<noteq> []" using assms(3,4) by (auto simp: filter_empty_conv)
  then show "er_session (hd ?rows) = er_session r" using s hd_in_set by blast
  have "filter (\<lambda>r. er_task r = Some t) (session_log db (er_session r)) = ?rows"
    using s by (auto simp: session_log_def intro: filter_cong)
  moreover have "sorted (map er_seq (filter P (session_log db (er_session r))))" for P
  proof (rule sorted_filter)
    have "map er_seq (session_log db (er_session r)) = map int [0..<length (session_log db (er_session r))]"
      using assms(1) by (simp add: log_ok_def)
    also have "sorted \<dots>" by (auto simp: sorted_iff_nth_mono)
    finally show "sorted (map er_seq (session_log db (er_session r)))" .
  qed
  ultimately show "sorted (map er_seq ?rows)" by metis
qed

lemma backfill_row_exact:
  assumes "store_ok c db" "one_session db" "r \<in> set (db_events db)" "er_task r = Some t"
  shows "\<exists>x. backfill_row c db t = Ok x \<and>
     (\<forall>row\<in>set (db_tasks db). tk_task_id row = t \<longrightarrow> x = Some (row\<lparr>tk_redactions := 0\<rparr>)) \<and>
     (x \<noteq> None \<longrightarrow> t \<in> tk_task_id ` set (db_tasks db))"
proof -
  have ok: "log_ok c db" "view_ok c db" "ids_ok c db" "rebuildable c db" using assms(1) by (auto simp: store_ok_def)
  note one = task_rows_one_session [OF ok(1) assms(2-4)]
  have bf: "backfill_row c db t = backfill_task c t (er_session r) (history c db t)"
    using backfill_row_eq [OF ok(2) one(2)] one(1) by simp
  have shown: "state_shown c (db_tasks db) t (fold_task_state (task_log c db t))" using ok(2) by (simp add: view_ok_def)
  have row: "backfill_row c db t = Ok (Some (row\<lparr>tk_redactions := 0\<rparr>))"
    if "row \<in> set (db_tasks db)" "tk_task_id row = t" for row
  proof -
    from that ok(3) obtain r' where "r' \<in> set (db_events db)" "er_task r' = Some t" "er_session r' = tk_session row"
      by (auto simp: ids_ok_def)
    with assms(2-4) have "er_session r = tk_session row" unfolding one_session_def by (metis option.distinct(1))
    with that ok(4) show ?thesis by (auto simp: bf rebuildable_def)
  qed
  show ?thesis
  proof (cases "fold_task_state (task_log c db t)")
    case None
    then have "backfill_fold c (history c db t) = backfill_fold c []"
      by (intro backfill_fold_None) (simp add: history_payloads)
    then have "backfill_row c db t = Ok None" by (simp add: bf backfill_task_eq backfill_fold_def)
    with row show ?thesis by auto
  next
    case (Some st)
    with shown obtain row' where "row' \<in> set (db_tasks db)" "tk_task_id row' = t" by (auto simp: state_shown_def)
    then have "backfill_row c db t = Ok (Some (row'\<lparr>tk_redactions := 0\<rparr>))" "t \<in> tk_task_id ` set (db_tasks db)"
      using row by auto
    moreover from this(1) have "Some (row'\<lparr>tk_redactions := 0\<rparr>) = Some (row\<lparr>tk_redactions := 0\<rparr>)"
      if "row \<in> set (db_tasks db)" "tk_task_id row = t" for row using row [OF that] by simp
    ultimately show ?thesis by blast
  qed
qed



end
