(* ===== verification/Spec2Isabelle.thy ===== *)
theory Spec2Isabelle
  imports
    Core_Task
    Bus_Spawn_Tree
    Bus_Local
    Policy_Grants
    Policy_Trust
    Shell_Policy
    Sched_Admission
    Sched_Locks
    Sched_Scheduler
    Flow_Recovery
    Store_Recovery
begin

text \<open>
  Roundhouse is a daemon that runs AI agents: sessions of a model that call tools, talk to each
  other and to people, and are started by hand or by triggers.  This library models the parts of
  it that decide: what an agent may do, what reaches whom on the message bus, what a trigger
  starts and when, what is recorded and with which secrets removed, and what a workflow run may
  spend and does after a crash.  Paths below are relative to \<^verbatim>\<open>src/crates\<close>.

  \<^bold>\<open>Parts and their interaction.\<close>  Every action of an agent is a task.  The policy engine decides it
  (\<^verbatim>\<open>roundhouse-policy\<close>), a person may approve it and leave a remembered grant, and its life is a
  sequence of events that \<^verbatim>\<open>roundhouse-core\<close> and \<^verbatim>\<open>roundhouse-store\<close> fold into a state.  One writer task
  appends the events, redacted, to the log of their session and keeps the table of tasks.  Sessions send
  envelopes over the local bus (\<^verbatim>\<open>roundhouse-bus\<close>), which limits depth, fan-out, rate, repetition and
  hop count, refuses waits that would deadlock, and knows teams and handles; team membership also
  feeds the policy engine.  The scheduler (\<^verbatim>\<open>roundhouse-sched\<close>) turns bindings into occurrences; an
  occurrence passes overlap admission under a per-binding lock and becomes a delivery in the store,
  which a worker leases and runs, and a delivery runs a workflow (\<^verbatim>\<open>roundhouse-flow\<close>), whose runs,
  steps and child calls are rows of the same database.

  \<^bold>\<open>Theories.\<close>
  \<^item> \<open>Prelude\<close>: results, machine integers, identifiers, list helpers; collections \<open>rh_simps\<close>,
    \<open>word_facts\<close>.  \<open>Unix_Path\<close>: \<^verbatim>\<open>std::path\<close> on Unix (components, joining, prefixes).
    \<open>Rust_Str\<close>: the methods of \<^verbatim>\<open>str\<close> and \<^verbatim>\<open>u8\<close> the crates call.
  \<^item> \<open>Core_Task\<close>: \<^verbatim>\<open>core/src/{event,task,task_meta,session,task_runner,...}.rs\<close>, \<^verbatim>\<open>store/src/fold.rs\<close>.
  \<^item> \<open>Bus_Types\<close>, \<open>Bus_Spawn_Tree\<close>, \<open>Bus_Wait_Graph\<close>, \<open>Bus_Rate_Limit\<close>, \<open>Bus_Teams\<close>, \<open>Bus_Local\<close>: the files
    of \<^verbatim>\<open>bus/src\<close> of those names; \<open>Bus_Teams\<close> also has the handle registry, \<open>Bus_Local\<close> the mailboxes,
    the event sink, human notifications, the local bus and restart.  Callers that interleave are
    step relations (\<open>spawn_step\<close>, \<open>team_step\<close>); the bus is a sequence of operations (\<open>bus_run\<close>).
  \<^item> \<open>Policy_Engine\<close>: \<^verbatim>\<open>policy/src/{task_params,engine,sealed,config}.rs\<close> and the interpreter list;
    \<open>Policy_Grants\<close>: \<^verbatim>\<open>approval.rs\<close>, \<^verbatim>\<open>registry.rs\<close>; \<open>Policy_Trust\<close>: \<^verbatim>\<open>trust.rs\<close>.
  \<^item> \<open>Shell_Ast\<close>: the syntax trees of the shell parser as far as the crate matches on them;
    \<open>Shell_Classify\<close>, \<open>Shell_Pipeline\<close>: \<^verbatim>\<open>policy/src/shell/{classify,opaque,pipeline}.rs\<close>; \<open>Shell_Policy\<close>:
    the dispatch of a shell command in \<^verbatim>\<open>engine/src/agent_loop.rs\<close>, over the policy engine.
  \<^item> \<open>Sched_Admission\<close>: \<^verbatim>\<open>sched/src/{trigger,admission}.rs\<close> and the daemon's in-memory run registry;
    \<open>Sched_Locks\<close>: the per-binding locks of \<^verbatim>\<open>admission.rs\<close> as a step relation; \<open>Sched_Store\<close>:
    \<^verbatim>\<open>store.rs\<close>, \<^verbatim>\<open>delivery.rs\<close> and the tables of migration 13; \<open>Sched_Cron\<close>, \<open>Sched_Scheduler\<close>:
    \<^verbatim>\<open>cron.rs\<close>, \<^verbatim>\<open>scheduler.rs\<close>.
  \<^item> \<open>Store_Redact\<close>: \<^verbatim>\<open>store/src/redact.rs\<close> and the redaction methods of \<^verbatim>\<open>writer.rs\<close>; the locale
    \<open>find_iter\<close> states what the search of the automaton promises and is interpreted on a scan.
    \<open>Store_Writer\<close>: \<^verbatim>\<open>store/src/{writer,txn,tasks_view,recovery,session_events,suspended}.rs\<close> over the tables
    of migrations 1 to 4, its commands as one machine (\<open>writer_run\<close>); the locale \<open>writer_op\<close> carries the
    retry loop and is interpreted for each kind of append.  \<open>Store_Recovery\<close>: closing, reading back,
    batches, recovery and backfill.
  \<^item> \<open>Flow_Expr\<close>: \<^verbatim>\<open>flow/src/expr.rs\<close>, the expression language of workflow files with its secret marks;
    \<open>Flow_Limits\<close>: \<^verbatim>\<open>flow/src/{retry,caps,compose,approval_policy,hitl}.rs\<close> and the types of
    \<^verbatim>\<open>parse/types.rs\<close> they use.
  \<^item> \<open>Flow_Ledger\<close>: \<^verbatim>\<open>flow/src/ledger.rs\<close> on the tables of migrations 7, 8 and 14, and the abstract tree
    ledger with the locale \<open>tree_implementation\<close>; \<open>Flow_Runs\<close>: \<^verbatim>\<open>durability.rs\<close>, the run and step state
    machine, checkpoints, recovery, child calls; \<open>Flow_Control\<close>: \<^verbatim>\<open>control.rs\<close>, \<^verbatim>\<open>parking.rs\<close>, and the
    operations of all four files as one machine (\<open>flow_step\<close>), which interprets that locale; an
    invariant that each single write keeps is kept by every operation (locales \<open>table_invariant\<close>,
    \<open>trace_invariant\<close>).  \<open>Flow_Durable\<close>, \<open>Flow_Recovery\<close>: what this machine promises.

  \<^bold>\<open>How code is read.\<close>  A struct is a record, an enum a datatype, a method a function that returns the
  updated state next to its result; \<^verbatim>\<open>Result\<close> is a sum with the error on the left; a hash map is a
  map or, where its order shows, an association list; a mutex-protected section is one step.
  Integers keep their width where they are added or compared with a bound.  Rejections, panics and
  poisoned locks are values.

  \<^bold>\<open>Parameters.\<close>  Code outside the repository is an argument: the glob matcher (\<open>glob\<close>), the hash of
  task parameters, floating-point rounding (\<open>rnd\<close>, of which only monotonicity and exactness on small
  integers are assumed), UUID and RFC 3339 texts (\<open>sql_codec\<close>, injective), failures of the database
  (\<open>faults\<close>, arbitrary), the texts of identifiers, limits, outputs and blob references in the tables
  of runs (\<open>flow_codec\<close>: what is printed can be parsed, identifiers and counted limits unchanged), the
  checkpointer of a park (it writes to the table of blobs only), the cron library and time zones
  (\<open>cron_env\<close>, arbitrary), the debug printer of signatures (\<open>dbg\<close>, injective), the shell parser
  (programs and words, arbitrary), the multi-pattern search (\<open>find_iter\<close>: leftmost-longest matches that
  do not overlap), the texts of the event log (\<open>ev_codec\<close>: what is printed can be read back) and the
  failures of its statements (\<open>ev_faults\<close>, arbitrary), which blob files exist, the file system behind
  canonical paths, and every clock reading.  Each hypothesis on one of them has a witness with a
  concrete instance.

  \<^bold>\<open>What is shown.\<close>
  \<^item> Policy: an allowed task is allowed by a rule that matches it, by team membership, or by nothing
    sealed; sealed rules win over everything; precedence of rules is the documented order; deny
    rules only restrict; a grant never covers more than was approved and never allows a tainted
    irreversible action; an untrusted project file allows nothing.
  \<^item> Shell: what the tool runs is what was judged, every command of an allowed line was judged on its
    own resolved words, and the walk over the syntax tree is equivalent to a declarative reading of
    which commands a line can run and what makes it opaque.
  \<^item> Bus: no message is delivered twice, queues keep their order and capacity, fan-out, team size and
    rates are bounded, a wait is refused exactly if it closes a cycle, the search and the collection
    of descendants end.
  \<^item> Scheduling: nothing fires early, catch-up is capped, every tick returns, an interval's backlog
    is exact; overlap policies hold in every history; one delivery per occurrence, whatever fails;
    leases exclude each other; finished deliveries stay finished; the cursor never goes back.
  \<^item> Event log: whatever fails, every log is numbered without a gap, grows only at its end and stops
    at its terminator, and the table of tasks shows the folded states and can be rebuilt from the log;
    closing a session finishes its tasks; recovery interrupts exactly the tasks that were under way; a
    batch is a sequence of appends; what is appended is read back, redacted; redaction removes every
    reported secret and nothing else, and changes no folded state.
  \<^item> Workflows: what an expression marks as clean does not depend on any secret, the logged rendering
    of a template never does, errors quote only the workflow file, the evaluator answers on every
    text; retries are bounded in number, delay and total time; an unanswered question is never a
    permission.
  \<^item> Durable runs: the spends of a run and all runs below it fit its grant, since every operation is a
    step of the abstract tree ledger; finished runs stay finished; columns agree with states; every
    stored row decodes; a checkpoint is found again by recovery; waiting for a human is not charged
    as active time; a retry resumes after exactly the completed steps before its cut; a parent call
    is resumed by one owner, once; holds are capped and the reaper is exact.
  \<^item> Folds of the event log in two crates agree; team memory follows the bus's membership.

  \<^bold>\<open>Loops.\<close>  Loops over finite data are structural recursion or have a measure (the search of the
  wait graph: nodes not yet visited; the drain loop: bindings not yet handled, then heap size).
  The gathering loop of the scheduler has no measure of its own and is a partial function, whose
  result is shown to exist; adding an id twice can make it diverge, which is shown as well.
  The expression parser recurses with the depth that is left (at most 64, the code's own limit) and
  its loops with the length of the remaining text; both are shown to be enough for an answer.

  \<^bold>\<open>Not modelled.\<close>  Sockets, processes, SQL text, TOML and serde encodings, kernel sandboxing and
  terminal or web front ends are I/O.  The run loop of
  workflows, provider retries, the engine's agent loop, the coalescing of streamed output, message
  triggers and power state are the next parts worth modelling, in that order.
\<close>

section \<open>Properties that span components\<close>

text \<open>
  \<^bold>\<open>C40.\<close> The two folds over the event log agree.  Whenever the store's \<^verbatim>\<open>fold_task\<close>
  yields a task, \<^verbatim>\<open>roundhouse-core\<close>'s \<^verbatim>\<open>fold_task_state\<close> over the same events in
  sequence order yields a state with that discriminant, and the SQL text of that state reads
  back as a state with the same discriminant.
\<close>

theorem folds_agree:
  assumes "fold_task evs = Some t"
  shows "\<exists>s s'. fold_task_state (map ev_payload (sort_key (\<lambda>e. unat (ev_seq e)) evs)) = Some s \<and>
           discriminant s = st_state t \<and>
           from_sql_str (as_sql_str s) = Ok s' \<and> discriminant s' = st_state t"
proof -
  let ?ps = "map ev_payload (sort_key (\<lambda>e. unat (ev_seq e)) evs)"
  have st: "st_state t = foldl store_state_step StCreated ?ps"
    using assms by (auto simp: fold_task_def Let_def split: option.splits)
  obtain s where s: "foldl task_state_step None ?ps = Some s"
    "foldl store_state_step StCreated ?ps = discriminant s"
    using foldl_task_state_lifecycle [OF fold_task_has_lifecycle [OF assms]] by blast
  obtain s' where "from_sql_str (as_sql_str s) = Ok s'" "discriminant s' = discriminant s"
    using sql_str_roundtrip [of s] by blast
  with s st show ?thesis
    by (simp add: fold_task_state_def)
qed

definition example_log :: "event list" where
  "example_log =
     [record_task_suspended 1 3 0 7 AwaitingReply 1,
      record_task_created 1 1 0 7 KShell None OriginModel (InText ''ls'') 1,
      record_task_started 1 2 0 7 \<lparr>ia_tier = Sandbox, ia_digest = [], ia_net_enforced = True\<rparr> None 1]"

lemma example_log_fold:
  "fold_task example_log =
     Some \<lparr>st_id = 7, st_session_id = 1, st_kind = KShell, st_parent = None,
           st_state = StSuspended, st_origin = OriginModel\<rparr>"
  by code_simp

theorem folds_agree_witness:
  "fold_task example_log \<noteq> None \<and>
   (\<exists>s. fold_task_state (map ev_payload (sort_key (\<lambda>e. unat (ev_seq e)) example_log)) = Some s \<and>
        discriminant s = StSuspended)"
  using folds_agree [OF example_log_fold] by (auto simp: example_log_fold)

text \<open>The bus's team registry as the membership that the policy engine asks.\<close>

definition team_membership_of :: "team_registry \<Rightarrow> team_membership" where
  "team_membership_of reg =
     \<lparr>can_read = can_read_team_memory reg, can_write = can_write_team_memory reg\<rparr>"

text \<open>
  Team memory, with the bus's team registry as the engine's membership source: the
  engine allows a request on a team's memory exactly if it is a read by a session that is a
  member of that team and has not ended, and no deny rule matches it.  In particular no
  session ever gets a write, an append or a delete, and an ended member loses its read access.
\<close>

theorem team_memory_access:
  "dc_outcome (decide glob (pe\<lparr>pe_team_membership := Some (team_membership_of reg)\<rparr>)
       (TpMemory (MemTeam team) op session)) = Allow \<longleftrightarrow>
     op = MemRead \<and>
     (\<exists>ms m. roster reg team = Some ms \<and> m \<in> set ms \<and> mb_session m = session \<and> \<not> mb_ended m) \<and>
     \<not> list_ex (is_deny_match glob (TpMemory (MemTeam team) op session)) (pe_rules pe)"
proof -
  let ?p = "TpMemory (MemTeam team) op session"
  have deny: "List.find (is_deny_match glob ?p) (pe_rules pe) = None \<longleftrightarrow>
      \<not> list_ex (is_deny_match glob ?p) (pe_rules pe)"
    by (auto simp: find_None_iff list_ex_iff)
  show ?thesis
    by (cases "List.find (is_deny_match glob ?p) (pe_rules pe)"; cases op)
      (use deny in \<open>auto simp: decide_def decide_team_memory_def team_membership_of_def
         can_read_team_memory_def can_write_team_memory_def Let_def list_ex_iff
         split: option.splits if_splits\<close>)
qed

end
